(* ===== verification/Prelude.thy ===== *)
theory Prelude
  imports Main "HOL-Library.Word" "HOL-Library.Multiset"
begin

text \<open>
  What every component shares: the faults a C++ operation can run into, the control flow of a
  C++ loop body (an early \<^verbatim>\<open>return\<close> or the next iteration), fixed-size buffers with checked
  writes, and C++ characters read as integers.

  A fault is undefined behaviour or a process abort of the source: an access outside an array
  (\<^verbatim>\<open>Out_of_bounds\<close>), a call through a null pointer (\<^verbatim>\<open>Null_pointer\<close>), an uncaught
  \<^verbatim>\<open>std::out_of_range\<close> (\<^verbatim>\<open>Range_exception\<close>), a failed \<^verbatim>\<open>assert\<close> (\<^verbatim>\<open>Assert_failed\<close>),
  a dereferenced end iterator (\<^verbatim>\<open>Bad_iterator\<close>), signed overflow (\<^verbatim>\<open>Int_overflow\<close>), a use
  of an object that was destroyed (\<^verbatim>\<open>Dangling\<close>), and a loop that has not ended when the random numbers given for it are used
  up (\<^verbatim>\<open>Out_of_steps\<close>).
\<close>

named_theorems loop_simps \<open>equations that run a for loop\<close>
named_theorems fault_simps \<open>equations about results that may be a fault\<close>

section \<open>Faults and results\<close>

datatype fault =
    Out_of_bounds
  | Null_pointer
  | Range_exception
  | Assert_failed
  | Bad_iterator
  | Int_overflow
  | Dangling
  | Out_of_steps

type_synonym 'a result = "fault + 'a"

definition ebind :: "'a result \<Rightarrow> ('a \<Rightarrow> 'b result) \<Rightarrow> 'b result" where
  "ebind r f = (case r of Inl e \<Rightarrow> Inl e | Inr x \<Rightarrow> f x)"

lemma ebind_simps [simp, fault_simps]:
  "ebind (Inl e) f = Inl e" "ebind (Inr x) f = f x"
  by (simp_all add: ebind_def)

lemma ebind_eq_Inr [fault_simps]:
  "ebind r f = Inr y \<longleftrightarrow> (\<exists>x. r = Inr x \<and> f x = Inr y)"
  by (cases r) simp_all

lemma ebind_eq_Inl [fault_simps]:
  "ebind r f = Inl e \<longleftrightarrow> r = Inl e \<or> (\<exists>x. r = Inr x \<and> f x = Inl e)"
  by (cases r) simp_all

lemma ebind_cong [fundef_cong]:
  "r = r' \<Longrightarrow> (\<And>x. r' = Inr x \<Longrightarrow> f x = g x) \<Longrightarrow> ebind r f = ebind r' g"
  by (cases r') simp_all

lemma ebind_assoc: "ebind (ebind r f) g = ebind r (\<lambda>x. ebind (f x) g)"
  by (cases r) simp_all

section \<open>Loops\<close>

text \<open>
  One pass of a loop body either returns from the enclosing function or goes on with a new
  value of the local variables. A \<^verbatim>\<open>for (i = a; i < b; i++)\<close> loop is the body run over the
  index list \<^verbatim>\<open>[a..<b]\<close>.
\<close>

datatype ('r, 's) flow = Ret 'r | Next 's

fun for_loop :: "('i \<Rightarrow> 's \<Rightarrow> ('r, 's) flow) \<Rightarrow> 'i list \<Rightarrow> 's \<Rightarrow> ('r, 's) flow" where
  "for_loop body [] s = Next s"
| "for_loop body (i # is) s =
     (case body i s of Ret r \<Rightarrow> Ret r | Next s' \<Rightarrow> for_loop body is s')"

declare for_loop.simps [loop_simps]

definition fbind :: "('r, 's) flow \<Rightarrow> ('s \<Rightarrow> ('r, 't) flow) \<Rightarrow> ('r, 't) flow" where
  "fbind x f = (case x of Ret r \<Rightarrow> Ret r | Next s \<Rightarrow> f s)"

lemma fbind_simps [simp]:
  "fbind (Ret r) f = Ret r" "fbind (Next s) f = f s"
  by (simp_all add: fbind_def)

lemma fbind_assoc: "fbind (fbind x f) g = fbind x (\<lambda>s. fbind (f s) g)"
  by (cases x) simp_all

lemma for_loop_Cons: "for_loop body (i # is) s = fbind (body i s) (for_loop body is)"
  by (simp add: fbind_def)

text \<open>A fallible operation inside a loop body: a fault ends the enclosing function.\<close>

definition attempt :: "'a result \<Rightarrow> ('a \<Rightarrow> ('r result, 's) flow) \<Rightarrow> ('r result, 's) flow" where
  "attempt r f = (case r of Inl e \<Rightarrow> Ret (Inl e) | Inr x \<Rightarrow> f x)"

lemma attempt_simps [simp]:
  "attempt (Inl e) f = Ret (Inl e)" "attempt (Inr x) f = f x"
  by (simp_all add: attempt_def)

lemma for_loop_append:
  "for_loop body (is @ js) s =
     (case for_loop body is s of Ret r \<Rightarrow> Ret r | Next s' \<Rightarrow> for_loop body js s')"
  by (induction "is" arbitrary: s) (auto split: flow.splits)

lemma for_loop_cong:
  assumes "is = js" and "s = t" and "\<And>i u. i \<in> set js \<Longrightarrow> f i u = g i u"
  shows "for_loop f is s = for_loop g js t"
  using assms(3) unfolding assms(1,2)
  by (induction js arbitrary: t) (auto split: flow.splits)

text \<open>An invariant of the body holds after the loop, whichever way it ends.\<close>

lemma for_loop_invariant:
  assumes "I s"
    and "\<And>i s. i \<in> set is \<Longrightarrow> I s \<Longrightarrow> (case body i s of Ret r \<Rightarrow> R r | Next s' \<Rightarrow> I s')"
  shows "case for_loop body is s of Ret r \<Rightarrow> R r | Next s' \<Rightarrow> I s'"
  using assms
proof (induction "is" arbitrary: s)
  case Nil
  then show ?case by simp
next
  case (Cons i "is")
  have step: "case body i s of Ret r \<Rightarrow> R r | Next s' \<Rightarrow> I s'"
    using Cons.prems by simp
  show ?case
  proof (cases "body i s")
    case (Ret r)
    with step show ?thesis by simp
  next
    case (Next s')
    with step have "I s'" by simp
    then have "case for_loop body is s' of Ret r \<Rightarrow> R r | Next s' \<Rightarrow> I s'"
      by (rule Cons.IH) (use Cons.prems(2) in auto)
    with Next show ?thesis by simp
  qed
qed

text \<open>A loop whose body can fail and never leaves the enclosing function otherwise.\<close>

primrec efold :: "('i \<Rightarrow> 's \<Rightarrow> 's result) \<Rightarrow> 'i list \<Rightarrow> 's \<Rightarrow> 's result" where
  "efold f [] s = Inr s"
| "efold f (i # is) s = ebind (f i s) (efold f is)"

lemma efold_invariant:
  assumes "I s" and "\<And>i s t. i \<in> set is \<Longrightarrow> I s \<Longrightarrow> f i s = Inr t \<Longrightarrow> I t"
    and "efold f is s = Inr t"
  shows "I t"
  using assms
proof (induction "is" arbitrary: s)
  case (Cons i "is")
  then obtain u where "f i s = Inr u" "efold f is u = Inr t" by (auto simp: ebind_eq_Inr)
  with Cons show ?case by (metis list.set_intros)
qed simp

section \<open>Fixed-size buffers\<close>

text \<open>A write \<^verbatim>\<open>a[i] = v\<close> to an array that may be too short for it.\<close>

definition put :: "'a list \<Rightarrow> nat \<Rightarrow> 'a \<Rightarrow> 'a list result" where
  "put xs i v = (if i < length xs then Inr (xs[i := v]) else Inl Out_of_bounds)"

lemma put_in_range [simp]: "i < length xs \<Longrightarrow> put xs i v = Inr (xs[i := v])"
  by (simp add: put_def)

lemma put_out_of_range [simp]: "length xs \<le> i \<Longrightarrow> put xs i v = Inl Out_of_bounds"
  by (simp add: put_def)

section \<open>Characters\<close>

text \<open>
  \<^verbatim>\<open>char\<close> is signed on the platforms the server is built for (MSVC and gcc on x86), so a byte
  above 127 promotes to a negative \<^verbatim>\<open>int\<close>.
\<close>

definition cchar :: "char \<Rightarrow> int" where
  "cchar c = (let n = int (of_char c) in if n < 128 then n else n - 256)"

section \<open>Integers\<close>

text \<open>
  \<^verbatim>\<open>int\<close> has 32 bits. The result of an operation that does not fit, or of the conversion of a \<^verbatim>\<open>double\<close> that does
  not, is undefined.
\<close>

definition int32 :: "int \<Rightarrow> int result" where
  "int32 x = (if - (2 ^ 31) \<le> x \<and> x < 2 ^ 31 then Inr x else Inl Int_overflow)"

lemma int32_eq_Inr [simp, fault_simps]: "int32 x = Inr y \<longleftrightarrow> y = x \<and> - 2147483648 \<le> x \<and> x < 2147483648"
  by (auto simp: int32_def)

lemma int32_eq_Inl [simp, fault_simps]: "int32 x = Inl e \<longleftrightarrow> e = Int_overflow \<and> \<not> (- 2147483648 \<le> x \<and> x < 2147483648)"
  by (auto simp: int32_def)

lemma int32_fits: "\<bar>x\<bar> < 2147483648 \<Longrightarrow> int32 x = Inr x"
  by (auto simp: abs_less_iff)

section \<open>Sorting procedures\<close>

text \<open>
  What the callers of a sorting routine rely on: the result is sorted and holds the same
  elements. That fixes the result, so it depends on the multiset of the input only.
\<close>

locale sorting =
  fixes srt :: "'a::linorder list \<Rightarrow> 'a list"
  assumes sorted_srt: "sorted (srt xs)"
    and mset_srt: "mset (srt xs) = mset xs"
begin

lemma srt_eq_sort: "srt xs = sort xs"
  by (rule properties_for_sort [symmetric]) (simp_all add: sorted_srt mset_srt)

lemma length_srt: "length (srt xs) = length xs"
  by (metis mset_srt size_mset)

lemma set_srt: "set (srt xs) = set xs"
  by (metis mset_srt set_mset_mset)

lemma srt_perm: "mset xs = mset ys \<Longrightarrow> srt xs = srt ys"
  unfolding srt_eq_sort by (rule properties_for_sort) simp_all

lemma srt_sorted: "sorted xs \<Longrightarrow> srt xs = xs"
  by (simp add: srt_eq_sort sorted_sort_id)

end

section \<open>Invariants of step relations\<close>

text \<open>What every step keeps holds after any number of steps.\<close>

locale step_invariant =
  fixes step :: "'s \<Rightarrow> 's \<Rightarrow> bool" and good :: "'s \<Rightarrow> bool"
  assumes step_good: "step s t \<Longrightarrow> good s \<Longrightarrow> good t"
begin

lemma steps_good: "step\<^sup>*\<^sup>* s t \<Longrightarrow> good s \<Longrightarrow> good t"
  by (induction rule: rtranclp_induct) (auto intro: step_good)

end

end
