(* ===== verification/PokerInfo.thy ===== *)
theory PokerInfo
  imports Prelude
begin

text \<open>
  The description of a played card group (\<^verbatim>\<open>struct poker_info\<close> of
  \<^verbatim>\<open>src/src/ddz/poker_info.h\<close>): its type, its value (the rank character of the lowest card of
  the main group) and its length. Rank characters are the \<^verbatim>\<open>int\<close> values they promote to:
  \<^verbatim>\<open>'A'\<close> (the 3) is 65, \<^verbatim>\<open>'M'\<close> (the 2) is 77, \<^verbatim>\<open>'N'\<close> and \<^verbatim>\<open>'O'\<close> (the jokers) are
  78 and 79.
\<close>

datatype poker_type =
    ERR
  | ZERO
  | SINGLE
  | DOUBLE
  | THREE
  | THREE_ONE
  | THREE_DOUBLE
  | FOUR_TWO_SINGLE
  | FOUR_TWO_DOUBLE
  | SINGLE_CHAIN
  | DOUBLE_CHAIN
  | THREE_CHAIN
  | TRHEE_CHAIN_SINGLE
  | THREE_CHAIN_DOUBLE
  | BOMB
  | DOUBLE_JOKER

record poker_info =
  pi_type :: poker_type
  pi_value :: int
  pi_length :: int

definition poker_info_set :: "poker_info \<Rightarrow> poker_type \<Rightarrow> int \<Rightarrow> int \<Rightarrow> poker_info" where
  "poker_info_set info t v n = info\<lparr>pi_type := t, pi_value := v, pi_length := n\<rparr>"

definition poker_info_zero :: poker_info where
  "poker_info_zero = \<lparr>pi_type = ZERO, pi_value = cchar (CHR ''0''), pi_length = 0\<rparr>"

lemma poker_info_set_sel [simp]:
  "pi_type (poker_info_set info t v n) = t"
  "pi_value (poker_info_set info t v n) = v"
  "pi_length (poker_info_set info t v n) = n"
  by (simp_all add: poker_info_set_def)

lemma poker_info_set_eq: "poker_info_set info t v n = \<lparr>pi_type = t, pi_value = v, pi_length = n\<rparr>"
  by (simp add: poker_info_set_def)

section \<open>Rank characters\<close>

abbreviation rank_A :: int where "rank_A \<equiv> 65"
abbreviation rank_M :: int where "rank_M \<equiv> 77"
abbreviation rank_N :: int where "rank_N \<equiv> 78"
abbreviation rank_O :: int where "rank_O \<equiv> 79"
abbreviation chr_0 :: int where "chr_0 \<equiv> 48"

lemma rank_chars [simp]:
  "cchar (CHR ''A'') = 65" "cchar (CHR ''M'') = 77" "cchar (CHR ''N'') = 78"
  "cchar (CHR ''O'') = 79" "cchar (CHR ''0'') = 48" "cchar (CHR ''1'') = 49" "cchar (CHR ''4'') = 52"
  by (simp_all add: cchar_def)

section \<open>The type codes of the source\<close>

text \<open>
  The enumerators carry explicit codes, from -1 for \<^verbatim>\<open>ERR\<close> to 14 for \<^verbatim>\<open>DOUBLE_JOKER\<close>; the
  order of the type is the order of the codes.
\<close>

fun type_code :: "poker_type \<Rightarrow> int" where
  "type_code ERR = -1"
| "type_code ZERO = 0"
| "type_code SINGLE = 1"
| "type_code DOUBLE = 2"
| "type_code THREE = 3"
| "type_code THREE_ONE = 4"
| "type_code THREE_DOUBLE = 5"
| "type_code FOUR_TWO_SINGLE = 6"
| "type_code FOUR_TWO_DOUBLE = 7"
| "type_code SINGLE_CHAIN = 8"
| "type_code DOUBLE_CHAIN = 9"
| "type_code THREE_CHAIN = 10"
| "type_code TRHEE_CHAIN_SINGLE = 11"
| "type_code THREE_CHAIN_DOUBLE = 12"
| "type_code BOMB = 13"
| "type_code DOUBLE_JOKER = 14"

lemma type_code_inject: "type_code s = type_code t \<longleftrightarrow> s = t"
  by (cases s; cases t) simp_all

instantiation poker_type :: linorder
begin

definition less_eq_poker_type :: "poker_type \<Rightarrow> poker_type \<Rightarrow> bool" where
  "less_eq_poker_type s t \<longleftrightarrow> type_code s \<le> type_code t"

definition less_poker_type :: "poker_type \<Rightarrow> poker_type \<Rightarrow> bool" where
  "less_poker_type s t \<longleftrightarrow> type_code s < type_code t"

instance
  by standard (auto simp: less_eq_poker_type_def less_poker_type_def type_code_inject)

end

end
