(* ===== verification/CardSet.thy ===== *)
theory CardSet
  imports PokerInfo "HOL-Library.Char_ord" "HOL-Library.List_Lexorder"
begin

text \<open>
  Cards are two-character C strings (rank and suit), hands are \<^verbatim>\<open>std::set<const char*,
  char_key_op>\<close> (\<^verbatim>\<open>src/src/util/char_key_op.h\<close>). The set keeps its elements in the order of
  \<^verbatim>\<open>strcmp\<close>, which is the lexicographic order of the library on strings of unsigned characters;
  a hand is the list of its cards in that order. The pointers of the source all point to the
  fifty-four constant strings of a desk, so a card is identified with its text.
\<close>

type_synonym poker = string

definition char_key_op :: "poker \<Rightarrow> poker \<Rightarrow> bool" where
  "char_key_op c1 c2 \<longleftrightarrow> c1 < c2"

text \<open>The first character of a card; the terminator of an empty string is 0.\<close>

fun rank :: "poker \<Rightarrow> int" where
  "rank [] = 0"
| "rank (c # _) = cchar c"

section \<open>Ordered sets\<close>

fun pset_insert :: "'a::linorder \<Rightarrow> 'a list \<Rightarrow> 'a list" where
  "pset_insert x [] = [x]"
| "pset_insert x (y # ys) = (if x < y then x # y # ys else if y < x then y # pset_insert x ys else y # ys)"

definition pset_erase :: "'a::linorder \<Rightarrow> 'a list \<Rightarrow> 'a list" where
  "pset_erase x ys = filter (\<lambda>y. y < x \<or> x < y) ys"

text \<open>
  What the code relies on when it keeps cards in such a set: membership after an insertion and an
  erasure, and that iteration is in order and meets no card twice.
\<close>

locale ordered_set =
  fixes ins :: "'a::linorder \<Rightarrow> 'a list \<Rightarrow> 'a list"
    and del :: "'a \<Rightarrow> 'a list \<Rightarrow> 'a list"
  assumes set_ins: "set (ins x h) = insert x (set h)"
    and ordered_ins: "sorted_wrt (<) h \<Longrightarrow> sorted_wrt (<) (ins x h)"
    and set_del: "set (del x h) = set h - {x}"
    and ordered_del: "sorted_wrt (<) h \<Longrightarrow> sorted_wrt (<) (del x h)"
begin

definition ins_all :: "'a list \<Rightarrow> 'a list \<Rightarrow> 'a list" where
  "ins_all xs h = fold ins xs h"

definition del_all :: "'a list \<Rightarrow> 'a list \<Rightarrow> 'a list" where
  "del_all xs h = fold del xs h"

lemma set_ins_all: "set (ins_all xs h) = set xs \<union> set h"
  by (induction xs arbitrary: h) (auto simp: ins_all_def set_ins)

lemma ordered_ins_all: "sorted_wrt (<) h \<Longrightarrow> sorted_wrt (<) (ins_all xs h)"
  by (induction xs arbitrary: h) (auto simp: ins_all_def ordered_ins)

lemma set_del_all: "set (del_all xs h) = set h - set xs"
  by (induction xs arbitrary: h) (auto simp: del_all_def set_del)

lemma ordered_del_all: "sorted_wrt (<) h \<Longrightarrow> sorted_wrt (<) (del_all xs h)"
  by (induction xs arbitrary: h) (auto simp: del_all_def ordered_del)

lemma ordered_card: "sorted_wrt (<) (h :: 'a list) \<Longrightarrow> length h = card (set h)"
  by (simp add: strict_sorted_iff distinct_card)

lemma ordered_eqI: "sorted_wrt (<) (h :: 'a list) \<Longrightarrow> sorted_wrt (<) h' \<Longrightarrow> set h = set h' \<Longrightarrow> h = h'"
  by (auto simp: strict_sorted_iff intro: sorted_distinct_set_unique)

lemma ins_all_eq: "ins_all xs [] = sorted_list_of_set (set xs)"
  by (rule ordered_eqI) (simp_all add: ordered_ins_all set_ins_all)

lemma length_ins_all:
  assumes "distinct xs"
  shows "length (ins_all xs []) = length xs"
  using assms by (simp add: ins_all_eq distinct_card)

lemma length_del:
  assumes "sorted_wrt (<) h" "x \<in> set h"
  shows "length (del x h) = length h - 1"
  using assms by (simp add: ordered_card ordered_del set_del)

lemma length_del_all:
  assumes "sorted_wrt (<) h" "set xs \<subseteq> set h" "distinct xs"
  shows "length (del_all xs h) = length h - length xs"
  using assms by (simp add: ordered_card ordered_del_all set_del_all card_Diff_subset distinct_card)

end

lemma set_pset_insert: "set (pset_insert x ys) = insert x (set ys)"
  by (induction ys) auto

lemma ordered_pset_insert: "sorted_wrt (<) ys \<Longrightarrow> sorted_wrt (<) (pset_insert x ys)"
  by (induction ys) (auto simp: set_pset_insert)

lemma set_pset_erase [simp]: "set (pset_erase x ys) = set ys - {x}"
  by (auto simp: pset_erase_def)

lemma ordered_pset_erase: "sorted_wrt (<) ys \<Longrightarrow> sorted_wrt (<) (pset_erase x ys)"
  by (simp add: pset_erase_def sorted_wrt_filter)

lemma length_pset_erase: "x \<in> set ys \<Longrightarrow> length (pset_erase x ys) < length ys"
  unfolding pset_erase_def by (rule length_filter_less) auto

interpretation pset: ordered_set pset_insert pset_erase
  by unfold_locales (simp_all add: set_pset_insert ordered_pset_insert ordered_pset_erase)

section \<open>Checked access to a vector\<close>

definition vec_at :: "'a list \<Rightarrow> nat \<Rightarrow> 'a result" where
  "vec_at xs i = (if i < length xs then Inr (xs ! i) else Inl Range_exception)"

lemma vec_at_in_range [simp]: "i < length xs \<Longrightarrow> vec_at xs i = Inr (xs ! i)"
  by (simp add: vec_at_def)

text \<open>
  A comparison \<^verbatim>\<open>v.size() < n\<close> with a signed \<^verbatim>\<open>n\<close>: a negative \<^verbatim>\<open>n\<close> converts to a huge
  unsigned number.
\<close>

definition size_less :: "nat \<Rightarrow> int \<Rightarrow> bool" where
  "size_less m n = (if n < 0 then True else int m < n)"

lemma size_less_nat [simp]: "0 \<le> n \<Longrightarrow> size_less m n \<longleftrightarrow> int m < n"
  by (simp add: size_less_def)

end
