(* ===== verification/PokerFinder.thy ===== *)
theory PokerFinder
  imports CardSet
begin

text \<open>
  The search for a play that beats the one on the table (\<^verbatim>\<open>src/src/ddz/poker_finder.cpp\<close>).
  The operations keep the in-out parameter \<^verbatim>\<open>finded_poker_list\<close> as an argument and return
  its final value; checked vector accesses, the \<^verbatim>\<open>assert\<close> of \<^verbatim>\<open>archived_pokers::at\<close> and the
  asserts of \<^verbatim>\<open>find_big_pokers\<close> are faults.
\<close>

type_synonym poker_array = "poker list"
type_synonym poker_list = "poker list"
type_synonym archived_pokers = "poker_array list list"

section \<open>Archiving a hand\<close>

definition archived_empty :: archived_pokers where
  "archived_empty = [[], [], [], []]"

definition archived_at :: "archived_pokers \<Rightarrow> int \<Rightarrow> poker_array list result" where
  "archived_at a i = (if i < 4 \<and> i \<ge> 0 then Inr (a ! nat i) else Inl Assert_failed)"

definition archived_push :: "nat \<Rightarrow> poker_array \<Rightarrow> archived_pokers \<Rightarrow> archived_pokers result" where
  "archived_push i g a = ebind (archived_at a (int i)) (\<lambda>gs. Inr (a[i := gs @ [g]]))"

fun archive_loop :: "poker_list \<Rightarrow> poker \<Rightarrow> nat \<Rightarrow> poker_array \<Rightarrow> archived_pokers \<Rightarrow> archived_pokers result" where
  "archive_loop [] poker_value curr_type_num type_pokers a = Inr a"
| "archive_loop (cur # rest) poker_value curr_type_num type_pokers a =
     (if rank cur = rank poker_value
      then (if rest = []
            then archived_push (curr_type_num + 1) (type_pokers @ [cur]) a
            else archive_loop rest poker_value (curr_type_num + 1) (type_pokers @ [cur]) a)
      else ebind (archived_push curr_type_num type_pokers a)
        (\<lambda>a. if rest = [] then archived_push 0 [cur] a
             else archive_loop rest cur 0 [cur] a))"

definition archive_poker_list :: "poker_list \<Rightarrow> archived_pokers result" where
  "archive_poker_list user_poker_list =
     (case user_poker_list of
        [] \<Rightarrow> Inl Bad_iterator
      | p # rest \<Rightarrow>
          (if length user_poker_list = 1 then archived_push 0 [p] archived_empty
           else archive_loop rest p 0 [p] archived_empty))"

fun find_greater :: "poker_array list \<Rightarrow> int \<Rightarrow> poker_array option result" where
  "find_greater [] v = Inr None"
| "find_greater (g # gs) v =
     ebind (vec_at g 0) (\<lambda>p. if rank p > v then Inr (Some g) else find_greater gs v)"

definition find_type_value :: "archived_pokers \<Rightarrow> int \<Rightarrow> int \<Rightarrow> poker_array option result" where
  "find_type_value a type_num v =
     (let type_num = type_num - 1;
          type_num = (if type_num < 0 then 0 else type_num);
          type_num = (if type_num > 3 then 3 else type_num)
      in ebind (archived_at a type_num) (\<lambda>gs. find_greater gs v))"

section \<open>Singles, pairs, triples and quadruples\<close>

text \<open>The first \<open>n\<close> cards of a group, each read with \<^verbatim>\<open>at\<close>.\<close>

definition take_at :: "nat \<Rightarrow> poker_array \<Rightarrow> poker_array result" where
  "take_at n g = (if n \<le> length g then Inr (take n g) else Inl Range_exception)"

text \<open>The successive searches of the piles \<open>ts\<close>, taking \<open>n\<close> cards of the first group found.\<close>

fun find_in_types :: "archived_pokers \<Rightarrow> int list \<Rightarrow> nat \<Rightarrow> int \<Rightarrow> poker_array \<Rightarrow> poker_array result" where
  "find_in_types a [] n v found = Inr found"
| "find_in_types a (t # ts) n v found =
     ebind (find_type_value a t v)
       (\<lambda>g. case g of
          Some g \<Rightarrow> ebind (take_at n g) (\<lambda>ps. Inr (found @ ps))
        | None \<Rightarrow> find_in_types a ts n v found)"

definition find_single :: "poker_list \<Rightarrow> int \<Rightarrow> poker_array \<Rightarrow> poker_array result" where
  "find_single hand v found =
     (if length hand < 1 then Inr found
      else ebind (archive_poker_list hand) (\<lambda>a. find_in_types a [1, 2, 3, 4] 1 v found))"

definition find_double :: "poker_list \<Rightarrow> int \<Rightarrow> poker_array \<Rightarrow> poker_array result" where
  "find_double hand v found =
     (if length hand < 2 then Inr found
      else ebind (archive_poker_list hand) (\<lambda>a. find_in_types a [2, 3, 4] 2 v found))"

definition find_three :: "poker_list \<Rightarrow> int \<Rightarrow> poker_array \<Rightarrow> poker_array result" where
  "find_three hand v found =
     (if length hand < 3 then Inr found
      else ebind (archive_poker_list hand) (\<lambda>a. find_in_types a [3, 4] 3 v found))"

definition find_four :: "poker_list \<Rightarrow> int \<Rightarrow> poker_array \<Rightarrow> poker_array result" where
  "find_four hand v found =
     (if length hand < 4 then Inr found
      else ebind (archive_poker_list hand) (\<lambda>a. find_in_types a [4] 4 v found))"

section \<open>What the piles contain\<close>

text \<open>A hand as its groups of equal rank, in order.\<close>

fun groups :: "poker_list \<Rightarrow> poker_array list" where
  "groups [] = []"
| "groups (c # cs) =
     (case groups cs of
        [] \<Rightarrow> [[c]]
      | g # gs \<Rightarrow> if rank c = rank (hd g) then (c # g) # gs else [c] # g # gs)"

definition piles :: "poker_array list \<Rightarrow> archived_pokers" where
  "piles gs = map (\<lambda>k. filter (\<lambda>g. length g = k) gs) [1, 2, 3, 4]"

lemma concat_groups [simp]: "concat (groups cs) = cs"
  by (induction cs) (auto split: list.splits)

lemma groups_Nil [simp]: "groups cs = [] \<longleftrightarrow> cs = []"
  by (cases cs) (auto split: list.splits)

lemma groups_nonempty: "g \<in> set (groups cs) \<Longrightarrow> g \<noteq> []"
  by (induction cs arbitrary: g) (auto split: list.splits if_splits)

lemma groups_rank: "g \<in> set (groups cs) \<Longrightarrow> p \<in> set g \<Longrightarrow> rank p = rank (hd g)"
  by (induction cs arbitrary: g p) (auto split: list.splits if_splits)

lemma hd_groups: "cs \<noteq> [] \<Longrightarrow> hd (hd (groups cs)) = hd cs"
  by (cases cs) (auto split: list.splits)

text \<open>A stretch of equal rank at the front is a group unless the next card extends it.\<close>

lemma groups_stretch:
  assumes "tp \<noteq> []" "\<forall>p \<in> set tp. rank p = r" "cs = [] \<or> rank (hd cs) \<noteq> r"
  shows "groups (tp @ cs) = tp # groups cs"
  using assms
proof (induction tp)
  case Nil
  then show ?case by simp
next
  case (Cons p tp)
  show ?case
  proof (cases "tp = []")
    case True
    then show ?thesis using Cons.prems hd_groups [of cs] by (cases "cs = []"; cases "groups cs") auto
  next
    case False
    with Cons show ?thesis by (cases tp) auto
  qed
qed

fun file_groups :: "poker_array list \<Rightarrow> archived_pokers \<Rightarrow> archived_pokers result" where
  "file_groups [] a = Inr a"
| "file_groups (g # gs) a = ebind (archived_push (length g - 1) g a) (file_groups gs)"

lemma archive_loop_groups:
  assumes "tp \<noteq> []" "\<forall>p \<in> set tp. rank p = rank pv" "n = length tp - 1" "rest \<noteq> []"
  shows "archive_loop rest pv n tp a = file_groups (groups (tp @ rest)) a"
  using assms
proof (induction rest pv n tp a rule: archive_loop.induct)
  case 1
  then show ?case by simp
next
  case (2 cur rest pv n tp a)
  show ?case
  proof (cases "rank cur = rank pv")
    case True
    have all: "\<forall>p \<in> set (tp @ [cur]). rank p = rank pv" using 2(4) True by auto
    have n: "n + 1 = length (tp @ [cur]) - 1" using 2(3,5) by (cases tp) auto
    show ?thesis
    proof (cases "rest = []")
      case True
      with \<open>rank cur = rank pv\<close> n groups_stretch [OF _ all, of "[]"] show ?thesis by (simp add: ebind_def split: sum.splits)
    next
      case False
      with 2(1) [OF True False _ all n False] True show ?thesis by simp
    qed
  next
    case False
    have g: "groups (tp @ cur # rest) = tp # groups (cur # rest)"
      by (rule groups_stretch [OF 2(3,4)]) (use False in simp)
    show ?thesis
    proof (cases "rest = []")
      case True
      have "ebind r Inr = r" for r :: "archived_pokers result" by (cases r) simp_all
      with True False g 2(5) show ?thesis by (simp add: ebind_def split: sum.splits)
    next
      case rest: False
      have "archive_loop rest cur 0 [cur] b = file_groups (groups ([cur] @ rest)) b"
        if "archived_push n tp a = Inr b" for b
        by (rule 2(2) [OF False that rest]) (use rest in auto)
      with False rest g 2(5) show ?thesis by (simp del: groups.simps cong: ebind_cong)
    qed
  qed
qed

definition bounded :: "poker_list \<Rightarrow> bool" where
  "bounded hand = (\<forall>g \<in> set (groups hand). length g \<le> 4)"

lemma file_groups_piles:
  assumes "length a = 4" "\<forall>g \<in> set gs. g \<noteq> []"
  shows "file_groups gs a =
    (if \<forall>g \<in> set gs. length g \<le> 4 then Inr (map2 (@) a (piles gs)) else Inl Assert_failed)"
  using assms
proof (induction gs arbitrary: a)
  case Nil
  then show ?case by (auto simp: piles_def length_Suc_conv numeral_eq_Suc)
next
  case (Cons g gs)
  obtain a1 a2 a3 a4 where a: "a = [a1, a2, a3, a4]"
    using Cons.prems(1) by (auto simp: length_Suc_conv numeral_eq_Suc)
  have g: "0 < length g" using Cons.prems(2) by simp
  show ?case
  proof (cases "length g \<le> 4")
    case True
    then consider "length g = 1" | "length g = 2" | "length g = 3" | "length g = 4"
      using g by linarith
    then show ?thesis
      by cases (use Cons in \<open>auto simp: a archived_push_def archived_at_def piles_def\<close>)
  next
    case False
    then show ?thesis by (auto simp: archived_push_def archived_at_def)
  qed
qed

lemma archive_poker_list_eq:
  assumes "hand \<noteq> []"
  shows "archive_poker_list hand =
    (if bounded hand then Inr (piles (groups hand)) else Inl Assert_failed)"
proof -
  have f: "archive_poker_list hand = file_groups (groups hand) archived_empty"
  proof (cases hand)
    case Nil
    with assms show ?thesis by simp
  next
    case (Cons p rest)
    show ?thesis
    proof (cases "rest = []")
      case True
      with Cons show ?thesis by (simp add: archive_poker_list_def ebind_def split: sum.splits)
    next
      case False
      with Cons archive_loop_groups [of "[p]" p 0 rest archived_empty] show ?thesis
        by (simp add: archive_poker_list_def del: groups.simps)
    qed
  qed
  have "map2 (@) archived_empty (piles gs) = piles gs" for gs
    by (simp add: archived_empty_def piles_def)
  then show ?thesis
    using file_groups_piles [of archived_empty "groups hand"] groups_nonempty
    unfolding f bounded_def by (auto simp: archived_empty_def)
qed

section \<open>What the searches of one group find\<close>

definition pick :: "poker_list \<Rightarrow> nat \<Rightarrow> int \<Rightarrow> poker_array option" where
  "pick hand n v =
     find (\<lambda>g. v < rank (hd g)) (concat (map (\<lambda>t. filter (\<lambda>g. length g = t) (groups hand)) [n..<5]))"

definition picked :: "poker_list \<Rightarrow> nat \<Rightarrow> int \<Rightarrow> poker_array" where
  "picked hand n v = (case pick hand n v of None \<Rightarrow> [] | Some g \<Rightarrow> take n g)"

lemma find_append: "find P (xs @ ys) = (case find P xs of None \<Rightarrow> find P ys | Some x \<Rightarrow> Some x)"
  by (induction xs) simp_all

lemma find_greater_eq:
  "\<forall>g \<in> set gs. g \<noteq> [] \<Longrightarrow> find_greater gs v = Inr (find (\<lambda>g. v < rank (hd g)) gs)"
  by (induction gs) (simp_all add: hd_conv_nth)

lemma find_type_value_piles:
  assumes "1 \<le> t" "t \<le> 4"
  shows "find_type_value (piles (groups hand)) (int t) v =
    Inr (find (\<lambda>g. v < rank (hd g)) (filter (\<lambda>g. length g = t) (groups hand)))"
proof -
  have "piles (groups hand) ! (t - 1) = filter (\<lambda>g. length g = t) (groups hand)"
    using assms by (auto simp: piles_def le_Suc_eq numeral_eq_Suc)
  moreover have "nat (int t - 1) = t - 1" using assms by simp
  ultimately show ?thesis
    using assms groups_nonempty
    by (auto simp: find_type_value_def archived_at_def Let_def intro!: find_greater_eq)
qed

lemma find_in_types_piles:
  assumes "\<forall>t \<in> set ts. 1 \<le> t \<and> t \<le> 4 \<and> n \<le> t"
  shows "find_in_types (piles (groups hand)) (map int ts) n v found =
    Inr (found @ (case find (\<lambda>g. v < rank (hd g)) (concat (map (\<lambda>t. filter (\<lambda>g. length g = t) (groups hand)) ts))
       of None \<Rightarrow> [] | Some g \<Rightarrow> take n g))"
  using assms
proof (induction ts)
  case Nil
  then show ?case by simp
next
  case (Cons t ts)
  have t: "1 \<le> t" "t \<le> 4" "n \<le> t" using Cons.prems by simp_all
  show ?case
  proof (cases "find (\<lambda>g. v < rank (hd g)) (filter (\<lambda>g. length g = t) (groups hand))")
    case None
    with Cons find_type_value_piles [OF t(1,2), of hand v] show ?thesis by (simp add: find_append)
  next
    case (Some g)
    then have "length g = t" by (auto simp: find_Some_iff dest: nth_mem)
    with Some t find_type_value_piles [OF t(1,2), of hand v] show ?thesis
      by (simp add: find_append take_at_def)
  qed
qed

lemma groups_length: "g \<in> set (groups hand) \<Longrightarrow> length g \<le> length hand"
proof -
  assume "g \<in> set (groups hand)"
  then have "length g \<le> sum_list (map length (groups hand))"
    by (intro member_le_sum_list) simp_all
  then show ?thesis by (simp flip: length_concat)
qed

lemma groups_subset: "g \<in> set (groups hand) \<Longrightarrow> set g \<subseteq> set hand"
  by (metis concat_groups UN_upper set_concat)

lemma groups_distinct: "distinct hand \<Longrightarrow> g \<in> set (groups hand) \<Longrightarrow> distinct g"
  by (metis concat_groups distinct_concat_iff)

lemma pick_Some:
  assumes "pick hand n v = Some g"
  shows "g \<in> set (groups hand)" "n \<le> length g" "length g \<le> 4" "v < rank (hd g)"
  using assms by (auto simp: pick_def find_Some_iff dest!: nth_mem)

lemma pick_None:
  assumes "bounded hand"
  shows "pick hand n v = None \<longleftrightarrow> (\<forall>g \<in> set (groups hand). n \<le> length g \<longrightarrow> rank (hd g) \<le> v)"
  using assms by (fastforce simp: pick_def find_None_iff bounded_def not_less Suc_le_eq)

lemma short_hand:
  assumes "length hand < n" "0 < n"
  shows "picked hand n v = []" "n \<le> 4 \<Longrightarrow> bounded hand"
proof -
  have g: "length g < n" if "g \<in> set (groups hand)" for g
    using groups_length [OF that] assms(1) by simp
  then show "n \<le> 4 \<Longrightarrow> bounded hand" by (force simp: bounded_def)
  show "picked hand n v = []"
    using g pick_Some(1,2) by (fastforce simp: picked_def split: option.split)
qed

lemma find_group_eq:
  assumes "0 < n" "n \<le> 4"
  shows "(if length hand < n then Inr found
          else ebind (archive_poker_list hand) (\<lambda>a. find_in_types a (map int [n..<5]) n v found)) =
    (if bounded hand then Inr (found @ picked hand n v) else Inl Assert_failed)"
proof (cases "length hand < n")
  case True
  with short_hand [OF _ assms(1)] assms(2) show ?thesis by simp
next
  case False
  then have "hand \<noteq> []" using assms(1) by auto
  moreover have "\<forall>t \<in> set [n..<5]. 1 \<le> t \<and> t \<le> 4 \<and> n \<le> t" using assms by auto
  ultimately show ?thesis
    using False archive_poker_list_eq [of hand] find_in_types_piles [of "[n..<5]" n hand v found]
    by (simp add: picked_def pick_def)
qed

lemma find_groups:
  "find_single hand v found = (if bounded hand then Inr (found @ picked hand 1 v) else Inl Assert_failed)"
  "find_double hand v found = (if bounded hand then Inr (found @ picked hand 2 v) else Inl Assert_failed)"
  "find_three hand v found = (if bounded hand then Inr (found @ picked hand 3 v) else Inl Assert_failed)"
  "find_four hand v found = (if bounded hand then Inr (found @ picked hand 4 v) else Inl Assert_failed)"
proof -
  have ts: "map int [1..<5] = [1, 2, 3, 4]" "map int [2..<5] = [2, 3, 4]" "map int [3..<5] = [3, 4]"
      "map int [4..<5] = [4]"
    by (simp_all add: upt_rec)
  show
    "find_single hand v found = (if bounded hand then Inr (found @ picked hand 1 v) else Inl Assert_failed)"
    "find_double hand v found = (if bounded hand then Inr (found @ picked hand 2 v) else Inl Assert_failed)"
    "find_three hand v found = (if bounded hand then Inr (found @ picked hand 3 v) else Inl Assert_failed)"
    "find_four hand v found = (if bounded hand then Inr (found @ picked hand 4 v) else Inl Assert_failed)"
    using find_group_eq [of 1 hand found v] find_group_eq [of 2 hand found v]
      find_group_eq [of 3 hand found v] find_group_eq [of 4 hand found v]
    unfolding ts find_single_def find_double_def find_three_def find_four_def by simp_all
qed

lemma picked_length: "picked hand n v = [] \<or> length (picked hand n v) = n"
  by (auto simp: picked_def dest: pick_Some split: option.split)

lemma picked_subset: "set (picked hand n v) \<subseteq> set hand"
proof (cases "pick hand n v")
  case None
  then show ?thesis by (simp add: picked_def)
next
  case (Some g)
  then have "set g \<subseteq> set hand" by (auto dest!: pick_Some(1) groups_subset)
  then show ?thesis using Some by (auto simp: picked_def dest: in_set_takeD)
qed

lemma picked_rank:
  assumes "p \<in> set (picked hand n v)"
  shows "v < rank p" "q \<in> set (picked hand n v) \<Longrightarrow> rank q = rank p"
proof -
  obtain g where g: "pick hand n v = Some g" using assms by (cases "pick hand n v") (auto simp: picked_def)
  have r: "rank x = rank (hd g)" if "x \<in> set (picked hand n v)" for x
    using that g pick_Some(1) [OF g] by (auto simp: picked_def intro: groups_rank dest: in_set_takeD)
  show "v < rank p" using r [OF assms] pick_Some(4) [OF g] by simp
  show "q \<in> set (picked hand n v) \<Longrightarrow> rank q = rank p" using r assms by simp
qed

lemma picked_distinct:
  assumes "distinct hand"
  shows "distinct (picked hand n v)"
proof (cases "pick hand n v")
  case None
  then show ?thesis by (simp add: picked_def)
next
  case (Some g)
  have "distinct g" using assms pick_Some(1) [OF Some] by (rule groups_distinct)
  then show ?thesis using Some by (simp add: picked_def)
qed

end
