(* ===== verification/FinderPlays.thy ===== *)
theory FinderPlays
  imports PokerFinder
begin

text \<open>
  The composite searches of \<^verbatim>\<open>src/src/ddz/poker_finder.cpp\<close>: main groups with kickers, chains,
  bombs, and the dispatch on the description of the group to beat. A \<^verbatim>\<open>while (true)\<close> loop is a
  function that terminates because every pass erases a card it has found from the hand.
\<close>

lemma fold_pset_erase: "fold pset_erase xs h = pset.del_all xs h"
  by (simp add: pset.del_all_def)

lemma set_fold_erase [simp]: "set (fold pset_erase xs h) = set h - set xs"
  by (simp add: fold_pset_erase pset.set_del_all)

lemma length_fold_erase_le: "length (fold pset_erase xs h) \<le> length h"
proof (induction xs arbitrary: h)
  case Nil
  then show ?case by simp
next
  case (Cons x xs)
  have "length (fold pset_erase xs (pset_erase x h)) \<le> length (pset_erase x h)" by (rule Cons.IH)
  also have "\<dots> \<le> length h" by (simp add: pset_erase_def)
  finally show ?case by simp
qed

lemma found_in_hand:
  "find_single h v [] = Inr f \<Longrightarrow> set f \<subseteq> set h"
  "find_double h v [] = Inr f \<Longrightarrow> set f \<subseteq> set h"
  "find_three h v [] = Inr f \<Longrightarrow> set f \<subseteq> set h"
  "find_four h v [] = Inr f \<Longrightarrow> set f \<subseteq> set h"
  using picked_subset by (auto simp: find_groups split: if_splits)

lemma erase_found:
  assumes "set f \<subseteq> set h" "f \<noteq> []"
  shows "length (pset_erase (f ! 0) h) < length h"
    and "length (pset_erase y (pset_erase (f ! 0) h)) < length h"
    and "vec_at f 0 = Inr x \<Longrightarrow> length (pset_erase y (pset_erase x h)) < length h"
proof -
  show one: "length (pset_erase (f ! 0) h) < length h"
    using assms by (intro length_pset_erase) (auto simp: neq_Nil_conv)
  have "length (pset_erase y g) \<le> length g" for g
    unfolding pset_erase_def by (rule length_filter_le)
  then show two: "length (pset_erase y (pset_erase (f ! 0) h)) < length h"
    using one by (rule le_less_trans)
  show "vec_at f 0 = Inr x \<Longrightarrow> length (pset_erase y (pset_erase x h)) < length h"
    using two assms(2) by (simp add: vec_at_def)
qed

lemma erase_single:
  "find_single h v [] = Inr f \<Longrightarrow> f \<noteq> [] \<Longrightarrow> length (pset_erase (f ! 0) h) < length h"
  by (rule erase_found(1) [OF found_in_hand(1)])

lemma erase_double:
  "find_double h v [] = Inr f \<Longrightarrow> \<not> length f < 2 \<Longrightarrow> vec_at f 0 = Inr x \<Longrightarrow>
   length (pset_erase y (pset_erase x h)) < length h"
  by (rule erase_found(3) [OF found_in_hand(2)]) auto

section \<open>Main groups with kickers\<close>

function three_single_loop :: "poker_list \<Rightarrow> poker_array \<Rightarrow> poker_array result" where
  "three_single_loop clone found =
     ebind (find_single clone chr_0 []) (\<lambda>single_finded.
       if length single_finded < 1 then Inr []
       else ebind (vec_at found 0) (\<lambda>f. ebind (vec_at single_finded 0) (\<lambda>s.
         if rank f = rank s then three_single_loop (pset_erase s clone) found
         else Inr (found @ [s]))))"
  by auto
termination
  by (relation "measure (\<lambda>(clone, _). length clone)")
    (auto intro: erase_single)

definition find_three_and_single :: "poker_list \<Rightarrow> int \<Rightarrow> poker_array \<Rightarrow> poker_array result" where
  "find_three_and_single hand v found =
     (if length hand < 4 then Inr found
      else ebind (find_three hand v found) (\<lambda>found.
        if length found < 3 then Inr []
        else three_single_loop (fold pset_erase found hand) found))"

definition find_three_and_double :: "poker_list \<Rightarrow> int \<Rightarrow> poker_array \<Rightarrow> poker_array result" where
  "find_three_and_double hand v found =
     (if length hand < 5 then Inr found
      else ebind (find_three hand v found) (\<lambda>found.
        if length found < 3 then Inr []
        else ebind (find_double (fold pset_erase found hand) chr_0 []) (\<lambda>double_finded.
          if length double_finded < 2 then Inr []
          else ebind (take_at 2 double_finded) (\<lambda>ps. Inr (found @ ps)))))"

function four_single_loop :: "poker_list \<Rightarrow> poker_array \<Rightarrow> poker_array \<Rightarrow> poker_array result" where
  "four_single_loop clone single_pokers found =
     ebind (find_single clone chr_0 []) (\<lambda>single_finded.
       if length single_finded < 1 then Inr []
       else ebind (vec_at single_finded 0) (\<lambda>s.
         if length single_pokers < 1
         then four_single_loop (pset_erase s clone) (single_pokers @ [s]) found
         else ebind (vec_at single_pokers 0) (\<lambda>p.
           if rank p = rank s then four_single_loop (pset_erase s clone) single_pokers found
           else Inr (found @ [p, s]))))"
  by auto
termination
  by (relation "measure (\<lambda>(clone, _, _). length clone)")
    (auto intro: erase_single)

definition find_four_and_two_single :: "poker_list \<Rightarrow> int \<Rightarrow> poker_array \<Rightarrow> poker_array result" where
  "find_four_and_two_single hand v found =
     (if length hand < 5 then Inr found
      else ebind (find_four hand v found) (\<lambda>found.
        if length found < 4 then Inr []
        else four_single_loop (fold pset_erase found hand) [] found))"

function four_double_loop :: "poker_list \<Rightarrow> poker_array \<Rightarrow> poker_array \<Rightarrow> poker_array result" where
  "four_double_loop clone double_pokers found =
     ebind (find_double clone chr_0 []) (\<lambda>double_finded.
       if length double_finded < 2 then Inr []
       else ebind (vec_at double_finded 0) (\<lambda>d0. ebind (vec_at double_finded 1) (\<lambda>d1.
         let clone = pset_erase d1 (pset_erase d0 clone) in
         if length double_pokers = 0 then four_double_loop clone (double_pokers @ [d0, d1]) found
         else ebind (vec_at double_pokers 0) (\<lambda>p0. ebind (vec_at double_pokers 1) (\<lambda>p1.
           if rank p0 = rank d0 then four_double_loop clone double_pokers found
           else Inr (found @ [p0, p1, d0, d1]))))))"
  by auto

termination four_double_loop
  by (relation "measure (\<lambda>(clone, _, _). length clone)")
    (auto intro: erase_double)

definition find_four_and_two_double :: "poker_list \<Rightarrow> int \<Rightarrow> poker_array \<Rightarrow> poker_array result" where
  "find_four_and_two_double hand v found =
     (if length hand < 8 then Inr found
      else ebind (find_four hand v found) (\<lambda>found.
        if length found < 4 then Inr []
        else four_double_loop (fold pset_erase found hand) [] found))"

section \<open>Chains\<close>

fun single_run :: "poker_array \<Rightarrow> int \<Rightarrow> poker_array \<Rightarrow> poker_array result" where
  "single_run [] len found = Inr found"
| "single_run (p # ps) len found =
     (if \<not> size_less (length found) len then Inr found
      else if rank p \<ge> rank_M then Inr found
      else if length found = 0 then single_run ps len (found @ [p])
      else ebind (vec_at found (length found - 1)) (\<lambda>q.
        let r = rank p - rank q in
        if r = 0 then single_run ps len found
        else if r = 1 then single_run ps len (found @ [p])
        else Inr found))"

fun single_starts :: "poker_array \<Rightarrow> int \<Rightarrow> int \<Rightarrow> poker_array \<Rightarrow> poker_array result" where
  "single_starts [] v len found = Inr []"
| "single_starts (p # ps) v len found =
     (if size_less (length (p # ps)) len then Inr []
      else if rank p > v then
        ebind (single_run (p # ps) len []) (\<lambda>found.
          if int (length found) = len then Inr found else single_starts ps v len found)
      else single_starts ps v len found)"

text \<open>The vector of candidates is sorted in place; it is part of the result.\<close>

definition find_single_chain_inner ::
    "poker_array \<Rightarrow> int \<Rightarrow> int \<Rightarrow> poker_array \<Rightarrow> (poker_array \<times> poker_array) result" where
  "find_single_chain_inner pokers v len found =
     (if size_less (length pokers) len then Inr (pokers, found)
      else let pokers = sort pokers in
        ebind (vec_at pokers (length pokers - 1)) (\<lambda>p.
          if rank p \<le> v then Inr (pokers, found)
          else ebind (single_starts pokers v len found) (\<lambda>found. Inr (pokers, found))))"

text \<open>The first \<open>n\<close> cards of every group of a pile.\<close>

fun heads :: "nat \<Rightarrow> poker_array list \<Rightarrow> poker_array result" where
  "heads n [] = Inr []"
| "heads n (g # gs) = ebind (take_at n g) (\<lambda>ps. ebind (heads n gs) (\<lambda>qs. Inr (ps @ qs)))"

definition find_single_chain :: "poker_list \<Rightarrow> int \<Rightarrow> int \<Rightarrow> poker_array \<Rightarrow> poker_array result" where
  "find_single_chain hand v len found =
     (if size_less (length hand) len then Inr found
      else ebind (archive_poker_list hand) (\<lambda>a.
        case for_loop
          (\<lambda>i (pokers_to_find, found).
            attempt (archived_at a i) (\<lambda>pile. attempt (heads 1 pile) (\<lambda>ps.
              let pokers_to_find = pokers_to_find @ ps in
              if size_less (length pokers_to_find) len then Next (pokers_to_find, found)
              else attempt (find_single_chain_inner pokers_to_find v len found)
                (\<lambda>(pokers_to_find, found).
                  if int (length found) = len then Ret (Inr found)
                  else Next (pokers_to_find, found)))))
          [0, 1, 2, 3] ([], found) of
          Ret r \<Rightarrow> r
        | Next (_, found) \<Rightarrow> Inr found))"

fun double_run :: "poker_array \<Rightarrow> int \<Rightarrow> poker_array \<Rightarrow> poker_array result" where
  "double_run [] len found = Inr found"
| "double_run (p # ps) len found =
     (if \<not> size_less (length found) len then Inr found
      else if rank p \<ge> rank_M then Inr found
      else if length found = 0 then double_run ps len (found @ [p])
      else ebind (vec_at found (length found - 1)) (\<lambda>q.
        let r = rank p - rank q in
        if length found mod 2 = 0
        then (if r = 0 then double_run ps len found
              else if r = 1 then double_run ps len (found @ [p])
              else Inr found)
        else (if r = 0 then double_run ps len (found @ [p]) else Inr found)))"

fun double_starts :: "poker_array \<Rightarrow> int \<Rightarrow> int \<Rightarrow> poker_array \<Rightarrow> poker_array result" where
  "double_starts [] v len found = Inr []"
| "double_starts (p # ps) v len found =
     (if size_less (length (p # ps)) len then Inr []
      else if rank p > v then
        ebind (double_run (p # ps) len []) (\<lambda>found.
          if int (length found) = len then Inr found else double_starts ps v len found)
      else double_starts ps v len found)"

definition find_double_chain_inner ::
    "poker_array \<Rightarrow> int \<Rightarrow> int \<Rightarrow> poker_array \<Rightarrow> (poker_array \<times> poker_array) result" where
  "find_double_chain_inner pokers v len found =
     (if size_less (length pokers) len then Inr (pokers, found)
      else let pokers = sort pokers in
        ebind (vec_at pokers (length pokers - 1)) (\<lambda>p.
          if rank p \<le> v then Inr (pokers, found)
          else ebind (double_starts pokers v len found) (\<lambda>found. Inr (pokers, found))))"

definition find_double_chain :: "poker_list \<Rightarrow> int \<Rightarrow> int \<Rightarrow> poker_array \<Rightarrow> poker_array result" where
  "find_double_chain hand v len found =
     (if size_less (length hand) len then Inr found
      else ebind (archive_poker_list hand) (\<lambda>a.
        case for_loop
          (\<lambda>i (pokers_to_find, found).
            attempt (archived_at a i) (\<lambda>pile. attempt (heads 2 pile) (\<lambda>ps.
              let pokers_to_find = pokers_to_find @ ps in
              if size_less (length pokers_to_find) len then Next (pokers_to_find, found)
              else attempt (find_double_chain_inner pokers_to_find v len found)
                (\<lambda>(pokers_to_find, found).
                  if int (length found) = len then Ret (Inr found)
                  else Next (pokers_to_find, found)))))
          [1, 2, 3] ([], found) of
          Ret r \<Rightarrow> r
        | Next (_, found) \<Rightarrow> Inr found))"

text \<open>\<^verbatim>\<open>std::map::insert\<close> keeps the entry of a key that is already there.\<close>

definition map_insert :: "'k \<Rightarrow> 'v \<Rightarrow> ('k \<Rightarrow> 'v option) \<Rightarrow> 'k \<Rightarrow> 'v option" where
  "map_insert k v m = (if m k = None then m(k \<mapsto> v) else m)"

fun collect_triples ::
    "(poker \<Rightarrow> poker_array option) \<Rightarrow> poker_array \<Rightarrow> poker_array \<Rightarrow> poker_array result" where
  "collect_triples types [] found = Inr found"
| "collect_triples types (p # ps) found =
     (case types p of
        Some three \<Rightarrow> ebind (take_at 3 three) (\<lambda>qs. collect_triples types ps (found @ qs))
      | None \<Rightarrow> Inr [])"

function three_chain_loop ::
    "poker_list \<Rightarrow> (poker \<Rightarrow> poker_array option) \<Rightarrow> poker_array \<Rightarrow> int \<Rightarrow> int \<Rightarrow> poker_array
      \<Rightarrow> poker_array result" where
  "three_chain_loop hand types singles v len found =
     ebind (find_three hand v []) (\<lambda>pokers_finded.
       if length pokers_finded = 0 then Inr found
       else let hand = fold pset_erase pokers_finded hand in
         ebind (vec_at pokers_finded 0) (\<lambda>p.
           if rank p < v then three_chain_loop hand types singles v len []
           else if rank p > rank_M then Inr []
           else let types = map_insert p pokers_finded types; singles = singles @ [p] in
             if size_less (length singles) len then three_chain_loop hand types singles v len found
             else ebind (find_single_chain_inner singles v len []) (\<lambda>(singles, chain).
               if int (length chain) = len then collect_triples types chain found
               else three_chain_loop hand types singles v len found)))"
  by auto

lemma erase_all_found:
  assumes "set f \<subseteq> set h" "f \<noteq> []"
  shows "length (fold pset_erase f h) < length h"
proof -
  obtain x xs where f: "f = x # xs" using assms(2) by (cases f) auto
  have "length (fold pset_erase f h) \<le> length (pset_erase x h)"
    by (simp add: f length_fold_erase_le)
  also have "\<dots> < length h" by (rule length_pset_erase) (use assms(1) f in simp)
  finally show ?thesis .
qed

lemma erase_three:
  "find_three h v [] = Inr f \<Longrightarrow> f \<noteq> [] \<Longrightarrow> length (fold pset_erase f h) < length h"
  by (rule erase_all_found [OF found_in_hand(3)])

termination three_chain_loop
  by (relation "measure (\<lambda>(hand, _). length hand)") (auto intro: erase_three)

definition find_three_chain :: "poker_list \<Rightarrow> int \<Rightarrow> int \<Rightarrow> poker_array \<Rightarrow> poker_array result" where
  "find_three_chain hand v len found =
     (if size_less (length hand) len then Inr found
      else three_chain_loop hand (\<lambda>_. None) [] v (len div 3) found)"

function chain_single_loop ::
    "poker_list \<Rightarrow> poker_array \<Rightarrow> int \<Rightarrow> poker_array \<Rightarrow> poker_array result" where
  "chain_single_loop clone single_pokers len found =
     ebind (find_single clone chr_0 []) (\<lambda>single_poker_finded.
       if length single_poker_finded < 1 then Inr []
       else ebind (vec_at single_poker_finded 0) (\<lambda>s.
         let clone = pset_erase s clone in
         if list_ex (\<lambda>p. rank p = rank s) single_pokers
         then chain_single_loop clone single_pokers len found
         else if list_ex (\<lambda>p. rank p = rank s) found
         then chain_single_loop clone single_pokers len found
         else let single_pokers = single_pokers @ [s] in
           if \<not> size_less (length single_pokers) len then Inr (found @ single_pokers)
           else chain_single_loop clone single_pokers len found))"
  by auto
termination
  by (relation "measure (\<lambda>(clone, _). length clone)")
    (auto intro: erase_single)

definition find_three_chain_and_single ::
    "poker_list \<Rightarrow> int \<Rightarrow> int \<Rightarrow> poker_array \<Rightarrow> poker_array result" where
  "find_three_chain_and_single hand v len found =
     (if size_less (length hand) len then Inr found
      else ebind (find_three_chain hand v ((len div 4) * 3) found) (\<lambda>found.
        if length found = 0 then Inr found
        else chain_single_loop (fold pset_erase found hand) [] (len div 4) found))"

function chain_double_loop ::
    "poker_list \<Rightarrow> poker_array \<Rightarrow> int \<Rightarrow> poker_array \<Rightarrow> poker_array result" where
  "chain_double_loop clone double_pokers len found =
     ebind (find_double clone chr_0 []) (\<lambda>double_poker_finded.
       if length double_poker_finded < 2 then Inr []
       else ebind (vec_at double_poker_finded 0) (\<lambda>d0. ebind (vec_at double_poker_finded 1) (\<lambda>d1.
         let clone = pset_erase d1 (pset_erase d0 clone) in
         if list_ex (\<lambda>p. rank p = rank d0) double_pokers
         then chain_double_loop clone double_pokers len found
         else let double_pokers = double_pokers @ [d0, d1] in
           if \<not> size_less (length double_pokers) (len * 2) then Inr (found @ double_pokers)
           else chain_double_loop clone double_pokers len found)))"
  by auto
termination
  by (relation "measure (\<lambda>(clone, _). length clone)")
    (auto intro: erase_double)

definition find_three_chain_and_double ::
    "poker_list \<Rightarrow> int \<Rightarrow> int \<Rightarrow> poker_array \<Rightarrow> poker_array result" where
  "find_three_chain_and_double hand v len found =
     (if size_less (length hand) len then Inr found
      else ebind (find_three_chain hand v ((len div 5) * 3) found) (\<lambda>found.
        if length found = 0 then Inr found
        else chain_double_loop (fold pset_erase found hand) [] (len div 5) found))"

section \<open>Bombs, and the dispatch\<close>

definition find_double_joker :: "poker_list \<Rightarrow> poker_array \<Rightarrow> poker_array result" where
  "find_double_joker hand found =
     (if length hand < 2 then Inr found
      else let big = hand ! (length hand - 1); small = hand ! (length hand - 2) in
        if rank big = rank_O \<and> rank small = rank_N then Inr (found @ [small, big]) else Inr found)"

definition find_bomb_or_double_joker :: "poker_list \<Rightarrow> poker_array \<Rightarrow> poker_array result" where
  "find_bomb_or_double_joker hand found =
     (if length hand \<ge> 4 then find_four hand chr_0 found
      else if length hand \<ge> 2 then find_double_joker hand found
      else Inr found)"

definition assert_size :: "nat \<Rightarrow> poker_array \<Rightarrow> poker_array result" where
  "assert_size n found = (if length found = n \<or> length found = 0 then Inr found else Inl Assert_failed)"

definition or_bomb :: "poker_list \<Rightarrow> poker_array \<Rightarrow> poker_array result" where
  "or_bomb hand found =
     (if length found = 0 then find_bomb_or_double_joker hand found else Inr found)"

fun find_by_type :: "poker_type \<Rightarrow> poker_info \<Rightarrow> poker_list \<Rightarrow> poker_array \<Rightarrow> poker_array result" where
  "find_by_type ZERO pi hand found = ebind (find_single hand chr_0 found) (assert_size 1)"
| "find_by_type SINGLE pi hand found =
     ebind (ebind (find_single hand (pi_value pi) found) (assert_size 1)) (or_bomb hand)"
| "find_by_type DOUBLE pi hand found =
     ebind (ebind (find_double hand (pi_value pi) found) (assert_size 2)) (or_bomb hand)"
| "find_by_type THREE pi hand found =
     ebind (ebind (find_three hand (pi_value pi) found) (assert_size 3)) (or_bomb hand)"
| "find_by_type THREE_ONE pi hand found =
     ebind (ebind (find_three_and_single hand (pi_value pi) found) (assert_size 4)) (or_bomb hand)"
| "find_by_type THREE_DOUBLE pi hand found =
     ebind (ebind (find_three_and_double hand (pi_value pi) found) (assert_size 5)) (or_bomb hand)"
| "find_by_type BOMB pi hand found =
     ebind (find_four hand (pi_value pi) found)
       (\<lambda>found. if length found = 0 then find_double_joker hand found else Inr found)"
| "find_by_type FOUR_TWO_SINGLE pi hand found =
     ebind (ebind (find_four_and_two_single hand (pi_value pi) found) (assert_size 6)) (or_bomb hand)"
| "find_by_type FOUR_TWO_DOUBLE pi hand found =
     ebind (ebind (find_four_and_two_double hand (pi_value pi) found) (assert_size 8)) (or_bomb hand)"
| "find_by_type SINGLE_CHAIN pi hand found =
     ebind (find_single_chain hand (pi_value pi) (pi_length pi) found) (or_bomb hand)"
| "find_by_type DOUBLE_CHAIN pi hand found =
     ebind (find_double_chain hand (pi_value pi) (pi_length pi) found) (or_bomb hand)"
| "find_by_type THREE_CHAIN pi hand found =
     ebind (find_three_chain hand (pi_value pi) (pi_length pi) found) (or_bomb hand)"
| "find_by_type TRHEE_CHAIN_SINGLE pi hand found =
     ebind (find_three_chain_and_single hand (pi_value pi) (pi_length pi) found) (or_bomb hand)"
| "find_by_type THREE_CHAIN_DOUBLE pi hand found =
     ebind (find_three_chain_and_double hand (pi_value pi) (pi_length pi) found) (or_bomb hand)"
| "find_by_type DOUBLE_JOKER pi hand found = Inr found"
| "find_by_type ERR pi hand found = Inr found"

definition find_big_pokers :: "poker_info \<Rightarrow> poker_list \<Rightarrow> poker_array \<Rightarrow> poker_array result" where
  "find_big_pokers pi hand found = find_by_type (pi_type pi) pi hand found"

declare three_single_loop.simps [simp del] four_single_loop.simps [simp del]
  four_double_loop.simps [simp del] three_chain_loop.simps [simp del]
  chain_single_loop.simps [simp del] chain_double_loop.simps [simp del]

end
