(* ===== verification/CardRuns.thy ===== *)
theory CardRuns
  imports Prelude
begin

text \<open>
  Run-length encoding of a card array, and the scanning loop over adjacent cards that
  \<^verbatim>\<open>is_three_chain\<close> and \<^verbatim>\<open>is_three_or_four_and_single_or_double\<close> of
  \<^verbatim>\<open>src/src/ddz/poker_parser.cpp\<close> both use. The locale \<^verbatim>\<open>run_scanner\<close> states what such a loop
  body has to satisfy; under it the loop over indices is a pass over the runs.
\<close>

section \<open>Runs\<close>

fun runs :: "'a list \<Rightarrow> ('a \<times> nat) list" where
  "runs [] = []"
| "runs (c # cs) =
     (case runs cs of
        [] \<Rightarrow> [(c, 1)]
      | (d, k) # rs \<Rightarrow> if c = d then (d, Suc k) # rs else (c, 1) # (d, k) # rs)"

lemma runs_eq_Nil [simp]: "runs cs = [] \<longleftrightarrow> cs = []"
  by (cases cs) (auto split: list.splits prod.splits if_splits)

lemma runs_Cons_obtain:
  obtains k rs where "runs (c # cs) = (c, Suc k) # rs"
proof (cases "runs cs")
  case Nil
  then show thesis using that [of 0 "[]"] by simp
next
  case (Cons r rs)
  obtain d k where r: "r = (d, k)" by (cases r)
  show thesis
  proof (cases "c = d")
    case True
    then show thesis using Cons r that [of k rs] by simp
  next
    case False
    then show thesis using Cons r that [of 0 "(d, k) # rs"] by simp
  qed
qed

lemma sum_runs: "sum_list (map snd (runs cs)) = length cs"
proof (induction cs)
  case Nil
  then show ?case by simp
next
  case (Cons c cs)
  then show ?case by (cases "runs cs") auto
qed

lemma runs_pos: "(x, k) \<in> set (runs cs) \<Longrightarrow> 0 < k"
proof (induction cs arbitrary: x k)
  case Nil
  then show ?case by simp
next
  case (Cons c cs)
  then show ?case by (cases "runs cs") (auto split: if_splits)
qed

lemma runs_expand: "concat (map (\<lambda>(x, k). replicate k x) (runs cs)) = cs"
proof (induction cs)
  case Nil
  then show ?case by simp
next
  case (Cons c cs)
  then show ?case by (cases "runs cs") auto
qed

lemma fst_runs_set: "fst ` set (runs cs) = set cs"
proof (induction cs)
  case Nil
  then show ?case by simp
next
  case (Cons c cs)
  show ?case
  proof (cases "runs cs")
    case Nil
    then show ?thesis by simp
  next
    case (Cons r rs)
    then show ?thesis using \<open>fst ` set (runs cs) = set cs\<close> by (cases r; cases "c = fst r") auto
  qed
qed

text \<open>In a sorted array the runs are the ranks in increasing order, with their multiplicities.\<close>

lemma runs_sorted:
  fixes cs :: "'a::linorder list"
  shows "sorted cs \<Longrightarrow> sorted_wrt (<) (map fst (runs cs))"
proof (induction cs)
  case Nil
  then show ?case by simp
next
  case (Cons c cs)
  show ?case
  proof (cases "runs cs")
    case Nil
    then show ?thesis by simp
  next
    case (Cons r rs)
    obtain d k where r: "r = (d, k)" by (cases r)
    have "d \<in> set cs" using fst_runs_set [of cs] Cons r by force
    then have "c \<le> d" using Cons.prems by simp
    moreover have "sorted_wrt (<) (map fst (runs cs))" using Cons.IH Cons.prems by simp
    ultimately show ?thesis using Cons r by auto
  qed
qed

lemma count_runs: "count_list cs x = sum_list (map snd (filter (\<lambda>r. fst r = x) (runs cs)))"
proof (induction cs)
  case Nil
  then show ?case by simp
next
  case (Cons c cs)
  then show ?case by (cases "runs cs") auto
qed

lemma runs_count:
  fixes cs :: "'a::linorder list"
  assumes "sorted cs" and "(x, k) \<in> set (runs cs)"
  shows "count_list cs x = k"
proof -
  have dist: "distinct (map fst (runs cs))"
    using runs_sorted [OF assms(1)] strict_sorted_iff by blast
  then have "filter (\<lambda>r. fst r = x) (runs cs) = [(x, k)]"
    using assms(2)
  proof (induction "runs cs" arbitrary: cs rule: list.induct)
    case Nil
    then show ?case by simp
  next
    case (Cons r rs)
    have *: "filter (\<lambda>r. fst r = x) rs = [(x, k)]"
      if "distinct (map fst rs)" "(x, k) \<in> set rs" for rs
      using that
    proof (induction rs)
      case (Cons s rs)
      then show ?case by (cases s) (auto simp: filter_empty_conv rev_image_eqI)
    qed simp
    then show ?case using Cons.prems by blast
  qed
  then show ?thesis by (simp add: count_runs)
qed

text \<open>A run is a stretch of equal cards.\<close>

lemma runs_stretch:
  assumes "(x, k) \<in> set (runs cs)"
  obtains p where "p + k \<le> length cs" "\<And>j. j < k \<Longrightarrow> cs ! (p + j) = x"
proof -
  obtain as bs where "runs cs = as @ (x, k) # bs"
    using assms by (meson split_list)
  then have cs: "cs = concat (map (\<lambda>(x, k). replicate k x) as) @ replicate k x @
      concat (map (\<lambda>(x, k). replicate k x) bs)" (is "_ = ?l @ _ @ _")
    using runs_expand [of cs] by simp
  then have "length ?l + k \<le> length cs" by simp
  moreover have "cs ! (length ?l + j) = x" if "j < k" for j
    using that by (subst cs) (simp add: nth_append)
  ultimately show thesis by (rule that)
qed

section \<open>The scanning loop\<close>

text \<open>
  The body of the loop: \<open>guard\<close> is the early exit at the top, \<open>inc\<close> counts one more card of
  the current run, \<open>sw\<close> is the switch at the end of a run and \<open>fin\<close> the extra treatment of a
  last card that differs from its predecessor.
\<close>

definition run_body ::
    "('s \<Rightarrow> bool) \<Rightarrow> 'r \<Rightarrow> ('s \<Rightarrow> 's) \<Rightarrow> ('a \<Rightarrow> 's \<Rightarrow> ('r, 's) flow) \<Rightarrow> ('a \<Rightarrow> 's \<Rightarrow> ('r, 's) flow)
      \<Rightarrow> 'a list \<Rightarrow> nat \<Rightarrow> 's \<Rightarrow> ('r, 's) flow" where
  "run_body guard stop inc sw fin cards i s =
     (if guard s then Ret stop
      else let same = (cards ! i = cards ! (i - 1));
               s = (if same then inc s else s)
           in if same \<and> i < length cards - 1 then Next s
              else fbind (sw (cards ! (i - 1)) s)
                (\<lambda>s. if i = length cards - 1 \<and> cards ! i \<noteq> cards ! (i - 1) then fin (cards ! i) s
                     else Next s))"

text \<open>The same work as a pass over the runs.\<close>

fun run_proc ::
    "('s \<Rightarrow> bool) \<Rightarrow> 'r \<Rightarrow> ('s \<Rightarrow> 's) \<Rightarrow> ('a \<Rightarrow> 's \<Rightarrow> ('r, 's) flow) \<Rightarrow> ('a \<Rightarrow> 's \<Rightarrow> ('r, 's) flow)
      \<Rightarrow> ('a \<times> nat) list \<Rightarrow> 's \<Rightarrow> ('r, 's) flow" where
  "run_proc guard stop inc sw fin [] s = Next s"
| "run_proc guard stop inc sw fin [(x, k)] s =
     (if k = 1 then fin x s
      else if guard s then Ret stop else sw x ((inc ^^ (k - 1)) s))"
| "run_proc guard stop inc sw fin ((x, k) # r # rs) s =
     (if guard s then Ret stop
      else fbind (sw x ((inc ^^ (k - 1)) s)) (run_proc guard stop inc sw fin (r # rs)))"

text \<open>The loop as a recursion over the cards that are left, with the card before them.\<close>

fun run_scan ::
    "('s \<Rightarrow> bool) \<Rightarrow> 'r \<Rightarrow> ('s \<Rightarrow> 's) \<Rightarrow> ('a \<Rightarrow> 's \<Rightarrow> ('r, 's) flow) \<Rightarrow> ('a \<Rightarrow> 's \<Rightarrow> ('r, 's) flow)
      \<Rightarrow> 'a \<Rightarrow> 'a list \<Rightarrow> 's \<Rightarrow> ('r, 's) flow" where
  "run_scan guard stop inc sw fin p [] s = Next s"
| "run_scan guard stop inc sw fin p (c # cs) s =
     (if guard s then Ret stop
      else if c = p \<and> cs \<noteq> [] then run_scan guard stop inc sw fin c cs (inc s)
      else fbind (sw p (if c = p then inc s else s))
        (\<lambda>s. if cs = [] \<and> c \<noteq> p then fin c s else run_scan guard stop inc sw fin c cs s))"

lemma for_loop_run_scan:
  "1 \<le> i \<Longrightarrow> i \<le> length cards \<Longrightarrow>
   for_loop (run_body guard stop inc sw fin cards) [i..<length cards] s =
   run_scan guard stop inc sw fin (cards ! (i - 1)) (drop i cards) s"
proof (induction "length cards - i" arbitrary: i s)
  case 0
  then show ?case by simp
next
  case (Suc n)
  then have i: "i < length cards" by simp
  have upt: "[i..<length cards] = i # [Suc i..<length cards]"
    using i by (simp add: upt_conv_Cons)
  have drp: "drop i cards = cards ! i # drop (Suc i) cards"
    using i by (simp add: Cons_nth_drop_Suc)
  have IH: "for_loop (run_body guard stop inc sw fin cards) [Suc i..<length cards] t =
      run_scan guard stop inc sw fin (cards ! i) (drop (Suc i) cards) t" for t
    using Suc.hyps(1) [of "Suc i" t] Suc.hyps(2) i by simp
  show ?case
  proof (cases "Suc i = length cards")
    case True
    then have "drop (Suc i) cards = []" "[Suc i..<length cards] = []" "i = length cards - 1"
      "\<not> i < length cards - 1"
      by auto
    then show ?thesis
      unfolding upt drp
      by (simp add: for_loop_Cons run_body_def Let_def fbind_assoc fbind_def split: flow.splits)
  next
    case False
    then have "drop (Suc i) cards \<noteq> []" "i \<noteq> length cards - 1" "i < length cards - 1"
      using i by auto
    then show ?thesis
      unfolding upt drp
      by (simp add: for_loop_Cons run_body_def Let_def fbind_assoc fbind_def IH split: flow.splits
          del: for_loop.simps)
  qed
qed

text \<open>
  What the loop body has to satisfy: counting a card does not change the early exit.
\<close>

locale run_scanner =
  fixes guard :: "'s \<Rightarrow> bool" and stop :: 'r and inc :: "'s \<Rightarrow> 's"
    and sw :: "'a \<Rightarrow> 's \<Rightarrow> ('r, 's) flow" and fin :: "'a \<Rightarrow> 's \<Rightarrow> ('r, 's) flow"
  assumes guard_inc: "guard (inc s) = guard s"
begin

lemma scan_runs:
  "rest \<noteq> [] \<Longrightarrow>
   run_scan guard stop inc sw fin p rest s = run_proc guard stop inc sw fin (runs (p # rest)) s"
proof (induction rest arbitrary: p s)
  case Nil
  then show ?case by simp
next
  case (Cons c cs)
  obtain k rs where r: "runs (c # cs) = (c, Suc k) # rs" by (rule runs_Cons_obtain)
  show ?case
  proof (cases "cs = []")
    case True
    then show ?thesis by (auto simp: fbind_def split: flow.splits)
  next
    case False
    then have IH: "run_scan guard stop inc sw fin c cs t =
        run_proc guard stop inc sw fin ((c, Suc k) # rs) t" for t
      using Cons.IH [of c t] r by simp
    have long: "k = 0 \<Longrightarrow> rs \<noteq> []"
      using False sum_runs [of "c # cs"] r by auto
    show ?thesis
    proof (cases "c = p")
      case True
      then have pc: "p = c" by simp
      have runs_p: "runs (c # c # cs) = (c, Suc (Suc k)) # rs"
        using r by (simp del: runs.simps(2) add: runs.simps(2) [of c "c # cs"])
      have pw: "(inc ^^ k) (inc s) = (inc ^^ Suc k) s"
        by (simp add: funpow_swap1)
      show ?thesis
        unfolding pc using False long
        by (cases rs) (auto simp: IH runs_p guard_inc pw simp del: funpow.simps runs.simps)
    next
      case neq: False
      have runs_p: "runs (p # c # cs) = (p, 1) # (c, Suc k) # rs"
        using r neq by (simp del: runs.simps(2) add: runs.simps(2) [of p])
      show ?thesis
        using neq False by (auto simp: IH runs_p simp del: runs.simps intro!: arg_cong [where f = "fbind _"])
    qed
  qed
qed

lemma loop_runs:
  assumes "2 \<le> length cards"
  shows "for_loop (run_body guard stop inc sw fin cards) [1..<length cards] s =
         run_proc guard stop inc sw fin (runs cards) s"
proof -
  obtain c cs where c: "cards = c # cs" "cs \<noteq> []"
    using assms by (cases cards; cases "tl cards") auto
  have "for_loop (run_body guard stop inc sw fin cards) [1..<length cards] s =
      run_scan guard stop inc sw fin c cs s"
    using for_loop_run_scan [of 1 cards guard stop inc sw fin s] assms c by simp
  also have "\<dots> = run_proc guard stop inc sw fin (runs cards) s"
    using scan_runs [OF c(2)] c(1) by simp
  finally show ?thesis .
qed

end

end
