(* ===== verification/PokerParser.thy ===== *)
theory PokerParser
  imports PokerInfo CardRuns
begin

text \<open>
  The card-group parser (\<^verbatim>\<open>src/src/ddz/poker_parser.cpp\<close>). A card array is the list of its rank
  characters, so the parameter \<^verbatim>\<open>size\<close> of the source is the length of the list. The scanning
  loops keep the source's local variables and its fixed arrays of six characters; a write past
  such an array is the fault \<^verbatim>\<open>Out_of_bounds\<close>.
\<close>

section \<open>One card\<close>

definition is_poker :: "string \<Rightarrow> bool" where
  "is_poker poker_value =
     (if length poker_value \<noteq> 2 then False
      else if cchar (poker_value ! 0) < cchar (CHR ''A'') \<or> cchar (poker_value ! 0) > cchar (CHR ''O'')
      then False
      else if cchar (poker_value ! 1) < cchar (CHR ''1'') \<or> cchar (poker_value ! 1) > cchar (CHR ''4'')
      then False
      else if (poker_value ! 0 = CHR ''N'' \<or> poker_value ! 0 = CHR ''O'') \<and> poker_value ! 1 \<noteq> CHR ''1''
      then False
      else True)"

section \<open>Sorting\<close>

definition swap_step :: "nat \<Rightarrow> int list \<Rightarrow> int list" where
  "swap_step j cards =
     (if cards ! j > cards ! (j + 1) then cards[j := cards ! (j + 1), j + 1 := cards ! j] else cards)"

definition bubble_pass :: "nat \<Rightarrow> int list \<Rightarrow> int list" where
  "bubble_pass i cards = fold swap_step [0..<length cards - i - 1] cards"

definition sortCards :: "int list \<Rightarrow> int list" where
  "sortCards cards = fold bubble_pass [0..<length cards - 1] cards"

section \<open>Chains of single cards and of pairs\<close>

definition is_single_chain :: "int list \<Rightarrow> poker_info \<Rightarrow> bool \<times> poker_info" where
  "is_single_chain cards info =
     (if length cards < 5 then (False, info)
      else case for_loop
             (\<lambda>i _. if cards ! i \<ge> rank_M then Ret False
                    else if 0 < i \<and> cards ! i - cards ! (i - 1) \<noteq> 1 then Ret False
                    else Next ())
             [0..<length cards] () of
        Ret r \<Rightarrow> (r, info)
      | Next _ \<Rightarrow> (True, poker_info_set info SINGLE_CHAIN (cards ! 0) (int (length cards))))"

definition is_double_chain :: "int list \<Rightarrow> poker_info \<Rightarrow> bool \<times> poker_info" where
  "is_double_chain cards info =
     (if length cards mod 2 \<noteq> 0 \<or> length cards < 6 then (False, info)
      else case for_loop
             (\<lambda>i _. if cards ! i \<ge> rank_M then Ret False
                    else if i mod 2 \<noteq> 0
                    then (if cards ! i \<noteq> cards ! (i - 1) then Ret False else Next ())
                    else (if cards ! i - cards ! (i - 1) \<noteq> 1 then Ret False else Next ()))
             [1..<length cards] () of
        Ret r \<Rightarrow> (r, info)
      | Next _ \<Rightarrow> (True, poker_info_set info DOUBLE_CHAIN (cards ! 0) (int (length cards))))"

section \<open>Chains of triples\<close>

record tc_state =
  v3 :: "int list"
  v3Pos :: nat
  vx :: "int list"
  vxPos :: nat
  tc_sameNum :: nat
  tc_currNum :: nat

definition tc_init :: tc_state where
  "tc_init = \<lparr>v3 = replicate 6 chr_0, v3Pos = 0, vx = replicate 6 chr_0, vxPos = 0,
              tc_sameNum = 1, tc_currNum = 1\<rparr>"

definition push_v3 :: "int \<Rightarrow> tc_state \<Rightarrow> (bool result, tc_state) flow" where
  "push_v3 c s = attempt (put (v3 s) (v3Pos s) c) (\<lambda>a. Next (s\<lparr>v3 := a, v3Pos := v3Pos s + 1\<rparr>))"

definition push_vx :: "int \<Rightarrow> tc_state \<Rightarrow> (bool result, tc_state) flow" where
  "push_vx c s = attempt (put (vx s) (vxPos s) c) (\<lambda>a. Next (s\<lparr>vx := a, vxPos := vxPos s + 1\<rparr>))"

text \<open>The \<^verbatim>\<open>switch (sameNum)\<close>, at the end of a run of the card \<^verbatim>\<open>c\<close>.\<close>

definition tc_switch :: "int \<Rightarrow> tc_state \<Rightarrow> (bool result, tc_state) flow" where
  "tc_switch c s =
     (if tc_sameNum s = 4 then Ret (Inr False)
      else if tc_sameNum s = 3 then fbind (push_v3 c s) (\<lambda>s. Next (s\<lparr>tc_sameNum := 1\<rparr>))
      else if tc_sameNum s > 4 then Ret (Inr False)
      else fbind
        (if tc_sameNum s \<noteq> tc_currNum s
         then (if vxPos s = 0 then push_vx c (s\<lparr>tc_currNum := tc_sameNum s\<rparr>) else Ret (Inr False))
         else push_vx c s)
        (\<lambda>s. Next (s\<lparr>tc_sameNum := 1\<rparr>)))"

definition tc_body :: "int list \<Rightarrow> nat \<Rightarrow> tc_state \<Rightarrow> (bool result, tc_state) flow" where
  "tc_body cards i s =
     (if v3Pos s \<ge> 6 \<or> vxPos s \<ge> 6 then Ret (Inr False)
      else let same = (cards ! i = cards ! (i - 1));
               s = (if same then s\<lparr>tc_sameNum := tc_sameNum s + 1\<rparr> else s)
           in if same \<and> i < length cards - 1 then Next s
              else fbind (tc_switch (cards ! (i - 1)) s)
                (\<lambda>s. if i = length cards - 1 \<and> cards ! i \<noteq> cards ! (i - 1)
                     then (if tc_currNum s \<noteq> 1 then Ret (Inr False) else push_vx (cards ! i) s)
                     else Next s))"

definition tc_chained :: "tc_state \<Rightarrow> bool" where
  "tc_chained s = (\<forall>i \<in> set [1..<v3Pos s]. v3 s ! i - v3 s ! (i - 1) = 1 \<and> v3 s ! i < rank_M)"

definition tc_finish :: "nat \<Rightarrow> tc_state \<Rightarrow> poker_info \<Rightarrow> bool \<times> poker_info" where
  "tc_finish n s info =
     (if v3Pos s > 1 \<and> \<not> tc_chained s then (False, info)
      else
        let info =
          (if v3Pos s > 1
           then (if v3Pos s = vxPos s
                 then (if tc_currNum s = 2 then info\<lparr>pi_type := THREE_CHAIN_DOUBLE\<rparr>
                       else if tc_currNum s = 1 then info\<lparr>pi_type := TRHEE_CHAIN_SINGLE\<rparr>
                       else info)
                 else if vxPos s = 0 then info\<lparr>pi_type := THREE_CHAIN\<rparr>
                 else info)\<lparr>pi_length := int n\<rparr>
           else info)
        in if pi_type info \<noteq> ERR then (True, info\<lparr>pi_value := v3 s ! 0\<rparr>) else (False, info))"

definition is_three_chain :: "int list \<Rightarrow> poker_info \<Rightarrow> (bool \<times> poker_info) result" where
  "is_three_chain cards info =
     (case for_loop (tc_body cards) [1..<length cards] tc_init of
        Ret r \<Rightarrow> ebind r (\<lambda>b. Inr (b, info))
      | Next s \<Rightarrow> Inr (tc_finish (length cards) s info))"

section \<open>A triple or a quadruple with kickers\<close>

record tf_state =
  mainVal :: int
  mainVals :: nat
  incidentalValNum :: nat
  incidentalVals :: nat
  tf_sameNum :: nat

definition tf_init :: tf_state where
  "tf_init = \<lparr>mainVal = 0, mainVals = 0, incidentalValNum = 0, incidentalVals = 1, tf_sameNum = 1\<rparr>"

definition tf_switch :: "int \<Rightarrow> tf_state \<Rightarrow> (bool, tf_state) flow" where
  "tf_switch c s =
     (if tf_sameNum s = 4 then
        (if mainVal s \<noteq> 0 then Ret False
         else Next (s\<lparr>mainVal := c, mainVals := 4, tf_sameNum := 1\<rparr>))
      else if tf_sameNum s = 3 then
        (if mainVal s \<noteq> 0 then Ret False
         else Next (s\<lparr>mainVal := c, mainVals := 3, tf_sameNum := 1\<rparr>))
      else if tf_sameNum s > 4 then Ret False
      else if tf_sameNum s \<noteq> incidentalVals s then
        (if incidentalValNum s = 0
         then Next (s\<lparr>incidentalVals := tf_sameNum s, incidentalValNum := incidentalValNum s + 1,
                      tf_sameNum := 1\<rparr>)
         else Ret False)
      else Next (s\<lparr>incidentalValNum := incidentalValNum s + 1, tf_sameNum := 1\<rparr>))"

definition tf_body :: "int list \<Rightarrow> nat \<Rightarrow> tf_state \<Rightarrow> (bool, tf_state) flow" where
  "tf_body cards i s =
     (let same = (cards ! i = cards ! (i - 1));
          s = (if same then s\<lparr>tf_sameNum := tf_sameNum s + 1\<rparr> else s)
      in if same \<and> i < length cards - 1 then Next s
         else fbind (tf_switch (cards ! (i - 1)) s)
           (\<lambda>s. if i = length cards - 1 \<and> cards ! i \<noteq> cards ! (i - 1)
                then (if incidentalVals s \<noteq> 1 then Ret False
                      else Next (s\<lparr>incidentalValNum := incidentalValNum s + 1\<rparr>))
                else Next s))"

definition tf_finish :: "nat \<Rightarrow> tf_state \<Rightarrow> poker_info \<Rightarrow> bool \<times> poker_info" where
  "tf_finish n s info =
     (let info =
        (if mainVals s = 3 then
           (if incidentalValNum s = 0 then info\<lparr>pi_type := THREE\<rparr>
            else if incidentalValNum s = 1 then
              (let info = (if incidentalVals s = 1 then info\<lparr>pi_type := THREE_ONE\<rparr> else info)
               in if incidentalVals s = 2 then info\<lparr>pi_type := THREE_DOUBLE\<rparr> else info)
            else info)
         else if mainVals s = 4 then
           (if incidentalValNum s = 0 then info\<lparr>pi_type := BOMB\<rparr>
            else if incidentalValNum s = 1 then
              (if incidentalVals s = 2 then info\<lparr>pi_type := FOUR_TWO_SINGLE\<rparr> else info)
            else if incidentalValNum s = 2 then
              (if incidentalVals s = 1 then info\<lparr>pi_type := FOUR_TWO_SINGLE\<rparr>
               else if incidentalVals s = 2 then info\<lparr>pi_type := FOUR_TWO_DOUBLE\<rparr>
               else info)
            else info)
         else info)
      in if pi_type info \<noteq> ERR
         then (True, info\<lparr>pi_value := mainVal s, pi_length := int n\<rparr>)
         else (False, info))"

definition is_three_or_four_and_single_or_double ::
    "int list \<Rightarrow> poker_info \<Rightarrow> bool \<times> poker_info" where
  "is_three_or_four_and_single_or_double cards info =
     (case for_loop (tf_body cards) [1..<length cards] tf_init of
        Ret r \<Rightarrow> (r, info)
      | Next s \<Rightarrow> tf_finish (length cards) s info)"

section \<open>Comparing and parsing\<close>

definition is_large :: "poker_info \<Rightarrow> poker_info \<Rightarrow> bool" where
  "is_large pi1 pi2 =
     (if pi_type pi1 = pi_type pi2
      then pi_value pi1 > pi_value pi2 \<and> pi_length pi1 = pi_length pi2
      else if pi_type pi2 = ZERO \<and> pi_type pi1 \<noteq> ERR then True
      else if pi_type pi1 = DOUBLE_JOKER then True
      else if pi_type pi1 = BOMB \<and> pi_type pi2 \<noteq> DOUBLE_JOKER then True
      else False)"

text \<open>
  The checks that \<^verbatim>\<open>parse\<close> tries one after the other, until one succeeds; a failed check hands
  on what it left in \<^verbatim>\<open>pi\<close>.
\<close>

fun first_match ::
    "(int list \<Rightarrow> poker_info \<Rightarrow> (bool \<times> poker_info) result) list \<Rightarrow> int list \<Rightarrow> poker_info
      \<Rightarrow> poker_info result" where
  "first_match [] cards info = Inr info"
| "first_match (f # fs) cards info =
     ebind (f cards info) (\<lambda>(found, info). if found then Inr info else first_match fs cards info)"

definition single_chain_check :: "int list \<Rightarrow> poker_info \<Rightarrow> (bool \<times> poker_info) result" where
  "single_chain_check cards info = Inr (is_single_chain cards info)"

definition double_chain_check :: "int list \<Rightarrow> poker_info \<Rightarrow> (bool \<times> poker_info) result" where
  "double_chain_check cards info = Inr (is_double_chain cards info)"

definition three_or_four_check :: "int list \<Rightarrow> poker_info \<Rightarrow> (bool \<times> poker_info) result" where
  "three_or_four_check cards info = Inr (is_three_or_four_and_single_or_double cards info)"

definition parse_sorted :: "int list \<Rightarrow> poker_info \<Rightarrow> poker_info result" where
  "parse_sorted cards info =
     (let n = length cards in
      if n = 1 then Inr (poker_info_set info SINGLE (cards ! 0) 1)
      else if n = 2 then
        (if cards ! 0 = cards ! 1 then Inr (poker_info_set info DOUBLE (cards ! 0) 2)
         else if cards ! 0 = rank_N \<and> cards ! 1 = rank_O
         then Inr (poker_info_set info DOUBLE_JOKER (cards ! 0) 2)
         else Inr info)
      else if n = 3 then
        (if cards ! 0 = cards ! 1 \<and> cards ! 1 = cards ! 2 \<and> cards ! 0 < rank_N
         then Inr (poker_info_set info THREE (cards ! 0) 3) else Inr info)
      else if n = 4 then first_match [three_or_four_check] cards info
      else if n = 5 then first_match [single_chain_check, three_or_four_check] cards info
      else if n = 6 then
        first_match [single_chain_check, double_chain_check, is_three_chain, three_or_four_check]
          cards info
      else if n = 7 then first_match [single_chain_check] cards info
      else if n = 8 then
        first_match [single_chain_check, double_chain_check, three_or_four_check, is_three_chain]
          cards info
      else first_match
        ([is_three_chain, single_chain_check] @ (if n mod 2 = 0 then [double_chain_check] else []))
        cards info)"

text \<open>\<^verbatim>\<open>parse\<close> sorts the caller's array in place; the sorted array is part of the result.\<close>

definition parse :: "int list \<Rightarrow> poker_info \<Rightarrow> (int list \<times> poker_info) result" where
  "parse cards info =
     (let info = poker_info_set info ERR chr_0 0 in
      if length cards \<ge> 20 then Inr (cards, info)
      else let cards = sortCards cards
           in ebind (parse_sorted cards info) (\<lambda>info. Inr (cards, info)))"

section \<open>The sorting loop sorts\<close>

lemma length_swap_step [simp]: "length (swap_step j cards) = length cards"
  by (simp add: swap_step_def)

lemma mset_swap_step: "j + 1 < length cards \<Longrightarrow> mset (swap_step j cards) = mset cards"
  using mset_swap [of "j + 1" cards j] by (simp add: swap_step_def)

lemma length_fold_swap [simp]: "length (fold swap_step js cards) = length cards"
  by (induction js arbitrary: cards) simp_all

lemma mset_fold_swap:
  "(\<And>j. j \<in> set js \<Longrightarrow> j + 1 < length cards) \<Longrightarrow> mset (fold swap_step js cards) = mset cards"
  by (induction js arbitrary: cards) (simp_all add: mset_swap_step)

text \<open>After the first \<open>k\<close> comparisons of a pass, position \<open>k\<close> holds the largest card so far.\<close>

lemma swap_prefix:
  assumes "k < length xs"
  defines "ys \<equiv> fold swap_step [0..<k] xs"
  shows "(\<forall>q. k < q \<longrightarrow> ys ! q = xs ! q) \<and> (\<forall>p \<le> k. ys ! p \<le> ys ! k) \<and>
         (\<forall>p \<le> k. \<exists>r \<le> k. ys ! p = xs ! r)"
  using assms(1) unfolding ys_def
proof (induction k)
  case 0
  then show ?case by simp
next
  case (Suc k)
  define zs where "zs = fold swap_step [0..<k] xs"
  have IH: "\<forall>q. k < q \<longrightarrow> zs ! q = xs ! q" "\<forall>p \<le> k. zs ! p \<le> zs ! k"
      "\<forall>p \<le> k. \<exists>r \<le> k. zs ! p = xs ! r"
    using Suc by (simp_all add: zs_def)
  have len: "length zs = length xs" by (simp add: zs_def)
  have eq: "fold swap_step [0..<Suc k] xs = swap_step k zs"
    by (simp add: zs_def)
  have nth: "swap_step k zs ! p =
      (if p = k then min (zs ! k) (zs ! Suc k) else if p = Suc k then max (zs ! k) (zs ! Suc k)
       else zs ! p)" for p
    using Suc.prems len by (auto simp: swap_step_def nth_list_update min_def max_def)
  have "\<exists>r \<le> Suc k. swap_step k zs ! p = xs ! r" if "p \<le> Suc k" for p
  proof (cases "p < k")
    case True
    then obtain r where "r \<le> k" "zs ! p = xs ! r" using IH(3) by (meson less_imp_le_nat)
    with True show ?thesis by (auto simp: nth intro!: exI [of _ r])
  next
    case False
    obtain r where "r \<le> k" "zs ! k = xs ! r" using IH(3) by blast
    with False that IH(1) show ?thesis
      by (auto simp: nth le_Suc_eq min_def max_def intro: exI [of _ r] exI [of _ "Suc k"])
  qed
  moreover have "swap_step k zs ! p \<le> swap_step k zs ! Suc k" if "p \<le> Suc k" for p
    using that IH(2) by (auto simp: nth le_Suc_eq min_def max_def)
  moreover have "\<forall>q. Suc k < q \<longrightarrow> swap_step k zs ! q = xs ! q"
    using IH(1) by (simp add: nth)
  ultimately show ?case unfolding eq by blast
qed

lemma length_bubble_pass [simp]: "length (bubble_pass i cards) = length cards"
  by (simp add: bubble_pass_def)

lemma mset_bubble_pass: "mset (bubble_pass i cards) = mset cards"
  unfolding bubble_pass_def by (rule mset_fold_swap) auto

lemma length_fold_bubble [simp]: "length (fold bubble_pass is cards) = length cards"
  by (induction "is" arbitrary: cards) simp_all

lemma mset_sortCards: "mset (sortCards cards) = mset cards"
proof -
  have "mset (fold bubble_pass is cards) = mset cards" for "is"
    by (induction "is" arbitrary: cards) (simp_all add: mset_bubble_pass)
  then show ?thesis by (simp add: sortCards_def)
qed

text \<open>After \<open>i\<close> passes the last \<open>i\<close> positions hold their final cards.\<close>

lemma bubble_passes:
  assumes "i \<le> length cards - 1" "p < q" "q < length cards" "length cards - i \<le> q"
  shows "fold bubble_pass [0..<i] cards ! p \<le> fold bubble_pass [0..<i] cards ! q"
  using assms
proof (induction i arbitrary: p q)
  case 0
  then show ?case by simp
next
  case (Suc i)
  define xs where "xs = fold bubble_pass [0..<i] cards"
  define k where "k = length cards - i - 1"
  have len: "length xs = length cards" by (simp add: xs_def)
  have k: "k < length xs" using Suc.prems len by (simp add: k_def)
  have pass: "bubble_pass i xs = fold swap_step [0..<k] xs"
    by (simp add: bubble_pass_def k_def len)
  note pre = swap_prefix [OF k, folded pass]
  have old: "xs ! a \<le> xs ! b" if "a < b" "b < length cards" "k < b" for a b
    unfolding xs_def by (rule Suc.IH) (use that Suc.prems in \<open>auto simp: k_def\<close>)
  have "bubble_pass i xs ! p \<le> bubble_pass i xs ! q"
  proof (cases "q = k")
    case True
    with pre Suc.prems show ?thesis by auto
  next
    case False
    with Suc.prems have q: "k < q" by (auto simp: k_def)
    then have eq: "bubble_pass i xs ! q = xs ! q" using pre by blast
    show ?thesis
    proof (cases "p \<le> k")
      case True
      then obtain r where "r \<le> k" "bubble_pass i xs ! p = xs ! r" using pre by blast
      with q eq old [of r q] Suc.prems show ?thesis by auto
    next
      case False
      then have "bubble_pass i xs ! p = xs ! p" using pre by auto
      with eq old [of p q] q Suc.prems show ?thesis by simp
    qed
  qed
  then show ?case by (simp add: xs_def)
qed

lemma sorted_sortCards: "sorted (sortCards cards)"
proof -
  have "sortCards cards ! p \<le> sortCards cards ! q" if "p < q" "q < length cards" for p q
    unfolding sortCards_def by (rule bubble_passes) (use that in auto)
  then show ?thesis
    by (auto simp: sorted_iff_nth_mono_less sortCards_def)
qed

interpretation card_sort: sorting sortCards
  by unfold_locales (rule sorted_sortCards mset_sortCards)+

section \<open>Chains of triples: what the scan computes\<close>

text \<open>
  The runs of three cards and the others, and the shapes that make a chain of triples: at least
  two runs of three with consecutive ranks below the 2, and either nothing else or as many
  kickers as triples, all singles or all pairs.
\<close>

definition triples :: "('a \<times> nat) list \<Rightarrow> 'a list" where
  "triples rs = map fst (filter (\<lambda>r. snd r = 3) rs)"

definition extras :: "('a \<times> nat) list \<Rightarrow> ('a \<times> nat) list" where
  "extras rs = filter (\<lambda>r. snd r \<noteq> 3) rs"

definition uniform_extras :: "('a \<times> nat) list \<Rightarrow> bool" where
  "uniform_extras rs = (\<forall>r \<in> set (extras rs). snd r = snd (hd (extras rs)))"

definition chained :: "int list \<Rightarrow> bool" where
  "chained vs = (\<forall>i \<in> set [1..<length vs]. vs ! i - vs ! (i - 1) = 1 \<and> vs ! i < rank_M)"

definition three_chain_type :: "(int \<times> nat) list \<Rightarrow> poker_type option" where
  "three_chain_type rs =
     (if (\<forall>r \<in> set rs. snd r \<le> 3) \<and> uniform_extras rs \<and> 2 \<le> length (triples rs) \<and> chained (triples rs)
      then (if extras rs = [] then Some THREE_CHAIN
            else if length (extras rs) = length (triples rs)
            then Some (if snd (hd (extras rs)) = 2 then THREE_CHAIN_DOUBLE else TRHEE_CHAIN_SINGLE)
            else None)
      else None)"

text \<open>
  The inputs on which the scan writes past \<^verbatim>\<open>vx[5]\<close>: seven single kickers, the last two of them
  at the end of the array.
\<close>

definition overflow_shape :: "(int \<times> nat) list \<Rightarrow> bool" where
  "overflow_shape rs =
     (length (extras rs) = 7 \<and> (\<forall>r \<in> set (extras rs). snd r = 1) \<and> (\<forall>r \<in> set rs. snd r \<le> 3) \<and>
      2 \<le> length rs \<and> snd (last rs) = 1 \<and> snd (last (butlast rs)) = 1)"

lemma triples_append [simp]: "triples (xs @ ys) = triples xs @ triples ys"
  by (simp add: triples_def)

lemma extras_append [simp]: "extras (xs @ ys) = extras xs @ extras ys"
  by (simp add: extras_def)

lemma triples_extras_simps [simp]:
  "triples [] = []" "extras [] = []"
  "triples ((x, k) # rs) = (if k = 3 then x # triples rs else triples rs)"
  "extras ((x, k) # rs) = (if k = 3 then extras rs else (x, k) # extras rs)"
  by (simp_all add: triples_def extras_def)

lemma weight_bound:
  "\<forall>r \<in> set rs. 0 < snd r \<Longrightarrow> 3 * length (triples rs) + length (extras rs) \<le> sum_list (map snd rs)"
  by (induction rs) auto

text \<open>The state of the scan after the runs \<open>done\<close>, and when it gets that far.\<close>

definition tc_after :: "(int \<times> nat) list \<Rightarrow> tc_state" where
  "tc_after rs =
     \<lparr>v3 = triples rs @ replicate (6 - length (triples rs)) chr_0, v3Pos = length (triples rs),
      vx = map fst (extras rs) @ replicate (6 - length (extras rs)) chr_0, vxPos = length (extras rs),
      tc_sameNum = 1, tc_currNum = (case extras rs of [] \<Rightarrow> 1 | r # _ \<Rightarrow> snd r)\<rparr>"

definition tc_ok :: "(int \<times> nat) list \<Rightarrow> bool" where
  "tc_ok rs = ((\<forall>r \<in> set rs. 0 < snd r \<and> snd r \<le> 3) \<and> uniform_extras rs \<and>
     length (triples rs) \<le> 6 \<and> length (extras rs) \<le> 6)"

abbreviation tc_guard :: "tc_state \<Rightarrow> bool" where
  "tc_guard s \<equiv> v3Pos s \<ge> 6 \<or> vxPos s \<ge> 6"

abbreviation tc_inc :: "tc_state \<Rightarrow> tc_state" where
  "tc_inc s \<equiv> s\<lparr>tc_sameNum := tc_sameNum s + 1\<rparr>"

definition tc_last :: "int \<Rightarrow> tc_state \<Rightarrow> (bool result, tc_state) flow" where
  "tc_last c s = (if tc_currNum s \<noteq> 1 then Ret (Inr False) else push_vx c s)"

abbreviation tc_proc :: "(int \<times> nat) list \<Rightarrow> tc_state \<Rightarrow> (bool result, tc_state) flow" where
  "tc_proc \<equiv> run_proc tc_guard (Inr False) tc_inc tc_switch tc_last"

lemma tc_body_run: "tc_body = run_body tc_guard (Inr False) tc_inc tc_switch tc_last"
  by (intro ext) (simp add: tc_body_def run_body_def tc_last_def Let_def fbind_def split: flow.splits)

interpretation tc_scan: run_scanner tc_guard "Inr False" tc_inc tc_switch tc_last
  by unfold_locales simp

lemma tc_init_after: "tc_init = tc_after []"
  by (simp add: tc_init_def tc_after_def)

lemma tc_inc_pow: "(tc_inc ^^ m) s = s\<lparr>tc_sameNum := tc_sameNum s + m\<rparr>"
  by (induction m) simp_all

lemma list_update_end: "n = length xs \<Longrightarrow> 0 < m \<Longrightarrow>
   (xs @ replicate m c)[n := x] = xs @ x # replicate (m - 1) c"
  by (cases m) (simp_all add: list_update_append)

lemma tc_switch_after:
  assumes "tc_ok rs" "length (triples rs) < 6" "length (extras rs) < 6" "0 < k"
  shows "tc_switch x ((tc_inc ^^ (k - 1)) (tc_after rs)) =
    (if k \<le> 3 \<and> uniform_extras (rs @ [(x, k)]) then Next (tc_after (rs @ [(x, k)]))
     else Ret (Inr False))"
proof -
  have curr: "extras rs = (y, m) # es \<Longrightarrow> 0 < m \<and> m < 3 \<and> (\<forall>a b. (a, b) \<in> set es \<longrightarrow> b = m)" for y m es
  proof -
    assume e: "extras rs = (y, m) # es"
    then have "(y, m) \<in> set (extras rs)" by simp
    then have "(y, m) \<in> set rs" "m \<noteq> 3" by (simp_all add: extras_def)
    with e assms(1) show ?thesis
      by (fastforce simp: tc_ok_def uniform_extras_def)
  qed
  have pw: "(tc_inc ^^ (k - 1)) (tc_after rs) = (tc_after rs)\<lparr>tc_sameNum := k\<rparr>"
    unfolding tc_inc_pow using assms(4) by (simp add: tc_after_def)
  consider "k = 3" | "k > 3" | "k = 1" | "k = 2" using assms(4) by linarith
  then have "tc_switch x ((tc_after rs)\<lparr>tc_sameNum := k\<rparr>) =
    (if k \<le> 3 \<and> uniform_extras (rs @ [(x, k)]) then Next (tc_after (rs @ [(x, k)]))
     else Ret (Inr False))"
  proof cases
    case 1
    then show ?thesis
      using assms by (simp add: tc_switch_def push_v3_def tc_after_def put_def
          list_update_end tc_ok_def uniform_extras_def)
  next
    case 2
    then show ?thesis
      by (simp add: tc_switch_def tc_after_def)
  next
    case 3
    then show ?thesis
      using assms curr
      by (cases "extras rs") (auto simp: tc_switch_def push_vx_def tc_after_def put_def
          list_update_end uniform_extras_def numeral_eq_Suc)
  next
    case 4
    then show ?thesis
      using assms curr
      by (cases "extras rs") (auto simp: tc_switch_def push_vx_def tc_after_def put_def
          list_update_end uniform_extras_def numeral_eq_Suc)
  qed
  then show ?thesis unfolding pw .
qed

text \<open>What the scan may answer on the runs \<open>rs\<close>.\<close>

definition tc_verdict :: "(int \<times> nat) list \<Rightarrow> (bool result, tc_state) flow \<Rightarrow> bool" where
  "tc_verdict rs f =
     (case f of
        Ret (Inl e) \<Rightarrow> e = Out_of_bounds \<and> overflow_shape rs
      | Ret (Inr b) \<Rightarrow> \<not> b \<and> \<not> overflow_shape rs \<and> three_chain_type rs = None
      | Next s \<Rightarrow> s = tc_after rs \<and> tc_ok rs \<and> \<not> overflow_shape rs)"

lemma uniform_extras_prefix: "uniform_extras (xs @ ys) \<Longrightarrow> uniform_extras xs"
  by (cases "extras xs") (auto simp: uniform_extras_def)

lemma overflow_uniform: "overflow_shape rs \<Longrightarrow> uniform_extras rs"
  by (cases "extras rs") (auto simp: overflow_shape_def uniform_extras_def)

lemma overflow_last_extras:
  assumes "overflow_shape (ds @ rs)" "2 \<le> length rs"
  shows "length (extras ds) + 2 \<le> 7"
proof -
  have "2 \<le> length (rev rs)" using assms(2) by simp
  then obtain b a ps where "rev rs = b # a # ps"
    by (cases "rev rs"; cases "tl (rev rs)") auto
  then have "rev (rev rs) = rev ps @ [a, b]" by simp
  then obtain qs where rs: "rs = qs @ [a, b]" by simp
  have "snd a = 1" "snd b = 1"
    using assms(1) by (auto simp: overflow_shape_def rs butlast_append)
  then have "length (extras (ds @ rs)) = length (extras ds) + length (extras qs) + 2"
    by (cases a; cases b) (simp add: rs)
  with assms(1) show ?thesis by (simp add: overflow_shape_def)
qed

lemma tc_guard_verdict:
  assumes "tc_guard (tc_after ds)" "\<forall>r \<in> set (ds @ rs). 0 < snd r"
    and "sum_list (map snd (ds @ rs)) \<le> 19" "2 \<le> sum_list (map snd rs)"
    and "length rs = 1 \<longrightarrow> snd (hd rs) \<noteq> 1" "rs \<noteq> []"
  shows "tc_verdict (ds @ rs) (Ret (Inr False))"
proof -
  have w: "3 * length (triples ds) + length (extras ds) \<le> sum_list (map snd ds)"
    by (rule weight_bound) (use assms in auto)
  have W: "3 * length (triples (ds @ rs)) + length (extras (ds @ rs)) \<le> 19"
    using weight_bound [OF assms(2)] assms(3) by linarith
  have six: "6 \<le> length (extras ds)"
    using assms(1,3,4) w by (auto simp: tc_after_def)
  have "\<not> overflow_shape (ds @ rs)"
  proof
    assume o: "overflow_shape (ds @ rs)"
    show False
    proof (cases "length rs = 1")
      case True
      then obtain r where "rs = [r]" by (cases rs) auto
      with o assms(5) show False by (simp add: overflow_shape_def)
    next
      case False
      with assms(6) have "2 \<le> length rs" by (cases rs; cases "tl rs") auto
      from overflow_last_extras [OF o this] six show False by simp
    qed
  qed
  moreover have "three_chain_type (ds @ rs) = None"
    using six W by (auto simp: three_chain_type_def)
  ultimately show ?thesis by (simp add: tc_verdict_def)
qed

lemma tc_stop_verdict:
  assumes "\<not> (k \<le> 3 \<and> uniform_extras (ds @ [(x, k)]))"
  shows "tc_verdict (ds @ (x, k) # rs) (Ret (Inr False))"
proof -
  have "\<not> uniform_extras (ds @ (x, k) # rs)" if "k \<le> 3"
    using assms that uniform_extras_prefix [of "ds @ [(x, k)]" rs] by auto
  then have "\<not> ((\<forall>r \<in> set (ds @ (x, k) # rs). snd r \<le> 3) \<and> uniform_extras (ds @ (x, k) # rs))"
    by auto
  then have "\<not> overflow_shape (ds @ (x, k) # rs)" "three_chain_type (ds @ (x, k) # rs) = None"
    using overflow_uniform [of "ds @ (x, k) # rs"]
    unfolding three_chain_type_def overflow_shape_def by metis+
  then show ?thesis by (simp add: tc_verdict_def)
qed

lemma tc_last_verdict:
  assumes "tc_ok ds" and "length (extras ds) = 6 \<Longrightarrow> ds \<noteq> [] \<and> length (extras (butlast ds)) < 6"
  shows "tc_verdict (ds @ [(x, 1)]) (tc_last x (tc_after ds))"
proof (cases "extras ds = [] \<or> snd (hd (extras ds)) = 1")
  case False
  then have "\<not> uniform_extras (ds @ [(x, 1)])"
    by (cases "extras ds") (auto simp: uniform_extras_def)
  then have "tc_verdict (ds @ [(x, 1)]) (Ret (Inr False))"
    using overflow_uniform [of "ds @ [(x, 1)]"] by (auto simp: tc_verdict_def three_chain_type_def)
  with False show ?thesis by (cases "extras ds") (simp_all add: tc_last_def tc_after_def)
next
  case True
  then have curr: "tc_currNum (tc_after ds) = 1"
    by (cases "extras ds") (auto simp: tc_after_def)
  have all1: "\<forall>r \<in> set (extras ds). snd r = 1"
    using True assms(1) by (auto simp: tc_ok_def uniform_extras_def)
  show ?thesis
  proof (cases "length (extras ds) < 6")
    case True
    have "tc_ok (ds @ [(x, 1)])"
      using assms(1) all1 True by (cases "extras ds") (auto simp: tc_ok_def uniform_extras_def)
    moreover have "\<not> overflow_shape (ds @ [(x, 1)])"
      using True by (simp add: overflow_shape_def)
    moreover have "tc_last x (tc_after ds) = Next (tc_after (ds @ [(x, 1)]))"
      using True curr all1 by (cases "extras ds")
        (auto simp: tc_last_def push_vx_def tc_after_def put_def list_update_end numeral_eq_Suc)
    ultimately show ?thesis by (simp add: tc_verdict_def)
  next
    case False
    then have six: "length (extras ds) = 6" using assms(1) by (simp add: tc_ok_def)
    with assms(2) have ne: "ds \<noteq> []" and bl: "length (extras (butlast ds)) < 6" by auto
    have "extras ds = extras (butlast ds) @ extras [last ds]"
      using ne by (metis append_butlast_last_id extras_append)
    with six bl have "extras [last ds] \<noteq> []" "last ds \<in> set (extras ds)"
      by (auto simp: extras_def split: if_splits)
    then have "snd (last ds) = 1" using all1 by blast
    then have "overflow_shape (ds @ [(x, 1)])"
      using six all1 ne assms(1) by (auto simp: overflow_shape_def tc_ok_def Suc_le_eq)
    moreover have "tc_last x (tc_after ds) = Ret (Inl Out_of_bounds)"
      using six curr by (simp add: tc_last_def push_vx_def) (simp add: tc_after_def put_def)
    ultimately show ?thesis by (simp add: tc_verdict_def)
  qed
qed

lemma tc_proc_verdict:
  assumes "tc_ok ds" and "rs \<noteq> []" and "\<forall>r \<in> set rs. 0 < snd r"
    and "sum_list (map snd (ds @ rs)) \<le> 19"
    and "ds \<noteq> [] \<Longrightarrow> length (extras (butlast ds)) < 6 \<and> length (triples (butlast ds)) < 6"
  shows "tc_verdict (ds @ rs) (tc_proc rs (tc_after ds))"
  using assms
proof (induction rs arbitrary: ds)
  case Nil
  then show ?case by simp
next
  case (Cons r rs)
  obtain x k where r: "r = (x, k)" by (cases r)
  have k: "0 < k" and pos: "\<forall>r \<in> set (ds @ (x, k) # rs). 0 < snd r"
    using Cons.prems r by (auto simp: tc_ok_def)
  show ?case
  proof (cases "rs = [] \<and> k = 1")
    case True
    have "length (extras ds) = 6 \<Longrightarrow> ds \<noteq> [] \<and> length (extras (butlast ds)) < 6"
      using Cons.prems(5) by (cases "ds = []") auto
    with Cons.prems(1) have "tc_verdict (ds @ [(x, 1)]) (tc_last x (tc_after ds))"
      by (rule tc_last_verdict)
    then show ?thesis using True r by simp
  next
    case False
    show ?thesis
    proof (cases "tc_guard (tc_after ds)")
      case True
      have heavy: "2 \<le> sum_list (map snd ((x, k) # rs))"
        using False k pos by (cases rs) auto
      have "tc_verdict (ds @ (x, k) # rs) (Ret (Inr False))"
        by (rule tc_guard_verdict [OF True pos]) (use heavy False r Cons.prems in auto)
      then show ?thesis using True False r by (cases rs) auto
    next
      case noguard: False
      then have room: "length (triples ds) < 6" "length (extras ds) < 6"
        by (simp_all add: tc_after_def)
      note sw = tc_switch_after [OF Cons.prems(1) room k, of x]
      show ?thesis
      proof (cases "k \<le> 3 \<and> uniform_extras (ds @ [(x, k)])")
        case stop: False
        then have "tc_verdict (ds @ (x, k) # rs) (Ret (Inr False))"
          by (rule tc_stop_verdict)
        moreover have "tc_proc (r # rs) (tc_after ds) = Ret (Inr False)"
          using noguard False sw stop r by (cases rs) auto
        ultimately show ?thesis using r by simp
      next
        case go: True
        then have ok: "tc_ok (ds @ [(x, k)])"
          using Cons.prems(1) room k by (auto simp: tc_ok_def)
        show ?thesis
        proof (cases rs)
          case Nil
          have "\<not> overflow_shape (ds @ [(x, k)])"
            using Nil False by (auto simp: overflow_shape_def)
          then show ?thesis
            using noguard False sw go ok r Nil by (simp add: tc_verdict_def)
        next
          case (Cons q qs)
          have "tc_verdict ((ds @ [(x, k)]) @ rs) (tc_proc rs (tc_after (ds @ [(x, k)])))"
            by (rule Cons.IH [OF ok]) (use Cons Cons.prems r room in auto)
          moreover have "tc_proc (r # rs) (tc_after ds) = tc_proc rs (tc_after (ds @ [(x, k)]))"
            using noguard sw go r Cons by simp
          ultimately show ?thesis using r by simp
        qed
      qed
    qed
  qed
qed

text \<open>The loop of \<^verbatim>\<open>is_three_chain\<close>, and the checks after it.\<close>

lemma tc_chained_after: "length (triples rs) \<le> 6 \<Longrightarrow> tc_chained (tc_after rs) = chained (triples rs)"
  by (auto simp: tc_chained_def chained_def tc_after_def nth_append)

lemma tc_loop_verdict:
  assumes "2 \<le> length cards" "length cards \<le> 19"
  shows "tc_verdict (runs cards) (for_loop (tc_body cards) [1..<length cards] tc_init)"
proof -
  have "tc_verdict ([] @ runs cards) (tc_proc (runs cards) (tc_after []))"
    by (rule tc_proc_verdict)
      (use assms in \<open>auto simp: tc_ok_def uniform_extras_def sum_runs dest: runs_pos\<close>)
  then show ?thesis
    unfolding tc_body_run tc_scan.loop_runs [OF assms(1)] tc_init_after by simp
qed

lemma tc_finish_after:
  assumes "tc_ok rs" "pi_type info = ERR"
  shows "tc_finish n (tc_after rs) info =
    (case three_chain_type rs of
       Some t \<Rightarrow> (True, \<lparr>pi_type = t, pi_value = hd (triples rs), pi_length = int n\<rparr>)
     | None \<Rightarrow> (False, info\<lparr>pi_length := if 2 \<le> length (triples rs) \<and> chained (triples rs)
                               then int n else pi_length info\<rparr>))"
proof -
  have six: "length (triples rs) \<le> 6" and uni: "uniform_extras rs"
    and le3: "\<forall>r \<in> set rs. 0 < snd r \<and> snd r \<le> 3"
    using assms(1) by (auto simp: tc_ok_def)
  have hd3: "2 \<le> length (triples rs) \<Longrightarrow> v3 (tc_after rs) ! 0 = hd (triples rs)"
    by (cases "triples rs") (auto simp: tc_after_def)
  have pos: "v3Pos (tc_after rs) = length (triples rs)" "vxPos (tc_after rs) = length (extras rs)"
    by (simp_all add: tc_after_def)
  have curr: "extras rs \<noteq> [] \<Longrightarrow> tc_currNum (tc_after rs) = snd (hd (extras rs)) \<and>
      (snd (hd (extras rs)) = 1 \<or> snd (hd (extras rs)) = 2)"
  proof -
    assume ne: "extras rs \<noteq> []"
    then have "hd (extras rs) \<in> set (extras rs)" by simp
    then have "hd (extras rs) \<in> set rs" "snd (hd (extras rs)) \<noteq> 3"
      by (auto simp: extras_def)
    with le3 have "0 < snd (hd (extras rs))" "snd (hd (extras rs)) \<le> 3" by auto
    with \<open>snd (hd (extras rs)) \<noteq> 3\<close> ne show ?thesis
      by (cases "extras rs") (auto simp: tc_after_def)
  qed
  show ?thesis
  proof (cases "2 \<le> length (triples rs) \<and> chained (triples rs)")
    case False
    then show ?thesis
      using assms(2) six
      by (auto simp: tc_finish_def three_chain_type_def tc_chained_after pos Let_def)
  next
    case True
    then show ?thesis
      using assms(2) six uni le3 curr hd3
      by (cases "extras rs = []"; cases "length (extras rs) = length (triples rs)")
        (auto simp: tc_finish_def three_chain_type_def tc_chained_after pos Let_def)
  qed
qed

lemma is_three_chain_runs:
  assumes "2 \<le> length cards" "length cards \<le> 19" "pi_type info = ERR"
  shows "overflow_shape (runs cards) \<Longrightarrow> is_three_chain cards info = Inl Out_of_bounds"
    and "\<not> overflow_shape (runs cards) \<Longrightarrow> three_chain_type (runs cards) = Some t \<Longrightarrow>
      is_three_chain cards info =
        Inr (True, \<lparr>pi_type = t, pi_value = hd (triples (runs cards)), pi_length = int (length cards)\<rparr>)"
    and "\<not> overflow_shape (runs cards) \<Longrightarrow> three_chain_type (runs cards) = None \<Longrightarrow>
      \<exists>n. is_three_chain cards info = Inr (False, info\<lparr>pi_length := n\<rparr>)"
proof -
  note v = tc_loop_verdict [OF assms(1,2)]
  have same: "\<exists>n. info = info\<lparr>pi_length := n\<rparr>"
    by (rule exI [of _ "pi_length info"]) simp
  have goal: "if overflow_shape (runs cards) then is_three_chain cards info = Inl Out_of_bounds
    else (case three_chain_type (runs cards) of
       Some t \<Rightarrow> is_three_chain cards info = Inr (True, \<lparr>pi_type = t,
           pi_value = hd (triples (runs cards)), pi_length = int (length cards)\<rparr>)
     | None \<Rightarrow> \<exists>n. is_three_chain cards info = Inr (False, info\<lparr>pi_length := n\<rparr>))"
  proof (cases "for_loop (tc_body cards) [1..<length cards] tc_init")
    case (Ret r)
    with v same show ?thesis
      unfolding is_three_chain_def by (cases r) (auto simp: tc_verdict_def)
  next
    case (Next s)
    with v have s: "s = tc_after (runs cards)" and ok: "tc_ok (runs cards)"
      and no: "\<not> overflow_shape (runs cards)"
      by (simp_all add: tc_verdict_def)
    show ?thesis
      using no assms(3) same unfolding is_three_chain_def Next
      by (auto simp: s tc_finish_after [OF ok] split: option.split)
  qed
  show "overflow_shape (runs cards) \<Longrightarrow> is_three_chain cards info = Inl Out_of_bounds"
    using goal by simp
  show "\<not> overflow_shape (runs cards) \<Longrightarrow> three_chain_type (runs cards) = Some t \<Longrightarrow>
      is_three_chain cards info =
        Inr (True, \<lparr>pi_type = t, pi_value = hd (triples (runs cards)), pi_length = int (length cards)\<rparr>)"
    using goal by simp
  show "\<not> overflow_shape (runs cards) \<Longrightarrow> three_chain_type (runs cards) = None \<Longrightarrow>
      \<exists>n. is_three_chain cards info = Inr (False, info\<lparr>pi_length := n\<rparr>)"
    using goal by simp
qed

section \<open>A main group with kickers: what the scan computes\<close>

definition mains :: "('a \<times> nat) list \<Rightarrow> ('a \<times> nat) list" where
  "mains rs = filter (\<lambda>r. snd r = 3 \<or> snd r = 4) rs"

definition kickers :: "('a \<times> nat) list \<Rightarrow> ('a \<times> nat) list" where
  "kickers rs = filter (\<lambda>r. \<not> (snd r = 3 \<or> snd r = 4)) rs"

definition uniform_kickers :: "('a \<times> nat) list \<Rightarrow> bool" where
  "uniform_kickers rs = (\<forall>r \<in> set (kickers rs). snd r = snd (hd (kickers rs)))"

text \<open>
  One run of three or four, and kickers that are all singles or all pairs: the group types by the
  size of the main run, the number of kickers and their size.
\<close>

definition main_kicker_type :: "(int \<times> nat) list \<Rightarrow> poker_type option" where
  "main_kicker_type rs =
     (if (\<forall>r \<in> set rs. snd r \<le> 4) \<and> length (mains rs) = 1 \<and> uniform_kickers rs
      then (case (snd (hd (mains rs)), map snd (kickers rs)) of
              (m, []) \<Rightarrow> Some (if m = 3 then THREE else BOMB)
            | (m, [k]) \<Rightarrow> (if m = 3 then Some (if k = 1 then THREE_ONE else THREE_DOUBLE)
                           else if k = 2 then Some FOUR_TWO_SINGLE else None)
            | (m, [k, _]) \<Rightarrow> (if m = 4 then Some (if k = 1 then FOUR_TWO_SINGLE else FOUR_TWO_DOUBLE)
                              else None)
            | _ \<Rightarrow> None)
      else None)"

lemma mains_kickers_simps [simp]:
  "mains [] = []" "kickers [] = []"
  "mains ((x, k) # rs) = (if k = 3 \<or> k = 4 then (x, k) # mains rs else mains rs)"
  "kickers ((x, k) # rs) = (if k = 3 \<or> k = 4 then kickers rs else (x, k) # kickers rs)"
  "mains (xs @ ys) = mains xs @ mains ys" "kickers (xs @ ys) = kickers xs @ kickers ys"
  by (simp_all add: mains_def kickers_def)

definition tf_after :: "(int \<times> nat) list \<Rightarrow> tf_state" where
  "tf_after rs =
     \<lparr>mainVal = (case mains rs of [] \<Rightarrow> 0 | r # _ \<Rightarrow> fst r),
      mainVals = (case mains rs of [] \<Rightarrow> 0 | r # _ \<Rightarrow> snd r),
      incidentalValNum = length (kickers rs),
      incidentalVals = (case kickers rs of [] \<Rightarrow> 1 | r # _ \<Rightarrow> snd r), tf_sameNum = 1\<rparr>"

definition tf_ok :: "(int \<times> nat) list \<Rightarrow> bool" where
  "tf_ok rs = ((\<forall>r \<in> set rs. 0 < fst r \<and> 0 < snd r \<and> snd r \<le> 4) \<and> length (mains rs) \<le> 1 \<and>
     uniform_kickers rs)"

abbreviation tf_inc :: "tf_state \<Rightarrow> tf_state" where
  "tf_inc s \<equiv> s\<lparr>tf_sameNum := tf_sameNum s + 1\<rparr>"

definition tf_last :: "int \<Rightarrow> tf_state \<Rightarrow> (bool, tf_state) flow" where
  "tf_last c s =
     (if incidentalVals s \<noteq> 1 then Ret False
      else Next (s\<lparr>incidentalValNum := incidentalValNum s + 1\<rparr>))"

abbreviation tf_proc :: "(int \<times> nat) list \<Rightarrow> tf_state \<Rightarrow> (bool, tf_state) flow" where
  "tf_proc \<equiv> run_proc (\<lambda>_. False) False tf_inc tf_switch tf_last"

lemma tf_body_run: "tf_body = run_body (\<lambda>_. False) False tf_inc tf_switch tf_last"
  by (intro ext) (simp add: tf_body_def run_body_def tf_last_def Let_def fbind_def split: flow.splits)

interpretation tf_scan: run_scanner "\<lambda>_. False" False tf_inc tf_switch tf_last
  by unfold_locales simp

lemma tf_init_after: "tf_init = tf_after []"
  by (simp add: tf_init_def tf_after_def)

lemma tf_inc_pow: "(tf_inc ^^ m) s = s\<lparr>tf_sameNum := tf_sameNum s + m\<rparr>"
  by (induction m) simp_all

lemma tf_ok_mains: "tf_ok rs \<Longrightarrow> mainVal (tf_after rs) = 0 \<longleftrightarrow> mains rs = []"
proof (cases "mains rs")
  case (Cons r qs)
  assume ok: "tf_ok rs"
  have "r \<in> set (mains rs)" using Cons by simp
  then have "r \<in> set rs" by (simp add: mains_def)
  with ok Cons show ?thesis by (auto simp: tf_ok_def tf_after_def)
qed (simp add: tf_after_def)

lemma tf_kickers_size:
  assumes "tf_ok rs" "kickers rs = (y, m) # qs"
  shows "m = 1 \<or> m = 2" "\<forall>a b. (a, b) \<in> set qs \<longrightarrow> b = m"
proof -
  have "(y, m) \<in> set (kickers rs)" using assms(2) by simp
  then have "(y, m) \<in> set rs" "m \<noteq> 3" "m \<noteq> 4" by (simp_all add: kickers_def)
  then show "m = 1 \<or> m = 2" using assms(1) by (fastforce simp: tf_ok_def)
  show "\<forall>a b. (a, b) \<in> set qs \<longrightarrow> b = m"
    using assms by (fastforce simp: tf_ok_def uniform_kickers_def)
qed

lemma tf_switch_after:
  assumes "tf_ok rs" "0 < k" "0 < x"
  shows "tf_switch x ((tf_inc ^^ (k - 1)) (tf_after rs)) =
    (if tf_ok (rs @ [(x, k)]) then Next (tf_after (rs @ [(x, k)])) else Ret False)"
proof -
  have pw: "(tf_inc ^^ (k - 1)) (tf_after rs) = (tf_after rs)\<lparr>tf_sameNum := k\<rparr>"
    unfolding tf_inc_pow using assms(2) by (simp add: tf_after_def)
  have mv: "mains rs = r # qs \<Longrightarrow> fst r \<noteq> 0" for r qs
    using tf_ok_mains [OF assms(1)] by (simp add: tf_after_def)
  note ks = tf_kickers_size [OF assms(1)]
  consider "k = 3 \<or> k = 4" | "k > 4" | "k = 1 \<or> k = 2" using assms(2) by linarith
  then have "tf_switch x ((tf_after rs)\<lparr>tf_sameNum := k\<rparr>) =
    (if tf_ok (rs @ [(x, k)]) then Next (tf_after (rs @ [(x, k)])) else Ret False)"
  proof cases
    case 1
    show ?thesis
    proof (cases "mains rs")
      case Nil
      have "uniform_kickers (rs @ [(x, k)]) = uniform_kickers rs"
        using 1 by (auto simp: uniform_kickers_def)
      with Nil 1 assms show ?thesis
        by (auto simp: tf_switch_def tf_after_def tf_ok_def)
    next
      case (Cons r qs)
      with 1 mv show ?thesis
        by (auto simp: tf_switch_def tf_after_def tf_ok_def)
    qed
  next
    case 2
    then show ?thesis by (simp add: tf_switch_def tf_after_def tf_ok_def)
  next
    case 3
    then show ?thesis
      using assms ks by (cases "kickers rs")
        (auto simp: tf_switch_def tf_after_def tf_ok_def uniform_kickers_def)
  qed
  then show ?thesis unfolding pw .
qed

lemma tf_last_after:
  assumes "tf_ok rs" "0 < x"
  shows "tf_last x (tf_after rs) =
    (if tf_ok (rs @ [(x, 1)]) then Next (tf_after (rs @ [(x, 1)])) else Ret False)"
  using assms tf_kickers_size [OF assms(1)]
  by (cases "kickers rs") (auto simp: tf_last_def tf_after_def tf_ok_def uniform_kickers_def)

lemma tf_ok_prefix: "tf_ok (xs @ ys) \<Longrightarrow> tf_ok xs"
  by (cases "kickers xs") (auto simp: tf_ok_def uniform_kickers_def)

lemma tf_proc_after:
  assumes "tf_ok ds" "\<forall>r \<in> set rs. 0 < fst r \<and> 0 < snd r"
  shows "tf_proc rs (tf_after ds) =
    (if tf_ok (ds @ rs) then Next (tf_after (ds @ rs)) else Ret False)"
  using assms
proof (induction rs arbitrary: ds)
  case Nil
  then show ?case by simp
next
  case (Cons r rs)
  obtain x k where r: "r = (x, k)" by (cases r)
  have xk: "0 < x" "0 < k" using Cons.prems r by auto
  show ?case
  proof (cases rs)
    case Nil
    show ?thesis
      unfolding Nil r run_proc.simps tf_switch_after [OF Cons.prems(1) xk(2,1)]
        tf_last_after [OF Cons.prems(1) xk(1)]
      by simp
  next
    case (Cons q qs)
    have pre: "tf_ok (ds @ r # rs) \<Longrightarrow> tf_ok (ds @ [(x, k)])"
      using tf_ok_prefix [of "ds @ [(x, k)]" rs] r by simp
    have step: "tf_proc (r # rs) (tf_after ds) =
        fbind (tf_switch x ((tf_inc ^^ (k - 1)) (tf_after ds))) (tf_proc rs)"
      using Cons r by simp
    show ?thesis
    proof (cases "tf_ok (ds @ [(x, k)])")
      case True
      have "tf_proc rs (tf_after (ds @ [(x, k)])) =
          (if tf_ok ((ds @ [(x, k)]) @ rs) then Next (tf_after ((ds @ [(x, k)]) @ rs)) else Ret False)"
        by (rule Cons.IH [OF True]) (use Cons.prems in simp)
      then show ?thesis
        unfolding step tf_switch_after [OF Cons.prems(1) xk(2,1)] using True r by simp
    next
      case False
      then show ?thesis
        unfolding step tf_switch_after [OF Cons.prems(1) xk(2,1)] using pre by auto
    qed
  qed
qed

lemma tf_type_size:
  assumes "tf_ok rs" "kickers rs \<noteq> []"
  shows "snd (hd (kickers rs)) = 1 \<or> snd (hd (kickers rs)) = 2"
proof -
  obtain y m qs where "kickers rs = (y, m) # qs"
    using assms(2) by (cases "kickers rs") auto
  with tf_kickers_size(1) [OF assms(1) this] show ?thesis by simp
qed

lemma tf_mains_size:
  assumes "mains rs = r # qs"
  shows "snd r = 3 \<or> snd r = 4"
proof -
  have "r \<in> set (mains rs)" using assms by simp
  then show ?thesis by (simp add: mains_def)
qed

lemma tf_finish_after:
  assumes "tf_ok rs" "pi_type info = ERR"
  shows "tf_finish n (tf_after rs) info =
    (case main_kicker_type rs of
       Some t \<Rightarrow> (True, \<lparr>pi_type = t, pi_value = fst (hd (mains rs)), pi_length = int n\<rparr>)
     | None \<Rightarrow> (False, info))"
proof (cases "mains rs")
  case Nil
  then show ?thesis using assms(2) by (simp add: tf_finish_def tf_after_def main_kicker_type_def)
next
  case (Cons r qs)
  have one: "qs = []" "\<forall>r \<in> set rs. snd r \<le> 4" "uniform_kickers rs"
    using assms(1) Cons by (auto simp: tf_ok_def)
  note size = tf_type_size [OF assms(1)] tf_mains_size [OF Cons]
  consider (none) "kickers rs = []" | (one) k where "kickers rs = [k]"
    | (two) k l where "kickers rs = [k, l]" | (more) k l m ks where "kickers rs = k # l # m # ks"
    by (metis list.exhaust)
  then show ?thesis
    by cases (use assms(2) Cons one size in
      \<open>auto simp: tf_finish_def tf_after_def main_kicker_type_def uniform_kickers_def\<close>)
qed

lemma is_three_or_four_runs:
  assumes "2 \<le> length cards" "pi_type info = ERR" "\<forall>c \<in> set cards. 0 < c"
  shows "is_three_or_four_and_single_or_double cards info =
    (case main_kicker_type (runs cards) of
       Some t \<Rightarrow> (True, \<lparr>pi_type = t, pi_value = fst (hd (mains (runs cards))),
                         pi_length = int (length cards)\<rparr>)
     | None \<Rightarrow> (False, info))"
proof -
  have pos: "\<forall>r \<in> set (runs cards). 0 < fst r \<and> 0 < snd r"
    using assms(3) fst_runs_set [of cards] runs_pos by (metis imageI prod.collapse)
  have loop: "for_loop (tf_body cards) [1..<length cards] tf_init =
      (if tf_ok (runs cards) then Next (tf_after (runs cards)) else Ret False)"
    using tf_proc_after [of "[]" "runs cards"] pos
    unfolding tf_body_run tf_scan.loop_runs [OF assms(1)] tf_init_after
    by (simp add: tf_ok_def uniform_kickers_def)
  show ?thesis
  proof (cases "tf_ok (runs cards)")
    case True
    then show ?thesis
      unfolding is_three_or_four_and_single_or_double_def loop
      by (simp add: tf_finish_after [OF _ assms(2)])
  next
    case False
    then have "main_kicker_type (runs cards) = None"
      using pos by (auto simp: main_kicker_type_def tf_ok_def)
    with False show ?thesis
      unfolding is_three_or_four_and_single_or_double_def loop by simp
  qed
qed

section \<open>Chains: what the loops compute\<close>

definition single_chain :: "int list \<Rightarrow> bool" where
  "single_chain cs \<longleftrightarrow>
     5 \<le> length cs \<and> (\<forall>i \<in> set [0..<length cs]. cs ! i = hd cs + int i \<and> cs ! i < rank_M)"

definition double_chain :: "int list \<Rightarrow> bool" where
  "double_chain cs \<longleftrightarrow>
     6 \<le> length cs \<and> even (length cs) \<and>
     (\<forall>i \<in> set [0..<length cs]. cs ! i = hd cs + int (i div 2) \<and> cs ! i < rank_M)"

lemma for_loop_all:
  "for_loop (\<lambda>i _. if P i then Next () else Ret False) is () =
   (if \<forall>i \<in> set is. P i then Next () else Ret False)"
  by (induction "is") auto

lemma for_loop_check:
  assumes "\<And>i u. body i u = (if P i then Next () else Ret False)"
  shows "for_loop body is () = (if \<forall>i \<in> set is. P i then Next () else Ret False)"
proof -
  have "body = (\<lambda>i _. if P i then Next () else Ret False)"
    by (intro ext) (rule assms)
  then show ?thesis by (simp only: for_loop_all)
qed

lemma chain_step:
  fixes f :: "nat \<Rightarrow> int"
  assumes "f 0 = b"
  shows "(\<forall>i < n. 0 < i \<longrightarrow> f i - f (i - 1) = 1) \<longleftrightarrow> (\<forall>i < n. f i = b + int i)"
proof (intro iffI allI impI)
  fix i assume a: "\<forall>i < n. 0 < i \<longrightarrow> f i - f (i - 1) = 1" and "i < n"
  then show "f i = b + int i"
  proof (induction i)
    case 0
    then show ?case using assms by simp
  next
    case (Suc i)
    have "f (Suc i) - f i = 1" using a Suc.prems(2) by force
    moreover have "f i = b + int i" using Suc by simp
    ultimately show ?case by simp
  qed
next
  fix i assume a: "\<forall>i < n. f i = b + int i" and "i < n" "0 < i"
  then have "f i = b + int i" "f (i - 1) = b + int (i - 1)" by simp_all
  with \<open>0 < i\<close> show "f i - f (i - 1) = 1" by (simp add: of_nat_diff)
qed

lemma pair_step:
  fixes f :: "nat \<Rightarrow> int"
  assumes "f 0 = b"
  shows "(\<forall>i < n. 0 < i \<longrightarrow> (if i mod 2 \<noteq> 0 then f i = f (i - 1) else f i - f (i - 1) = 1)) \<longleftrightarrow>
         (\<forall>i < n. f i = b + int (i div 2))" (is "?L = ?R")
proof -
  have half: "int (Suc i div 2) = (if Suc i mod 2 \<noteq> 0 then int (i div 2) else int (i div 2) + 1)" for i
    by (cases "even i") (auto elim!: evenE oddE simp: mod_eq_0_iff_dvd)
  have up: "f i = b + int (i div 2)" if "?L" "i < n" for i
    using that(2)
  proof (induction i)
    case 0
    then show ?case using assms by simp
  next
    case (Suc i)
    have "if Suc i mod 2 \<noteq> 0 then f (Suc i) = f i else f (Suc i) - f i = 1"
      using that(1) [rule_format, of "Suc i"] Suc.prems unfolding diff_Suc_1 by simp
    moreover have "f i = b + int (i div 2)" using Suc by simp
    ultimately show ?case unfolding half by (auto split: if_splits)
  qed
  have down: "if i mod 2 \<noteq> 0 then f i = f (i - 1) else f i - f (i - 1) = 1"
    if R: "?R" and i: "i < n" "0 < i" for i
  proof -
    obtain k where k: "i = Suc k" using i by (cases i) auto
    have "f (Suc k) = b + int (Suc k div 2)" "f k = b + int (k div 2)"
      using R i k by auto
    then show ?thesis unfolding k diff_Suc_1 half by (auto split: if_splits)
  qed
  show ?thesis using up down by meson
qed

lemma case_flow_if:
  "(case (if P then Next () else Ret r) of Ret b \<Rightarrow> f b | Next u \<Rightarrow> g u) = (if P then g () else f r)"
  by simp

lemma ball_upt_conj:
  "(\<forall>i \<in> set [0..<n]. P i \<and> Q i) \<longleftrightarrow> (\<forall>i < n. P i) \<and> (\<forall>i < n. Q i)"
  by auto

lemma ball_upt_from_1:
  "(\<forall>i \<in> set [1..<n]. P i \<and> Q i) \<longleftrightarrow> (\<forall>i < n. 0 < i \<longrightarrow> P i) \<and> (\<forall>i < n. 0 < i \<longrightarrow> Q i)"
  by auto

lemma is_single_chain_eq:
  "is_single_chain cs info =
   (if single_chain cs then (True, \<lparr>pi_type = SINGLE_CHAIN, pi_value = hd cs, pi_length = int (length cs)\<rparr>)
    else (False, info))"
proof (cases "length cs < 5")
  case True
  then show ?thesis by (simp add: is_single_chain_def single_chain_def)
next
  case False
  then have hd: "cs ! 0 = hd cs" by (cases cs) auto
  have loop: "for_loop (\<lambda>i _. if cs ! i \<ge> rank_M then Ret False
        else if 0 < i \<and> cs ! i - cs ! (i - 1) \<noteq> 1 then Ret False else Next ()) [0..<length cs] () =
      (if \<forall>i \<in> set [0..<length cs]. (0 < i \<longrightarrow> cs ! i - cs ! (i - 1) = 1) \<and> cs ! i < rank_M
       then Next () else Ret False)"
    by (rule for_loop_check) auto
  note loop = loop [unfolded ball_upt_conj chain_step [of "(!) cs", OF hd]]
  show ?thesis
    using False unfolding is_single_chain_def single_chain_def loop ball_upt_conj hd
    by (simp only: case_flow_if poker_info_set_eq if_False not_less [symmetric] simp_thms)
qed

lemma is_double_chain_eq:
  "is_double_chain cs info =
   (if double_chain cs then (True, \<lparr>pi_type = DOUBLE_CHAIN, pi_value = hd cs, pi_length = int (length cs)\<rparr>)
    else (False, info))"
proof (cases "length cs mod 2 \<noteq> 0 \<or> length cs < 6")
  case True
  then show ?thesis by (auto simp: is_double_chain_def double_chain_def even_iff_mod_2_eq_zero)
next
  case False
  then have not: "\<not> (length cs mod 2 \<noteq> 0 \<or> length cs < 6)" by simp
  from False have len: "1 < length cs" by linarith
  then have hd: "cs ! 0 = hd cs" using hd_conv_nth [of cs] by fastforce
  have low: "(\<forall>i < length cs. 0 < i \<longrightarrow> cs ! i < rank_M) \<longleftrightarrow> (\<forall>i < length cs. cs ! i < rank_M)"
    if v: "\<forall>i < length cs. cs ! i = hd cs + int (i div 2)"
  proof (intro iffI allI impI)
    fix i assume a: "\<forall>i < length cs. 0 < i \<longrightarrow> cs ! i < rank_M" and i: "i < length cs"
    have "cs ! 1 = hd cs" "cs ! 1 < rank_M" using v [rule_format, of 1] a [rule_format, of 1] len by auto
    then show "cs ! i < rank_M" using a i hd by (cases "i = 0") auto
  qed auto
  have loop: "for_loop (\<lambda>i _. if cs ! i \<ge> rank_M then Ret False
        else if i mod 2 \<noteq> 0 then (if cs ! i \<noteq> cs ! (i - 1) then Ret False else Next ())
        else (if cs ! i - cs ! (i - 1) \<noteq> 1 then Ret False else Next ())) [1..<length cs] () =
      (if \<forall>i \<in> set [1..<length cs]. (if i mod 2 \<noteq> 0 then cs ! i = cs ! (i - 1)
            else cs ! i - cs ! (i - 1) = 1) \<and> cs ! i < rank_M
       then Next () else Ret False)"
    by (rule for_loop_check) auto
  note loop = loop [unfolded ball_upt_from_1 pair_step [of "(!) cs", OF hd]]
  have "even (length cs)" "6 \<le> length cs" using False by (auto simp: even_iff_mod_2_eq_zero)
  then show ?thesis
    using not unfolding is_double_chain_def double_chain_def loop ball_upt_conj hd
    by (simp only: case_flow_if poker_info_set_eq if_False simp_thms low cong: conj_cong)
qed

end
