(* ===== verification/PokerGroups.thy ===== *)
theory PokerGroups
  imports PokerParser
begin

text \<open>
  What the parser of \<^verbatim>\<open>src/src/ddz/poker_parser.cpp\<close> is meant to compute: the group a
  multiset of cards forms, read off the runs of the sorted array, and the proof that
  \<^verbatim>\<open>parse\<close> computes it, with the arrays for which it writes outside its buffers.
\<close>

section \<open>What parse computes\<close>

definition classified :: "int list \<Rightarrow> (poker_type \<times> int) option" where
  "classified cs =
     (if length cs \<le> 3 then
        (case cs of
           [a] \<Rightarrow> Some (SINGLE, a)
         | [a, b] \<Rightarrow> (if a = b then Some (DOUBLE, a)
                     else if a = rank_N \<and> b = rank_O then Some (DOUBLE_JOKER, a) else None)
         | [a, b, c] \<Rightarrow> (if a = b \<and> b = c \<and> a < rank_N then Some (THREE, a) else None)
         | _ \<Rightarrow> None)
      else if single_chain cs then Some (SINGLE_CHAIN, hd cs)
      else if double_chain cs then Some (DOUBLE_CHAIN, hd cs)
      else case three_chain_type (runs cs) of
             Some t \<Rightarrow> Some (t, hd (triples (runs cs)))
           | None \<Rightarrow> map_option (\<lambda>t. (t, fst (hd (mains (runs cs))))) (main_kicker_type (runs cs)))"

lemma triple_in_runs:
  assumes "triples (runs cs) \<noteq> []"
  obtains p x where "p + 3 \<le> length cs" "cs ! p = x" "cs ! (p + 2) = x"
proof -
  obtain r where "r \<in> set (filter (\<lambda>r. snd r = 3) (runs cs))"
    using assms unfolding triples_def by (metis list.map_disc_iff list.set_intros(1) neq_Nil_conv)
  then obtain x where "(x, 3) \<in> set (runs cs)" by (metis (mono_tags, lifting) mem_Collect_eq prod.collapse set_filter)
  then show thesis
  proof (rule runs_stretch)
    fix p assume p: "p + 3 \<le> length cs" "\<And>j. j < 3 \<Longrightarrow> cs ! (p + j) = x"
    from p(2) [of 0] p(2) [of 2] p(1) that show thesis by simp
  qed
qed

lemma three_chain_type_triples:
  "three_chain_type rs = Some t \<Longrightarrow> 2 \<le> length (triples rs)"
  by (auto simp: three_chain_type_def split: if_splits)

lemma single_chain_no_triples: "single_chain cs \<Longrightarrow> triples (runs cs) = []"
proof (rule ccontr)
  assume c: "single_chain cs" and "triples (runs cs) \<noteq> []"
  then obtain p x where p: "p + 3 \<le> length cs" "cs ! p = x" "cs ! (p + 2) = x"
    by (elim triple_in_runs)
  have "cs ! p = hd cs + int p" "cs ! (p + 2) = hd cs + int (p + 2)"
    using c p(1) by (simp_all add: single_chain_def)
  with p show False by simp
qed

lemma double_chain_no_triples: "double_chain cs \<Longrightarrow> triples (runs cs) = []"
proof (rule ccontr)
  assume c: "double_chain cs" and "triples (runs cs) \<noteq> []"
  then obtain p x where p: "p + 3 \<le> length cs" "cs ! p = x" "cs ! (p + 2) = x"
    by (elim triple_in_runs)
  have "cs ! p = hd cs + int (p div 2)" "cs ! (p + 2) = hd cs + int ((p + 2) div 2)"
    using c p(1) by (simp_all add: double_chain_def)
  with p show False by simp
qed

lemma three_chain_none [simp]:
  "single_chain cs \<Longrightarrow> three_chain_type (runs cs) = None"
  "double_chain cs \<Longrightarrow> three_chain_type (runs cs) = None"
  by (simp_all add: three_chain_type_def single_chain_no_triples double_chain_no_triples)

text \<open>The sizes of the groups.\<close>

lemma runs_weight:
  "sum_list (map snd rs) = 3 * length (triples rs) + sum_list (map snd (extras rs))"
  by (induction rs) (auto simp: triples_def extras_def)

lemma uniform_extras_weight:
  "uniform_extras rs \<Longrightarrow> sum_list (map snd (extras rs)) = length (extras rs) * snd (hd (extras rs))"
proof -
  assume "uniform_extras rs"
  then have "map snd (extras rs) = replicate (length (extras rs)) (snd (hd (extras rs)))"
    by (intro replicate_eqI) (auto simp: uniform_extras_def)
  then show ?thesis by (simp add: sum_list_replicate)
qed

lemma extras_size:
  assumes "extras (runs cs) = r # es" "\<forall>r \<in> set (runs cs). snd r \<le> 3"
  shows "snd r = 1 \<or> snd r = 2"
proof -
  have "r \<in> set (extras (runs cs))" using assms(1) by simp
  then have r: "r \<in> set (runs cs)" "snd r \<noteq> 3" by (auto simp: extras_def)
  then have "0 < snd r" using runs_pos [of "fst r" "snd r" cs] by simp
  with r assms(2) show ?thesis by fastforce
qed

lemma three_chain_type_size:
  assumes "three_chain_type (runs cs) = Some t"
  obtains k where "k = 3 \<or> k = 4 \<or> k = 5" "length cs = k * length (triples (runs cs))"
proof -
  have w: "length cs = 3 * length (triples (runs cs)) + sum_list (map snd (extras (runs cs)))"
    using runs_weight [of "runs cs"] by (simp add: sum_runs)
  have u: "uniform_extras (runs cs)" and le: "\<forall>r \<in> set (runs cs). snd r \<le> 3"
    using assms by (auto simp: three_chain_type_def split: if_splits)
  show thesis
  proof (cases "extras (runs cs)")
    case Nil
    with w that [of 3] show thesis by simp
  next
    case (Cons r es)
    then have e: "length (extras (runs cs)) = length (triples (runs cs))"
      using assms by (auto simp: three_chain_type_def split: if_splits)
    show thesis
      using extras_size [OF Cons le] uniform_extras_weight [OF u] w e that [of 4] that [of 5] Cons
      by auto
  qed
qed

lemma overflow_shape_size:
  assumes "overflow_shape (runs cs)"
  shows "length cs = 3 * length (triples (runs cs)) + 7"
proof -
  have "length cs = 3 * length (triples (runs cs)) + sum_list (map snd (extras (runs cs)))"
    using runs_weight [of "runs cs"] by (simp add: sum_runs)
  moreover have "sum_list (map snd (extras (runs cs))) = length (extras (runs cs))"
    using assms uniform_extras_weight [OF overflow_uniform [OF assms]]
    by (cases "extras (runs cs)") (auto simp: overflow_shape_def)
  ultimately show ?thesis using assms by (simp add: overflow_shape_def)
qed

lemma main_weight:
  "sum_list (map snd rs) = sum_list (map snd (mains rs)) + sum_list (map snd (kickers rs))"
  by (induction rs) (auto simp: mains_def kickers_def)

lemma kickers_size:
  assumes "kickers (runs cs) = r # ks" "\<forall>r \<in> set (runs cs). snd r \<le> 4"
  shows "snd r = 1 \<or> snd r = 2"
proof -
  have "r \<in> set (kickers (runs cs))" using assms(1) by simp
  then have r: "r \<in> set (runs cs)" "snd r \<noteq> 3" "snd r \<noteq> 4" by (auto simp: kickers_def)
  then have "0 < snd r" using runs_pos [of "fst r" "snd r" cs] by simp
  moreover have "snd r \<le> 4" using r(1) assms(2) by blast
  ultimately show ?thesis using r(2,3) by linarith
qed

lemma main_kicker_type_size:
  assumes "main_kicker_type (runs cs) = Some t"
  shows "length cs \<in> {3, 4, 5, 6, 8}"
proof -
  have le: "\<forall>r \<in> set (runs cs). snd r \<le> 4" and u: "uniform_kickers (runs cs)"
    using assms by (auto simp: main_kicker_type_def split: if_splits)
  obtain r where m: "mains (runs cs) = [r]"
    using assms by (auto simp: main_kicker_type_def length_Suc_conv split: if_splits)
  have w: "length cs = snd r + sum_list (map snd (kickers (runs cs)))"
    using main_weight [of "runs cs"] m by (simp add: sum_runs)
  have r: "snd r = 3 \<or> snd r = 4" by (rule tf_mains_size [OF m])
  consider (none) "kickers (runs cs) = []" | (one) k where "kickers (runs cs) = [k]"
    | (two) k l where "kickers (runs cs) = [k, l]"
    | (more) k l m ks where "kickers (runs cs) = k # l # m # ks"
    by (metis list.exhaust)
  then show ?thesis
  proof cases
    case none
    with w r show ?thesis by auto
  next
    case one
    with w r m assms kickers_size [OF one le] show ?thesis
      by (auto simp: main_kicker_type_def split: if_splits)
  next
    case two
    then have "snd l = snd k" using u by (simp add: uniform_kickers_def)
    with two w r m assms kickers_size [OF two le] show ?thesis
      by (auto simp: main_kicker_type_def split: if_splits)
  next
    case more
    with m assms show ?thesis by (auto simp: main_kicker_type_def split: if_splits)
  qed
qed

lemma triples_mains: "triples rs = map fst (filter (\<lambda>r. snd r = 3) (mains rs))"
  by (induction rs) (auto simp: triples_def mains_def)

lemma main_kicker_no_chain:
  assumes "main_kicker_type rs = Some t"
  shows "three_chain_type rs = None"
proof (rule ccontr)
  assume "three_chain_type rs \<noteq> None"
  then have "2 \<le> length (triples rs)" using three_chain_type_triples by blast
  also have "length (triples rs) \<le> length (mains rs)" by (simp add: triples_mains)
  finally show False using assms by (simp add: main_kicker_type_def split: if_splits)
qed

section \<open>The verdict of parse\<close>

definition overruns :: "int list \<Rightarrow> bool" where
  "overruns cs = (length cs \<noteq> 7 \<and> overflow_shape (runs cs))"

definition verdict :: "int list \<Rightarrow> poker_info result \<Rightarrow> bool" where
  "verdict cs r =
     (if overruns cs then r = Inl Out_of_bounds
      else case classified cs of
             Some (t, v) \<Rightarrow> r = Inr \<lparr>pi_type = t, pi_value = v, pi_length = int (length cs)\<rparr>
           | None \<Rightarrow> (case r of Inl e \<Rightarrow> False | Inr info \<Rightarrow> pi_type info = ERR))"

lemma overruns_size: "overruns cs \<Longrightarrow> 10 \<le> length cs"
proof -
  assume a: "overruns cs"
  then have "length cs = 3 * length (triples (runs cs)) + 7" "length cs \<noteq> 7"
    using overflow_shape_size [of cs] by (auto simp: overruns_def)
  then show ?thesis by (cases "length (triples (runs cs))") simp_all
qed

lemma three_chain_check:
  assumes "2 \<le> length cs" "length cs \<le> 19" "pi_type info = ERR"
  shows "if overflow_shape (runs cs) then is_three_chain cs info = Inl Out_of_bounds
      else case three_chain_type (runs cs) of
        Some t \<Rightarrow> is_three_chain cs info =
          Inr (True, \<lparr>pi_type = t, pi_value = hd (triples (runs cs)), pi_length = int (length cs)\<rparr>)
      | None \<Rightarrow> \<exists>info'. is_three_chain cs info = Inr (False, info') \<and> pi_type info' = ERR"
proof (cases "overflow_shape (runs cs)")
  case True
  then show ?thesis using is_three_chain_runs(1) [OF assms] by simp
next
  case False
  then show ?thesis
    using is_three_chain_runs(2) [OF assms False] is_three_chain_runs(3) [OF assms False] assms(3)
    by (auto split: option.split)
qed

lemma chain_sizes:
  "single_chain cs \<Longrightarrow> 5 \<le> length cs" "double_chain cs \<Longrightarrow> 6 \<le> length cs \<and> even (length cs)"
  by (simp_all add: single_chain_def double_chain_def)

lemma three_chain_size_bounds:
  assumes "three_chain_type (runs cs) = Some t"
  shows "6 \<le> length cs" "length cs \<noteq> 7"
proof -
  have two: "2 \<le> length (triples (runs cs))" using assms by (rule three_chain_type_triples)
  obtain k where "k = 3 \<or> k = 4 \<or> k = 5" and l: "length cs = k * length (triples (runs cs))"
    using assms by (rule three_chain_type_size)
  then have k: "3 \<le> k" and d: "\<not> k dvd 7" by auto
  show "6 \<le> length cs" using mult_le_mono [OF k two] l by simp
  show "length cs \<noteq> 7" using d l by (metis dvd_triv_left)
qed

lemma parse_small:
  assumes "0 < length cs" "length cs \<le> 3" "pi_type info = ERR"
  shows "verdict cs (parse_sorted cs info)"
proof -
  have no: "\<not> overruns cs" using overruns_size [of cs] assms(2) by auto
  consider a where "cs = [a]" | a b where "cs = [a, b]" | a b c where "cs = [a, b, c]"
    using assms(1,2) by (cases cs rule: remdups_adj.cases; cases "tl (tl cs)") auto
  then show ?thesis
    by cases (use no assms(3) in \<open>auto simp: verdict_def parse_sorted_def classified_def
        poker_info_set_eq\<close>)
qed

lemma parse_large:
  assumes "4 \<le> length cs" "length cs \<le> 19" "pi_type info = ERR" "\<forall>c \<in> set cs. 0 < c"
  shows "verdict cs (parse_sorted cs info)"
proof -
  note checks = single_chain_check_def double_chain_check_def three_or_four_check_def
    is_single_chain_eq is_double_chain_eq
  have is_three_or_four: "is_three_or_four_and_single_or_double cs info' =
      (case main_kicker_type (runs cs) of
         Some t \<Rightarrow> (True, \<lparr>pi_type = t, pi_value = fst (hd (mains (runs cs))), pi_length = int (length cs)\<rparr>)
       | None \<Rightarrow> (False, info'))" if "pi_type info' = ERR" for info'
    by (rule is_three_or_four_runs) (use that assms in simp_all)
  have three: "if overruns cs then is_three_chain cs info = Inl Out_of_bounds
      else case three_chain_type (runs cs) of
        Some t \<Rightarrow> is_three_chain cs info =
          Inr (True, \<lparr>pi_type = t, pi_value = hd (triples (runs cs)), pi_length = int (length cs)\<rparr>)
      | None \<Rightarrow> \<exists>info'. is_three_chain cs info = Inr (False, info') \<and> pi_type info' = ERR"
    if "length cs \<noteq> 7"
    using that three_chain_check [of cs info] assms by (simp add: overruns_def)
  have v: "verdict cs r \<longleftrightarrow>
      (if overruns cs then r = Inl Out_of_bounds
       else if single_chain cs then r = Inr \<lparr>pi_type = SINGLE_CHAIN, pi_value = hd cs, pi_length = int (length cs)\<rparr>
       else if double_chain cs then r = Inr \<lparr>pi_type = DOUBLE_CHAIN, pi_value = hd cs, pi_length = int (length cs)\<rparr>
       else case three_chain_type (runs cs) of
         Some t \<Rightarrow> r = Inr \<lparr>pi_type = t, pi_value = hd (triples (runs cs)), pi_length = int (length cs)\<rparr>
       | None \<Rightarrow> (case main_kicker_type (runs cs) of
           Some t \<Rightarrow> r = Inr \<lparr>pi_type = t, pi_value = fst (hd (mains (runs cs))), pi_length = int (length cs)\<rparr>
         | None \<Rightarrow> (case r of Inl e \<Rightarrow> False | Inr info \<Rightarrow> pi_type info = ERR)))" for r
    using assms(1) by (auto simp: verdict_def classified_def split: option.splits)
  consider (four) "length cs = 4" | (five) "length cs = 5" | (six) "length cs = 6"
    | (seven) "length cs = 7" | (eight) "length cs = 8" | (more) "9 \<le> length cs"
    using assms(1) by linarith
  then show ?thesis
  proof cases
    case four
    have "\<not> overruns cs" "\<not> single_chain cs" "\<not> double_chain cs"
        "three_chain_type (runs cs) = None"
      using four overruns_size [of cs] chain_sizes [of cs] three_chain_size_bounds [of cs] by force+
    with four show ?thesis unfolding v
      by (simp add: parse_sorted_def checks is_three_or_four [OF assms(3)] assms(3) split: option.splits)
  next
    case five
    have "\<not> overruns cs" "\<not> double_chain cs" "three_chain_type (runs cs) = None"
      using five overruns_size [of cs] chain_sizes [of cs] three_chain_size_bounds [of cs] by force+
    with five show ?thesis unfolding v
      by (simp add: parse_sorted_def checks is_three_or_four [OF assms(3)] assms(3) split: option.splits)
  next
    case six
    have no: "\<not> overruns cs" using six overruns_size [of cs] by force
    show ?thesis
      using six no assms(3) three
      unfolding v by (auto simp: parse_sorted_def checks is_three_or_four split: option.splits)
  next
    case seven
    have "\<not> overruns cs" "\<not> double_chain cs" "three_chain_type (runs cs) = None"
        "main_kicker_type (runs cs) = None"
      using seven overruns_size [of cs] chain_sizes [of cs] three_chain_size_bounds [of cs]
        main_kicker_type_size [of cs] by force+
    with seven show ?thesis unfolding v
      by (simp add: parse_sorted_def checks assms(3))
  next
    case eight
    have no: "\<not> overruns cs" using eight overruns_size [of cs] by force
    show ?thesis
      using eight no assms(3) three main_kicker_no_chain [of "runs cs"]
      unfolding v by (auto simp: parse_sorted_def checks is_three_or_four split: option.splits)
  next
    case more
    have m: "main_kicker_type (runs cs) = None"
      using more main_kicker_type_size [of cs] by force
    have seven: "length cs \<noteq> 7" using more by simp
    have "parse_sorted cs info = first_match
        ([is_three_chain, single_chain_check] @ (if length cs mod 2 = 0 then [double_chain_check] else []))
        cs info"
      using more by (simp add: parse_sorted_def Let_def)
    moreover have "\<not> double_chain cs" if "length cs mod 2 \<noteq> 0"
      using that by (auto simp: double_chain_def even_iff_mod_2_eq_zero)
    ultimately show ?thesis
      using three [OF seven] m unfolding v by (auto simp: checks split: option.splits)
  qed
qed

lemma parse_verdict:
  assumes "0 < length cards" "length cards < 20" "\<forall>c \<in> set cards. 0 < c"
  obtains r where "verdict (sort cards) r" "parse cards info = ebind r (\<lambda>pi. Inr (sort cards, pi))"
proof -
  have "verdict (sort cards) (parse_sorted (sort cards) (poker_info_set info ERR chr_0 0))"
    using parse_small [of "sort cards"] parse_large [of "sort cards"] assms
    by (cases "length cards \<le> 3") simp_all
  moreover have "parse cards info = ebind (parse_sorted (sort cards) (poker_info_set info ERR chr_0 0))
      (\<lambda>pi. Inr (sort cards, pi))"
    using assms(2) by (simp add: parse_def card_sort.srt_eq_sort Let_def)
  ultimately show thesis by (rule that)
qed

text \<open>
  C1. For a non-empty array of fewer than 20 positive rank characters, parse either sorts the
  array and returns the description of the group that the multiset of cards forms (its type, main
  rank and length; type ERR when it forms none), or it writes past the six-character buffer of
  is_three_chain; the latter happens exactly for the arrays whose sorted form is of shape overruns.
\<close>

theorem parse_classifies:
  assumes "0 < length cards" "length cards < 20" "\<forall>c \<in> set cards. 0 < c"
  shows "case parse cards info of
      Inl e \<Rightarrow> e = Out_of_bounds \<and> overruns (sort cards)
    | Inr (cards', pi) \<Rightarrow> cards' = sort cards \<and> \<not> overruns (sort cards) \<and>
        (case classified (sort cards) of
           Some (t, v) \<Rightarrow> pi = \<lparr>pi_type = t, pi_value = v, pi_length = int (length cards)\<rparr>
         | None \<Rightarrow> pi_type pi = ERR)"
proof -
  obtain r where "verdict (sort cards) r" "parse cards info = ebind r (\<lambda>pi. Inr (sort cards, pi))"
    using parse_verdict [OF assms] by blast
  then show ?thesis
    by (cases r) (auto simp: verdict_def split: if_splits option.splits)
qed

lemma parse_classifies_witness:
  "case parse [70, 65, 71, 70, 66, 71, 71, 70] poker_info_zero of
      Inl e \<Rightarrow> e = Out_of_bounds \<and> overruns (sort [70, 65, 71, 70, 66, 71, 71, 70])
    | Inr (cards', pi) \<Rightarrow> cards' = sort [70, 65, 71, 70, 66, 71, 71, 70] \<and>
        \<not> overruns (sort [70, 65, 71, 70, 66, 71, 71, 70]) \<and>
        (case classified (sort [70, 65, 71, 70, 66, 71, 71, 70]) of
           Some (t, v) \<Rightarrow> pi = \<lparr>pi_type = t, pi_value = v,
             pi_length = int (length ([70, 65, 71, 70, 66, 71, 71, 70] :: int list))\<rparr>
         | None \<Rightarrow> pi_type pi = ERR)"
  by (rule parse_classifies) simp_all

text \<open>
  The verdict of parse on a play does not depend on the order of the cards the client names.
\<close>

lemma parse_order_irrelevant:
  assumes "mset cards = mset cards'" "length cards < 20"
  shows "parse cards info = parse cards' info"
proof -
  have "length cards' < 20" using assms by (metis size_mset)
  with assms show ?thesis unfolding parse_def
    by (simp add: card_sort.srt_perm [OF assms(1)])
qed

lemma parse_order_irrelevant_witness:
  "parse [65, 66] poker_info_zero = parse [66, 65] poker_info_zero"
  by (rule parse_order_irrelevant) simp_all

text \<open>
  C16. A ten-card play such as \<^verbatim>\<open>A B C D E FFF G H\<close> makes is_three_chain write past the end of
  its six-character array of kickers.
\<close>

theorem parse_can_overrun:
  "parse [65, 66, 67, 68, 69, 70, 70, 70, 71, 72] info = Inl Out_of_bounds"
proof -
  have "sort [65, 66, 67, 68, 69, 70, 70, 70, 71, 72::int] = [65, 66, 67, 68, 69, 70, 70, 70, 71, 72]"
    by simp
  then show ?thesis
    by (simp add: parse_def card_sort.srt_eq_sort parse_sorted_def is_three_chain_def tc_body_def
        tc_init_def tc_switch_def push_vx_def push_v3_def upt_rec numeral_eq_Suc)
qed

lemma is_large_irrefl: "\<not> is_large p p"
  by (simp add: is_large_def)

text \<open>
  Beating is transitive: a group that beats the one on the table also beats every group that
  one had beaten.
\<close>

lemma is_large_transitive:
  assumes "is_large p q" "is_large q r"
  shows "is_large p r"
proof (cases "pi_type p = pi_type q")
  case True
  then show ?thesis using assms by (cases "pi_type q = pi_type r") (simp_all add: is_large_def split: if_splits)
next
  case False
  then show ?thesis using assms
    by (cases "pi_type q = pi_type r"; cases "pi_type p = pi_type r")
      (simp_all add: is_large_def split: if_splits)
qed

lemma is_large_transitive_witness:
  "is_large \<lparr>pi_type = DOUBLE_JOKER, pi_value = 78, pi_length = 2\<rparr>
            \<lparr>pi_type = SINGLE, pi_value = 66, pi_length = 1\<rparr>"
  by (rule is_large_transitive [of _ "\<lparr>pi_type = BOMB, pi_value = 65, pi_length = 4\<rparr>"])
    (simp_all add: is_large_def)

end
