(* ===== verification/PlayForms.thy ===== *)
theory PlayForms
  imports PokerGroups
begin

text \<open>
  Card lists, in any order, that form a given group: what the parser finds is read off the number
  of times each rank occurs.
\<close>

definition forms :: "int list \<Rightarrow> poker_type \<Rightarrow> int \<Rightarrow> bool" where
  "forms cards t v \<longleftrightarrow>
     0 < length cards \<and> length cards < 20 \<and> (\<forall>c \<in> set cards. 0 < c) \<and>
     \<not> overruns (sort cards) \<and> classified (sort cards) = Some (t, v)"

lemma parse_forms:
  assumes "forms cards t v"
  shows "parse cards info =
    Inr (sort cards, \<lparr>pi_type = t, pi_value = v, pi_length = int (length cards)\<rparr>)"
proof -
  obtain r where "verdict (sort cards) r" "parse cards info = ebind r (\<lambda>pi. Inr (sort cards, pi))"
    using parse_verdict [of cards info] assms by (auto simp: forms_def)
  then show ?thesis using assms by (simp add: verdict_def forms_def)
qed

section \<open>Runs of a sorted list by counting\<close>

lemma runs_sort:
  fixes xs :: "'a::linorder list"
  shows "runs (sort xs) = map (\<lambda>x. (x, count_list xs x)) (sorted_list_of_set (set xs))"
proof -
  have s: "sorted_wrt (<) (map fst (runs (sort xs)))" by (simp add: runs_sorted)
  have "set (map fst (runs (sort xs))) = set xs"
    using fst_runs_set [of "sort xs"] by simp
  then have fst: "map fst (runs (sort xs)) = sorted_list_of_set (set xs)"
    using s by (intro sorted_distinct_set_unique) (simp_all add: strict_sorted_iff)
  have count: "count_list (sort xs) x = count_list xs x" for x
    by (metis count_mset mset_sort)
  have "runs (sort xs) = map (\<lambda>x. (x, count_list xs x)) (map fst (runs (sort xs)))"
  proof -
    have "(fst r, count_list xs (fst r)) = r" if "r \<in> set (runs (sort xs))" for r
      using runs_count [of "sort xs" "fst r" "snd r"] that count by (cases r) simp
    then show ?thesis by (simp add: map_idI)
  qed
  then show ?thesis by (simp add: fst)
qed

lemma filter_sorted_list_of_set:
  "finite A \<Longrightarrow> filter P (sorted_list_of_set A) = sorted_list_of_set {x \<in> A. P x}"
  by (rule sorted_distinct_set_unique) (auto simp: sorted_wrt_filter)

lemma sorted_upto_set:
  "sorted_list_of_set (set (map (\<lambda>i. h + int i) [0..<t])) = map (\<lambda>i. h + int i) [0..<t]"
  by (rule sorted_list_of_set.idem_if_sorted_distinct)
    (auto simp: sorted_map sorted_wrt_upt distinct_map inj_on_def intro: sorted_wrt_mono_rel [of _ "(<)"])

text \<open>The runs of one size, and the others.\<close>

lemma filter_runs:
  fixes xs :: "'a::linorder list"
  shows "filter (\<lambda>r. P (snd r)) (runs (sort xs)) =
    map (\<lambda>x. (x, count_list xs x)) (sorted_list_of_set {x \<in> set xs. P (count_list xs x)})"
  by (simp add: runs_sort filter_map o_def filter_sorted_list_of_set)

lemma big_run_no_chain:
  assumes "(x, k) \<in> set (runs cs)" "3 \<le> k"
  shows "\<not> single_chain cs" "\<not> double_chain cs"
proof -
  have "\<exists>p. p + k \<le> length cs \<and> (\<forall>j < k. cs ! (p + j) = x)"
    by (rule runs_stretch [OF assms(1)]) blast
  then obtain p where p: "p + k \<le> length cs" "\<And>j. j < k \<Longrightarrow> cs ! (p + j) = x" by blast
  have e: "cs ! p = cs ! (p + 2)" "p + 2 < length cs"
    using p(1) p(2) [of 0] p(2) [of 2] assms(2) by simp_all
  show "\<not> single_chain cs"
  proof
    assume "single_chain cs"
    then have "cs ! p = hd cs + int p" "cs ! (p + 2) = hd cs + int (p + 2)"
      using e(2) by (simp_all add: single_chain_def)
    with e(1) show False by simp
  qed
  show "\<not> double_chain cs"
  proof
    assume "double_chain cs"
    then have "cs ! p = hd cs + int (p div 2)" "cs ! (p + 2) = hd cs + int ((p + 2) div 2)"
      using e(2) by (simp_all add: double_chain_def)
    with e(1) show False by simp
  qed
qed

section \<open>Small groups\<close>

lemma forms_one: "0 < a \<Longrightarrow> forms [a] SINGLE a"
  using overruns_size [of "[a]"] by (auto simp: forms_def classified_def)

lemma forms_two: "0 < a \<Longrightarrow> forms [a, a] DOUBLE a"
  using overruns_size [of "[a, a]"] by (auto simp: forms_def classified_def)

lemma forms_three: "0 < a \<Longrightarrow> a < rank_N \<Longrightarrow> forms [a, a, a] THREE a"
  using overruns_size [of "[a, a, a]"] by (auto simp: forms_def classified_def)

lemma forms_joker: "forms [rank_N, rank_O] DOUBLE_JOKER rank_N"
  using overruns_size [of "[rank_N, rank_O]"] by (auto simp: forms_def classified_def)

section \<open>A main group with kickers\<close>

definition main_type :: "nat \<Rightarrow> nat \<Rightarrow> nat \<Rightarrow> poker_type option" where
  "main_type m n j =
     (if n = 0 then Some (if m = 3 then THREE else BOMB)
      else if n = 1 then (if m = 3 then Some (if j = 1 then THREE_ONE else THREE_DOUBLE)
                          else if j = 2 then Some FOUR_TWO_SINGLE else None)
      else if n = 2 then (if m = 4 then Some (if j = 1 then FOUR_TWO_SINGLE else FOUR_TWO_DOUBLE) else None)
      else None)"

lemma main_group:
  fixes cards :: "int list"
  assumes "m = 3 \<or> m = 4" "j = 1 \<or> j = 2" "q \<notin> set ks" "distinct ks"
    and "set cards = insert q (set ks)" "count_list cards q = m" "\<forall>k \<in> set ks. count_list cards k = j"
  shows "main_kicker_type (runs (sort cards)) = main_type m (length ks) j"
    and "fst (hd (mains (runs (sort cards)))) = q"
proof -
  have "{x \<in> set cards. count_list cards x = 3 \<or> count_list cards x = 4} = {q}"
    using assms by auto
  then have mains: "mains (runs (sort cards)) = [(q, m)]"
    using filter_runs [of "\<lambda>n. n = 3 \<or> n = 4" cards] assms(6) by (simp add: mains_def)
  have "{x \<in> set cards. \<not> (count_list cards x = 3 \<or> count_list cards x = 4)} = set ks"
    using assms by auto
  then have "kickers (runs (sort cards)) = map (\<lambda>x. (x, count_list cards x)) (sorted_list_of_set (set ks))"
    using filter_runs [of "\<lambda>n. \<not> (n = 3 \<or> n = 4)" cards] by (simp add: kickers_def)
  also have "\<dots> = map (\<lambda>x. (x, j)) (sorted_list_of_set (set ks))"
    using assms(7) by simp
  finally have kickers: "kickers (runs (sort cards)) = map (\<lambda>x. (x, j)) (sorted_list_of_set (set ks))" .
  have len: "length (sorted_list_of_set (set ks)) = length ks"
    by (simp only: length_sorted_list_of_set distinct_card [OF assms(4)])
  have sizes: "map snd (kickers (runs (sort cards))) = replicate (length ks) j"
    by (simp add: kickers o_def map_replicate_const distinct_card [OF assms(4)])
  have u: "uniform_kickers (runs (sort cards))"
    by (cases "sorted_list_of_set (set ks)") (auto simp: uniform_kickers_def kickers)
  have "\<forall>x \<in> set cards. count_list cards x \<le> 4" using assms by auto
  then have all: "\<forall>r \<in> set (runs (sort cards)). snd r \<le> 4" by (simp add: runs_sort)
  show "fst (hd (mains (runs (sort cards)))) = q" by (simp add: mains)
  consider "length ks = 0" | "length ks = 1" | "length ks = 2" | (more) n where "length ks = Suc (Suc (Suc n))"
    by (metis One_nat_def Suc_1 not0_implies_Suc)
  then show "main_kicker_type (runs (sort cards)) = main_type m (length ks) j"
    using assms(1,2) all u
    by cases (auto simp: main_kicker_type_def mains sizes main_type_def numeral_2_eq_2)
qed

lemma forms_main:
  assumes "m = 3 \<or> m = 4" "j = 1 \<or> j = 2" "q \<notin> set ks" "distinct ks"
    and "set cards = insert q (set ks)" "count_list cards q = m" "\<forall>k \<in> set ks. count_list cards k = j"
    and "main_type m (length ks) j = Some t" "4 \<le> length cards" "length cards < 10" "\<forall>c \<in> set cards. 0 < c"
  shows "forms cards t q"
proof -
  note mg = main_group [OF assms(1-7)]
  have "q \<in> set cards" using assms(5) by simp
  then have "(q, m) \<in> set (runs (sort cards))" using assms(6) by (simp add: runs_sort image_iff)
  then have no: "\<not> single_chain (sort cards)" "\<not> double_chain (sort cards)"
    using big_run_no_chain assms(1) by fastforce+
  have "main_kicker_type (runs (sort cards)) = Some t" using mg(1) assms(8) by simp
  moreover from this have "three_chain_type (runs (sort cards)) = None" by (rule main_kicker_no_chain)
  moreover have "\<not> overruns (sort cards)" using overruns_size [of "sort cards"] assms(10) by auto
  moreover have "cards \<noteq> []" using assms(9) by auto
  ultimately show ?thesis
    using assms(9-11) no mg(2) by (simp add: forms_def classified_def)
qed

section \<open>Chains\<close>

lemma forms_single_chain:
  assumes "single_chain cards" "length cards < 20" "0 < hd cards"
  shows "forms cards SINGLE_CHAIN (hd cards)"
proof -
  have nth: "cards ! i = hd cards + int i" if "i < length cards" for i
    using assms(1) that by (simp add: single_chain_def)
  then have "sorted cards" by (auto simp: sorted_iff_nth_mono)
  then have s: "sort cards = cards" by (rule sorted_sort_id)
  have "\<forall>c \<in> set cards. 0 < c" using nth assms(3) by (auto simp: in_set_conv_nth)
  moreover have "\<not> overruns cards"
  proof
    assume "overruns cards"
    then have "overflow_shape (runs cards)" by (simp add: overruns_def)
    then show False
      using overflow_shape_size [of cards] single_chain_no_triples [OF assms(1)] \<open>overruns cards\<close>
      by (simp add: overruns_def)
  qed
  moreover have "cards \<noteq> []" using chain_sizes(1) [OF assms(1)] by auto
  ultimately show ?thesis using assms chain_sizes(1) [OF assms(1)] s
    by (simp add: forms_def classified_def)
qed

lemma forms_double_chain:
  assumes "double_chain cards" "length cards < 20" "0 < hd cards"
  shows "forms cards DOUBLE_CHAIN (hd cards)"
proof -
  have nth: "cards ! i = hd cards + int (i div 2)" if "i < length cards" for i
    using assms(1) that by (simp add: double_chain_def)
  then have "sorted cards" by (auto simp: sorted_iff_nth_mono div_le_mono)
  then have s: "sort cards = cards" by (rule sorted_sort_id)
  have "\<forall>c \<in> set cards. 0 < c" using nth assms(3) by (auto simp: in_set_conv_nth)
  moreover have "\<not> overruns cards"
  proof
    assume "overruns cards"
    then have "overflow_shape (runs cards)" by (simp add: overruns_def)
    then show False
      using overflow_shape_size [of cards] double_chain_no_triples [OF assms(1)] \<open>overruns cards\<close>
      by (simp add: overruns_def)
  qed
  moreover have "\<not> single_chain cards"
  proof
    assume "single_chain cards"
    then have "cards ! 1 = hd cards + int 1" "1 < length cards" by (simp_all add: single_chain_def)
    then show False using nth [of 1] by simp
  qed
  moreover have "cards \<noteq> []" using chain_sizes(2) [OF assms(1)] by auto
  ultimately show ?thesis using assms chain_sizes(2) [OF assms(1)] s
    by (simp add: forms_def classified_def)
qed

lemma forms_three_chain:
  assumes "2 \<le> t" "h + int t \<le> rank_M" "0 < h"
    and "ks = [] \<or> length ks = t" "j = 1 \<or> j = 2" "distinct ks"
    and "set (map (\<lambda>i. h + int i) [0..<t]) \<inter> set ks = {}"
    and "set cards = set (map (\<lambda>i. h + int i) [0..<t]) \<union> set ks"
    and "\<forall>i < t. count_list cards (h + int i) = 3" "\<forall>k \<in> set ks. count_list cards k = j"
    and "length cards < 20" "\<forall>c \<in> set cards. 0 < c"
  shows "forms cards
    (if ks = [] then THREE_CHAIN else if j = 2 then THREE_CHAIN_DOUBLE else TRHEE_CHAIN_SINGLE) h"
proof -
  let ?T = "map (\<lambda>i. h + int i) [0..<t]" and ?rs = "runs (sort cards)"
  have cT: "count_list cards x = 3" if "x \<in> set ?T" for x using that assms(9) by auto
  have "{x \<in> set cards. count_list cards x = 3} = set ?T"
    using cT assms(5,8,10) by fastforce
  then have three: "triples ?rs = ?T"
    using filter_runs [of "\<lambda>n. n = 3" cards] sorted_upto_set [of h t] by (simp add: triples_def o_def)
  have "{x \<in> set cards. count_list cards x \<noteq> 3} = set ks"
    using cT assms(5,7,8,10) by fastforce
  then have "extras ?rs = map (\<lambda>x. (x, count_list cards x)) (sorted_list_of_set (set ks))"
    using filter_runs [of "\<lambda>n. n \<noteq> 3" cards] by (simp add: extras_def)
  also have "\<dots> = map (\<lambda>x. (x, j)) (sorted_list_of_set (set ks))" using assms(10) by simp
  finally have extras: "extras ?rs = map (\<lambda>x. (x, j)) (sorted_list_of_set (set ks))" .
  have len: "length (extras ?rs) = length ks" using distinct_card [OF assms(6)] by (simp add: extras)
  have j: "snd (hd (extras ?rs)) = j" if "ks \<noteq> []"
    using that len by (cases "sorted_list_of_set (set ks)") (auto simp: extras)
  have u: "uniform_extras ?rs"
    by (cases "sorted_list_of_set (set ks)") (auto simp: uniform_extras_def extras)
  have le: "\<forall>r \<in> set ?rs. snd r \<le> 3"
    using cT assms(5,8,10) by (fastforce simp: runs_sort)
  have ch: "chained ?T"
    using assms(2) by (auto simp: chained_def of_nat_diff)
  have hT: "hd ?T = h" using assms(1) by (simp add: upt_rec)
  have size: "3 * t \<le> length cards" "ks \<noteq> [] \<Longrightarrow> length cards = 3 * t + t * j"
    using runs_weight [of ?rs] uniform_extras_weight [OF u] j assms(4) len
    by (auto simp: sum_runs three extras)
  then have "length ks \<noteq> 7" using assms(4,5,11) by (cases "ks = []") auto
  then have over: "\<not> overruns (sort cards)"
    using len by (auto simp: overruns_def overflow_shape_def)
  have n: "6 \<le> length cards" using size(1) assms(1) by simp
  have "h \<in> set cards" "count_list cards h = 3"
    using assms(1,8) assms(9) [rule_format, of 0] by (auto intro!: image_eqI [of _ _ 0])
  then have "(h, 3) \<in> set ?rs" by (simp add: runs_sort image_iff)
  then have no: "\<not> single_chain (sort cards)" "\<not> double_chain (sort cards)"
    using big_run_no_chain by fastforce+
  have "three_chain_type ?rs = Some
      (if ks = [] then THREE_CHAIN else if j = 2 then THREE_CHAIN_DOUBLE else TRHEE_CHAIN_SINGLE)"
    using le u ch three len j assms(1,4) by (auto simp: three_chain_type_def)
  moreover have "cards \<noteq> []" using n by auto
  ultimately show ?thesis
    using no over n assms(11,12) three hT by (simp add: forms_def classified_def)
qed
end
