(* ===== verification/FinderSearch.thy ===== *)
theory FinderSearch
  imports FinderPlays PlayForms "HOL-Library.Sublist"
begin

text \<open>
  What the searches of \<^verbatim>\<open>src/src/ddz/poker_finder.cpp\<close> guarantee for a hand of real cards:
  they always return, none of their asserts and checked accesses fails, and what they find is a
  set of cards of the hand that forms a group of the right kind.
\<close>

section \<open>Hands\<close>

definition valid_hand :: "poker_list \<Rightarrow> bool" where
  "valid_hand h \<longleftrightarrow> sorted_wrt (<) h \<and> (\<forall>p \<in> set h. is_poker p)"

lemma valid_hand_distinct: "valid_hand h \<Longrightarrow> distinct h"
  by (simp add: valid_hand_def strict_sorted_iff)

lemma valid_hand_erase [intro]: "valid_hand h \<Longrightarrow> valid_hand (pset_erase x h)"
  by (simp add: valid_hand_def ordered_pset_erase)

lemma valid_hand_erase_all [intro]: "valid_hand h \<Longrightarrow> valid_hand (fold pset_erase xs h)"
  by (simp add: valid_hand_def fold_pset_erase pset.ordered_del_all pset.set_del_all)

lemma cchar_inject: "cchar c = cchar d \<longleftrightarrow> c = d"
proof
  assume e: "cchar c = cchar d"
  define m n where "m = (of_char c :: nat)" and "n = (of_char d :: nat)"
  have b: "m < 256" "n < 256" by (simp_all add: m_def n_def of_char_def)
  have "(if int m < 128 then int m else int m - 256) = (if int n < 128 then int n else int n - 256)"
    using e unfolding cchar_def Let_def m_def n_def .
  then have "m = n" using b by (auto split: if_splits)
  then show "c = d" by (simp add: m_def n_def)
qed simp

lemma is_poker_cases:
  assumes "is_poker p"
  obtains c d where "p = [c, d]" "65 \<le> cchar c" "cchar c \<le> 79" "49 \<le> cchar d" "cchar d \<le> 52"
    "78 \<le> cchar c \<Longrightarrow> cchar d = 49"
proof -
  obtain c d where p: "p = [c, d]"
    using assms by (auto simp: is_poker_def length_Suc_conv numeral_2_eq_2 split: if_splits)
  have "cchar d = 49" if "78 \<le> cchar c"
  proof -
    have "cchar c = cchar (CHR ''N'') \<or> cchar c = cchar (CHR ''O'')"
      using assms that by (auto simp: is_poker_def p split: if_splits)
    then have "c = CHR ''N'' \<or> c = CHR ''O''" by (simp only: cchar_inject)
    then show ?thesis using assms by (auto simp: is_poker_def p split: if_splits)
  qed
  then show thesis
    using assms by (intro that [OF p]) (auto simp: is_poker_def p split: if_splits)
qed

lemma is_poker_rank: "is_poker p \<Longrightarrow> 65 \<le> rank p \<and> rank p \<le> 79"
  by (elim is_poker_cases) simp

lemma same_rank_few:
  assumes "\<forall>p \<in> set g. is_poker p \<and> rank p = r" "distinct g"
  shows "length g \<le> 4" "78 \<le> r \<Longrightarrow> length g \<le> 1"
proof -
  have inj: "inj_on (\<lambda>p. cchar (p ! 1)) (set g)"
  proof (rule inj_onI)
    fix p q assume pq: "p \<in> set g" "q \<in> set g" "cchar (p ! 1) = cchar (q ! 1)"
    then obtain a b c d where "p = [a, b]" "q = [c, d]" using assms(1) is_poker_cases by meson
    moreover have "rank p = rank q" using assms(1) pq by simp
    ultimately show "p = q" using pq(3) by (simp add: cchar_inject)
  qed
  have "(\<lambda>p. cchar (p ! 1)) ` set g \<subseteq> {49..52}"
    using assms(1) by (fastforce elim!: is_poker_cases)
  then have "card (set g) \<le> card {49..52::int}" by (rule card_inj_on_le [OF inj]) simp
  then show "length g \<le> 4" using assms(2) by (simp add: distinct_card)
  show "length g \<le> 1" if "78 \<le> r"
  proof -
    have "(\<lambda>p. cchar (p ! 1)) ` set g \<subseteq> {49}"
      using assms(1) that by (fastforce elim!: is_poker_cases)
    then have "card (set g) \<le> card {49::int}" by (rule card_inj_on_le [OF inj]) simp
    then show ?thesis using assms(2) by (simp add: distinct_card)
  qed
qed

lemma valid_group:
  assumes "valid_hand h" "g \<in> set (groups h)"
  shows "length g \<le> 4" "78 \<le> rank (hd g) \<Longrightarrow> length g \<le> 1"
  using same_rank_few [of g "rank (hd g)"] groups_rank [OF assms(2)] groups_subset [OF assms(2)]
    groups_distinct [OF valid_hand_distinct [OF assms(1)] assms(2)] assms(1)
  by (auto simp: valid_hand_def subset_iff)

lemma valid_bounded: "valid_hand h \<Longrightarrow> bounded h"
  by (simp add: bounded_def valid_group)

lemma find_valid:
  assumes "valid_hand h"
  shows "find_single h v found = Inr (found @ picked h 1 v)"
    "find_double h v found = Inr (found @ picked h 2 v)"
    "find_three h v found = Inr (found @ picked h 3 v)"
    "find_four h v found = Inr (found @ picked h 4 v)"
  using valid_bounded [OF assms] by (simp_all add: find_groups)

section \<open>One group\<close>

text \<open>\<open>n\<close> distinct cards of the hand, all of one rank.\<close>

definition same_rank :: "nat \<Rightarrow> poker_list \<Rightarrow> poker_array \<Rightarrow> bool" where
  "same_rank n h ps \<longleftrightarrow>
     length ps = n \<and> set ps \<subseteq> set h \<and> distinct ps \<and> map rank ps = replicate n (rank (ps ! 0))"

lemma picked_same_rank:
  assumes "valid_hand h" "0 < n"
  shows "picked h n v = [] \<or> same_rank n h (picked h n v) \<and> v < rank (picked h n v ! 0)"
proof (cases "picked h n v = []")
  case False
  then have len: "length (picked h n v) = n" using picked_length by blast
  have in0: "picked h n v ! 0 \<in> set (picked h n v)" using False by (simp add: neq_Nil_conv)
  have "map rank (picked h n v) = replicate n (rank (picked h n v ! 0))"
    using picked_rank(2) [OF in0] len by (intro replicate_eqI) auto
  then show ?thesis
    using len picked_subset picked_distinct [OF valid_hand_distinct [OF assms(1)]] picked_rank(1) [OF in0]
    by (simp add: same_rank_def)
qed simp

lemma same_rank_low:
  assumes "valid_hand h" "same_rank n h ps" "2 \<le> n"
  shows "rank (ps ! 0) < 78"
proof (rule ccontr)
  assume r: "\<not> ?thesis"
  have "rank p = rank (ps ! 0)" if "p \<in> set ps" for p
  proof -
    have "rank p \<in> set (map rank ps)" using that by simp
    also have "map rank ps = replicate n (rank (ps ! 0))" using assms(2) by (simp add: same_rank_def)
    finally show ?thesis by (simp split: if_splits)
  qed
  moreover have "is_poker p" if "p \<in> set ps" for p
    using that assms(1,2) by (auto simp: same_rank_def valid_hand_def)
  ultimately have "length ps \<le> 1"
    using r assms(2) by (intro same_rank_few(2) [of ps "rank (ps ! 0)"]) (auto simp: same_rank_def)
  then show False using assms(2,3) by (simp add: same_rank_def)
qed

section \<open>Kickers\<close>

text \<open>A loop that looks for kickers either gives up or adds the kickers it found.\<close>

lemma three_single_result:
  assumes "valid_hand h" "found \<noteq> []"
  obtains "three_single_loop h found = Inr []"
  | s where "s \<in> set h" "rank s \<noteq> rank (found ! 0)" "three_single_loop h found = Inr (found @ [s])"
proof -
  have "three_single_loop h found = Inr [] \<or>
      (\<exists>s \<in> set h. rank s \<noteq> rank (found ! 0) \<and> three_single_loop h found = Inr (found @ [s]))"
    using assms(1)
  proof (induction "length h" arbitrary: h rule: less_induct)
    case less
    let ?p = "picked h 1 chr_0"
    show ?case
    proof (cases "?p = []")
      case True
      then show ?thesis
        by (subst (1 2) three_single_loop.simps) (simp add: find_valid [OF less.prems])
    next
      case False
      then have p: "?p ! 0 \<in> set h" "\<not> length ?p < 1"
        using picked_subset [of h 1 chr_0] by (auto simp: neq_Nil_conv)
      have "length (pset_erase (?p ! 0) h) < length h" by (rule length_pset_erase [OF p(1)])
      note IH = less.hyps [OF this valid_hand_erase [OF less.prems]]
      have step: "three_single_loop h found =
          (if rank (found ! 0) = rank (?p ! 0) then three_single_loop (pset_erase (?p ! 0) h) found
           else Inr (found @ [?p ! 0]))"
        using False assms(2)
        by (subst three_single_loop.simps) (simp add: find_valid [OF less.prems])
      show ?thesis using IH p(1) unfolding step by auto
    qed
  qed
  then show thesis using that by blast
qed


lemma picked_one:
  assumes "picked h 1 v \<noteq> []"
  shows "picked h 1 v = [picked h 1 v ! 0]" "picked h 1 v ! 0 \<in> set h" "v < rank (picked h 1 v ! 0)"
proof -
  show e: "picked h 1 v = [picked h 1 v ! 0]"
    using assms picked_length [of h 1 v] by (auto simp: length_Suc_conv)
  have "picked h 1 v ! 0 \<in> set (picked h 1 v)" by (subst (2) e) simp
  then show "picked h 1 v ! 0 \<in> set h" "v < rank (picked h 1 v ! 0)"
    using picked_subset picked_rank(1) by blast+
qed

lemma four_single_result:
  assumes "valid_hand h" "length sp \<le> 1" "set sp \<inter> set h = {}"
  shows "four_single_loop h sp found = Inr [] \<or>
    (\<exists>p s. p \<in> set sp \<union> set h \<and> s \<in> set h \<and> rank p \<noteq> rank s \<and>
       four_single_loop h sp found = Inr (found @ [p, s]))"
  using assms
proof (induction "length h" arbitrary: h sp rule: less_induct)
  case less
  let ?p = "picked h 1 chr_0"
  show ?case
  proof (cases "?p = []")
    case True
    then show ?thesis
      by (subst (1 2) four_single_loop.simps) (simp add: find_valid [OF less.prems(1)])
  next
    case False
    note p = picked_one [OF False]
    note IH = less.hyps [OF length_pset_erase [OF p(2)] valid_hand_erase [OF less.prems(1)]]
    have step: "four_single_loop h sp found =
        (if length sp < 1 then four_single_loop (pset_erase (?p ! 0) h) (sp @ [?p ! 0]) found
         else if rank (sp ! 0) = rank (?p ! 0) then four_single_loop (pset_erase (?p ! 0) h) sp found
         else Inr (found @ [sp ! 0, ?p ! 0]))"
      using False by (subst four_single_loop.simps) (simp add: find_valid [OF less.prems(1)])
    show ?thesis
    proof (cases "length sp < 1")
      case True
      then have "four_single_loop h sp found = four_single_loop (pset_erase (?p ! 0) h) [?p ! 0] found"
        unfolding step by simp
      with IH [of "[?p ! 0]"] p(2) True show ?thesis by auto
    next
      case sp: False
      then have "sp ! 0 \<in> set sp" by (simp add: neq_Nil_conv)
      with sp IH [of sp] p(2) less.prems(2,3) show ?thesis unfolding step by auto
    qed
  qed
qed

lemma picked_two:
  assumes "valid_hand h" "picked h 2 v \<noteq> []"
  defines "a \<equiv> picked h 2 v ! 0" and "b \<equiv> picked h 2 v ! 1"
  shows "picked h 2 v = [a, b]" "a \<in> set h" "b \<in> set h" "a \<noteq> b" "rank a = rank b" "v < rank a"
proof -
  have s: "same_rank 2 h (picked h 2 v)" "v < rank a"
    using picked_same_rank [OF assms(1), of 2 v] assms(2) by (auto simp: a_def)
  then show e: "picked h 2 v = [a, b]"
    by (cases "picked h 2 v" rule: remdups_adj.cases)
      (auto simp: same_rank_def a_def b_def numeral_2_eq_2)
  have "same_rank 2 h [a, b]" using s(1) e by simp
  then show "a \<in> set h" "b \<in> set h" "a \<noteq> b" "rank a = rank b" "v < rank a"
    using s(2) by (simp_all add: same_rank_def numeral_2_eq_2)
qed

text \<open>A list of cards that are pairs one after the other.\<close>

definition pairs :: "(poker \<times> poker) list \<Rightarrow> poker_array" where
  "pairs ps = concat (map (\<lambda>(a, b). [a, b]) ps)"

definition good_pairs :: "poker set \<Rightarrow> (poker \<times> poker) list \<Rightarrow> bool" where
  "good_pairs S ps \<longleftrightarrow> set (pairs ps) \<subseteq> S \<and> distinct (pairs ps) \<and>
     (\<forall>(a, b) \<in> set ps. rank a = rank b) \<and> distinct (map (rank \<circ> fst) ps)"

lemma length_pairs [simp]: "length (pairs ps) = 2 * length ps"
  by (induction ps) (auto simp: pairs_def)

lemma pairs_append [simp]: "pairs (ps @ qs) = pairs ps @ pairs qs"
  by (simp add: pairs_def)

lemma pairs_simps [simp]: "pairs [] = []" "pairs (x # ps) = fst x # snd x # pairs ps"
  by (simp_all add: pairs_def split_beta)

lemma good_pairs_mono: "good_pairs S ps \<Longrightarrow> S \<subseteq> T \<Longrightarrow> good_pairs T ps"
  by (auto simp: good_pairs_def)

lemma good_pairs_rank:
  "\<forall>(a, b) \<in> set ps. rank a = rank b \<Longrightarrow> rank ` set (pairs ps) = (rank \<circ> fst) ` set ps"
  by (induction ps) auto

lemma four_double_result:
  assumes "valid_hand h" "length dp \<le> 1" "good_pairs S dp" "S \<inter> set h = {}"
  shows "four_double_loop h (pairs dp) found = Inr [] \<or>
    (\<exists>ps. length ps = 2 \<and> good_pairs (S \<union> set h) ps \<and>
       four_double_loop h (pairs dp) found = Inr (found @ pairs ps))"
  using assms
proof (induction "length h" arbitrary: h dp S rule: less_induct)
  case less
  let ?p = "picked h 2 chr_0"
  show ?case
  proof (cases "?p = []")
    case True
    then show ?thesis
      by (subst (1 2) four_double_loop.simps) (simp add: find_valid [OF less.prems(1)])
  next
    case False
    define a b where "a = ?p ! 0" and "b = ?p ! 1"
    note p = picked_two [OF less.prems(1) False, folded a_def b_def]
    let ?h = "pset_erase b (pset_erase a h)"
    have shorter: "length ?h < length h" by (rule erase_found(3) [of ?p]) (use p in simp_all)
    note IH = less.hyps [OF shorter valid_hand_erase [OF valid_hand_erase [OF less.prems(1)]]]
    have step: "four_double_loop h (pairs dp) found =
        (if dp = [] then four_double_loop ?h (pairs [(a, b)]) found
         else if rank (fst (dp ! 0)) = rank a then four_double_loop ?h (pairs dp) found
         else Inr (found @ pairs [dp ! 0, (a, b)]))"
      using p(1) by (subst four_double_loop.simps)
        (cases dp; simp add: find_valid [OF less.prems(1)] Let_def)
    show ?thesis
    proof (cases "dp = []")
      case True
      have "good_pairs {a, b} [(a, b)]" using p by (simp add: good_pairs_def)
      from IH [OF _ this] p(2,3) have "four_double_loop ?h (pairs [(a, b)]) found = Inr [] \<or>
          (\<exists>ps. length ps = 2 \<and> good_pairs ({a, b} \<union> set ?h) ps \<and>
            four_double_loop ?h (pairs [(a, b)]) found = Inr (found @ pairs ps))" by simp
      moreover have sub: "{a, b} \<union> set ?h \<subseteq> S \<union> set h" using p(2,3) by auto
      ultimately show ?thesis using True good_pairs_mono [OF _ sub] unfolding step by auto
    next
      case dp: False
      show ?thesis
      proof (cases "rank (fst (dp ! 0)) = rank a")
        case True
        have sub: "S \<union> set ?h \<subseteq> S \<union> set h" "S \<inter> set ?h = {}" using less.prems(4) by auto
        from IH [OF less.prems(2,3) sub(2)] good_pairs_mono [OF _ sub(1)] True dp show ?thesis
          unfolding step by auto
      next
        case False
        obtain c d where "dp = [(c, d)]" using dp less.prems(2) by (cases dp) auto
        with False dp p less.prems(3,4) show ?thesis unfolding step
          by (intro disjI2 exI [of _ "[(c, d), (a, b)]"]) (auto simp: good_pairs_def)
      qed
    qed
  qed
qed

lemma chain_single_result:
  assumes "valid_hand h" "size_less (length sp) len" "set sp \<inter> set h = {}" "distinct (map rank sp)"
    and "rank ` set sp \<inter> rank ` set found = {}"
  shows "chain_single_loop h sp len found = Inr [] \<or>
    (\<exists>sp'. int (length sp') = len \<and> set sp' \<subseteq> set sp \<union> set h \<and> distinct (map rank sp') \<and>
       rank ` set sp' \<inter> rank ` set found = {} \<and> chain_single_loop h sp len found = Inr (found @ sp'))"
  using assms
proof (induction "length h" arbitrary: h sp rule: less_induct)
  case less
  let ?p = "picked h 1 chr_0"
  show ?case
  proof (cases "?p = []")
    case True
    then show ?thesis
      by (subst (1 2) chain_single_loop.simps) (simp add: find_valid [OF less.prems(1)])
  next
    case False
    define s where "s = ?p ! 0"
    note p = picked_one [OF False, folded s_def]
    let ?h = "pset_erase s h"
    note IH = less.hyps [OF length_pset_erase [OF p(2)] valid_hand_erase [OF less.prems(1)]]
    have step: "chain_single_loop h sp len found =
        (if rank s \<in> rank ` set sp \<union> rank ` set found then chain_single_loop ?h sp len found
         else if \<not> size_less (length (sp @ [s])) len then Inr (found @ sp @ [s])
         else chain_single_loop ?h (sp @ [s]) len found)"
      using p(1) by (subst chain_single_loop.simps)
        (auto simp: find_valid [OF less.prems(1)] Let_def list_ex_iff image_iff)
    show ?thesis
    proof (cases "rank s \<in> rank ` set sp \<union> rank ` set found")
      case True
      then show ?thesis using IH [of sp] less.prems p(2) unfolding step by fastforce
    next
      case new: False
      show ?thesis
      proof (cases "size_less (length (sp @ [s])) len")
        case True
        have "chain_single_loop ?h (sp @ [s]) len found = Inr [] \<or>
          (\<exists>sp'. int (length sp') = len \<and> set sp' \<subseteq> set (sp @ [s]) \<union> set ?h \<and> distinct (map rank sp') \<and>
            rank ` set sp' \<inter> rank ` set found = {} \<and>
            chain_single_loop ?h (sp @ [s]) len found = Inr (found @ sp'))"
          by (rule IH) (use True new less.prems in auto)
        then show ?thesis using new True p(2) unfolding step by fastforce
      next
        case False
        then have "int (length (sp @ [s])) = len"
          using less.prems(2) by (auto simp: size_less_def split: if_splits)
        with new False p(2) less.prems show ?thesis unfolding step
          by (intro disjI2 exI [of _ "sp @ [s]"]) auto
      qed
    qed
  qed
qed


lemma chain_double_result:
  assumes "valid_hand h" "size_less (length dp) len" "good_pairs S dp" "S \<inter> set h = {}"
  shows "chain_double_loop h (pairs dp) len found = Inr [] \<or>
    (\<exists>ps. int (length ps) = len \<and> good_pairs (S \<union> set h) ps \<and>
       chain_double_loop h (pairs dp) len found = Inr (found @ pairs ps))"
  using assms
proof (induction "length h" arbitrary: h dp S rule: less_induct)
  case less
  let ?p = "picked h 2 chr_0"
  show ?case
  proof (cases "?p = []")
    case True
    then show ?thesis
      by (subst (1 2) chain_double_loop.simps) (simp add: find_valid [OF less.prems(1)])
  next
    case False
    define a b where "a = ?p ! 0" and "b = ?p ! 1"
    note p = picked_two [OF less.prems(1) False, folded a_def b_def]
    let ?h = "pset_erase b (pset_erase a h)"
    have shorter: "length ?h < length h" by (rule erase_found(3) [of ?p]) (use p in simp_all)
    note IH = less.hyps [OF shorter valid_hand_erase [OF valid_hand_erase [OF less.prems(1)]]]
    have ranks: "rank ` set (pairs dp) = (rank \<circ> fst) ` set dp"
      by (rule good_pairs_rank) (use less.prems(3) in \<open>simp add: good_pairs_def\<close>)
    have size: "size_less (length (pairs (dp @ [(a, b)]))) (len * 2) \<longleftrightarrow> size_less (length (dp @ [(a, b)])) len"
      by (auto simp: size_less_def)
    have step: "chain_double_loop h (pairs dp) len found =
        (if rank a \<in> rank ` set (pairs dp) then chain_double_loop ?h (pairs dp) len found
         else if \<not> size_less (length (dp @ [(a, b)])) len then Inr (found @ pairs (dp @ [(a, b)]))
         else chain_double_loop ?h (pairs (dp @ [(a, b)])) len found)"
      using p(1) size by (subst chain_double_loop.simps)
        (auto simp: find_valid [OF less.prems(1)] Let_def list_ex_iff image_iff)
    show ?thesis
    proof (cases "rank a \<in> rank ` set (pairs dp)")
      case True
      have sub: "S \<union> set ?h \<subseteq> S \<union> set h" "S \<inter> set ?h = {}" using less.prems(4) by auto
      from IH [OF less.prems(2,3) sub(2)] good_pairs_mono [OF _ sub(1)] True show ?thesis
        unfolding step by auto
    next
      case new: False
      then have good: "good_pairs (S \<union> {a, b}) (dp @ [(a, b)])"
        using p less.prems(3,4) ranks by (auto simp: good_pairs_def)
      have sub: "(S \<union> {a, b}) \<union> set ?h \<subseteq> S \<union> set h" "(S \<union> {a, b}) \<inter> set ?h = {}" "S \<union> {a, b} \<subseteq> S \<union> set h"
        using p(2,3) less.prems(4) by auto
      show ?thesis
      proof (cases "size_less (length (dp @ [(a, b)])) len")
        case True
        with new IH [OF True good sub(2)] good_pairs_mono [OF _ sub(1)] show ?thesis
          unfolding step by auto
      next
        case False
        then have "int (length (dp @ [(a, b)])) = len"
          using less.prems(2) by (auto simp: size_less_def split: if_splits)
        with new False good_pairs_mono [OF good sub(3)] show ?thesis unfolding step
          by (intro disjI2 exI [of _ "dp @ [(a, b)]"]) simp
      qed
    qed
  qed
qed

section \<open>Chains\<close>

definition ascending :: "nat \<Rightarrow> int list \<Rightarrow> bool" where
  "ascending n rs \<longleftrightarrow> (\<forall>i \<in> set [0..<length rs]. rs ! i = hd rs + int (i div n) \<and> rs ! i < rank_M)"

lemma ascending_Nil [simp]: "ascending n []"
  by (simp add: ascending_def)

lemma ascending_snoc:
  "ascending n (rs @ [x]) \<longleftrightarrow> ascending n rs \<and> x = hd (rs @ [x]) + int (length rs div n) \<and> x < rank_M"
  by (cases rs) (auto simp: ascending_def nth_append nth_Cons' split: if_splits)

lemma ascending_last:
  assumes "ascending n rs" "rs \<noteq> []"
  shows "last rs = hd rs + int ((length rs - 1) div n)"
  using assms by (simp add: ascending_def last_conv_nth)

lemma subseq_set: "subseq xs ys \<Longrightarrow> set xs \<subseteq> set ys"
  by (induction rule: list_emb.induct) auto

lemma subseq_distinct_list: "subseq xs ys \<Longrightarrow> distinct ys \<Longrightarrow> distinct xs"
  by (induction rule: list_emb.induct) (auto dest: subseq_set)

text \<open>What a scan over the candidates \<open>ps\<close> makes of the chain found so far.\<close>

definition extends :: "nat \<Rightarrow> poker_array \<Rightarrow> int \<Rightarrow> poker_array \<Rightarrow> poker_array result \<Rightarrow> bool" where
  "extends n ps len found r \<longleftrightarrow>
     (\<exists>more. r = Inr (found @ more) \<and> subseq more ps \<and> ascending n (map rank (found @ more)) \<and>
        (more \<noteq> [] \<longrightarrow> length (found @ more) \<le> nat len))"

lemma extends_stop: "ascending n (map rank found) \<Longrightarrow> extends n ps len found (Inr found)"
  by (auto simp: extends_def)

lemma extends_skip: "extends n ps len found r \<Longrightarrow> extends n (p # ps) len found r"
  by (fastforce simp: extends_def)

lemma extends_push:
  "extends n ps len (found @ [p]) r \<Longrightarrow> size_less (length found) len \<Longrightarrow> 0 \<le> len \<Longrightarrow>
   extends n (p # ps) len found r"
  unfolding extends_def by (elim exE) (rule_tac x = "p # more" in exI, auto)

lemma single_run_extends:
  assumes "ascending (Suc 0) (map rank found)" "0 \<le> len"
  shows "extends (Suc 0) ps len found (single_run ps len found)"
  using assms(1)
proof (induction ps arbitrary: found)
  case Nil
  then show ?case by (simp add: extends_stop)
next
  case (Cons p ps)
  consider "\<not> size_less (length found) len \<or> rank p \<ge> rank_M" | "size_less (length found) len" "rank p < rank_M" "found = []"
    | q where "size_less (length found) len" "rank p < rank_M" "found \<noteq> []" "q = last found"
    by force
  then show ?case
  proof cases
    case 1
    then show ?thesis using Cons.prems by (auto intro: extends_stop)
  next
    case 2
    then show ?thesis
      using Cons.IH [of "[p]"] assms(2) extends_push [of "Suc 0" ps len "[]" p] by (simp add: ascending_snoc [of _ "[]", simplified])
  next
    case 3
    have last: "found ! (length found - 1) = q" using 3 by (simp add: last_conv_nth)
    obtain m where m: "length found = Suc m" using 3 by (cases found) auto
    have "rank q = rank (hd found) + int m"
      using ascending_last [OF Cons.prems] 3 m by (simp add: hd_map last_map)
    then have up: "ascending (Suc 0) (map rank (found @ [p]))" if "rank p - rank q = 1"
      using that 3 Cons.prems m by (simp add: ascending_snoc hd_map)
    show ?thesis
      using 3 last up Cons.IH [OF Cons.prems] Cons.IH [of "found @ [p]"] extends_push [of "Suc 0" ps len found p] assms(2)
      by (auto simp: Let_def intro: extends_stop extends_skip Cons.prems)
  qed
qed

lemma double_run_extends:
  assumes "ascending 2 (map rank found)" "0 \<le> len"
  shows "extends 2 ps len found (double_run ps len found)"
  using assms(1)
proof (induction ps arbitrary: found)
  case Nil
  then show ?case by (simp add: extends_stop)
next
  case (Cons p ps)
  consider "\<not> size_less (length found) len \<or> rank p \<ge> rank_M" | "size_less (length found) len" "rank p < rank_M" "found = []"
    | q where "size_less (length found) len" "rank p < rank_M" "found \<noteq> []" "q = last found"
    by force
  then show ?case
  proof cases
    case 1
    then show ?thesis using Cons.prems by (auto intro: extends_stop)
  next
    case 2
    then show ?thesis
      using Cons.IH [of "[p]"] assms(2) extends_push [of 2 ps len "[]" p] by (simp add: ascending_snoc [of _ "[]", simplified])
  next
    case 3
    have last: "found ! (length found - 1) = q" using 3 by (simp add: last_conv_nth)
    obtain m where m: "length found = Suc m" using 3 by (cases found) auto
    have "rank q = rank (hd found) + int (m div 2)"
      using ascending_last [OF Cons.prems] 3 m by (simp add: hd_map last_map)
    moreover have "int (Suc m div 2) = int (m div 2) + (if Suc m mod 2 = 0 then 1 else 0)"
      by (cases "even m") (auto elim!: evenE oddE simp: mod_eq_0_iff_dvd)
    ultimately have up: "ascending 2 (map rank (found @ [p]))"
      if "rank p - rank q = (if length found mod 2 = 0 then 1 else 0)"
      using that 3 Cons.prems m by (simp add: ascending_snoc hd_map split: if_splits)
    show ?thesis
      using 3 last up Cons.IH [OF Cons.prems] Cons.IH [of "found @ [p]"] extends_push [of 2 ps len found p] assms(2)
      by (auto simp: Let_def intro: extends_stop extends_skip Cons.prems)
  qed
qed


definition chain_found :: "nat \<Rightarrow> poker_array \<Rightarrow> int \<Rightarrow> int \<Rightarrow> poker_array \<Rightarrow> bool" where
  "chain_found n ps v len f \<longleftrightarrow> int (length f) = len \<and> set f \<subseteq> set ps \<and> distinct f \<and>
     ascending n (map rank f) \<and> v < rank (f ! 0)"

text \<open>
  The searches for a chain of single cards and for a chain of pairs differ in the scan only. What
  a scan promises is enough for the search of all starting points and of all piles.
\<close>

locale chain_scan =
  fixes n :: nat
    and run :: "poker_array \<Rightarrow> int \<Rightarrow> poker_array \<Rightarrow> poker_array result"
    and starts :: "poker_array \<Rightarrow> int \<Rightarrow> int \<Rightarrow> poker_array \<Rightarrow> poker_array result"
    and inner :: "poker_array \<Rightarrow> int \<Rightarrow> int \<Rightarrow> poker_array \<Rightarrow> (poker_array \<times> poker_array) result"
  assumes run_extends:
      "ascending n (map rank found) \<Longrightarrow> 0 \<le> len \<Longrightarrow> extends n ps len found (run ps len found)"
    and run_first: "run (p # ps) len [] =
      (if \<not> size_less 0 len \<or> rank p \<ge> rank_M then Inr [] else run ps len [p])"
    and starts_Nil: "starts [] v len found = Inr []"
    and starts_Cons: "starts (p # ps) v len found =
      (if size_less (length (p # ps)) len then Inr []
       else if rank p > v then ebind (run (p # ps) len []) (\<lambda>found.
         if int (length found) = len then Inr found else starts ps v len found)
       else starts ps v len found)"
    and inner_eq: "inner pokers v len found =
      (if size_less (length pokers) len then Inr (pokers, found)
       else let pokers = sort pokers in
         ebind (vec_at pokers (length pokers - 1)) (\<lambda>p.
           if rank p \<le> v then Inr (pokers, found)
           else ebind (starts pokers v len found) (\<lambda>found. Inr (pokers, found))))"
begin

lemma starts_result:
  assumes "0 < len" "distinct ps"
  shows "starts ps v len found = Inr [] \<or> (\<exists>f. starts ps v len found = Inr f \<and> chain_found n ps v len f)"
  using assms(2)
proof (induction ps arbitrary: found)
  case Nil
  then show ?case by (simp add: starts_Nil)
next
  case (Cons p ps)
  have IH: "starts ps v len f' = Inr [] \<or> (\<exists>f. starts ps v len f' = Inr f \<and> chain_found n (p # ps) v len f)" for f'
    using Cons.IH [of f'] Cons.prems by (fastforce simp: chain_found_def)
  have "extends n (p # ps) len [] (run (p # ps) len [])"
    by (rule run_extends) (use assms in simp_all)
  then obtain more where more: "run (p # ps) len [] = Inr more" "subseq more (p # ps)" "ascending n (map rank more)"
    by (auto simp: extends_def)
  have first: "more = [] \<or> more ! 0 = p"
  proof (cases "rank p < rank_M")
    case True
    have "extends n ps len [p] (run ps len [p])"
      by (rule run_extends) (use True assms in \<open>simp_all add: ascending_snoc [of _ "[]", simplified]\<close>)
    then show ?thesis using more(1) run_first [of p ps len] True assms(1) by (auto simp: extends_def)
  qed (use more(1) run_first in auto)
  show ?case
  proof (cases "size_less (length (p # ps)) len")
    case True
    then show ?thesis using starts_Cons by simp
  next
    case fits: False
    show ?thesis
    proof (cases "rank p > v \<and> int (length more) = len")
      case True
      then have "more ! 0 = p" using first assms(1) by auto
      then have "chain_found n (p # ps) v len more"
        using True more(2,3) Cons.prems
        using subseq_set [OF more(2)] subseq_distinct_list [OF more(2)] by (auto simp: chain_found_def)
      with True fits more(1) show ?thesis by (simp add: starts_Cons)
    next
      case False
      with fits more(1) IH show ?thesis by (auto simp: starts_Cons)
    qed
  qed
qed

lemma inner_result:
  assumes "0 < len" "distinct pokers"
  shows "\<exists>pokers' f. inner pokers v len [] = Inr (pokers', f) \<and> set pokers' = set pokers \<and> distinct pokers' \<and>
    (f = [] \<or> chain_found n pokers v len f)"
proof (cases "size_less (length pokers) len")
  case True
  then show ?thesis using assms(2) by (simp add: inner_eq)
next
  case False
  then have ne: "pokers \<noteq> []" using assms(1) by (auto simp: size_less_def)
  have "starts (sort pokers) v len [] = Inr [] \<or>
      (\<exists>f. starts (sort pokers) v len [] = Inr f \<and> chain_found n pokers v len f)"
    using starts_result [of len "sort pokers" v "[]"] assms by (simp add: chain_found_def)
  then show ?thesis using False ne assms(2) by (auto simp: inner_eq Let_def)
qed

end

interpretation single_scan: chain_scan "Suc 0" single_run single_starts find_single_chain_inner
  by unfold_locales (auto simp: single_run_extends find_single_chain_inner_def)

interpretation double_scan: chain_scan 2 double_run double_starts find_double_chain_inner
  by unfold_locales (auto simp: double_run_extends find_double_chain_inner_def)


section \<open>The search through the piles\<close>

lemma heads_eq:
  "\<forall>g \<in> set gs. k \<le> length g \<Longrightarrow> heads k gs = Inr (concat (map (take k) gs))"
  by (induction gs) (simp_all add: take_at_def)

definition pile_heads :: "poker_list \<Rightarrow> nat \<Rightarrow> int \<Rightarrow> poker_array" where
  "pile_heads h k i = concat (map (take k) (piles (groups h) ! nat i))"

lemma pile_nth:
  assumes "i \<in> {0, 1, 2, 3}"
  shows "piles (groups h) ! nat i = filter (\<lambda>g. length g = nat i + 1) (groups h)"
  using assms by (auto simp: piles_def numeral_eq_Suc)

lemma distinct_groups: "distinct h \<Longrightarrow> distinct (groups h)"
proof -
  assume d: "distinct h"
  have "[] \<notin> set (groups h)" using groups_nonempty [of "[]" h] by auto
  then have "removeAll [] (groups h) = groups h" by (rule removeAll_id)
  with d distinct_concat_iff [of "groups h"] show ?thesis by simp
qed

lemma distinct_concat_sub:
  assumes "distinct gs" "set gs \<subseteq> set gs'" "distinct (concat gs')"
  shows "distinct (concat gs)"
proof (rule distinct_concat [OF assms(1)])
  have d: "\<forall>ys. ys \<in> set gs' \<longrightarrow> distinct ys"
      "\<forall>ys zs. ys \<in> set gs' \<and> zs \<in> set gs' \<and> ys \<noteq> zs \<longrightarrow> set ys \<inter> set zs = {}"
    using assms(3) unfolding distinct_concat_iff by blast+
  show "distinct ys" if "ys \<in> set gs" for ys using d(1) assms(2) that by blast
  show "set ys \<inter> set zs = {}" if "ys \<in> set gs" "zs \<in> set gs" "ys \<noteq> zs" for ys zs
    using d(2) assms(2) that by blast
qed

lemma pile_heads_distinct:
  assumes "distinct h" "set is \<subseteq> {0, 1, 2, 3}" "distinct is"
  shows "distinct (concat (map (pile_heads h k) is))" "set (concat (map (pile_heads h k) is)) \<subseteq> set h"
proof -
  let ?gs = "concat (map (\<lambda>i. piles (groups h) ! nat i) is)"
  have "set (piles (groups h) ! nat i) \<subseteq> set (groups h)" if "i \<in> set is" for i
    using that assms(2) pile_nth [of i h] by (simp add: subset_iff)
  then have sub: "set ?gs \<subseteq> set (groups h)" by auto
  have "distinct ?gs"
    using assms(2,3)
  proof (induction "is")
    case Nil
    then show ?case by simp
  next
    case (Cons i "is")
    have "distinct (piles (groups h) ! nat i)"
      using Cons.prems(1) distinct_groups [OF assms(1)] by (simp add: pile_nth)
    moreover have "set (piles (groups h) ! nat i) \<inter> set (piles (groups h) ! nat j) = {}" if "j \<in> set is" for j
    proof -
      have ij: "i \<in> {0, 1, 2, 3}" "j \<in> {0, 1, 2, 3}" "i \<noteq> j" using that Cons.prems by auto
      then have "nat i \<noteq> nat j" by auto
      with ij show ?thesis by (auto simp: pile_nth)
    qed
    ultimately show ?case using Cons by auto
  qed
  moreover have "distinct (concat (groups h))" using assms(1) by simp
  ultimately have "distinct (concat ?gs)" using distinct_concat_sub [OF _ sub] by blast
  moreover have e: "concat (map (pile_heads h k) is) = concat (map (take k) ?gs)"
    by (induction "is") (simp_all add: pile_heads_def)
  have "subseq (concat (map (take k) gs)) (concat gs)" for gs :: "poker_array list"
    by (induction gs) (auto intro: list_emb_append_mono prefix_imp_subseq take_is_prefix)
  then have sq: "subseq (concat (map (pile_heads h k) is)) (concat ?gs)" unfolding e .
  ultimately show "distinct (concat (map (pile_heads h k) is))" by (blast intro: subseq_distinct_list)
  have "set (concat ?gs) \<subseteq> set h" using sub groups_subset by fastforce
  then show "set (concat (map (pile_heads h k) is)) \<subseteq> set h" using subseq_set [OF sq] by blast
qed

context chain_scan begin

lemma search_loop:
  assumes "0 < len" "set is \<subseteq> {0, 1, 2, 3}" "\<forall>i \<in> set is. k \<le> nat i + 1"
    and "distinct (to_find @ concat (map (pile_heads h k) is))"
    and "set (to_find @ concat (map (pile_heads h k) is)) \<subseteq> set h"
  shows "case for_loop
          (\<lambda>i (pokers_to_find, found).
            attempt (archived_at (piles (groups h)) i) (\<lambda>pile. attempt (heads k pile) (\<lambda>ps.
              let pokers_to_find = pokers_to_find @ ps in
              if size_less (length pokers_to_find) len then Next (pokers_to_find, found)
              else attempt (inner pokers_to_find v len found)
                (\<lambda>(pokers_to_find, found).
                  if int (length found) = len then Ret (Inr found)
                  else Next (pokers_to_find, found))))) is (to_find, []) of
        Ret r \<Rightarrow> \<exists>f. r = Inr f \<and> chain_found n h v len f
      | Next s \<Rightarrow> snd s = []"
  using assms(2-5)
proof (induction "is" arbitrary: to_find)
  case Nil
  then show ?case by simp
next
  case (Cons i "is")
  have i: "i \<in> {0, 1, 2, 3}" using Cons.prems(1) by simp
  have at: "archived_at (piles (groups h)) i = Inr (piles (groups h) ! nat i)"
    using i by (auto simp: archived_at_def)
  have hd: "heads k (piles (groups h) ! nat i) = Inr (pile_heads h k i)"
    unfolding pile_heads_def by (rule heads_eq) (use i Cons.prems(2) pile_nth [OF i, of h] in auto)
  let ?tf = "to_find @ pile_heads h k i"
  have tf: "distinct ?tf" "set ?tf \<subseteq> set h"
    using Cons.prems(3,4) by auto
  obtain pokers' f where inn: "inner ?tf v len [] = Inr (pokers', f)" "set pokers' = set ?tf" "distinct pokers'"
      "f = [] \<or> chain_found n ?tf v len f"
    using inner_result [OF assms(1) tf(1)] by blast
  have next1: "set is \<subseteq> {0, 1, 2, 3}" "\<forall>i \<in> set is. k \<le> nat i + 1"
    using Cons.prems(1,2) by auto
  have mono: "chain_found n h v len f" if "chain_found n ?tf v len f"
    using that tf(2) by (auto simp: chain_found_def)
  have IH1: "distinct (?tf @ concat (map (pile_heads h k) is))" "set (?tf @ concat (map (pile_heads h k) is)) \<subseteq> set h"
    using Cons.prems(3,4) by auto
  have IH2: "distinct (pokers' @ concat (map (pile_heads h k) is))" "set (pokers' @ concat (map (pile_heads h k) is)) \<subseteq> set h"
    using IH1 inn(2,3) by auto
  show ?case
    using Cons.IH [OF next1 IH1] Cons.IH [OF next1 IH2] inn(1,4) mono assms(1)
    by (auto simp: at hd Let_def chain_found_def)
qed

end

lemma find_single_chain_result:
  assumes "valid_hand h" "0 < len"
  shows "\<exists>f. find_single_chain h v len [] = Inr f \<and> (f = [] \<or> chain_found 1 h v len f)"
proof (cases "size_less (length h) len")
  case True
  then show ?thesis by (simp add: find_single_chain_def)
next
  case False
  then have "h \<noteq> []" using assms(2) by (auto simp: size_less_def)
  then have a: "archive_poker_list h = Inr (piles (groups h))"
    by (simp add: archive_poker_list_eq valid_bounded [OF assms(1)])
  show ?thesis
    using single_scan.search_loop [of len "[0, 1, 2, 3]" 1 "[]" h v]
      pile_heads_distinct [OF valid_hand_distinct [OF assms(1)], of "[0, 1, 2, 3]" 1] assms(2) False
    by (auto simp: find_single_chain_def a split: flow.splits)
qed

lemma find_double_chain_result:
  assumes "valid_hand h" "0 < len"
  shows "\<exists>f. find_double_chain h v len [] = Inr f \<and> (f = [] \<or> chain_found 2 h v len f)"
proof (cases "size_less (length h) len")
  case True
  then show ?thesis by (simp add: find_double_chain_def)
next
  case False
  then have "h \<noteq> []" using assms(2) by (auto simp: size_less_def)
  then have a: "archive_poker_list h = Inr (piles (groups h))"
    by (simp add: archive_poker_list_eq valid_bounded [OF assms(1)])
  show ?thesis
    using double_scan.search_loop [of len "[1, 2, 3]" 2 "[]" h v]
      pile_heads_distinct [OF valid_hand_distinct [OF assms(1)], of "[1, 2, 3]" 2] assms(2) False
    by (auto simp: find_double_chain_def a split: flow.splits)
qed


section \<open>Chains of triples\<close>

definition three_chain_found :: "poker_list \<Rightarrow> int \<Rightarrow> int \<Rightarrow> poker_array \<Rightarrow> bool" where
  "three_chain_found h v len f \<longleftrightarrow>
     (\<exists>ths. f = concat ths \<and> int (length ths) = len \<and> (\<forall>th \<in> set ths. same_rank 3 h th) \<and>
        ascending 1 (map (\<lambda>th. rank (th ! 0)) ths) \<and> v < rank (hd ths ! 0))"

definition triples_ok :: "poker_list \<Rightarrow> (poker \<Rightarrow> poker_array option) \<Rightarrow> bool" where
  "triples_ok h types \<longleftrightarrow> (\<forall>p th. types p = Some th \<longrightarrow> same_rank 3 h th \<and> th ! 0 = p)"

lemma collect_triples_eq:
  assumes "triples_ok h types" "\<forall>p \<in> set chain. types p \<noteq> None"
  shows "collect_triples types chain found = Inr (found @ concat (map (\<lambda>p. the (types p)) chain))"
  using assms(2)
proof (induction chain arbitrary: found)
  case Nil
  then show ?case by simp
next
  case (Cons p ps)
  then obtain th where th: "types p = Some th" by auto
  then have "length th = 3" using assms(1) by (simp add: triples_ok_def same_rank_def)
  with th Cons show ?case by (simp add: take_at_def)
qed

lemma same_rank_mono: "same_rank n h ps \<Longrightarrow> set h \<subseteq> set h' \<Longrightarrow> same_rank n h' ps"
  by (auto simp: same_rank_def)

lemma collected_found:
  assumes "triples_ok h types" "\<forall>p \<in> set singles. types p \<noteq> None" "chain_found 1 singles v len chain" "0 < len"
  shows "\<exists>f. collect_triples types chain [] = Inr f \<and> three_chain_found h v len f"
proof -
  let ?ths = "map (\<lambda>p. the (types p)) chain"
  have c: "\<forall>p \<in> set chain. types p \<noteq> None" "chain \<noteq> []" "ascending 1 (map rank chain)" "v < rank (chain ! 0)"
      "int (length chain) = len"
    using assms(2-4) by (auto simp: chain_found_def)
  have th: "same_rank 3 h (the (types p)) \<and> the (types p) ! 0 = p" if "p \<in> set chain" for p
    using that c(1) assms(1) by (force simp: triples_ok_def)
  have "map (\<lambda>th. rank (th ! 0)) ?ths = map rank chain"
    using th by simp
  with c(3) have "ascending 1 (map (\<lambda>th. rank (th ! 0)) ?ths)" by (simp only:)
  moreover have "hd ?ths ! 0 = chain ! 0" using c(2) th by (cases chain) auto
  ultimately have "three_chain_found h v len (concat ?ths)"
    unfolding three_chain_found_def using c th
    by (intro exI [of _ ?ths] conjI) (simp_all del: map_map)
  then show ?thesis using collect_triples_eq [OF assms(1) c(1), of "[]"] by simp
qed

lemma three_chain_loop_result:
  assumes "valid_hand h" "set h \<subseteq> set h0" "triples_ok h0 types" "\<forall>p \<in> set singles. types p \<noteq> None"
    and "distinct singles" "set singles \<inter> set h = {}" "0 < len"
  shows "\<exists>f. three_chain_loop h types singles v len [] = Inr f \<and> (f = [] \<or> three_chain_found h0 v len f)"
  using assms(1-6)
proof (induction "length h" arbitrary: h types singles rule: less_induct)
  case less
  let ?p = "picked h 3 v"
  show ?case
  proof (cases "?p = []")
    case True
    then show ?thesis by (subst three_chain_loop.simps) (simp add: find_valid [OF less.prems(1)])
  next
    case False
    define p where "p = ?p ! 0"
    let ?h = "fold pset_erase ?p h" and ?types = "map_insert p ?p types" and ?singles = "singles @ [p]"
    have s: "same_rank 3 h ?p" "v < rank p"
      using picked_same_rank [OF less.prems(1), of 3 v] False by (auto simp: p_def)
    have p: "p \<in> set ?p" "p \<in> set h" using False s(1) by (auto simp: p_def same_rank_def)
    have shorter: "length ?h < length h" by (rule erase_all_found [OF picked_subset False])
    have ok: "triples_ok h0 ?types"
      using less.prems(2,3) same_rank_mono [OF s(1)] by (auto simp: triples_ok_def map_insert_def p_def)
    have dom: "\<forall>q \<in> set ?singles. ?types q \<noteq> None"
      using less.prems(4) by (auto simp: map_insert_def)
    have dist: "distinct ?singles" using less.prems(5,6) p(2) by auto
    have sub: "set ?h \<subseteq> set h0" using less.prems(2) by auto
    note IH = less.hyps [OF shorter valid_hand_erase_all [OF less.prems(1)] sub ok]
    have again: "\<exists>f. three_chain_loop ?h ?types singles' v len [] = Inr f \<and> (f = [] \<or> three_chain_found h0 v len f)"
      if "set singles' = set ?singles" "distinct singles'" for singles'
      by (rule IH) (use that dom less.prems(6) p(1) in auto)
    have step: "three_chain_loop h types singles v len [] =
        (if rank p > rank_M then Inr []
         else if size_less (length ?singles) len then three_chain_loop ?h ?types ?singles v len []
         else ebind (find_single_chain_inner ?singles v len []) (\<lambda>(singles, chain).
           if int (length chain) = len then collect_triples ?types chain []
           else three_chain_loop ?h ?types singles v len []))"
      using False s(2) unfolding p_def
      by (subst three_chain_loop.simps) (simp add: find_valid [OF less.prems(1)] Let_def)
    obtain singles' chain where inn: "find_single_chain_inner ?singles v len [] = Inr (singles', chain)"
        "set singles' = set ?singles" "distinct singles'" "chain = [] \<or> chain_found 1 ?singles v len chain"
      using single_scan.inner_result [OF assms(7) dist, of v] unfolding One_nat_def by blast
    have full: "\<exists>f. collect_triples ?types chain [] = Inr f \<and> (f = [] \<or> three_chain_found h0 v len f)"
      if "int (length chain) = len"
      using that collected_found [OF ok dom _ assms(7)] inn(4) assms(7) by auto
    show ?thesis
      using again [of ?singles] again [OF inn(2,3)] full dist unfolding step inn(1) by auto
  qed
qed

lemma find_three_chain_result:
  assumes "valid_hand h" "3 \<le> len"
  shows "\<exists>f. find_three_chain h v len [] = Inr f \<and> (f = [] \<or> three_chain_found h v (len div 3) f)"
  using three_chain_loop_result [of h h "\<lambda>_. None" "[]" "len div 3" v] assms
  by (auto simp: find_three_chain_def triples_ok_def)

end
