(* ===== verification/FinderSound.thy ===== *)
theory FinderSound
  imports FinderSearch
begin

text \<open>
  The plays that \<^verbatim>\<open>find_big_pokers\<close> (\<^verbatim>\<open>src/src/ddz/poker_finder.cpp\<close>) proposes are legal:
  cards of the hand that the parser accepts as a group which beats the group on the table.
\<close>

section \<open>Counting the ranks of a play\<close>

lemma count_list_replicate: "count_list (replicate n x) y = (if x = y then n else 0)"
  by (induction n) auto

lemma count_list_distinct: "distinct xs \<Longrightarrow> count_list xs x = (if x \<in> set xs then 1 else 0)"
  by (induction xs) auto

definition copies :: "nat \<Rightarrow> int list \<Rightarrow> int list" where
  "copies j ks = concat (map (replicate j) ks)"

lemma copies_simps [simp]:
  "copies j [] = []" "copies j (k # ks) = replicate j k @ copies j ks"
  by (simp_all add: copies_def)

lemma set_copies: "0 < j \<Longrightarrow> set (copies j ks) = set ks"
  by (induction ks) auto

lemma count_copies: "distinct ks \<Longrightarrow> count_list (copies j ks) x = (if x \<in> set ks then j else 0)"
  by (induction ks) (auto simp: count_list_replicate)

lemma length_copies [simp]: "length (copies j ks) = j * length ks"
  by (induction ks) simp_all

lemma rank_positive: "valid_hand h \<Longrightarrow> set f \<subseteq> set h \<Longrightarrow> \<forall>c \<in> set (map rank f). 0 < c"
  using is_poker_rank by (force simp: valid_hand_def)

text \<open>A play from the hand that forms a group of a given type and length, above a value.\<close>

definition found_group :: "poker_list \<Rightarrow> poker_type \<Rightarrow> int \<Rightarrow> int \<Rightarrow> poker_array \<Rightarrow> bool" where
  "found_group h t v len f \<longleftrightarrow> set f \<subseteq> set h \<and> distinct f \<and> int (length f) = len \<and>
     (\<exists>w. v < w \<and> forms (map rank f) t w)"

lemma main_with_kickers:
  assumes "valid_hand h" "same_rank m h ms" "m = 3 \<or> m = 4" "j = 1 \<or> j = 2" "v < rank (ms ! 0)"
    and "map rank ps = copies j ks" "distinct ks" "rank (ms ! 0) \<notin> set ks"
    and "set ps \<subseteq> set h - set ms" "distinct ps" "main_type m (length ks) j = Some t"
    and "4 \<le> m + j * length ks"
  shows "found_group h t v (int (m + j * length ks)) (ms @ ps)"
proof -
  let ?q = "rank (ms ! 0)"
  have ranks: "map rank (ms @ ps) = replicate m ?q @ copies j ks"
    using assms(2,6) by (simp add: same_rank_def)
  have len: "length ms = m" "length ps = j * length ks"
    using assms(2) arg_cong [OF assms(6), of length] by (simp_all add: same_rank_def)
  have "length ks \<le> 2" using assms(11) by (auto simp: main_type_def split: if_splits)
  then have small: "m + j * length ks < 10" using assms(3,4) by auto
  have "forms (map rank (ms @ ps)) t ?q"
    using assms(3,4,7,8,11,12) small rank_positive [OF assms(1), of "ms @ ps"] assms(2,9)
    unfolding ranks
    by (intro forms_main [of m j _ ks])
      (auto simp: set_copies count_copies count_list_replicate same_rank_def in_set_replicate)
  then show ?thesis
    using assms(2,5,9,10) len by (auto simp: found_group_def same_rank_def)
qed

lemma chain_ranks:
  assumes "ascending 1 rs" "rs \<noteq> []"
  shows "rs = map (\<lambda>i. hd rs + int i) [0..<length rs]" "hd rs + int (length rs) \<le> rank_M"
proof -
  have n: "rs ! i = hd rs + int i \<and> rs ! i < rank_M" if "i < length rs" for i
  proof -
    have "i \<in> set [0..<length rs]" using that by simp
    then show ?thesis using assms(1) unfolding ascending_def div_by_1 by blast
  qed
  show "rs = map (\<lambda>i. hd rs + int i) [0..<length rs]"
    by (rule nth_equalityI) (use n in simp_all)
  have "length rs - 1 < length rs" using assms(2) by simp
  from n [OF this] show "hd rs + int (length rs) \<le> rank_M" using assms(2) by (simp add: of_nat_diff Suc_le_eq)
qed

lemma same_rank_ranks: "same_rank n h ps \<Longrightarrow> p \<in> set ps \<Longrightarrow> rank p = rank (ps ! 0)"
proof -
  assume a: "same_rank n h ps" "p \<in> set ps"
  then have "rank p \<in> set (map rank ps)" by simp
  also have "map rank ps = replicate n (rank (ps ! 0))" using a(1) by (simp add: same_rank_def)
  finally show ?thesis by (simp split: if_splits)
qed

lemma chain_with_kickers:
  assumes "valid_hand h" "three_chain_found h v (int n) f" "2 \<le> n" "j = 1 \<or> j = 2"
    and "map rank ps = copies j ks" "distinct ks" "rank ` set f \<inter> set ks = {}"
    and "set ps \<subseteq> set h - set f" "distinct ps" "ks = [] \<or> length ks = n" "3 * n + j * length ks < 20"
  shows "found_group h (if ks = [] then THREE_CHAIN else if j = 2 then THREE_CHAIN_DOUBLE else TRHEE_CHAIN_SINGLE)
    v (int (3 * n + j * length ks)) (f @ ps)"
proof -
  obtain ths where ths: "f = concat ths" "length ths = n" "\<forall>th \<in> set ths. same_rank 3 h th"
      "ascending 1 (map (\<lambda>th. rank (th ! 0)) ths)" "v < rank (hd ths ! 0)"
    using assms(2) by (auto simp: three_chain_found_def)
  let ?rs = "map (\<lambda>th. rank (th ! 0)) ths" and ?q = "rank (hd ths ! 0)"
  have ne: "ths \<noteq> []" using ths(2) assms(3) by auto
  then have q: "hd ?rs = ?q" by (simp add: hd_map)
  note T = chain_ranks [OF ths(4), simplified q length_map ths(2)]
  have rs: "?rs = map (\<lambda>i. ?q + int i) [0..<n]" using T(1) ne by simp
  have M: "?q + int n \<le> rank_M" using T(2) ne by simp
  have rf: "map rank f = copies 3 ?rs"
    unfolding ths(1) copies_def map_concat map_map using ths(3)
    by (intro arg_cong [of _ _ concat] map_cong) (auto simp: same_rank_def)
  have lenf: "length f = 3 * n" using arg_cong [OF rf, of length] ths(2) by simp
  have drs: "distinct ?rs" unfolding rs by (simp add: distinct_map inj_on_def)
  have df: "distinct f"
    unfolding ths(1)
  proof (rule distinct_concat)
    show "distinct ths" using drs by (simp add: distinct_map)
    show "distinct th" if "th \<in> set ths" for th using ths(3) that by (simp add: same_rank_def)
    show "set a \<inter> set b = {}" if ab: "a \<in> set ths" "b \<in> set ths" "a \<noteq> b" for a b
    proof -
      have "rank (a ! 0) \<noteq> rank (b ! 0)" using drs ab by (auto simp: distinct_map inj_on_def)
      moreover have "rank x = rank (a ! 0)" if "x \<in> set a" for x
        using same_rank_ranks ths(3) ab(1) that by blast
      moreover have "rank x = rank (b ! 0)" if "x \<in> set b" for x
        using same_rank_ranks ths(3) ab(2) that by blast
      ultimately show ?thesis unfolding disjoint_iff by metis
    qed
  qed
  have sub: "set f \<subseteq> set h" using ths(1,3) by (auto simp: same_rank_def)
  have ranks: "map rank (f @ ps) = copies 3 ?rs @ copies j ks" by (simp add: rf assms(5))
  have len: "length (f @ ps) = 3 * n + j * length ks"
    using lenf arg_cong [OF assms(5), of length] by simp
  have disj: "set ?rs \<inter> set ks = {}"
    using assms(7) arg_cong [OF rf, of set] by (simp add: set_copies)
  have j0: "0 < j" using assms(4) by auto
  have "0 < ?q"
  proof -
    have "?q \<in> set ?rs" using ne by simp
    also have "\<dots> = rank ` set f" using arg_cong [OF rf, of set] by (simp add: set_copies)
    finally show ?thesis using rank_positive [OF assms(1) sub] by auto
  qed
  have cnt: "count_list (map rank (f @ ps)) x = (if x \<in> set ?rs then 3 else 0) + (if x \<in> set ks then j else 0)" for x
    unfolding ranks by (simp only: count_list_append count_copies [OF drs] count_copies [OF assms(6)])
  have "forms (map rank (f @ ps))
      (if ks = [] then THREE_CHAIN else if j = 2 then THREE_CHAIN_DOUBLE else TRHEE_CHAIN_SINGLE) ?q"
  proof (rule forms_three_chain [OF assms(3) M \<open>0 < ?q\<close> assms(10,4,6)])
    show "set (map (\<lambda>i. ?q + int i) [0..<n]) \<inter> set ks = {}" using disj unfolding rs .
    show "set (map rank (f @ ps)) = set (map (\<lambda>i. ?q + int i) [0..<n]) \<union> set ks"
      unfolding ranks rs [symmetric] set_append by (simp only: set_copies j0 zero_less_numeral)
    show "\<forall>i<n. count_list (map rank (f @ ps)) (?q + int i) = 3"
    proof (intro allI impI)
      fix i assume "i < n"
      then have "?q + int i \<in> set ?rs" unfolding rs by simp
      with disj show "count_list (map rank (f @ ps)) (?q + int i) = 3" unfolding cnt by auto
    qed
    show "\<forall>k \<in> set ks. count_list (map rank (f @ ps)) k = j"
      using disj unfolding cnt by auto
    show "length (map rank (f @ ps)) < 20" using len assms(11) by simp
    show "\<forall>c \<in> set (map rank (f @ ps)). 0 < c"
      by (rule rank_positive [OF assms(1)]) (use sub assms(8) in auto)
  qed
  then show ?thesis
    using sub df len assms(8,9) ths(5) by (auto simp: found_group_def)
qed


section \<open>What each search finds\<close>

text \<open>Four cards of one rank are all there are.\<close>

lemma four_exhausts:
  assumes "valid_hand h" "same_rank 4 h ps" "x \<in> set h" "x \<notin> set ps"
  shows "rank x \<noteq> rank (ps ! 0)"
proof
  assume r: "rank x = rank (ps ! 0)"
  have "rank p = rank x" if "p \<in> set ps" for p using same_rank_ranks [OF assms(2) that] r by simp
  moreover have "set ps \<subseteq> set h" "distinct ps" using assms(2) by (simp_all add: same_rank_def)
  ultimately have "length (x # ps) \<le> 4"
    using assms(1,3,4) by (intro same_rank_few(1) [of _ "rank x"]) (auto simp: valid_hand_def)
  then show False using assms(2) by (simp add: same_rank_def)
qed

lemma no_pair_beside_three:
  assumes "valid_hand h" "same_rank 3 h ps" "a \<in> set h" "b \<in> set h" "a \<noteq> b" "rank a = rank b"
    and "a \<notin> set ps" "b \<notin> set ps"
  shows "rank a \<noteq> rank (ps ! 0)"
proof
  assume r: "rank a = rank (ps ! 0)"
  have "rank p = rank a" if "p \<in> set ps" for p using same_rank_ranks [OF assms(2) that] r by simp
  moreover have "set ps \<subseteq> set h" "distinct ps" using assms(2) by (simp_all add: same_rank_def)
  ultimately have "length (a # b # ps) \<le> 4"
    using assms by (intro same_rank_few(1) [of _ "rank a"]) (auto simp: valid_hand_def)
  then show False using assms(2) by (simp add: same_rank_def)
qed

lemma good_pairs_elem:
  "good_pairs S ps \<Longrightarrow> (a, b) \<in> set ps \<Longrightarrow> a \<noteq> b \<and> {a, b} \<subseteq> S \<and> rank a = rank b"
  by (induction ps) (auto simp: good_pairs_def)

lemma found_single:
  assumes "valid_hand h" "chr_0 \<le> v"
  shows "\<exists>f. find_single h v [] = Inr f \<and> (f = [] \<or> found_group h SINGLE v 1 f)"
proof (cases "picked h 1 v = []")
  case True
  then show ?thesis by (simp add: find_valid [OF assms(1)])
next
  case False
  define c where "c = picked h 1 v ! 0"
  note p = picked_one [OF False, folded c_def]
  have "forms (map rank [c]) SINGLE (rank c)" using forms_one [of "rank c"] p(3) assms(2) by simp
  then have "found_group h SINGLE v 1 [c]" using p(2,3) by (auto simp: found_group_def)
  then show ?thesis by (subst find_valid [OF assms(1)]) (simp only: p(1) append_Nil, simp)
qed

lemma found_double:
  assumes "valid_hand h" "chr_0 \<le> v"
  shows "\<exists>f. find_double h v [] = Inr f \<and> (f = [] \<or> found_group h DOUBLE v 2 f)"
proof (cases "picked h 2 v = []")
  case True
  then show ?thesis by (simp add: find_valid [OF assms(1)])
next
  case False
  define a b where "a = picked h 2 v ! 0" and "b = picked h 2 v ! 1"
  note p = picked_two [OF assms(1) False, folded a_def b_def]
  have "forms (map rank [a, b]) DOUBLE (rank a)"
    using forms_two [of "rank b"] p(5,6) assms(2) by simp
  then show ?thesis
    using p by (auto simp: find_valid [OF assms(1)] found_group_def)
qed

lemma found_three:
  assumes "valid_hand h" "chr_0 \<le> v"
  shows "\<exists>f. find_three h v [] = Inr f \<and> (f = [] \<or> found_group h THREE v 3 f)"
proof (cases "picked h 3 v = []")
  case True
  then show ?thesis by (simp add: find_valid [OF assms(1)])
next
  case False
  then have s: "same_rank 3 h (picked h 3 v)" "v < rank (picked h 3 v ! 0)"
    using picked_same_rank [OF assms(1), of 3 v] by auto
  have "rank (picked h 3 v ! 0) < rank_N" by (rule same_rank_low [OF assms(1) s(1)]) simp
  then have "forms (map rank (picked h 3 v)) THREE (rank (picked h 3 v ! 0))"
    using s forms_three [of "rank (picked h 3 v ! 0)"] assms(2) by (simp add: same_rank_def numeral_3_eq_3)
  then show ?thesis
    using s by (auto simp: find_valid [OF assms(1)] found_group_def same_rank_def)
qed

lemma found_four:
  assumes "valid_hand h"
  shows "\<exists>f. find_four h v [] = Inr f \<and> (f = [] \<or> found_group h BOMB v 4 f)"
proof (cases "picked h 4 v = []")
  case True
  then show ?thesis by (simp add: find_valid [OF assms(1)])
next
  case False
  then have s: "same_rank 4 h (picked h 4 v)" "v < rank (picked h 4 v ! 0)"
    using picked_same_rank [OF assms(1), of 4 v] by auto
  have "found_group h BOMB v (int (4 + 1 * length ([] :: int list))) (picked h 4 v @ [])"
    by (rule main_with_kickers [OF assms(1) s(1) _ _ s(2)]) (simp_all add: main_type_def)
  then show ?thesis by (simp add: find_valid [OF assms(1)])
qed

lemma found_three_and_single:
  assumes "valid_hand h"
  shows "\<exists>f. find_three_and_single h v [] = Inr f \<and> (f = [] \<or> found_group h THREE_ONE v 4 f)"
proof (cases "length h < 4 \<or> picked h 3 v = []")
  case True
  then show ?thesis by (auto simp: find_three_and_single_def find_valid [OF assms(1)])
next
  case False
  let ?p = "picked h 3 v" let ?h = "fold pset_erase ?p h"
  have s: "same_rank 3 h ?p" "v < rank (?p ! 0)"
    using picked_same_rank [OF assms(1), of 3 v] False by auto
  have e: "find_three_and_single h v [] = three_single_loop ?h ?p"
    using False s(1) by (simp add: find_three_and_single_def find_valid [OF assms(1)] same_rank_def)
  have "valid_hand ?h" using assms(1) by auto
  then consider "three_single_loop ?h ?p = Inr []"
    | c where "c \<in> set ?h" "rank c \<noteq> rank (?p ! 0)" "three_single_loop ?h ?p = Inr (?p @ [c])"
    using three_single_result [of ?h ?p] False by blast
  then show ?thesis
  proof cases
    case 2
    have "found_group h THREE_ONE v (int (3 + 1 * length [rank c])) (?p @ [c])"
      by (rule main_with_kickers [OF assms(1) s(1) _ _ s(2)]) (use 2 in \<open>auto simp: main_type_def\<close>)
    with 2(3) e show ?thesis by simp
  qed (use e in simp)
qed

lemma found_three_and_double:
  assumes "valid_hand h" 
  shows "\<exists>f. find_three_and_double h v [] = Inr f \<and> (f = [] \<or> found_group h THREE_DOUBLE v 5 f)"
proof (cases "length h < 5 \<or> picked h 3 v = []")
  case True
  then show ?thesis by (auto simp: find_three_and_double_def find_valid [OF assms(1)])
next
  case False
  let ?p = "picked h 3 v" let ?h = "fold pset_erase ?p h"
  have s: "same_rank 3 h ?p" "v < rank (?p ! 0)"
    using picked_same_rank [OF assms(1), of 3 v] False by auto
  have vh: "valid_hand ?h" using assms(1) by auto
  show ?thesis
  proof (cases "picked ?h 2 chr_0 = []")
    case True
    then show ?thesis using False s(1)
      by (simp add: find_three_and_double_def find_valid [OF assms(1)] find_valid [OF vh] same_rank_def)
  next
    case two: False
    define a b where "a = picked ?h 2 chr_0 ! 0" and "b = picked ?h 2 chr_0 ! 1"
    note p = picked_two [OF vh two, folded a_def b_def]
    have e: "find_three_and_double h v [] = Inr (?p @ [a, b])"
      using False s(1) p(1)
      by (simp add: find_three_and_double_def find_valid [OF assms(1)] find_valid [OF vh] same_rank_def take_at_def)
    have "rank a \<noteq> rank (?p ! 0)"
      by (rule no_pair_beside_three [OF assms(1) s(1)]) (use p in auto)
    then have "found_group h THREE_DOUBLE v (int (3 + 2 * length [rank a])) (?p @ [a, b])"
      by (intro main_with_kickers [OF assms(1) s(1) _ _ s(2)])
        (use p in \<open>auto simp: main_type_def numeral_2_eq_2\<close>)
    with e show ?thesis by simp
  qed
qed

lemma found_four_and_two_single:
  assumes "valid_hand h"
  shows "\<exists>f. find_four_and_two_single h v [] = Inr f \<and> (f = [] \<or> found_group h FOUR_TWO_SINGLE v 6 f)"
proof (cases "length h < 5 \<or> picked h 4 v = []")
  case True
  then show ?thesis by (auto simp: find_four_and_two_single_def find_valid [OF assms(1)])
next
  case False
  let ?p = "picked h 4 v" let ?h = "fold pset_erase ?p h"
  have s: "same_rank 4 h ?p" "v < rank (?p ! 0)"
    using picked_same_rank [OF assms(1), of 4 v] False by auto
  have e: "find_four_and_two_single h v [] = four_single_loop ?h [] ?p"
    using False s(1) by (simp add: find_four_and_two_single_def find_valid [OF assms(1)] same_rank_def)
  have "valid_hand ?h" using assms(1) by auto
  from four_single_result [OF this, of "[]" ?p] consider "four_single_loop ?h [] ?p = Inr []"
    | c d where "c \<in> set ?h" "d \<in> set ?h" "rank c \<noteq> rank d" "four_single_loop ?h [] ?p = Inr (?p @ [c, d])"
    by auto
  then show ?thesis
  proof cases
    case 2
    have "rank c \<noteq> rank (?p ! 0)" "rank d \<noteq> rank (?p ! 0)"
      by (rule four_exhausts [OF assms s(1)]; use 2 in simp)+
    then have "found_group h FOUR_TWO_SINGLE v (int (4 + 1 * length [rank c, rank d])) (?p @ [c, d])"
      by (intro main_with_kickers [OF assms(1) s(1) _ _ s(2)]) (use 2 in \<open>auto simp: main_type_def\<close>)
    with 2(4) e show ?thesis by simp
  qed (use e in simp)
qed

lemma map_rank_pairs:
  "good_pairs S ps \<Longrightarrow> map rank (pairs ps) = copies 2 (map (rank \<circ> fst) ps)"
  by (induction ps) (auto simp: good_pairs_def numeral_2_eq_2)

lemma found_four_and_two_double:
  assumes "valid_hand h"
  shows "\<exists>f. find_four_and_two_double h v [] = Inr f \<and> (f = [] \<or> found_group h FOUR_TWO_DOUBLE v 8 f)"
proof (cases "length h < 8 \<or> picked h 4 v = []")
  case True
  then show ?thesis by (auto simp: find_four_and_two_double_def find_valid [OF assms(1)])
next
  case False
  let ?p = "picked h 4 v" let ?h = "fold pset_erase ?p h"
  have s: "same_rank 4 h ?p" "v < rank (?p ! 0)"
    using picked_same_rank [OF assms(1), of 4 v] False by auto
  have e: "find_four_and_two_double h v [] = four_double_loop ?h (pairs []) ?p"
    using False s(1) by (simp add: find_four_and_two_double_def find_valid [OF assms(1)] same_rank_def)
  have "valid_hand ?h" using assms(1) by auto
  from four_double_result [OF this, of "[]" "{}" ?p] consider "four_double_loop ?h (pairs []) ?p = Inr []"
    | ps where "length ps = 2" "good_pairs (set ?h) ps" "four_double_loop ?h (pairs []) ?p = Inr (?p @ pairs ps)"
    by (auto simp: good_pairs_def)
  then show ?thesis
  proof cases
    case 2
    have "rank x \<noteq> rank (?p ! 0)" if "x \<in> set (pairs ps)" for x
      by (rule four_exhausts [OF assms s(1)]) (use that 2(2) in \<open>auto simp: good_pairs_def\<close>)
    then have q: "rank (?p ! 0) \<notin> rank ` set (pairs ps)" by force
    have "rank ` set (pairs ps) = set (map (rank \<circ> fst) ps)"
      using good_pairs_rank [of ps] 2(2) by (simp add: good_pairs_def)
    with q have "found_group h FOUR_TWO_DOUBLE v (int (4 + 2 * length (map (rank \<circ> fst) ps))) (?p @ pairs ps)"
      using 2(1,2) map_rank_pairs [OF 2(2)]
      by (intro main_with_kickers [OF assms(1) s(1) _ _ s(2)]) (auto simp: main_type_def good_pairs_def)
    with 2(1,3) e show ?thesis by simp
  qed (use e in simp)
qed


lemma found_single_chain:
  assumes "valid_hand h" "chr_0 \<le> v" "5 \<le> len" "len < 20"
  shows "\<exists>f. find_single_chain h v len [] = Inr f \<and> (f = [] \<or> found_group h SINGLE_CHAIN v len f)"
proof -
  obtain f where f: "find_single_chain h v len [] = Inr f" "f = [] \<or> chain_found 1 h v len f"
    using find_single_chain_result [OF assms(1), of len v] assms(3) by auto
  have "found_group h SINGLE_CHAIN v len f" if c: "chain_found 1 h v len f"
  proof -
    have hd: "hd (map rank f) = rank (f ! 0)" using c assms(3) by (cases f) (auto simp: chain_found_def)
    have "single_chain (map rank f)"
      using c assms(3) unfolding chain_found_def ascending_def single_chain_def div_by_1 by auto
    then have "forms (map rank f) SINGLE_CHAIN (hd (map rank f))"
      by (rule forms_single_chain) (use c assms(2,4) hd in \<open>simp_all add: chain_found_def\<close>)
    with c hd show ?thesis by (auto simp: found_group_def chain_found_def)
  qed
  with f show ?thesis by blast
qed

lemma found_double_chain:
  assumes "valid_hand h" "chr_0 \<le> v" "6 \<le> len" "len < 20" "even len"
  shows "\<exists>f. find_double_chain h v len [] = Inr f \<and> (f = [] \<or> found_group h DOUBLE_CHAIN v len f)"
proof -
  obtain f where f: "find_double_chain h v len [] = Inr f" "f = [] \<or> chain_found 2 h v len f"
    using find_double_chain_result [OF assms(1), of len v] assms(3) by auto
  have "found_group h DOUBLE_CHAIN v len f" if c: "chain_found 2 h v len f"
  proof -
    have hd: "hd (map rank f) = rank (f ! 0)" using c assms(3) by (cases f) (auto simp: chain_found_def)
    have "double_chain (map rank f)"
      using c assms(3,5) unfolding chain_found_def ascending_def double_chain_def by auto
    then have "forms (map rank f) DOUBLE_CHAIN (hd (map rank f))"
      by (rule forms_double_chain) (use c assms(2,4) hd in \<open>simp_all add: chain_found_def\<close>)
    with c hd show ?thesis by (auto simp: found_group_def chain_found_def)
  qed
  with f show ?thesis by blast
qed

lemma three_chain_length: "three_chain_found h v n f \<Longrightarrow> int (length f) = 3 * n"
proof -
  assume "three_chain_found h v n f"
  then obtain ths where t: "f = concat ths" "int (length ths) = n" "\<forall>th \<in> set ths. same_rank 3 h th"
    by (auto simp: three_chain_found_def)
  then have "map length ths = replicate (length ths) 3"
    by (intro replicate_eqI) (auto simp: same_rank_def)
  with t show ?thesis by (simp add: length_concat sum_list_replicate)
qed

lemma found_three_chain:
  assumes "valid_hand h" "6 \<le> len" "len < 20" "3 dvd len"
  shows "\<exists>f. find_three_chain h v len [] = Inr f \<and> (f = [] \<or> found_group h THREE_CHAIN v len f)"
proof -
  obtain n where n: "len = int (3 * n)" "2 \<le> n"
  proof -
    have "len = int (3 * nat (len div 3))" "2 \<le> nat (len div 3)" using assms(2,4) by auto
    then show thesis by (rule that)
  qed
  obtain f where f: "find_three_chain h v len [] = Inr f" "f = [] \<or> three_chain_found h v (int n) f"
    using find_three_chain_result [OF assms(1), of len v] assms(2) n by (auto simp: zdiv_int)
  have "found_group h THREE_CHAIN v (int (3 * n + 1 * length ([] :: int list))) (f @ [])" if "three_chain_found h v (int n) f"
    using chain_with_kickers [OF assms(1) that n(2), of 1 "[]" "[]"] n assms(3) by simp
  with f n show ?thesis by auto
qed

lemma found_three_chain_and_single:
  assumes "valid_hand h" "8 \<le> len" "len < 20" "4 dvd len"
  shows "\<exists>f. find_three_chain_and_single h v len [] = Inr f \<and>
    (f = [] \<or> found_group h TRHEE_CHAIN_SINGLE v len f)"
proof (cases "size_less (length h) len")
  case True
  then show ?thesis by (simp add: find_three_chain_and_single_def)
next
  case False
  define n where "n = nat (len div 4)"
  have n: "len = 4 * int n" "2 \<le> n" "len div 4 = int n" using assms(2,4) by (auto simp: n_def)
  obtain f where f: "find_three_chain h v (3 * int n) [] = Inr f" "f = [] \<or> three_chain_found h v (int n) f"
    using find_three_chain_result [OF assms(1), of "3 * int n" v] n(2) by auto
  let ?h = "fold pset_erase f h"
  have e: "find_three_chain_and_single h v len [] =
      (if f = [] then Inr [] else chain_single_loop ?h [] (int n) f)"
    using False f(1) n(3) by (simp add: find_three_chain_and_single_def mult.commute)
  have "valid_hand ?h" using assms(1) by auto
  from chain_single_result [OF this, of "[]" "int n" f] n(2)
  consider "chain_single_loop ?h [] (int n) f = Inr []"
    | sp where "length sp = n" "set sp \<subseteq> set ?h" "distinct (map rank sp)" "rank ` set sp \<inter> rank ` set f = {}"
      "chain_single_loop ?h [] (int n) f = Inr (f @ sp)"
    by auto
  then show ?thesis
  proof cases
    case 1
    with e show ?thesis by simp
  next
    case 2
    have "found_group h TRHEE_CHAIN_SINGLE v len (f @ sp)" if "f \<noteq> []"
    proof -
      have t: "three_chain_found h v (int n) f" using f(2) that by simp
      have m: "map rank sp = copies 1 (map rank sp)" by (induction sp) simp_all
      have "map rank sp \<noteq> []" using 2(1) n(2) by auto
      moreover have "3 * n + 1 * length (map rank sp) < 20" using 2(1) n(1) assms(3) by simp
      ultimately show ?thesis
        using chain_with_kickers [OF assms(1) t n(2) _ m 2(3)] 2 distinct_map [of rank sp] n(1) by auto
    qed
    with e 2(5) show ?thesis by auto
  qed
qed

lemma found_three_chain_and_double:
  assumes "valid_hand h" "10 \<le> len" "len < 20" "5 dvd len"
  shows "\<exists>f. find_three_chain_and_double h v len [] = Inr f \<and>
    (f = [] \<or> found_group h THREE_CHAIN_DOUBLE v len f)"
proof (cases "size_less (length h) len")
  case True
  then show ?thesis by (simp add: find_three_chain_and_double_def)
next
  case False
  define n where "n = nat (len div 5)"
  have n: "len = 5 * int n" "2 \<le> n" "len div 5 = int n" using assms(2,4) by (auto simp: n_def)
  obtain f where f: "find_three_chain h v (3 * int n) [] = Inr f" "f = [] \<or> three_chain_found h v (int n) f"
    using find_three_chain_result [OF assms(1), of "3 * int n" v] n(2) by auto
  let ?h = "fold pset_erase f h"
  have e: "find_three_chain_and_double h v len [] =
      (if f = [] then Inr [] else chain_double_loop ?h (pairs []) (int n) f)"
    using False f(1) n(3) by (simp add: find_three_chain_and_double_def mult.commute)
  have "valid_hand ?h" using assms(1) by auto
  from chain_double_result [OF this, of "[]" "int n" "{}" f] n(2)
  consider "chain_double_loop ?h (pairs []) (int n) f = Inr []"
    | ps where "length ps = n" "good_pairs (set ?h) ps" "chain_double_loop ?h (pairs []) (int n) f = Inr (f @ pairs ps)"
    by (auto simp: good_pairs_def)
  then show ?thesis
  proof cases
    case 1
    with e show ?thesis by simp
  next
    case 2
    have "found_group h THREE_CHAIN_DOUBLE v len (f @ pairs ps)" if "f \<noteq> []"
    proof -
      have t: "three_chain_found h v (int n) f" using f(2) that by simp
      have d: "distinct (map (rank \<circ> fst) ps)" using 2(2) by (simp add: good_pairs_def)
      have disj: "rank ` set f \<inter> set (map (rank \<circ> fst) ps) = {}"
      proof (rule ccontr)
        assume "\<not> ?thesis"
        then obtain c p where c: "c \<in> set f" "p \<in> set ps" "rank c = rank (fst p)" by auto
        obtain a b where ab: "p = (a, b)" by (cases p)
        from t obtain ths where ths: "f = concat ths" "\<forall>th \<in> set ths. same_rank 3 h th"
          by (auto simp: three_chain_found_def)
        then obtain th where "th \<in> set ths" "c \<in> set th" using c(1) by auto
        with ths have th: "same_rank 3 h th" "c \<in> set th" "set th \<subseteq> set f" by auto
        have g: "a \<noteq> b" "{a, b} \<subseteq> set ?h" "rank a = rank b"
          using good_pairs_elem [OF 2(2)] c(2) ab by auto
        have "rank a \<noteq> rank (th ! 0)"
          by (rule no_pair_beside_three [OF assms(1) th(1)]) (use g th(3) in auto)
        with same_rank_ranks [OF th(1,2)] c(3) ab show False by simp
      qed
      have "map (rank \<circ> fst) ps \<noteq> []" using 2(1) n(2) by auto
      moreover have "3 * n + 2 * length (map (rank \<circ> fst) ps) < 20" using 2(1) n(1) assms(3) by simp
      ultimately show ?thesis
        using chain_with_kickers [OF assms(1) t n(2) _ map_rank_pairs [OF 2(2)] d disj] 2 n(1)
        by (auto simp: good_pairs_def)
    qed
    with e 2(3) show ?thesis by auto
  qed
qed


section \<open>The plays proposed\<close>

text \<open>The lengths that the descriptions of the groups have.\<close>

fun sized_type :: "poker_type \<Rightarrow> int \<Rightarrow> bool" where
  "sized_type ERR n = False"
| "sized_type ZERO n = True"
| "sized_type SINGLE n = (n = 1)"
| "sized_type DOUBLE n = (n = 2)"
| "sized_type THREE n = (n = 3)"
| "sized_type THREE_ONE n = (n = 4)"
| "sized_type THREE_DOUBLE n = (n = 5)"
| "sized_type FOUR_TWO_SINGLE n = (n = 6)"
| "sized_type FOUR_TWO_DOUBLE n = (n = 8)"
| "sized_type SINGLE_CHAIN n = (5 \<le> n \<and> n < 20)"
| "sized_type DOUBLE_CHAIN n = (6 \<le> n \<and> n < 20 \<and> even n)"
| "sized_type THREE_CHAIN n = (6 \<le> n \<and> n < 20 \<and> 3 dvd n)"
| "sized_type TRHEE_CHAIN_SINGLE n = (8 \<le> n \<and> n < 20 \<and> 4 dvd n)"
| "sized_type THREE_CHAIN_DOUBLE n = (10 \<le> n \<and> n < 20 \<and> 5 dvd n)"
| "sized_type BOMB n = (n = 4)"
| "sized_type DOUBLE_JOKER n = (n = 2)"

definition on_table :: "poker_info \<Rightarrow> bool" where
  "on_table pi \<longleftrightarrow> sized_type (pi_type pi) (pi_length pi) \<and> chr_0 \<le> pi_value pi"

definition beating :: "poker_info \<Rightarrow> poker_list \<Rightarrow> poker_array \<Rightarrow> bool" where
  "beating pi h f \<longleftrightarrow> set f \<subseteq> set h \<and> distinct f \<and>
     (\<exists>t w. forms (map rank f) t w \<and> is_large \<lparr>pi_type = t, pi_value = w, pi_length = int (length f)\<rparr> pi)"

lemma found_group_beating:
  assumes "found_group h t (pi_value pi) (pi_length pi) f" "pi_type pi = t"
  shows "beating pi h f"
proof -
  obtain w where "pi_value pi < w" "forms (map rank f) t w" using assms(1) by (auto simp: found_group_def)
  with assms show ?thesis unfolding beating_def
    by (intro conjI exI [of _ t] exI [of _ w]) (simp_all add: found_group_def is_large_def)
qed

lemma bomb_beating:
  assumes "found_group h BOMB v n f" "pi_type pi \<notin> {BOMB, DOUBLE_JOKER}"
  shows "beating pi h f"
  using assms unfolding found_group_def beating_def
  by (intro conjI exI [of _ BOMB]) (auto simp: is_large_def)

lemma found_double_joker:
  assumes "valid_hand h"
  shows "\<exists>f. find_double_joker h [] = Inr f \<and> (f = [] \<or> (pi_type pi \<noteq> DOUBLE_JOKER \<longrightarrow> beating pi h f))"
proof (cases "2 \<le> length h \<and> rank (h ! (length h - 1)) = rank_O \<and> rank (h ! (length h - 2)) = rank_N")
  case True
  let ?a = "h ! (length h - 2)" and ?b = "h ! (length h - 1)"
  have in_h: "?a \<in> set h" "?b \<in> set h" using True by (auto intro!: nth_mem)
  have "?a \<noteq> ?b" using True by auto
  moreover have "forms (map rank [?a, ?b]) DOUBLE_JOKER rank_N" using True forms_joker by simp
  ultimately have "beating pi h [?a, ?b]" if "pi_type pi \<noteq> DOUBLE_JOKER"
    using that in_h unfolding beating_def
    by (intro conjI exI [of _ DOUBLE_JOKER] exI [of _ rank_N]) (auto simp: is_large_def)
  with True show ?thesis by (simp add: find_double_joker_def Let_def)
next
  case False
  then show ?thesis by (auto simp: find_double_joker_def Let_def)
qed

lemma found_bomb:
  assumes "valid_hand h" "pi_type pi \<notin> {BOMB, DOUBLE_JOKER}"
  shows "\<exists>f. find_bomb_or_double_joker h [] = Inr f \<and> (f = [] \<or> beating pi h f)"
  using found_four [OF assms(1), of chr_0] found_double_joker [OF assms(1), of pi] bomb_beating assms(2)
  unfolding find_bomb_or_double_joker_def by (simp, metis)

lemma or_bomb_result:
  assumes "valid_hand h" "pi_type pi \<notin> {BOMB, DOUBLE_JOKER}"
    and "\<exists>f. r = Inr f \<and> (f = [] \<or> found_group h (pi_type pi) (pi_value pi) (pi_length pi) f)"
  shows "\<exists>f. ebind r (or_bomb h) = Inr f \<and> (f = [] \<or> beating pi h f)"
proof -
  obtain f where f: "r = Inr f" "f = [] \<or> found_group h (pi_type pi) (pi_value pi) (pi_length pi) f"
    using assms(3) by blast
  show ?thesis
  proof (cases "f = []")
    case True
    then show ?thesis using found_bomb [OF assms(1,2)] f(1) by (simp add: or_bomb_def)
  next
    case False
    then show ?thesis using found_group_beating f by (simp add: or_bomb_def)
  qed
qed

lemma or_bomb_assert_result:
  assumes "valid_hand h" "pi_type pi \<notin> {BOMB, DOUBLE_JOKER}" "pi_length pi = int n"
    and "\<exists>f. r = Inr f \<and> (f = [] \<or> found_group h (pi_type pi) (pi_value pi) (pi_length pi) f)"
  shows "\<exists>f. ebind (ebind r (assert_size n)) (or_bomb h) = Inr f \<and> (f = [] \<or> beating pi h f)"
proof -
  obtain f where f: "r = Inr f" "f = [] \<or> found_group h (pi_type pi) (pi_value pi) (pi_length pi) f"
    using assms(4) by blast
  then have "ebind r (assert_size n) = Inr f"
    using assms(3) by (auto simp: assert_size_def found_group_def)
  then show ?thesis using or_bomb_result [OF assms(1,2), of "Inr f"] f(2) by simp
qed

lemma find_big_pokers_result:
  assumes "valid_hand h" "on_table pi"
  shows "\<exists>f. find_big_pokers pi h [] = Inr f \<and> (f = [] \<or> beating pi h f)"
proof -
  have v: "chr_0 \<le> pi_value pi" and n: "sized_type (pi_type pi) (pi_length pi)"
    using assms(2) by (simp_all add: on_table_def)
  note res = or_bomb_result [OF assms(1)] or_bomb_assert_result [OF assms(1)]
  note found = found_single [OF assms(1) v] found_double [OF assms(1) v] found_three [OF assms(1) v]
    found_three_and_single [OF assms(1), of "pi_value pi"] found_three_and_double [OF assms(1), of "pi_value pi"]
    found_four_and_two_single [OF assms(1), of "pi_value pi"] found_four_and_two_double [OF assms(1), of "pi_value pi"]
  note chains = found_single_chain [OF assms(1) v, of "pi_length pi"] found_double_chain [OF assms(1) v, of "pi_length pi"]
    found_three_chain [OF assms(1), of "pi_length pi" "pi_value pi"]
    found_three_chain_and_single [OF assms(1), of "pi_length pi" "pi_value pi"]
    found_three_chain_and_double [OF assms(1), of "pi_length pi" "pi_value pi"]
  show ?thesis
  proof (cases "pi_type pi")
    case ERR
    with n show ?thesis by simp
  next
    case ZERO
    obtain f where f: "find_single h chr_0 [] = Inr f" "f = [] \<or> found_group h SINGLE chr_0 1 f"
      using found_single [OF assms(1), of chr_0] by auto
    then have "f = [] \<or> beating pi h f"
      using ZERO unfolding found_group_def beating_def
      by (auto simp: is_large_def intro!: exI [of _ SINGLE])
    with f ZERO show ?thesis by (auto simp: find_big_pokers_def assert_size_def found_group_def)
  next
    case BOMB
    obtain f where f: "find_four h (pi_value pi) [] = Inr f" "f = [] \<or> found_group h BOMB (pi_value pi) 4 f"
      using found_four [OF assms(1)] by blast
    then have "f = [] \<or> beating pi h f" using found_group_beating [of h BOMB pi f] BOMB n by auto
    with f(1) BOMB found_double_joker [OF assms(1), of pi] show ?thesis
      by (auto simp: find_big_pokers_def)
  next
    case SINGLE
    have "\<exists>f. ebind (ebind (find_single h (pi_value pi) []) (assert_size 1)) (or_bomb h) = Inr f \<and> (f = [] \<or> beating pi h f)"
      by (rule res(2)) (use SINGLE n found(1) in simp_all)
    then show ?thesis using SINGLE by (simp add: find_big_pokers_def)
  next
    case DOUBLE
    have "\<exists>f. ebind (ebind (find_double h (pi_value pi) []) (assert_size 2)) (or_bomb h) = Inr f \<and> (f = [] \<or> beating pi h f)"
      by (rule res(2)) (use DOUBLE n found(2) in simp_all)
    then show ?thesis using DOUBLE by (simp add: find_big_pokers_def)
  next
    case THREE
    have "\<exists>f. ebind (ebind (find_three h (pi_value pi) []) (assert_size 3)) (or_bomb h) = Inr f \<and> (f = [] \<or> beating pi h f)"
      by (rule res(2)) (use THREE n found(3) in simp_all)
    then show ?thesis using THREE by (simp add: find_big_pokers_def)
  next
    case THREE_ONE
    have "\<exists>f. ebind (ebind (find_three_and_single h (pi_value pi) []) (assert_size 4)) (or_bomb h) = Inr f \<and> (f = [] \<or> beating pi h f)"
      by (rule res(2)) (use THREE_ONE n found(4) in simp_all)
    then show ?thesis using THREE_ONE by (simp add: find_big_pokers_def)
  next
    case THREE_DOUBLE
    have "\<exists>f. ebind (ebind (find_three_and_double h (pi_value pi) []) (assert_size 5)) (or_bomb h) = Inr f \<and> (f = [] \<or> beating pi h f)"
      by (rule res(2)) (use THREE_DOUBLE n found(5) in simp_all)
    then show ?thesis using THREE_DOUBLE by (simp add: find_big_pokers_def)
  next
    case FOUR_TWO_SINGLE
    have "\<exists>f. ebind (ebind (find_four_and_two_single h (pi_value pi) []) (assert_size 6)) (or_bomb h) = Inr f \<and> (f = [] \<or> beating pi h f)"
      by (rule res(2)) (use FOUR_TWO_SINGLE n found(6) in simp_all)
    then show ?thesis using FOUR_TWO_SINGLE by (simp add: find_big_pokers_def)
  next
    case FOUR_TWO_DOUBLE
    have "\<exists>f. ebind (ebind (find_four_and_two_double h (pi_value pi) []) (assert_size 8)) (or_bomb h) = Inr f \<and> (f = [] \<or> beating pi h f)"
      by (rule res(2)) (use FOUR_TWO_DOUBLE n found(7) in simp_all)
    then show ?thesis using FOUR_TWO_DOUBLE by (simp add: find_big_pokers_def)
  next
    case SINGLE_CHAIN
    have "\<exists>f. ebind (find_single_chain h (pi_value pi) (pi_length pi) []) (or_bomb h) = Inr f \<and> (f = [] \<or> beating pi h f)"
      by (rule res(1)) (use SINGLE_CHAIN n chains(1) in simp_all)
    then show ?thesis using SINGLE_CHAIN by (simp add: find_big_pokers_def)
  next
    case DOUBLE_CHAIN
    have "\<exists>f. ebind (find_double_chain h (pi_value pi) (pi_length pi) []) (or_bomb h) = Inr f \<and> (f = [] \<or> beating pi h f)"
      by (rule res(1)) (use DOUBLE_CHAIN n chains(2) in simp_all)
    then show ?thesis using DOUBLE_CHAIN by (simp add: find_big_pokers_def)
  next
    case THREE_CHAIN
    have "\<exists>f. ebind (find_three_chain h (pi_value pi) (pi_length pi) []) (or_bomb h) = Inr f \<and> (f = [] \<or> beating pi h f)"
      by (rule res(1)) (use THREE_CHAIN n chains(3) in simp_all)
    then show ?thesis using THREE_CHAIN by (simp add: find_big_pokers_def)
  next
    case TRHEE_CHAIN_SINGLE
    have "\<exists>f. ebind (find_three_chain_and_single h (pi_value pi) (pi_length pi) []) (or_bomb h) = Inr f \<and> (f = [] \<or> beating pi h f)"
      by (rule res(1)) (use TRHEE_CHAIN_SINGLE n chains(4) in simp_all)
    then show ?thesis using TRHEE_CHAIN_SINGLE by (simp add: find_big_pokers_def)
  next
    case THREE_CHAIN_DOUBLE
    have "\<exists>f. ebind (find_three_chain_and_double h (pi_value pi) (pi_length pi) []) (or_bomb h) = Inr f \<and> (f = [] \<or> beating pi h f)"
      by (rule res(1)) (use THREE_CHAIN_DOUBLE n chains(5) in simp_all)
    then show ?thesis using THREE_CHAIN_DOUBLE by (simp add: find_big_pokers_def)
  next
    case DOUBLE_JOKER
    then show ?thesis by (simp add: find_big_pokers_def)
  qed
qed


section \<open>Descriptions the parser produces\<close>

lemma three_chain_sizes:
  assumes "three_chain_type (runs cs) = Some t" "length cs < 20"
  shows "sized_type t (int (length cs))"
proof -
  let ?t = "length (triples (runs cs))"
  have w: "length cs = 3 * ?t + sum_list (map snd (extras (runs cs)))"
    using runs_weight [of "runs cs"] by (simp add: sum_runs)
  have u: "uniform_extras (runs cs)" and le: "\<forall>r \<in> set (runs cs). snd r \<le> 3" and two: "2 \<le> ?t"
    using assms(1) by (auto simp: three_chain_type_def split: if_splits)
  show ?thesis
  proof (cases "extras (runs cs)")
    case Nil
    then have "t = THREE_CHAIN" using assms(1) by (auto simp: three_chain_type_def split: if_splits)
    with w two Nil assms(2) show ?thesis by (auto simp: dvd_def)
  next
    case (Cons r es)
    then have e: "length (extras (runs cs)) = ?t"
        "t = (if snd r = 2 then THREE_CHAIN_DOUBLE else TRHEE_CHAIN_SINGLE)"
      using assms(1) by (auto simp: three_chain_type_def split: if_splits)
    have "sum_list (map snd (extras (runs cs))) = ?t * snd r"
      unfolding uniform_extras_weight [OF u] e(1) by (simp add: Cons)
    with w have "length cs = (3 + snd r) * ?t" by (simp add: algebra_simps)
    then consider "snd r = 1" "int (length cs) = 4 * int ?t" | "snd r = 2" "int (length cs) = 5 * int ?t"
      using extras_size [OF Cons le] by auto
    then show ?thesis using e(2) two assms(2) by cases auto
  qed
qed

lemma main_kicker_sizes:
  assumes "main_kicker_type (runs cs) = Some t"
  shows "sized_type t (int (length cs))"
proof -
  have le: "\<forall>r \<in> set (runs cs). snd r \<le> 4" and u: "uniform_kickers (runs cs)"
    using assms by (auto simp: main_kicker_type_def split: if_splits)
  obtain r where m: "mains (runs cs) = [r]"
    using assms by (auto simp: main_kicker_type_def length_Suc_conv split: if_splits)
  have w: "length cs = snd r + sum_list (map snd (kickers (runs cs)))"
    using main_weight [of "runs cs"] m by (simp add: sum_runs)
  have r: "snd r = 3 \<or> snd r = 4" by (rule tf_mains_size [OF m])
  consider (none) "kickers (runs cs) = []" | (one) k where "kickers (runs cs) = [k]"
    | (two) k l where "kickers (runs cs) = [k, l]"
    | (more) k l m ks where "kickers (runs cs) = k # l # m # ks"
    by (metis list.exhaust)
  then show ?thesis
  proof cases
    case none
    with w r m assms show ?thesis by (auto simp: main_kicker_type_def split: if_splits)
  next
    case one
    with w r m assms kickers_size [OF one le] show ?thesis
      by (auto simp: main_kicker_type_def split: if_splits)
  next
    case two
    then have "snd l = snd k" using u by (simp add: uniform_kickers_def)
    with two w r m assms kickers_size [OF two le] show ?thesis
      by (auto simp: main_kicker_type_def split: if_splits)
  next
    case more
    with m assms show ?thesis by (auto simp: main_kicker_type_def split: if_splits)
  qed
qed

lemma classified_sized:
  assumes "classified cs = Some (t, v)" "length cs < 20"
  shows "sized_type t (int (length cs))" "v \<in> set cs"
proof -
  have tri: "hd (triples (runs cs)) \<in> set cs" if "three_chain_type (runs cs) = Some t'" for t'
  proof -
    have "triples (runs cs) \<noteq> []" using three_chain_type_triples [OF that] by auto
    then have "hd (triples (runs cs)) \<in> set (triples (runs cs))" by simp
    also have "\<dots> \<subseteq> fst ` set (runs cs)" by (auto simp: triples_def)
    finally show ?thesis by (simp add: fst_runs_set)
  qed
  have main: "fst (hd (mains (runs cs))) \<in> set cs" if "main_kicker_type (runs cs) = Some t'" for t'
  proof -
    have "mains (runs cs) \<noteq> []" using that by (auto simp: main_kicker_type_def split: if_splits)
    then have "fst (hd (mains (runs cs))) \<in> fst ` set (mains (runs cs))" by simp
    also have "\<dots> \<subseteq> fst ` set (runs cs)" by (auto simp: mains_def)
    finally show ?thesis by (simp add: fst_runs_set)
  qed
  have "sized_type t (int (length cs)) \<and> v \<in> set cs"
  proof (cases "length cs \<le> 3")
    case True
    then show ?thesis using assms(1)
      by (auto simp: classified_def split: list.splits if_splits)
  next
    case False
    then have "cs \<noteq> []" by auto
    with False assms show ?thesis
      using tri main three_chain_sizes main_kicker_sizes chain_sizes [of cs]
      by (auto simp: classified_def split: if_splits option.splits)
  qed
  then show "sized_type t (int (length cs))" "v \<in> set cs" by simp_all
qed

text \<open>
  C18. What the parser accepts can be laid on the table: a parsed group has the length its type
  prescribes, and its value is the rank of one of its cards.
\<close>

theorem parse_on_table:
  assumes "0 < length cards" "length cards < 20" "\<forall>c \<in> set cards. chr_0 < c"
    and "parse cards info = Inr (cards', pi)" "pi_type pi \<noteq> ERR"
  shows "on_table pi \<and> pi_value pi \<in> set cards \<and> pi_length pi = int (length cards)"
proof -
  have pos: "\<forall>c \<in> set cards. 0 < c" using assms(3) by auto
  obtain r where r: "verdict (sort cards) r" "parse cards info = ebind r (\<lambda>pi. Inr (sort cards, pi))"
    using parse_verdict [OF assms(1,2) pos] by blast
  then have "r = Inr pi" using assms(4) by (cases r) auto
  with r(1) assms(5) obtain t v where c: "classified (sort cards) = Some (t, v)"
      "pi = \<lparr>pi_type = t, pi_value = v, pi_length = int (length cards)\<rparr>"
    by (auto simp: verdict_def split: if_splits option.splits)
  from classified_sized [OF c(1)] assms(2,3) c(2) show ?thesis
    by (auto simp: on_table_def intro: less_imp_le)
qed

lemma parse_on_table_witness:
  "on_table \<lparr>pi_type = DOUBLE, pi_value = 70, pi_length = 2\<rparr> \<and>
   pi_value \<lparr>pi_type = DOUBLE, pi_value = 70, pi_length = 2\<rparr> \<in> set [70, 70] \<and>
   pi_length \<lparr>pi_type = DOUBLE, pi_value = 70, pi_length = 2\<rparr> = int (length [70, 70 :: int])"
  by (rule parse_on_table [of _ poker_info_zero "[70, 70]"])
    (simp_all add: parse_def Let_def card_sort.srt_sorted parse_sorted_def poker_info_set_eq)

text \<open>
  C2. For a hand of real cards and any group on the table, the search for a beating play returns
  without a failed assert, and what it proposes is either nothing or cards of the hand, each
  once, which the parser accepts as a group that beats the one on the table.
\<close>

theorem find_big_pokers_legal:
  assumes "valid_hand hand" "on_table pi"
  shows "\<exists>found. find_big_pokers pi hand [] = Inr found \<and>
    (found = [] \<or> set found \<subseteq> set hand \<and> distinct found \<and>
      (\<exists>cards pi'. parse (map rank found) info = Inr (cards, pi') \<and> is_large pi' pi))"
proof -
  obtain found where f: "find_big_pokers pi hand [] = Inr found" "found = [] \<or> beating pi hand found"
    using find_big_pokers_result [OF assms] by blast
  have "\<exists>cards pi'. parse (map rank found) info = Inr (cards, pi') \<and> is_large pi' pi"
    if b: "beating pi hand found"
  proof -
    obtain t w where tw: "forms (map rank found) t w"
        "is_large \<lparr>pi_type = t, pi_value = w, pi_length = int (length found)\<rparr> pi"
      using b by (auto simp: beating_def)
    from parse_forms [OF tw(1), of info] tw(2) show ?thesis by auto
  qed
  with f show ?thesis by (auto simp: beating_def)
qed

definition sample_hand :: "poker_list" where
  "sample_hand = [''A1'', ''A2'', ''C3'', ''D4'', ''E1'', ''F2'', ''G1'', ''K1'', ''K2'', ''K3'', ''K4'']"

lemma sample_hand_valid: "valid_hand sample_hand"
  by (simp add: valid_hand_def sample_hand_def is_poker_def less_char_def cchar_def)

lemma find_big_pokers_legal_witness:
  "\<exists>found. find_big_pokers \<lparr>pi_type = DOUBLE, pi_value = 70, pi_length = 2\<rparr> sample_hand [] = Inr found \<and>
    (found = [] \<or> set found \<subseteq> set sample_hand \<and> distinct found \<and>
      (\<exists>cards pi'. parse (map rank found) poker_info_zero = Inr (cards, pi') \<and>
        is_large pi' \<lparr>pi_type = DOUBLE, pi_value = 70, pi_length = 2\<rparr>))"
  by (rule find_big_pokers_legal [OF sample_hand_valid]) (simp add: on_table_def)

end
