(* ===== verification/DdzDesk.thy ===== *)
theory DdzDesk
  imports CardSet
begin

text \<open>
  A game desk (\<^verbatim>\<open>src/src/ddz/ddz_desk.h\<close>, \<^verbatim>\<open>ddz_desk.cpp\<close>) and the state a player has in the
  game (\<^verbatim>\<open>ddz_game_info.h\<close>, \<^verbatim>\<open>ddz_game_info.cpp\<close>). Pointers to clients are client identities,
  \<^verbatim>\<open>NULL\<close> is \<^verbatim>\<open>None\<close>; a pointer to a desk is its index in the list of desks. The card
  pointers are the texts of the cards. The desk lock is left out: the handlers run one after the
  other.
\<close>

type_synonym cid = nat

section \<open>The state of a player\<close>

record ddz_game_info =
  money :: int
  experience :: int
  money_modify :: int
  experience_modify :: int
  win_count :: int
  fail_count :: int
  win_count_modify :: int
  fail_count_modify :: int
  info_desk :: "nat option"
  is_ready :: bool
  robot_mode :: bool
  card_declared :: bool
  bit_count :: int
  verify_code :: int

definition new_game_info :: ddz_game_info where
  "new_game_info = \<lparr>money = 0, experience = 0, money_modify = 0, experience_modify = 0,
     win_count = 0, fail_count = 0, win_count_modify = 0, fail_count_modify = 0,
     info_desk = None, is_ready = False, robot_mode = False, card_declared = False,
     bit_count = 0, verify_code = 0\<rparr>"

definition info_reset :: "bool \<Rightarrow> ddz_game_info \<Rightarrow> ddz_game_info" where
  "info_reset leave_desk info =
     (let info = info\<lparr>is_ready := False, bit_count := 0, robot_mode := False, card_declared := False\<rparr>
      in if leave_desk then info\<lparr>info_desk := None\<rparr> else info)"

definition info_update :: "int \<Rightarrow> int \<Rightarrow> int \<Rightarrow> int \<Rightarrow> ddz_game_info \<Rightarrow> ddz_game_info result" where
  "info_update money_modi experience_modi win_modi fail_modi info =
     ebind (int32 (money_modify info + money_modi)) (\<lambda>mm.
     ebind (int32 (experience_modify info + experience_modi)) (\<lambda>em.
     ebind (int32 (money info + money_modi)) (\<lambda>m.
     ebind (int32 (experience info + experience_modi)) (\<lambda>e.
     ebind (int32 (win_count_modify info + win_modi)) (\<lambda>wm.
     ebind (int32 (win_count info + win_modi)) (\<lambda>wc.
     ebind (int32 (fail_count_modify info + fail_modi)) (\<lambda>fm.
     ebind (int32 (fail_count info + fail_modi)) (\<lambda>fc.
       Inr (info\<lparr>money_modify := mm, experience_modify := em, money := m, experience := e,
          win_count_modify := wm, win_count := wc, fail_count_modify := fm, fail_count := fc\<rparr>)))))))))"

section \<open>The state of a desk\<close>

record ddz_desk =
  desk_id :: string
  is_running :: bool
  curr_shower :: "cid option"
  landlord :: "cid option"
  temp_landlord :: "cid option"
  seats :: "cid option list"
  curr_poker :: poker_info
  last_actived :: int
  bomb_count :: int
  declare_count :: int
  doublejoker_count :: int
  is_bided :: bool
  curr_pos :: int
  first_pos :: int
  desk_pokers :: "poker list"
  pos_pokers :: "poker list list"
  bid_pos :: int
  multiple :: int
  bid_info :: "int list"
  verifi_code :: int

definition DESK_CAPACITY :: nat where
  "DESK_CAPACITY = 3"

definition POS_STRINGS :: "string list" where
  "POS_STRINGS = [''0'', ''1'', ''2'']"

definition DESK_POKERS :: "poker list" where
  "DESK_POKERS =
     [''A1'', ''A2'', ''A3'', ''A4'', ''B1'', ''B2'', ''B3'', ''B4'', ''C1'', ''C2'', ''C3'', ''C4'',
      ''D1'', ''D2'', ''D3'', ''D4'', ''E1'', ''E2'', ''E3'', ''E4'', ''F1'', ''F2'', ''F3'', ''F4'',
      ''G1'', ''G2'', ''G3'', ''G4'', ''H1'', ''H2'', ''H3'', ''H4'', ''I1'', ''I2'', ''I3'', ''I4'',
      ''J1'', ''J2'', ''J3'', ''J4'', ''K1'', ''K2'', ''K3'', ''K4'', ''L1'', ''L2'', ''L3'', ''L4'',
      ''M1'', ''M2'', ''M3'', ''M4'', ''N1'', ''O1'']"

definition clear_pos_pokers :: "ddz_desk \<Rightarrow> ddz_desk" where
  "clear_pos_pokers d = d\<lparr>pos_pokers := [[], [], []], bid_info := [0, 0, 0]\<rparr>"

text \<open>\<open>now\<close> is the time in milliseconds at which the time stamp is restarted.\<close>

definition desk_reset :: "int \<Rightarrow> ddz_desk \<Rightarrow> ddz_desk" where
  "desk_reset now d = clear_pos_pokers
     (d\<lparr>is_running := False, landlord := None, temp_landlord := None, multiple := -1,
        bomb_count := 0, declare_count := 0, doublejoker_count := 0, curr_pos := -1,
        first_pos := -1, curr_poker := poker_info_zero, curr_shower := None, is_bided := False,
        last_actived := now\<rparr>)"

definition new_desk :: "int \<Rightarrow> ddz_desk" where
  "new_desk now = desk_reset now
     \<lparr>desk_id = '''', is_running = False, curr_shower = None, landlord = None,
      temp_landlord = None, seats = [None, None, None], curr_poker = poker_info_zero,
      last_actived = now, bomb_count = 0, declare_count = 0, doublejoker_count = 0,
      is_bided = False, curr_pos = -1, first_pos = -1, desk_pokers = DESK_POKERS,
      pos_pokers = [[], [], []], bid_pos = -1, multiple = -1, bid_info = [0, 0, 0],
      verifi_code = 0\<rparr>"

section \<open>Seats and turns\<close>

definition desk_active :: "int \<Rightarrow> ddz_desk \<Rightarrow> ddz_desk" where
  "desk_active now d = d\<lparr>last_actived := now\<rparr>"

definition desk_set :: "nat \<Rightarrow> cid option \<Rightarrow> ddz_desk \<Rightarrow> ddz_desk" where
  "desk_set pos_index client d = d\<lparr>seats := (seats d)[pos_index := client]\<rparr>"

definition set_start_pos :: "int \<Rightarrow> ddz_desk \<Rightarrow> ddz_desk" where
  "set_start_pos pos_index d = d\<lparr>first_pos := pos_index, curr_pos := pos_index\<rparr>"

definition pos_client :: "ddz_desk \<Rightarrow> int \<Rightarrow> cid option" where
  "pos_client d pos_index = seats d ! nat pos_index"

definition is_null :: "ddz_desk \<Rightarrow> int \<Rightarrow> bool" where
  "is_null d pos_index = (seats d ! nat pos_index = None)"

definition get_next_pos_index :: "ddz_desk \<Rightarrow> int" where
  "get_next_pos_index d = (curr_pos d + 1) mod int DESK_CAPACITY"

definition desk_first :: "ddz_desk \<Rightarrow> cid option" where
  "desk_first d = (if first_pos d = -1 then None else pos_client d (first_pos d))"

definition desk_current :: "ddz_desk \<Rightarrow> cid option" where
  "desk_current d = (if curr_pos d = -1 then None else pos_client d (curr_pos d))"

definition desk_next :: "ddz_desk \<Rightarrow> cid option" where
  "desk_next d = pos_client d (get_next_pos_index d)"

definition desk_last :: "ddz_desk \<Rightarrow> cid option" where
  "desk_last d = (if first_pos d = -1 then None
     else pos_client d ((first_pos d + 2) mod int DESK_CAPACITY))"

definition desk_previous :: "ddz_desk \<Rightarrow> cid option" where
  "desk_previous d =
     (if first_pos d = -1 then None
      else let pre_index = curr_pos d - 1;
               pre_index = (if pre_index < 0 then int DESK_CAPACITY - 1 else pre_index)
           in pos_client d pre_index)"

definition move_next :: "ddz_desk \<Rightarrow> ddz_desk" where
  "move_next d = d\<lparr>curr_pos := get_next_pos_index d\<rparr>"

definition move_to_next_bid_pos :: "ddz_desk \<Rightarrow> ddz_desk" where
  "move_to_next_bid_pos d = d\<lparr>bid_pos := (bid_pos d + 1) mod int DESK_CAPACITY\<rparr>"

fun first_index :: "(cid option \<Rightarrow> bool) \<Rightarrow> cid option list \<Rightarrow> int \<Rightarrow> int" where
  "first_index P [] i = -1"
| "first_index P (c # cs) i = (if P c then i else first_index P cs (i + 1))"

definition any_null :: "ddz_desk \<Rightarrow> int" where
  "any_null d = first_index (\<lambda>c. c = None) (seats d) 0"

definition pos_index_of :: "ddz_desk \<Rightarrow> cid option \<Rightarrow> int" where
  "pos_index_of d client = first_index (\<lambda>c. c \<noteq> None \<and> c = client) (seats d) 0"

definition increase_multiple :: "ddz_desk \<Rightarrow> ddz_desk" where
  "increase_multiple d = d\<lparr>multiple := multiple d + 1\<rparr>"

definition set_running :: "bool \<Rightarrow> ddz_desk \<Rightarrow> ddz_desk" where
  "set_running b d = d\<lparr>is_running := b\<rparr>"

definition hand :: "ddz_desk \<Rightarrow> int \<Rightarrow> poker list" where
  "hand d pos_index = pos_pokers d ! nat pos_index"

section \<open>Dealing\<close>

text \<open>\<open>rnd k\<close> is the \<open>k\<close>-th number \<^verbatim>\<open>rand()\<close> returns.\<close>

definition swap_pokers :: "nat \<Rightarrow> nat \<Rightarrow> poker list \<Rightarrow> poker list" where
  "swap_pokers i j ps = ps[i := ps ! j, j := ps ! i]"

fun shuffle :: "nat \<Rightarrow> (nat \<Rightarrow> nat) \<Rightarrow> poker list \<Rightarrow> poker list" where
  "shuffle 0 rnd ps = ps"
| "shuffle (Suc n) rnd ps =
     shuffle n (\<lambda>k. rnd (k + 1)) (swap_pokers (Suc n) (rnd 0 mod (Suc n + 1)) ps)"

fun deal :: "nat list \<Rightarrow> poker list \<Rightarrow> poker list list \<Rightarrow> poker list list" where
  "deal [] ps hands = hands"
| "deal (i # is) ps hands =
     deal is ps (hands[i mod 3 := pset_insert (ps ! i) (hands ! (i mod 3))])"

definition allocate_pokers :: "(nat \<Rightarrow> nat) \<Rightarrow> ddz_desk \<Rightarrow> ddz_desk" where
  "allocate_pokers rnd d =
     (let ps = shuffle 53 rnd (desk_pokers d)
      in d\<lparr>desk_pokers := ps, pos_pokers := deal [0..<51] ps (pos_pokers d)\<rparr>)"

end
