(* ===== verification/DdzDeal.thy ===== *)
theory DdzDeal
  imports DdzDesk FinderSearch
begin

text \<open>
  Dealing (\<^verbatim>\<open>ddz_desk::allocate_pokers\<close>): whatever \<^verbatim>\<open>rand\<close> returns, every card of the pack
  goes to exactly one player or stays among the three cards for the landlord.
\<close>

section \<open>The pack\<close>

lemma DESK_POKERS_distinct: "distinct DESK_POKERS"
proof -
  let ?key = "\<lambda>p :: poker. 4 * cchar (p ! 0) + cchar (p ! 1)"
  have keys: "map ?key DESK_POKERS = map (\<lambda>i. 309 + int i) ([0..<53] @ [56])"
    by (simp add: DESK_POKERS_def cchar_def upt_rec)
  have "distinct (map (\<lambda>i. 309 + int i) ([0..<53] @ [56]))"
    by (auto simp: distinct_map inj_on_def)
  then have "distinct (map ?key DESK_POKERS)" unfolding keys .
  then show ?thesis by (simp only: distinct_map)
qed

lemma length_DESK_POKERS: "length DESK_POKERS = 54"
  by (simp add: DESK_POKERS_def)

lemma DESK_POKERS_poker: "p \<in> set DESK_POKERS \<Longrightarrow> is_poker p"
proof -
  have "list_all is_poker DESK_POKERS"
    by (simp add: DESK_POKERS_def is_poker_def cchar_def)
  then show "p \<in> set DESK_POKERS \<Longrightarrow> is_poker p" by (simp add: list_all_iff)
qed

section \<open>Shuffling\<close>

lemma length_shuffle [simp]: "length (shuffle n rnd ps) = length ps"
  by (induction n arbitrary: rnd ps) (simp_all add: swap_pokers_def)

lemma mset_swap_pokers:
  "i < length ps \<Longrightarrow> j < length ps \<Longrightarrow> mset (swap_pokers i j ps) = mset ps"
  using mset_swap [of j ps i] by (simp add: swap_pokers_def)

lemma mset_shuffle: "n < length ps \<Longrightarrow> mset (shuffle n rnd ps) = mset ps"
proof (induction n arbitrary: rnd ps)
  case 0
  then show ?case by simp
next
  case (Suc n)
  have "rnd 0 mod (Suc n + 1) < Suc n + 1" by (rule mod_less_divisor) simp
  then have j: "rnd 0 mod (Suc n + 1) < length ps" using Suc.prems by linarith
  have "length (swap_pokers (Suc n) (rnd 0 mod (Suc n + 1)) ps) = length ps" by (simp add: swap_pokers_def)
  then show ?case
    using Suc.IH [of "swap_pokers (Suc n) (rnd 0 mod (Suc n + 1)) ps"] Suc.prems
      mset_swap_pokers [OF Suc.prems j] by simp
qed

section \<open>Dealing\<close>

definition dealt_to :: "nat \<Rightarrow> nat list \<Rightarrow> poker list \<Rightarrow> poker list" where
  "dealt_to k is ps = map (\<lambda>i. ps ! i) (filter (\<lambda>i. i mod 3 = k) is)"

lemma deal_hands:
  assumes "length hands = 3" "k < 3"
  shows "deal is ps hands ! k = pset.ins_all (dealt_to k is ps) (hands ! k)"
    and "length (deal is ps hands) = 3"
proof -
  have "deal is ps hands ! k = pset.ins_all (dealt_to k is ps) (hands ! k) \<and> length (deal is ps hands) = 3"
    using assms(1)
  proof (induction "is" arbitrary: hands)
    case Nil
    then show ?case by (simp add: pset.ins_all_def dealt_to_def)
  next
    case (Cons i "is")
    have "i mod 3 < length hands" using Cons.prems by simp
    then show ?case
      using Cons assms(2) by (auto simp: pset.ins_all_def dealt_to_def nth_list_update)
  qed
  then show "deal is ps hands ! k = pset.ins_all (dealt_to k is ps) (hands ! k)"
      "length (deal is ps hands) = 3" by simp_all
qed

lemma dealt_to_sizes: "k < 3 \<Longrightarrow> length (dealt_to k [0..<51] ps) = 17"
proof -
  have "length (filter (\<lambda>i. i mod 3 = 0) [0..<51::nat]) = 17"
    "length (filter (\<lambda>i. i mod 3 = 1) [0..<51::nat]) = 17"
    "length (filter (\<lambda>i. i mod 3 = 2) [0..<51::nat]) = 17"
    by code_simp+
  moreover assume "k < 3"
  then have "k = 0 \<or> k = 1 \<or> k = 2" by linarith
  ultimately show ?thesis by (auto simp: dealt_to_def)
qed

lemma mset_partition3:
  "mset (filter (\<lambda>i. i mod 3 = 0) is) + mset (filter (\<lambda>i. i mod 3 = 1) is) +
   mset (filter (\<lambda>i::nat. i mod 3 = 2) is) = mset is"
proof (induction "is")
  case (Cons i "is")
  have "i mod 3 = 0 \<or> i mod 3 = 1 \<or> i mod 3 = 2" by linarith
  with Cons show ?case by auto
qed simp

lemma mset_dealt:
  assumes "distinct ps" "51 \<le> length ps" "k < 3"
  shows "mset (pset.ins_all (dealt_to k [0..<51] ps) []) = mset (dealt_to k [0..<51] ps)"
proof -
  have "distinct (dealt_to k [0..<51] ps)"
    using assms by (auto simp: dealt_to_def distinct_map inj_on_def nth_eq_iff_index_eq)
  moreover have "distinct (pset.ins_all (dealt_to k [0..<51] ps) [])"
    using pset.ordered_ins_all [of "[]"] strict_sorted_iff by auto
  ultimately show ?thesis
    by (simp add: set_eq_iff_mset_eq_distinct [symmetric] pset.set_ins_all)
qed

lemma allocate_hands:
  fixes d :: ddz_desk and rnd :: "nat \<Rightarrow> nat"
  assumes "mset (desk_pokers d) = mset DESK_POKERS"
  defines "d' \<equiv> allocate_pokers rnd (clear_pos_pokers d)"
  shows "mset (desk_pokers d') = mset DESK_POKERS" "length (pos_pokers d') = 3"
    and "k < 3 \<Longrightarrow> pos_pokers d' ! k = pset.ins_all (dealt_to k [0..<51] (desk_pokers d')) []"
proof -
  have len: "length (desk_pokers d) = 54"
    using assms(1) length_DESK_POKERS by (metis size_mset)
  show "mset (desk_pokers d') = mset DESK_POKERS"
    using mset_shuffle [of 53 "desk_pokers d" rnd] len assms(1)
    by (simp add: d'_def allocate_pokers_def clear_pos_pokers_def Let_def)
  show "length (pos_pokers d') = 3"
    using deal_hands(2) [of "[[], [], []]" 0]
    by (simp add: d'_def allocate_pokers_def clear_pos_pokers_def Let_def)
  show "pos_pokers d' ! k = pset.ins_all (dealt_to k [0..<51] (desk_pokers d')) []" if k: "k < 3"
  proof -
    have "[[], [], []] ! k = ([] :: poker list)" using k by (auto simp: numeral_3_eq_3 less_Suc_eq)
    then show ?thesis
      using deal_hands(1) [of "[[], [], []]" k] k
      by (simp add: d'_def allocate_pokers_def clear_pos_pokers_def Let_def)
  qed
qed

text \<open>
  C3. For every sequence of random numbers, dealing a cleared desk gives each of the three
  players seventeen cards in set order, all of them real cards, and the hands together with the
  three cards left over are exactly the pack of fifty-four cards.
\<close>

theorem allocate_pokers_deals:
  assumes "mset (desk_pokers d) = mset DESK_POKERS"
  shows "let d' = allocate_pokers rnd (clear_pos_pokers d) in
    (\<forall>k \<in> {0, 1, 2}. length (hand d' k) = 17 \<and> valid_hand (hand d' k)) \<and>
    mset (hand d' 0) + mset (hand d' 1) + mset (hand d' 2) + mset (drop 51 (desk_pokers d')) =
      mset DESK_POKERS"
proof -
  define d' where "d' = allocate_pokers rnd (clear_pos_pokers d)"
  note a = allocate_hands [OF assms, where rnd = rnd, folded d'_def]
  let ?ps = "desk_pokers d'"
  have len: "length ?ps = 54" using a(1) length_DESK_POKERS by (metis size_mset)
  have dist: "distinct ?ps" using a(1) DESK_POKERS_distinct by (metis mset_eq_imp_distinct_iff)
  have sets: "set ?ps = set DESK_POKERS" using a(1) by (metis set_mset_mset)
  have h: "mset (pos_pokers d' ! k) = mset (dealt_to k [0..<51] ?ps)" if "k < 3" for k
    using a(3) [OF that] mset_dealt [OF dist _ that] len by simp
  have sub: "set (dealt_to k [0..<51] ?ps) \<subseteq> set ?ps" for k
    using len by (auto simp: dealt_to_def)
  have one: "length (pos_pokers d' ! k) = 17 \<and> valid_hand (pos_pokers d' ! k)" if k: "k < 3" for k
  proof -
    have "length (pos_pokers d' ! k) = 17"
      using h [OF k] dealt_to_sizes [OF k] by (metis size_mset)
    moreover have "set (pos_pokers d' ! k) \<subseteq> set DESK_POKERS"
      using a(3) [OF k] sub sets by (simp add: pset.set_ins_all)
    moreover have "sorted_wrt (<) (pos_pokers d' ! k)"
      using a(3) [OF k] pset.ordered_ins_all [of "[]"] by simp
    ultimately show ?thesis using DESK_POKERS_poker by (auto simp: valid_hand_def)
  qed
  have "mset (dealt_to 0 [0..<51] ?ps) + mset (dealt_to 1 [0..<51] ?ps) + mset (dealt_to 2 [0..<51] ?ps) =
      image_mset ((!) ?ps) (mset [0..<51])"
    unfolding dealt_to_def mset_map image_mset_union [symmetric] mset_partition3 ..
  also have "\<dots> = mset (take 51 ?ps)"
  proof -
    have "map ((!) ?ps) [0..<51] = take 51 ?ps" using len by (intro nth_equalityI) simp_all
    then show ?thesis by (metis mset_map)
  qed
  finally have "mset (pos_pokers d' ! 0) + mset (pos_pokers d' ! 1) + mset (pos_pokers d' ! 2) +
      mset (drop 51 ?ps) = mset (take 51 ?ps @ drop 51 ?ps)"
    using h unfolding mset_append by simp
  with one a(1) show ?thesis unfolding Let_def d'_def [symmetric] hand_def by simp
qed

lemma allocate_pokers_deals_witness:
  "let d' = allocate_pokers (\<lambda>k. 7 * k) (clear_pos_pokers (new_desk 0)) in
    (\<forall>k \<in> {0, 1, 2}. length (hand d' k) = 17 \<and> valid_hand (hand d' k)) \<and>
    mset (hand d' 0) + mset (hand d' 1) + mset (hand d' 2) + mset (drop 51 (desk_pokers d')) =
      mset DESK_POKERS"
  by (rule allocate_pokers_deals) (simp add: new_desk_def desk_reset_def clear_pos_pokers_def)

end
