(* ===== verification/Format.thy ===== *)
theory Format
  imports Prelude
begin

text \<open>
  The text of protocol messages: decimal conversion (\<^verbatim>\<open>%d\<close> and \<^verbatim>\<open>std::atoi\<close>) and
  \<^verbatim>\<open>sprintf\<close> into a buffer of fixed size, which needs room for the terminating NUL.
\<close>

section \<open>Decimal numbers\<close>

definition digit_char :: "nat \<Rightarrow> char" where
  "digit_char d = char_of (48 + d)"

fun show_nat :: "nat \<Rightarrow> string" where
  "show_nat n = (if n < 10 then [digit_char n] else show_nat (n div 10) @ [digit_char (n mod 10)])"

declare show_nat.simps [simp del]

definition show_int :: "int \<Rightarrow> string" where
  "show_int i = (if i < 0 then CHR ''-'' # show_nat (nat (- i)) else show_nat (nat i))"

definition is_digit :: "char \<Rightarrow> bool" where
  "is_digit c \<longleftrightarrow> 48 \<le> cchar c \<and> cchar c \<le> 57"

fun read_digits :: "string \<Rightarrow> int \<Rightarrow> int" where
  "read_digits [] acc = acc"
| "read_digits (c # cs) acc = (if is_digit c then read_digits cs (10 * acc + (cchar c - 48)) else acc)"

definition is_space :: "char \<Rightarrow> bool" where
  "is_space c \<longleftrightarrow> cchar c = 32 \<or> (9 \<le> cchar c \<and> cchar c \<le> 13)"

text \<open>\<^verbatim>\<open>std::atoi\<close>, for numbers that fit in an \<^verbatim>\<open>int\<close>: blanks, a sign, digits.\<close>

definition atoi :: "string \<Rightarrow> int" where
  "atoi s = (case dropWhile is_space s of
      [] \<Rightarrow> 0
    | c # cs \<Rightarrow> if c = CHR ''-'' then - read_digits cs 0
               else if c = CHR ''+'' then read_digits cs 0
               else read_digits (c # cs) 0)"

lemma cchar_digit: "d < 10 \<Longrightarrow> cchar (digit_char d) = 48 + int d"
  by (simp add: digit_char_def cchar_def Let_def)

lemma is_digit_digit_char [simp]: "d < 10 \<Longrightarrow> is_digit (digit_char d)"
  by (simp add: is_digit_def cchar_digit)

lemma read_digits_append:
  "\<forall>c \<in> set xs. is_digit c \<Longrightarrow> read_digits (xs @ ys) acc = read_digits ys (read_digits xs acc)"
  by (induction xs arbitrary: acc) simp_all

lemma show_nat_digits: "c \<in> set (show_nat n) \<Longrightarrow> is_digit c"
proof (induction n rule: show_nat.induct)
  case (1 n)
  then show ?case by (subst (asm) (2) show_nat.simps) (auto split: if_splits)
qed

lemma show_nat_nonempty [simp]: "show_nat n \<noteq> []"
  by (subst show_nat.simps) simp

lemma read_show_nat: "read_digits (show_nat n) acc = acc * 10 ^ length (show_nat n) + int n"
proof (induction n arbitrary: acc rule: show_nat.induct)
  case (1 n)
  show ?case
  proof (cases "n < 10")
    case True
    then show ?thesis by (subst (1 2) show_nat.simps) (simp add: cchar_digit)
  next
    case False
    have "read_digits (show_nat n) acc =
        10 * read_digits (show_nat (n div 10)) acc + int (n mod 10)"
      using False show_nat_digits
      by (subst show_nat.simps) (simp add: read_digits_append cchar_digit)
    also have "\<dots> = 10 * (acc * 10 ^ length (show_nat (n div 10)) + int (n div 10)) + int (n mod 10)"
      using 1 False by simp
    also have "\<dots> = acc * 10 ^ length (show_nat n) + int n"
      using False by (subst (2) show_nat.simps) (simp add: algebra_simps zmod_int zdiv_int)
    finally show ?thesis .
  qed
qed

lemma digit_not_special: "is_digit c \<Longrightarrow> \<not> is_space c \<and> c \<noteq> CHR ''-'' \<and> c \<noteq> CHR ''+''"
  by (auto simp: is_digit_def is_space_def cchar_def)

lemma atoi_show_int [simp]: "atoi (show_int i) = i"
proof -
  have n: "atoi (show_nat n) = int n" for n
  proof -
    obtain c cs where s: "show_nat n = c # cs" by (cases "show_nat n") auto
    then have "is_digit c" using show_nat_digits [of c n] by simp
    then show ?thesis using digit_not_special [of c] read_show_nat [of n 0] s by (simp add: atoi_def)
  qed
  have "\<not> is_space (CHR ''-'')" by (simp add: is_space_def cchar_def)
  then show ?thesis using n read_show_nat [of "nat (- i)" 0] by (simp add: show_int_def atoi_def)
qed

lemma length_show_nat: "n < 10 ^ k \<Longrightarrow> 0 < k \<Longrightarrow> length (show_nat n) \<le> k"
proof (induction n arbitrary: k rule: show_nat.induct)
  case (1 n)
  show ?case
  proof (cases "n < 10")
    case True
    then show ?thesis using 1(3) by (subst show_nat.simps) simp
  next
    case False
    then have "1 < k" using 1(2) by (cases k; cases "k - 1") auto
    then obtain j where j: "k = Suc j" "0 < j" by (cases k) auto
    have "n div 10 < 10 ^ j" using 1(2) j by simp
    with 1(1) False j have "length (show_nat (n div 10)) \<le> j" by simp
    then show ?thesis using False j by (subst show_nat.simps) simp
  qed
qed

section \<open>Buffers\<close>

definition sprintf :: "nat \<Rightarrow> string \<Rightarrow> string result" where
  "sprintf n s = (if length s < n then Inr s else Inl Out_of_bounds)"

lemma sprintf_fits [simp]: "length s < n \<Longrightarrow> sprintf n s = Inr s"
  by (simp add: sprintf_def)

lemma sprintf_overflow: "n \<le> length s \<Longrightarrow> sprintf n s = Inl Out_of_bounds"
  by (simp add: sprintf_def)

end
