(* ===== verification/DdzPlugin.thy ===== *)
theory DdzPlugin
  imports DdzDesk Format FinderPlays PokerParser
begin

text \<open>
  The card game plugin (\<^verbatim>\<open>src/src/ddz/ddz_plugin.cpp\<close>): its state, and one operation per member
  function, with all guards. An operation returns the new state or the fault it runs into. What it
  sends to clients, the tasks it gives to the zone and the commands it has a client simulate are
  appended to \<^verbatim>\<open>outbox\<close>; the zone, the network and \<^verbatim>\<open>simulate_on_command\<close> are not part of
  the sources of the plugin. Calls of the base class are recorded there as well.
\<close>

section \<open>State\<close>

datatype task =
    Game_start nat int
  | Game_bid nat int
  | Game_landlord nat "cid option" int
  | Robot_card nat "cid option" int

datatype effect =
    Write cid string
  | Queue_task task int
  | Simulate cid string bool
  | Base_call string

record game_client =
  client_id :: string
  client_name :: string
  client_available :: bool
  client_error :: int
  game_info :: "ddz_game_info option"

record ddz_plugin =
  game_id :: string
  desk_count :: int
  base_multiple :: int
  max_waiting :: int
  is_onlined :: bool
  has_zone :: bool
  plugin_clients :: "cid list"
  clients :: "cid \<Rightarrow> game_client option"
  desks :: "ddz_desk list"
  clock :: int
  outbox :: "effect list"

text \<open>The error codes that matter to the plugin; the code of a regular exit is not in the sources.\<close>

definition SERVER_CLOSEING :: int where
  "SERVER_CLOSEING = 17"

definition DDZ_GAME_IS_FULL :: int where
  "DDZ_GAME_IS_FULL = 20"

section \<open>Access\<close>

definition emit :: "effect \<Rightarrow> ddz_plugin \<Rightarrow> ddz_plugin" where
  "emit e w = w\<lparr>outbox := outbox w @ [e]\<rparr>"

definition the_client :: "ddz_plugin \<Rightarrow> cid \<Rightarrow> game_client result" where
  "the_client w c = (case clients w c of None \<Rightarrow> Inl Null_pointer | Some r \<Rightarrow> Inr r)"

definition seated :: "cid option \<Rightarrow> cid result" where
  "seated c = (case c of None \<Rightarrow> Inl Null_pointer | Some c \<Rightarrow> Inr c)"

text \<open>\<^verbatim>\<open>(ddz_game_info* )client->get_game_info()\<close>, dereferenced.\<close>

definition get_info :: "ddz_plugin \<Rightarrow> cid \<Rightarrow> ddz_game_info result" where
  "get_info w c = ebind (the_client w c)
     (\<lambda>r. case game_info r of None \<Rightarrow> Inl Null_pointer | Some i \<Rightarrow> Inr i)"

definition put_info :: "cid \<Rightarrow> ddz_game_info \<Rightarrow> ddz_plugin \<Rightarrow> ddz_plugin" where
  "put_info c i w = w\<lparr>clients := (clients w)(c := map_option (\<lambda>r. r\<lparr>game_info := Some i\<rparr>) (clients w c))\<rparr>"

definition desk_at :: "ddz_plugin \<Rightarrow> nat \<Rightarrow> ddz_desk" where
  "desk_at w d = desks w ! d"

definition on_desk :: "nat \<Rightarrow> (ddz_desk \<Rightarrow> ddz_desk) \<Rightarrow> ddz_plugin \<Rightarrow> ddz_plugin" where
  "on_desk d f w = w\<lparr>desks := (desks w)[d := f (desks w ! d)]\<rparr>"

definition say :: "cid \<Rightarrow> string \<Rightarrow> ddz_plugin \<Rightarrow> ddz_plugin" where
  "say c s = emit (Write c s)"

definition say_seat :: "cid option \<Rightarrow> string \<Rightarrow> ddz_plugin \<Rightarrow> ddz_plugin result" where
  "say_seat c s w = ebind (seated c) (\<lambda>c. Inr (say c s w))"

definition write_to_everyone :: "nat \<Rightarrow> string \<Rightarrow> ddz_plugin \<Rightarrow> ddz_plugin" where
  "write_to_everyone d s w =
     fold (\<lambda>c w. case c of None \<Rightarrow> w | Some c \<Rightarrow> say c s w) (seats (desk_at w d)) w"

definition pos_string :: "int \<Rightarrow> string" where
  "pos_string p = POS_STRINGS ! nat p"

fun join :: "string \<Rightarrow> string list \<Rightarrow> string" where
  "join sep [] = []"
| "join sep [s] = s"
| "join sep (s # t # ss) = s @ sep @ join sep (t # ss)"

abbreviation words_of :: "string list \<Rightarrow> string" where
  "words_of \<equiv> join '' ''"

abbreviation flag :: "bool \<Rightarrow> string" where
  "flag b \<equiv> (if b then ''1'' else ''0'')"

section \<open>Settling a game\<close>

text \<open>
  \<^verbatim>\<open>(int)std::pow(b, e)\<close> for a base of at least two: a power below one is cut to zero, and one that an
  \<^verbatim>\<open>int\<close> does not hold is undefined. The product is taken from left to right.
\<close>

definition int_pow :: "int \<Rightarrow> int \<Rightarrow> int result" where
  "int_pow b e = (if e < 0 then Inr 0 else int32 (b ^ nat e))"

definition mul_pow :: "int \<Rightarrow> int \<Rightarrow> int \<Rightarrow> int result" where
  "mul_pow m b e = ebind (int_pow b e) (\<lambda>p. int32 (m * p))"

definition total_multiple :: "int \<Rightarrow> ddz_desk \<Rightarrow> int result" where
  "total_multiple base d =
     ebind (mul_pow base 2 (if multiple d = -1 then 0 else multiple d)) (\<lambda>m.
     ebind (mul_pow m 2 (bomb_count d)) (\<lambda>m.
     ebind (mul_pow m 2 (doublejoker_count d)) (\<lambda>m.
     mul_pow m 3 (declare_count d))))"

definition upd_message ::
    "ddz_plugin \<Rightarrow> cid \<Rightarrow> int \<Rightarrow> string \<Rightarrow> int \<Rightarrow> int \<Rightarrow> ddz_game_info \<Rightarrow> string result" where
  "upd_message w c pos flags money_modi exp_modi info =
     ebind (the_client w c) (\<lambda>r. sprintf 256 (words_of
       [''UPD'', client_id r, client_name r, show_int pos, flags,
        show_int money_modi, show_int (money info), show_int exp_modi, show_int (experience info),
        show_int (win_count info), show_int (fail_count info)]))"

text \<open>The cards a player is left with, sent to the other two.\<close>

definition send_left_cards :: "nat \<Rightarrow> nat \<Rightarrow> ddz_plugin \<Rightarrow> ddz_plugin result" where
  "send_left_cards d i w =
     ebind (seated (seats (desk_at w d) ! i)) (\<lambda>c. ebind (get_info w c) (\<lambda>info.
       let w = put_info c (info\<lparr>is_ready := False\<rparr>) w;
           pokers = pos_pokers (desk_at w d) ! i
       in if length pokers = 0 then Inr w
          else ebind (sprintf 64 (''LFC '' @ pos_string (int i) @ concat (map (\<lambda>p. '' '' @ p) pokers)))
            (\<lambda>s. ebind (say_seat (seats (desk_at w d) ! ((i + 1) mod 3)) s w)
              (say_seat (seats (desk_at w d) ! ((i + 2) mod 3)) s))))"

definition game_tax :: int where
  "game_tax = 0"

text \<open>A peasant's share when the landlord has won; \<open>win\<close> accumulates the landlord's.\<close>

definition settle_peasant_lost ::
    "nat \<Rightarrow> int \<Rightarrow> nat \<Rightarrow> int \<times> ddz_plugin \<Rightarrow> (int \<times> ddz_plugin) result" where
  "settle_peasant_lost d tm i = (\<lambda>(win, w).
     (case seats (desk_at w d) ! i of
        None \<Rightarrow> Inr (win, w)
      | Some c \<Rightarrow>
          if Some c = landlord (desk_at w d) then Inr (win, w)
          else ebind (get_info w c) (\<lambda>info.
            ebind (int32 (tm * 2)) (\<lambda>lost. ebind (int32 (lost + game_tax)) (\<lambda>lost.
            let lost = (if lost > money info then money info else lost) in
            ebind (int32 (lost - game_tax)) (\<lambda>to_winner.
            let to_winner = (if to_winner < 0 then 0 else to_winner) in
            ebind (int32 (win + to_winner)) (\<lambda>win.
            ebind (info_update lost tm 0 1 info) (\<lambda>info.
            let w = put_info c info w in
            ebind (int32 (0 - lost)) (\<lambda>paid. ebind (int32 (0 - tm)) (\<lambda>exp_paid.
            ebind (upd_message w c (int i) ''0 0'' paid exp_paid info)
              (\<lambda>s. Inr (win, write_to_everyone d s w))))))))))))"

definition settle_landlord_won :: "nat \<Rightarrow> int \<Rightarrow> ddz_plugin \<Rightarrow> ddz_plugin result" where
  "settle_landlord_won d tm w =
     ebind (efold (settle_peasant_lost d tm) [0, 1, 2] (0, w)) (\<lambda>(win, w).
       ebind (seated (landlord (desk_at w d))) (\<lambda>c. ebind (get_info w c) (\<lambda>info.
         ebind (int32 (win - game_tax)) (\<lambda>win.
         ebind (if win < 0 then ebind (int32 (money info + win)) (\<lambda>rest.
             if rest < 0 then int32 (0 - money info) else Inr win) else Inr win) (\<lambda>win.
         ebind (upd_message w c (pos_index_of (desk_at w d) (Some c)) ''1 1'' win tm info)
           (\<lambda>s. Inr (write_to_everyone d s w)))))))"

text \<open>A peasant's share when the landlord has lost.\<close>

definition settle_peasant_won :: "nat \<Rightarrow> int \<Rightarrow> int \<Rightarrow> nat \<Rightarrow> ddz_plugin \<Rightarrow> ddz_plugin result" where
  "settle_peasant_won d tm to_peasants i w =
     (case seats (desk_at w d) ! i of
        None \<Rightarrow> Inr w
      | Some c \<Rightarrow>
          if Some c = landlord (desk_at w d) then Inr w
          else ebind (get_info w c) (\<lambda>info.
            let win = to_peasants div 2 in
            ebind (int32 (win - game_tax)) (\<lambda>hold.
            ebind (if hold < 0 then ebind (int32 (money info + hold)) (\<lambda>rest.
                if rest < 0 then int32 (0 - money info) else Inr hold) else Inr hold) (\<lambda>hold.
            ebind (info_update hold tm 1 0 info) (\<lambda>info.
            let w = put_info c info w in
            ebind (upd_message w c (int i) ''0 0'' hold tm info)
              (\<lambda>s. Inr (write_to_everyone d s w)))))))"

definition settle_landlord_lost :: "nat \<Rightarrow> int \<Rightarrow> ddz_plugin \<Rightarrow> ddz_plugin result" where
  "settle_landlord_lost d tm w =
     ebind (seated (landlord (desk_at w d))) (\<lambda>c. ebind (get_info w c) (\<lambda>info.
       ebind (int32 (tm * 2)) (\<lambda>exp_lost.
       ebind (int32 (exp_lost * 2)) (\<lambda>lost. ebind (int32 (lost - game_tax)) (\<lambda>lost.
       let lost = (if lost > money info then money info else lost) in
       ebind (int32 (lost - game_tax)) (\<lambda>to_peasants.
       let to_peasants = (if to_peasants < 0 then 0 else to_peasants) in
       ebind (int32 (0 - lost)) (\<lambda>paid. ebind (int32 (0 - exp_lost)) (\<lambda>exp_paid.
       ebind (info_update paid exp_paid 0 1 info) (\<lambda>info.
       let w = put_info c info w in
       ebind (upd_message w c (pos_index_of (desk_at w d) (Some c)) ''1 1'' paid exp_paid info)
         (\<lambda>s. efold (settle_peasant_won d tm to_peasants) [0, 1, 2] (write_to_everyone d s w)))))))))))"

definition on_game_stop :: "nat \<Rightarrow> cid \<Rightarrow> bool \<Rightarrow> ddz_plugin \<Rightarrow> ddz_plugin result" where
  "on_game_stop d c normal w =
     (let w = write_to_everyone d (if normal then ''STP 1'' else ''STP 0'') w in
      ebind
        (if normal then
           ebind (efold (send_left_cards d) [0, 1, 2] w) (\<lambda>w.
             let desk = desk_at w d in
             ebind (sprintf 256 (''RST '' @ join '','' (map show_int
                 [base_multiple w, multiple desk, declare_count desk, bomb_count desk,
                  doublejoker_count desk]))) (\<lambda>s.
             ebind (total_multiple (base_multiple w) desk) (\<lambda>tm.
               let w = write_to_everyone d s w in
               if Some c = landlord desk then settle_landlord_won d tm w
               else settle_landlord_lost d tm w)))
         else Inr w)
        (\<lambda>w. Inr (on_desk d (desk_reset (clock w)) w)))"

section \<open>Joining and leaving\<close>

definition on_befor_client_join :: "(cid \<Rightarrow> int) \<Rightarrow> cid \<Rightarrow> ddz_plugin \<Rightarrow> int" where
  "on_befor_client_join base_join c w =
     (if int (length (plugin_clients w)) \<ge> desk_count w * int DESK_CAPACITY then DDZ_GAME_IS_FULL
      else base_join c)"

definition on_client_join :: "cid \<Rightarrow> ddz_plugin \<Rightarrow> ddz_plugin result" where
  "on_client_join c w =
     ebind (the_client w c) (\<lambda>r.
       let w = put_info c (new_game_info\<lparr>money := 10000, experience := 10000\<rparr>) w;
           w = emit (Base_call ''on_client_join'') w
       in Inr (say c (words_of [''LOG'', game_id w, client_id r, show_int (max_waiting w)]) w))"

definition join_desk_message :: "cid \<Rightarrow> nat \<Rightarrow> int \<Rightarrow> int \<Rightarrow> nat \<Rightarrow> ddz_plugin \<Rightarrow> ddz_plugin result" where
  "join_desk_message c d pos new_money i w =
     (case seats (desk_at w d) ! i of
        None \<Rightarrow> Inr w
      | Some other \<Rightarrow>
          ebind (get_info w other) (\<lambda>info. ebind (the_client w other) (\<lambda>ro. ebind (the_client w c) (\<lambda>rc.
            let w = say c (words_of [''LSD'', client_id ro, client_name ro, pos_string (int i),
                      flag (is_ready info), show_int (money info)]) w
            in Inr (if other \<noteq> c
                    then say other (words_of [''JDK'', client_id rc, client_name rc, pos_string pos,
                           ''0'', show_int new_money]) w
                    else w)))))"

definition on_client_join_desk :: "cid \<Rightarrow> nat \<Rightarrow> int \<Rightarrow> ddz_plugin \<Rightarrow> ddz_plugin result" where
  "on_client_join_desk c d pos w =
     ebind (get_info w c) (\<lambda>info.
       let w = put_info c (info\<lparr>info_desk := Some d\<rparr>) w;
           w = say c (words_of [''IDK'', desk_id (desk_at w d), show_int pos]) w
       in efold (join_desk_message c d pos (money info)) [0, 1, 2] w)"

definition on_client_leave_desk :: "cid \<Rightarrow> nat \<Rightarrow> int \<Rightarrow> ddz_plugin \<Rightarrow> ddz_plugin result" where
  "on_client_leave_desk c d reason w =
     (let pos = pos_index_of (desk_at w d) (Some c) in
      if pos < 0 then Inr w
      else ebind (the_client w c) (\<lambda>r.
        let w = on_desk d (desk_set (nat pos) None) w;
            w = (if client_available r
                 then say c (words_of [''ODK'', desk_id (desk_at w d), pos_string pos]) w else w);
            w = write_to_everyone d (words_of [''LDK'', client_id r, pos_string pos]) w
        in ebind (get_info w c) (\<lambda>info.
          let w = put_info c (info_reset True info) w in
          if is_running (desk_at w d) then
            (let w = on_desk d (set_running False) w in
             if reason \<noteq> SERVER_CLOSEING
             then ebind (on_game_stop d c False w) (\<lambda>w. Inr (on_desk d (desk_reset (clock w)) w))
             else Inr w)
          else Inr w)))"

definition on_client_leave :: "cid \<Rightarrow> int \<Rightarrow> ddz_plugin \<Rightarrow> ddz_plugin result" where
  "on_client_leave c code w =
     ebind (the_client w c) (\<lambda>r.
       ebind
         (case game_info r of
            None \<Rightarrow> Inr w
          | Some info \<Rightarrow>
              ebind (case info_desk info of
                       None \<Rightarrow> Inr w
                     | Some d \<Rightarrow> on_client_leave_desk c d (client_error r) w)
                (\<lambda>w. Inr (w\<lparr>clients := (clients w)(c := map_option (\<lambda>r. r\<lparr>game_info := None\<rparr>) (clients w c))\<rparr>)))
         (\<lambda>w. Inr (emit (Base_call ''on_client_leave'') w)))"

text \<open>The free seats of a desk, counted until there are more than required.\<close>

fun free_seats :: "nat \<Rightarrow> cid option list \<Rightarrow> nat \<Rightarrow> nat \<Rightarrow> int \<Rightarrow> nat \<times> int" where
  "free_seats required [] i free_count free_pos = (free_count, free_pos)"
| "free_seats required (c # cs) i free_count free_pos =
     (if c = None
      then (if free_count + 1 > required then (free_count + 1, free_pos)
            else free_seats required cs (i + 1) (free_count + 1) (if free_pos = -1 then int i else free_pos))
      else free_seats required cs (i + 1) free_count free_pos)"

fun search_desks ::
    "nat \<Rightarrow> nat option \<Rightarrow> ddz_desk list \<Rightarrow> nat \<Rightarrow> (nat \<times> int) option" where
  "search_desks required last_desk [] i = None"
| "search_desks required last_desk (desk # ds) i =
     (if Some i = last_desk then search_desks required last_desk ds (i + 1)
      else if is_running desk then search_desks required last_desk ds (i + 1)
      else (let (free_count, free_pos) = free_seats required (seats desk) 0 0 (-1) in
            if free_pos \<noteq> -1 \<and> free_count = required then Some (i, free_pos)
            else search_desks required last_desk ds (i + 1)))"

fun search_required :: "nat list \<Rightarrow> nat option \<Rightarrow> ddz_desk list \<Rightarrow> (nat \<times> int) option" where
  "search_required [] last_desk ds = None"
| "search_required (r # rs) last_desk ds =
     (case search_desks r last_desk ds 0 of
        Some found \<Rightarrow> Some found
      | None \<Rightarrow> search_required rs last_desk ds)"

definition on_join_desk_handle :: "int \<Rightarrow> cid \<Rightarrow> string list \<Rightarrow> ddz_plugin \<Rightarrow> ddz_plugin result" where
  "on_join_desk_handle client_exit c params w =
     ebind (get_info w c) (\<lambda>info.
       let last_desk = info_desk info in
       ebind (case last_desk of
                None \<Rightarrow> Inr w
              | Some d \<Rightarrow> on_client_leave_desk c d client_exit w)
         (\<lambda>w. case (if is_onlined w then search_required [1, 2, 3] last_desk (desks w) else None) of
                Some (i, free_pos) \<Rightarrow>
                  on_client_join_desk c i free_pos (on_desk i (desk_set (nat free_pos) (Some c)) w)
              | None \<Rightarrow> Inr (say c ''IDK -1'' w)))"


section \<open>The course of a game\<close>

text \<open>
  The zone calls these with the code the desk had when the task was queued; a task whose desk has
  moved on does nothing. The arguments of the message of \<^verbatim>\<open>on_game_start\<close> advance one iterator;
  they are evaluated from the last to the first, as the compilers of the project do.
\<close>

definition start_message :: "poker list \<Rightarrow> string result" where
  "start_message h = (if length h \<ge> 17 then Inr (words_of (''STT'' # rev (take 17 h))) else Inl Bad_iterator)"

definition deal_to_seat :: "nat \<Rightarrow> nat \<Rightarrow> ddz_plugin \<Rightarrow> ddz_plugin result" where
  "deal_to_seat d i w =
     ebind (seated (seats (desk_at w d) ! i)) (\<lambda>c. ebind (get_info w c) (\<lambda>info.
       let w = put_info c (info_reset False info) w in
       ebind (start_message (pos_pokers (desk_at w d) ! i)) (\<lambda>s. Inr (say c s w))))"

definition on_game_start :: "(nat \<Rightarrow> nat) \<Rightarrow> nat \<Rightarrow> int \<Rightarrow> ddz_plugin \<Rightarrow> ddz_plugin result" where
  "on_game_start rnd d code w =
     (if verifi_code (desk_at w d) \<noteq> code then Inr w
      else if \<not> is_running (desk_at w d) \<or> any_null (desk_at w d) \<noteq> -1 then Inr w
      else let w = on_desk d (\<lambda>desk. allocate_pokers rnd (clear_pos_pokers desk)) w in
        ebind (efold (deal_to_seat d) [0, 1, 2] w) (\<lambda>w.
          let w = on_desk d (\<lambda>desk. desk\<lparr>verifi_code := verifi_code desk + 1\<rparr>) w
          in Inr (emit (Queue_task (Game_bid d (verifi_code (desk_at w d))) 4300) w)))"

definition on_client_declare_handle :: "cid \<Rightarrow> string list \<Rightarrow> ddz_plugin \<Rightarrow> ddz_plugin result" where
  "on_client_declare_handle c params w =
     ebind (the_client w c) (\<lambda>r. case game_info r of
       None \<Rightarrow> Inr w
     | Some info \<Rightarrow> (case info_desk info of
         None \<Rightarrow> Inr w
       | Some d \<Rightarrow>
           let desk = desk_at w d; client_pos = pos_index_of desk (Some c) in
           if \<not> is_running desk then Inr w
           else if card_declared info then Inr w
           else if client_pos = -1 then Inr w
           else if (if is_bided desk
                    then landlord desk = None \<or> landlord desk \<noteq> Some c \<or> desk_current desk \<noteq> Some c \<or>
                         multiple desk = -1 \<or> length (hand desk client_pos) \<noteq> 20
                    else multiple desk \<noteq> -1)
           then Inr w
           else
             let w = (if declare_count desk = 0
                      then on_desk d (\<lambda>desk. desk\<lparr>bid_pos := client_pos\<rparr>) w else w);
                 w = on_desk d (\<lambda>desk. desk\<lparr>declare_count := declare_count desk + 1\<rparr>) w;
                 w = put_info c (info\<lparr>card_declared := True\<rparr>) w
             in ebind (sprintf 66 (''DLA '' @ show_int client_pos @ '' '' @
                        concat (map (\<lambda>p. p @ '' '') (hand desk client_pos))))
                  (\<lambda>s. Inr (write_to_everyone d (take 59 s) w))))"

definition say_all_seats :: "nat \<Rightarrow> string \<Rightarrow> ddz_plugin \<Rightarrow> ddz_plugin result" where
  "say_all_seats d s w = efold (\<lambda>i w. say_seat (seats (desk_at w d) ! i) s w) [0, 1, 2] w"

text \<open>A player in robot mode answers a call for a bid at once.\<close>

definition robot_bid :: "nat \<Rightarrow> ddz_plugin \<Rightarrow> ddz_plugin result" where
  "robot_bid d w =
     ebind (seated (desk_current (desk_at w d))) (\<lambda>c. ebind (get_info w c) (\<lambda>info.
       Inr (if robot_mode info then emit (Simulate c ''BID 1'' True) w else w)))"

definition on_game_bid :: "nat \<Rightarrow> int \<Rightarrow> ddz_plugin \<Rightarrow> ddz_plugin result" where
  "on_game_bid d code w =
     (if verifi_code (desk_at w d) \<noteq> code then Inr w
      else if \<not> is_running (desk_at w d) \<or> any_null (desk_at w d) \<ge> 0 then Inr w
      else
        let w = on_desk d (desk_active (clock w)) w;
            w = (if declare_count (desk_at w d) = 0 then on_desk d move_to_next_bid_pos w else w);
            w = on_desk d (set_start_pos (bid_pos (desk_at w d))) w
        in if desk_current (desk_at w d) \<noteq> None then
             let w = on_desk d (\<lambda>desk. desk\<lparr>is_bided := True\<rparr>) w; desk = desk_at w d in
             ebind (sprintf 16 (words_of [''BID'', show_int (curr_pos desk), show_int (multiple desk)]))
               (\<lambda>s. ebind (say_all_seats d s w) (robot_bid d))
           else Inr w)"

definition on_game_landlord :: "nat \<Rightarrow> cid option \<Rightarrow> int \<Rightarrow> ddz_plugin \<Rightarrow> ddz_plugin result" where
  "on_game_landlord d lord code w =
     (let desk = desk_at w d; pos = pos_index_of desk lord in
      if verifi_code desk \<noteq> code then Inr w
      else if \<not> is_running desk \<or> landlord desk = None \<or> landlord desk \<noteq> lord \<or> pos = -1 then Inr w
      else
        let w = on_desk d (set_start_pos pos) w;
            w = on_desk d (\<lambda>desk. desk\<lparr>pos_pokers := (pos_pokers desk)
                  [nat pos := fold pset_insert (drop 51 (desk_pokers desk)) (hand desk pos)]\<rparr>) w
        in ebind (sprintf 16 (words_of
               [''LRD'', pos_string pos, desk_pokers desk ! 51, desk_pokers desk ! 52, desk_pokers desk ! 53]))
           (\<lambda>s. let w = write_to_everyone d s w in
             ebind (seated (desk_current (desk_at w d))) (\<lambda>c. ebind (get_info w c) (\<lambda>info.
               Inr (if robot_mode info then
                      (let info = info\<lparr>verify_code := verify_code info + 1\<rparr>
                       in emit (Queue_task (Robot_card d lord (verify_code info)) 1000) (put_info c info w))
                    else w)))))"

section \<open>Bidding\<close>

definition say_bid :: "nat \<Rightarrow> ddz_plugin \<Rightarrow> ddz_plugin result" where
  "say_bid d w =
     (let desk = desk_at w d in
      ebind (sprintf 16 (words_of [''BID'', pos_string (curr_pos desk), show_int (multiple desk)]))
        (\<lambda>s. ebind (Inr (write_to_everyone d s w)) (robot_bid d)))"

definition next_code :: "nat \<Rightarrow> ddz_plugin \<Rightarrow> ddz_plugin" where
  "next_code d = on_desk d (\<lambda>desk. desk\<lparr>verifi_code := verifi_code desk + 1\<rparr>)"

text \<open>The landlord is decided: the zone will call \<^verbatim>\<open>on_game_landlord\<close>.\<close>

definition decide_landlord :: "nat \<Rightarrow> cid option \<Rightarrow> ddz_plugin \<Rightarrow> ddz_plugin" where
  "decide_landlord d lord w =
     (let w = next_code d (on_desk d (\<lambda>desk. desk\<lparr>landlord := lord\<rparr>) w)
      in emit (Queue_task (Game_landlord d lord (verifi_code (desk_at w d))) 500) w)"

text \<open>
  The loop after the first bid looks at the same seat in every pass: \<open>p\<close> is the position the
  loop started at.
\<close>

fun after_first_bid :: "nat list \<Rightarrow> nat \<Rightarrow> int \<Rightarrow> ddz_plugin \<Rightarrow> ddz_plugin result" where
  "after_first_bid [] d p w = Inr w"
| "after_first_bid (k # ks) d p w =
     (if k < 2
      then (if bid_info (desk_at w d) ! nat p = -1
            then after_first_bid ks d p (on_desk d move_next w)
            else say_bid d w)
      else Inr (decide_landlord d (temp_landlord (desk_at w d)) w))"

fun after_later_bid :: "nat list \<Rightarrow> nat \<Rightarrow> ddz_plugin \<Rightarrow> ddz_plugin result" where
  "after_later_bid [] d w = Inr w"
| "after_later_bid (i # is) d w =
     (let desk = desk_at w d in
      if desk_next desk = desk_first desk
      then Inr (decide_landlord d (temp_landlord desk) w)
      else
        let w = on_desk d move_next w; desk = desk_at w d in
        if bid_info desk ! nat (curr_pos desk) = -1 then after_later_bid is d w
        else if desk_current desk = temp_landlord desk
        then Inr (decide_landlord d (temp_landlord desk) w)
        else say_bid d w)"

definition on_client_bid :: "cid \<Rightarrow> nat \<Rightarrow> bool \<Rightarrow> ddz_plugin \<Rightarrow> ddz_plugin result" where
  "on_client_bid c d is_bid w =
     (let desk = desk_at w d; pos = pos_index_of desk (Some c) in
      if \<not> is_running desk \<or> landlord desk \<noteq> None \<or> desk_current desk \<noteq> Some c then Inr w
      else if pos = -1 then Inr w
      else
        let w = on_desk d (desk_active (clock w)) w;
            w = on_desk d (\<lambda>desk. desk\<lparr>bid_info := (bid_info desk)[nat pos := if is_bid then 1 else -1]\<rparr>) w
        in ebind (sprintf 16 (words_of [''RBD'', pos_string pos, flag is_bid, show_int (multiple desk)]))
          (\<lambda>s. let w = write_to_everyone d s w in
            if multiple desk = -1 then
              (if is_bid then
                 let w = on_desk d increase_multiple w;
                     w = on_desk d (\<lambda>desk. desk\<lparr>temp_landlord := Some c\<rparr>) w;
                     w = on_desk d (\<lambda>desk. set_start_pos (get_next_pos_index desk) desk) w
                 in after_first_bid [0, 1, 2] d (curr_pos (desk_at w d)) w
               else if desk_next (desk_at w d) = desk_first (desk_at w d) then
                 (if declare_count (desk_at w d) = 0
                  then let w = next_code d w
                       in Inr (emit (Queue_task (Game_start d (verifi_code (desk_at w d))) 500) w)
                  else Inr (decide_landlord d (pos_client (desk_at w d) (bid_pos (desk_at w d))) w))
               else say_bid d (on_desk d move_next w))
            else
              (let w = (if is_bid
                        then on_desk d (\<lambda>desk. desk\<lparr>temp_landlord := Some c\<rparr>) (on_desk d increase_multiple w)
                        else w)
               in after_later_bid [0, 1] d w)))"

definition on_client_bid_handle :: "cid \<Rightarrow> string list \<Rightarrow> ddz_plugin \<Rightarrow> ddz_plugin result" where
  "on_client_bid_handle c params w =
     (if length params \<noteq> 1 then Inr w
      else ebind (get_info w c) (\<lambda>info. case info_desk info of
          None \<Rightarrow> Inr w
        | Some d \<Rightarrow> on_client_bid c d (params ! 0 = ''1'') w))"

definition on_client_ready_handle :: "cid \<Rightarrow> string list \<Rightarrow> ddz_plugin \<Rightarrow> ddz_plugin result" where
  "on_client_ready_handle c params w =
     (if length params \<noteq> 0 then Inr w
      else ebind (get_info w c) (\<lambda>info.
        if is_ready info then Inr w
        else case info_desk info of
          None \<Rightarrow> Inr w
        | Some d \<Rightarrow>
            let pos = pos_index_of (desk_at w d) (Some c) in
            if is_running (desk_at w d) then Inr w
            else if pos = -1 then Inr w
            else
              let w = put_info c (info\<lparr>is_ready := True\<rparr>) w in
              ebind (the_client w c) (\<lambda>r.
                ebind (efold (\<lambda>i (all_ready, w). case seats (desk_at w d) ! i of
                    None \<Rightarrow> Inr (False, w)
                  | Some other \<Rightarrow> ebind (get_info w other) (\<lambda>oi.
                      Inr (all_ready \<and> is_ready oi,
                           say other (words_of [''RDY'', client_id r, pos_string pos]) w)))
                  [0, 1, 2] (True, w))
                (\<lambda>(all_ready, w).
                  if all_ready then
                    let w = on_desk d (desk_active (clock w)) w;
                        w = on_desk d (desk_reset (clock w)) w;
                        w = on_desk d (set_running True) w
                    in Inr (if has_zone w
                            then let w = next_code d w
                                 in emit (Queue_task (Game_start d (verifi_code (desk_at w d))) 500) w
                            else w)
                  else Inr w))))"


section \<open>Playing cards\<close>

definition queue_robot :: "nat \<Rightarrow> ddz_plugin \<Rightarrow> ddz_plugin result" where
  "queue_robot d w =
     ebind (seated (desk_current (desk_at w d))) (\<lambda>c. ebind (get_info w c) (\<lambda>info.
       Inr (if robot_mode info then
              (let info = info\<lparr>verify_code := verify_code info + 1\<rparr>
               in emit (Queue_task (Robot_card d (Some c) (verify_code info)) 1000) (put_info c info w))
            else w)))"

definition on_client_show_poker :: "cid \<Rightarrow> nat \<Rightarrow> string list \<Rightarrow> ddz_plugin \<Rightarrow> ddz_plugin result" where
  "on_client_show_poker c d params w =
     (let w = on_desk d (desk_active (clock w)) w; pos = pos_index_of (desk_at w d) (Some c) in
      if pos = -1 then Inr w
      else ebind (sprintf 76 (''CAD '' @ pos_string pos @ '' '' @ join '','' params)) (\<lambda>s.
        let w = on_desk d (\<lambda>desk. desk\<lparr>pos_pokers := (pos_pokers desk)
                  [nat pos := fold pset_erase params (hand desk pos)]\<rparr>) w in
        if length (hand (desk_at w d) pos) = 0 then
          let w = on_desk d (set_running False) (write_to_everyone d s w) in
          ebind (on_game_stop d c True w) (\<lambda>w. Inr (on_desk d (desk_reset (clock w)) w))
        else
          let w = on_desk d move_next w; desk = desk_at w d in
          ebind (sprintf 76 (s @ '' '' @ pos_string (curr_pos desk) @ '','' @
                             flag (pi_type (curr_poker desk) = ZERO)))
            (\<lambda>s. queue_robot d (write_to_everyone d s w))))"

definition on_client_card_refuse :: "cid \<Rightarrow> string list \<Rightarrow> ddz_plugin \<Rightarrow> ddz_plugin result" where
  "on_client_card_refuse c params w =
     ebind (get_info w c) (\<lambda>info. case info_desk info of
       None \<Rightarrow> Inl Null_pointer
     | Some d \<Rightarrow>
         if pos_index_of (desk_at w d) (Some c) = -1 then Inl Out_of_bounds
         else if length params > 20 then Inr w
         else if \<not> list_all is_poker params then Inr w
         else ebind (sprintf 64 (''RFS'' @ concat (map (\<lambda>p. '' '' @ p) params)))
           (\<lambda>s. Inr (say c s w)))"

text \<open>
  The cards of a play, checked one by one against the hand: \<^verbatim>\<open>Ret None\<close> is the silent return for
  a text that is not a card, \<^verbatim>\<open>Next None\<close> the refusal of a card the player does not hold. Each
  rank is stored in an array of twenty-one characters.
\<close>

fun read_cards ::
    "poker list \<Rightarrow> string list \<Rightarrow> nat \<Rightarrow> int list \<Rightarrow> (unit result, int list option) flow" where
  "read_cards h [] i chars = Next (Some chars)"
| "read_cards h (p # ps) i chars =
     (if \<not> is_poker p then Ret (Inr ())
      else if p \<notin> set h then Next None
      else if i \<ge> 21 then Ret (Inl Out_of_bounds)
      else read_cards h ps (i + 1) (chars @ [rank p]))"

definition on_client_card_handle :: "cid \<Rightarrow> string list \<Rightarrow> ddz_plugin \<Rightarrow> ddz_plugin result" where
  "on_client_card_handle c params w =
     (if length params \<le> 0 then Inr w
      else ebind (get_info w c) (\<lambda>info. case info_desk info of
        None \<Rightarrow> Inr w
      | Some d \<Rightarrow>
          let desk = desk_at w d; pos = pos_index_of desk (Some c) in
          if \<not> is_running desk \<or> landlord desk = None then Inr w
          else if pos = -1 then Inr w
          else if desk_current desk \<noteq> Some c then
            (if params ! 0 \<noteq> ''0'' then on_client_card_refuse c params w else Inr w)
          else if length params = 1 \<and> params ! 0 = ''0'' then
            (if curr_shower desk = None \<or> curr_shower desk = desk_current desk then
               ebind (the_client w c) (\<lambda>r. ebind (sprintf 32 (''NOT '' @ client_id r)) (\<lambda>s. Inr (say c s w)))
             else
               let w = (if desk_next desk = curr_shower desk
                        then on_desk d (\<lambda>desk. desk\<lparr>curr_poker := poker_info_zero\<rparr>) w else w)
               in on_client_show_poker c d params w)
          else (case read_cards (hand desk pos) params 0 [] of
              Ret r \<Rightarrow> ebind r (\<lambda>_. Inr w)
            | Next None \<Rightarrow> on_client_card_refuse c params w
            | Next (Some chars) \<Rightarrow>
                ebind (parse chars poker_info_zero) (\<lambda>(_, pokerinfo).
                  if pi_type pokerinfo = ERR then on_client_card_refuse c params w
                  else if \<not> is_large pokerinfo (curr_poker desk) then on_client_card_refuse c params w
                  else
                    let w = (if pi_type pokerinfo = BOMB
                             then on_desk d (\<lambda>desk. desk\<lparr>bomb_count := bomb_count desk + 1\<rparr>) w else w);
                        w = on_desk d (\<lambda>desk. desk\<lparr>curr_poker := pokerinfo, curr_shower := Some c\<rparr>) w
                    in on_client_show_poker c d params w))))"

section \<open>Robots and idle players\<close>

definition on_robot_card :: "nat \<Rightarrow> cid option \<Rightarrow> int \<Rightarrow> ddz_plugin \<Rightarrow> ddz_plugin result" where
  "on_robot_card d client code w =
     (let desk = desk_at w d in
      if \<not> is_running desk then Inr w
      else (case client of
        None \<Rightarrow> Inr w
      | Some c \<Rightarrow>
          if desk_current desk \<noteq> Some c then Inr w
          else let pos = pos_index_of desk (Some c) in
          if pos = -1 then Inr w
          else if length (hand desk pos) = 0 then Inr w
          else ebind (the_client w c) (\<lambda>r. case game_info r of
              None \<Rightarrow> Inr w
            | Some info \<Rightarrow>
                if \<not> robot_mode info \<or> verify_code info \<noteq> code then Inr w
                else ebind (find_big_pokers (curr_poker desk) (hand desk pos) []) (\<lambda>found.
                  if length found > 0
                  then ebind (sprintf 128 (''CAD'' @ concat (map (\<lambda>p. '' '' @ p) found)))
                    (\<lambda>s. Inr (emit (Simulate c s False) w))
                  else Inr (emit (Simulate c ''CAD 0'' True) w)))))"

definition on_client_robot_handle :: "cid \<Rightarrow> string list \<Rightarrow> ddz_plugin \<Rightarrow> ddz_plugin result" where
  "on_client_robot_handle c params w =
     (if length params \<noteq> 1 then Inr w
      else let mode = atoi (params ! 0) in
        ebind (get_info w c) (\<lambda>info. case info_desk info of
          None \<Rightarrow> Inl Null_pointer
        | Some d \<Rightarrow>
            let desk = desk_at w d; pos = pos_index_of desk (Some c) in
            if \<not> is_running desk then Inr w
            else if pos = -1 then Inr w
            else if mode = 1 \<and> \<not> robot_mode info then
              let w = put_info c (info\<lparr>robot_mode := True\<rparr>) w in
              ebind (sprintf 8 (words_of [''RBT'', pos_string pos, show_int mode])) (\<lambda>s.
                let w = write_to_everyone d s w in
                if landlord desk = None
                then Inr (if desk_current desk = Some c then emit (Simulate c ''BID 1'' True) w else w)
                else if desk_current desk = Some c
                then on_robot_card d (Some c) (verify_code info) w
                else Inr w)
            else if mode = 0 \<and> robot_mode info then
              let w = put_info c (info\<lparr>verify_code := 0, robot_mode := False\<rparr>) w in
              ebind (sprintf 8 (words_of [''RBT'', pos_string pos, show_int mode]))
                (\<lambda>s. Inr (write_to_everyone d s w))
            else Inr w))"

definition update_desk :: "nat \<Rightarrow> ddz_plugin \<Rightarrow> ddz_plugin result" where
  "update_desk d w =
     (let desk = desk_at w d in
      if is_running desk then
        (if clock w - last_actived desk > max_waiting w then
           (case desk_current desk of
              None \<Rightarrow> Inr w
            | Some c \<Rightarrow>
                if landlord desk = None then on_client_bid c d False w
                else let pos = pos_index_of desk (Some c) in
                  if pos = -1 then Inr w
                  else if length (hand desk pos) > 0 then
                    (if pi_type (curr_poker desk) = ZERO
                     then ebind (sprintf 7 (''CAD '' @ hd (hand desk pos)))
                       (\<lambda>s. Inr (emit (Simulate c s False) w))
                     else Inr (emit (Simulate c ''CAD 0'' True) w))
                  else Inr w)
         else Inr w)
      else Inr w)"

definition on_update :: "ddz_plugin \<Rightarrow> ddz_plugin result" where
  "on_update w =
     (if \<not> is_onlined w then Inr w
      else ebind (efold update_desk [0..<length (desks w)] w)
        (\<lambda>w. Inr (emit (Base_call ''on_update'') w)))"

section \<open>The remaining handlers and the command table\<close>

definition on_client_msg_handle :: "cid \<Rightarrow> string list \<Rightarrow> ddz_plugin \<Rightarrow> ddz_plugin result" where
  "on_client_msg_handle c params w =
     (if length params \<noteq> 2 then Inr w else ebind (get_info w c) (\<lambda>info. Inr w))"

definition on_client_ping_handle :: "cid \<Rightarrow> string list \<Rightarrow> ddz_plugin \<Rightarrow> ddz_plugin result" where
  "on_client_ping_handle c params w = Inr w"

definition on_client_bye_handle :: "cid \<Rightarrow> string list \<Rightarrow> ddz_plugin \<Rightarrow> ddz_plugin result" where
  "on_client_bye_handle c params w =
     ebind (get_info w c) (\<lambda>info. case info_desk info of
       None \<Rightarrow> Inr w
     | Some d \<Rightarrow> ebind (the_client w c) (\<lambda>r. on_client_leave_desk c d (client_error r) w))"

definition on_load ::
    "int \<Rightarrow> (string \<times> (cid \<Rightarrow> string list \<Rightarrow> ddz_plugin \<Rightarrow> ddz_plugin result)) list" where
  "on_load client_exit =
     [(''IDK'', on_join_desk_handle client_exit),
      (''RDY'', on_client_ready_handle),
      (''BID'', on_client_bid_handle),
      (''DLA'', on_client_declare_handle),
      (''CAD'', on_client_card_handle),
      (''MSG'', on_client_msg_handle),
      (''PNG'', on_client_ping_handle),
      (''RBT'', on_client_robot_handle),
      (''BYE'', on_client_bye_handle)]"

text \<open>A task of the zone comes due.\<close>

fun run_task :: "(nat \<Rightarrow> nat) \<Rightarrow> task \<Rightarrow> ddz_plugin \<Rightarrow> ddz_plugin result" where
  "run_task rnd (Game_start d code) w = on_game_start rnd d code w"
| "run_task rnd (Game_bid d code) w = on_game_bid d code w"
| "run_task rnd (Game_landlord d lord code) w = on_game_landlord d lord code w"
| "run_task rnd (Robot_card d client code) w = on_robot_card d client code w"

end
