(* ===== verification/PluginFacts.thy ===== *)
theory PluginFacts
  imports DdzPlugin DdzDeal
begin

text \<open>
  What the operations of the card game plugin leave alone. \<open>same_tables\<close>: writing messages and
  queueing tasks changes neither the desks nor the clients; a desk operation changes one desk; a
  change of a player's state changes one client. These equations carry every later proof about the
  handlers.
\<close>

named_theorems frame \<open>what an operation of the plugin leaves alone\<close>

section \<open>Effects\<close>

lemma emit_frame [frame, simp]:
  "desks (emit e w) = desks w" "clients (emit e w) = clients w" "clock (emit e w) = clock w"
  "has_zone (emit e w) = has_zone w" "is_onlined (emit e w) = is_onlined w"
  "base_multiple (emit e w) = base_multiple w" "max_waiting (emit e w) = max_waiting w"
  "outbox (emit e w) = outbox w @ [e]"
  by (simp_all add: emit_def)

lemma say_frame [frame, simp]:
  "desks (say c s w) = desks w" "clients (say c s w) = clients w" "clock (say c s w) = clock w"
  "has_zone (say c s w) = has_zone w" "is_onlined (say c s w) = is_onlined w"
  "base_multiple (say c s w) = base_multiple w" "max_waiting (say c s w) = max_waiting w"
  "outbox (say c s w) = outbox w @ [Write c s]"
  by (simp_all add: say_def)

text \<open>The state without the messages.\<close>

definition silent :: "ddz_plugin \<Rightarrow> ddz_plugin" where
  "silent w = w\<lparr>outbox := []\<rparr>"

lemma silent_emit [simp]: "silent (emit e w) = silent w" "silent (say c s w) = silent w"
  by (simp_all add: silent_def emit_def say_def)

lemma silent_write_to_everyone [simp]: "silent (write_to_everyone d s w) = silent w"
proof -
  have "silent (fold (\<lambda>c w. case c of None \<Rightarrow> w | Some c \<Rightarrow> say c s w) cs w) = silent w" for cs
    by (induction cs arbitrary: w) (auto split: option.splits)
  then show ?thesis by (simp add: write_to_everyone_def)
qed

lemma silent_frame:
  assumes "silent w' = silent w"
  shows "desks w' = desks w" "clients w' = clients w" "clock w' = clock w"
    "has_zone w' = has_zone w" "is_onlined w' = is_onlined w"
    "base_multiple w' = base_multiple w" "max_waiting w' = max_waiting w"
  using assms by (cases w, cases w', simp add: silent_def)+

lemmas everyone_frame [frame, simp] = silent_frame [OF silent_write_to_everyone]

text \<open>A broadcast reaches exactly the players at the desk.\<close>

lemma write_to_everyone_outbox [frame]:
  "outbox (write_to_everyone d s w) =
     outbox w @ map (\<lambda>c. Write (the c) s) (filter (\<lambda>c. c \<noteq> None) (seats (desk_at w d)))"
proof -
  have "outbox (fold (\<lambda>c w. case c of None \<Rightarrow> w | Some c \<Rightarrow> say c s w) cs w) =
      outbox w @ map (\<lambda>c. Write (the c) s) (filter (\<lambda>c. c \<noteq> None) cs)" for cs
    by (induction cs arbitrary: w) (auto split: option.splits)
  then show ?thesis by (simp add: write_to_everyone_def)
qed

lemma say_seat_silent: "say_seat c s w = Inr w' \<Longrightarrow> silent w' = silent w"
  by (auto simp: say_seat_def seated_def split: option.splits)

lemma say_all_seats_silent: "say_all_seats d s w = Inr w' \<Longrightarrow> silent w' = silent w"
  unfolding say_all_seats_def
  by (erule efold_invariant [where I = "\<lambda>v. silent v = silent w", rotated -1]) (auto dest: say_seat_silent)

lemma robot_bid_silent: "robot_bid d w = Inr w' \<Longrightarrow> silent w' = silent w"
  by (auto simp: robot_bid_def ebind_eq_Inr split: if_splits)

section \<open>Desks\<close>

lemma on_desk_frame [frame, simp]:
  "clients (on_desk d f w) = clients w" "clock (on_desk d f w) = clock w"
  "has_zone (on_desk d f w) = has_zone w" "is_onlined (on_desk d f w) = is_onlined w"
  "base_multiple (on_desk d f w) = base_multiple w" "max_waiting (on_desk d f w) = max_waiting w"
  "outbox (on_desk d f w) = outbox w" "length (desks (on_desk d f w)) = length (desks w)"
  by (simp_all add: on_desk_def)

lemma desk_at_frame [frame, simp]:
  "desk_at (emit e w) k = desk_at w k" "desk_at (say c s w) k = desk_at w k"
  "desk_at (write_to_everyone d s w) k = desk_at w k" "desk_at (put_info c i w) k = desk_at w k"
  "d < length (desks w) \<Longrightarrow> desk_at (on_desk d f w) d = f (desk_at w d)"
  "k \<noteq> d \<Longrightarrow> desk_at (on_desk d f w) k = desk_at w k"
  by (simp_all add: desk_at_def on_desk_def put_info_def)

lemma on_desk_on_desk: "on_desk d g (on_desk d f w) = on_desk d (g \<circ> f) w"
  by (cases "d < length (desks w)") (simp_all add: on_desk_def not_less list_update_beyond)

section \<open>Players\<close>

lemma put_info_frame [frame, simp]:
  "desks (put_info c i w) = desks w" "clock (put_info c i w) = clock w"
  "has_zone (put_info c i w) = has_zone w" "is_onlined (put_info c i w) = is_onlined w"
  "base_multiple (put_info c i w) = base_multiple w" "max_waiting (put_info c i w) = max_waiting w"
  "outbox (put_info c i w) = outbox w"
  by (simp_all add: put_info_def)

lemma the_client_frame [simp]:
  "the_client (emit e w) c = the_client w c" "the_client (say c' s w) c = the_client w c"
  "the_client (write_to_everyone d s w) c = the_client w c"
  "the_client (on_desk d f w) c = the_client w c"
  by (simp_all add: the_client_def)

lemma get_info_frame [simp]:
  "get_info (emit e w) c = get_info w c" "get_info (say c' s w) c = get_info w c"
  "get_info (write_to_everyone d s w) c = get_info w c" "get_info (on_desk d f w) c = get_info w c"
  by (simp_all add: get_info_def)

lemma get_info_eq_Inr:
  "get_info w c = Inr i \<longleftrightarrow> (\<exists>r. clients w c = Some r \<and> game_info r = Some i)"
  by (auto simp: get_info_def the_client_def ebind_eq_Inr split: option.splits)

lemma get_info_put_info:
  "get_info w c = Inr i \<Longrightarrow> get_info (put_info c i' w) c' = (if c' = c then Inr i' else get_info w c')"
  by (auto simp: get_info_eq_Inr) (auto simp: get_info_def the_client_def put_info_def)

text \<open>The desk a client believes it sits at.\<close>

definition desk_of :: "ddz_plugin \<Rightarrow> cid \<Rightarrow> nat option" where
  "desk_of w c = (case get_info w c of Inl _ \<Rightarrow> None | Inr i \<Rightarrow> info_desk i)"

lemma desk_of_frame [simp]:
  "desk_of (emit e w) c = desk_of w c" "desk_of (say c' s w) c = desk_of w c"
  "desk_of (write_to_everyone d s w) c = desk_of w c" "desk_of (on_desk d f w) c = desk_of w c"
  by (simp_all add: desk_of_def)

lemma desk_of_put_info:
  "get_info w c = Inr i \<Longrightarrow> desk_of (put_info c i' w) c' = (if c' = c then info_desk i' else desk_of w c')"
  by (simp add: desk_of_def get_info_put_info)

lemma desk_of_info: "get_info w c = Inr i \<Longrightarrow> info_desk i = desk_of w c"
  by (simp add: desk_of_def)

section \<open>Finding a seat\<close>

lemma first_index_bounds:
  "first_index P cs i = -1 \<or> (i \<le> first_index P cs i \<and> first_index P cs i < i + int (length cs))"
proof (induction cs arbitrary: i)
  case (Cons c cs)
  show ?case using Cons.IH [of "i + 1"] by (cases "P c") (simp, simp, linarith)
qed simp

lemma first_index_hit:
  "0 \<le> i \<Longrightarrow> first_index P cs i \<noteq> -1 \<Longrightarrow> P (cs ! nat (first_index P cs i - i))"
proof (induction cs arbitrary: i)
  case (Cons c cs)
  show ?case
  proof (cases "P c")
    case False
    let ?k = "first_index P cs (i + 1)"
    have k: "?k \<noteq> -1" using Cons.prems False by simp
    then have "i + 1 \<le> ?k" using first_index_bounds [of P cs "i + 1"] by auto
    then have "nat (?k - i) = Suc (nat (?k - (i + 1)))" by simp
    then show ?thesis using Cons.IH [of "i + 1"] Cons.prems(1) k False by simp
  qed simp
qed simp

lemma first_index_none: "0 \<le> i \<Longrightarrow> first_index P cs i = -1 \<longleftrightarrow> (\<forall>c \<in> set cs. \<not> P c)"
  by (induction cs arbitrary: i) auto

lemma pos_index_of_cases:
  obtains "pos_index_of desk c = -1"
  | "0 \<le> pos_index_of desk c" "pos_index_of desk c < int (length (seats desk))"
      "c \<noteq> None" "seats desk ! nat (pos_index_of desk c) = c"
  using first_index_bounds [of "\<lambda>x. x \<noteq> None \<and> x = c" "seats desk" 0]
    first_index_hit [of 0 "\<lambda>x. x \<noteq> None \<and> x = c" "seats desk"]
  by (auto simp: pos_index_of_def)

lemma pos_index_of_absent: "pos_index_of desk (Some c) = -1 \<longleftrightarrow> Some c \<notin> set (seats desk)"
  by (auto simp: pos_index_of_def first_index_none)

lemma any_null_none: "any_null desk = -1 \<longleftrightarrow> None \<notin> set (seats desk)"
  by (simp add: any_null_def first_index_none) (metis not_Some_eq)

end
