(* ===== verification/PluginOk.thy ===== *)
theory PluginOk
  imports PluginFacts
begin

text \<open>
  The invariant of the card game plugin. \<open>desk_ok\<close>: the shape of a desk and, while a game runs,
  where the cards of its pack can be. \<open>plugin_ok\<close>: every desk is sound, a client sits exactly at
  the desk it is registered at, and the tasks that were queued belong to existing desks. The
  parameters \<open>n\<close> and \<open>codes\<close> are the number of desks and lower bounds of their codes; a code
  never decreases.
\<close>

section \<open>Results\<close>

text \<open>Whatever a computation returns satisfies \<open>P\<close>.\<close>

definition returns :: "('a \<Rightarrow> bool) \<Rightarrow> 'a result \<Rightarrow> bool" where
  "returns P r \<longleftrightarrow> (\<forall>x. r = Inr x \<longrightarrow> P x)"

lemma returns_simps [simp]: "returns P (Inl e)" "returns P (Inr x) \<longleftrightarrow> P x"
  by (simp_all add: returns_def)

lemma returns_bind: "(\<And>x. r = Inr x \<Longrightarrow> returns P (f x)) \<Longrightarrow> returns P (ebind r f)"
  by (auto simp: returns_def ebind_eq_Inr)

lemma returns_bind_via: "returns Q r \<Longrightarrow> (\<And>x. Q x \<Longrightarrow> returns P (f x)) \<Longrightarrow> returns P (ebind r f)"
  by (auto simp: returns_def ebind_eq_Inr)

lemma returns_efold:
  "Q s \<Longrightarrow> (\<And>i s. i \<in> set is \<Longrightarrow> Q s \<Longrightarrow> returns Q (f i s)) \<Longrightarrow> returns Q (efold f is s)"
  using efold_invariant [of Q s "is" f] by (auto simp: returns_def)

lemma returnsD: "returns P r \<Longrightarrow> r = Inr x \<Longrightarrow> P x"
  by (simp add: returns_def)

lemma returns_weaken: "returns Q r \<Longrightarrow> (\<And>x. Q x \<Longrightarrow> P x) \<Longrightarrow> returns P r"
  by (auto simp: returns_def)

section \<open>A sound desk\<close>

definition bottom :: "ddz_desk \<Rightarrow> poker set" where
  "bottom desk = set (drop 51 (desk_pokers desk))"

definition may_hold :: "ddz_desk \<Rightarrow> nat \<Rightarrow> poker set" where
  "may_hold desk i = set (dealt_to i [0..<51] (desk_pokers desk)) \<union>
     (if landlord desk \<noteq> None \<and> seats desk ! i = landlord desk then bottom desk else {})"

definition one_seat_each :: "cid option list \<Rightarrow> bool" where
  "one_seat_each cs \<longleftrightarrow> distinct (filter (\<lambda>c. c \<noteq> None) cs)"

lemma one_seat_each_nth:
  assumes "one_seat_each cs" "i < length cs" "j < length cs" "cs ! i = cs ! j" "cs ! i \<noteq> None"
  shows "i = j"
  using assms
proof (induction cs arbitrary: i j)
  case (Cons c cs)
  have "c \<notin> set cs" if "c \<noteq> None" using that Cons.prems(1) by (simp add: one_seat_each_def)
  moreover have "one_seat_each cs" using Cons.prems(1) by (simp add: one_seat_each_def split: if_splits)
  ultimately show ?case
    using Cons.IH Cons.prems by (cases i; cases j) (auto simp: in_set_conv_nth)
qed simp

lemma one_seat_each_drop: "one_seat_each cs \<Longrightarrow> one_seat_each (cs[k := None])"
proof (induction cs arbitrary: k)
  case (Cons c cs)
  have "set (cs[j := None]) \<subseteq> insert None (set cs)" for j by (rule set_update_subset_insert)
  then show ?case using Cons
    by (cases k) (auto simp: one_seat_each_def split: if_splits)
qed simp

lemma one_seat_each_add: "one_seat_each cs \<Longrightarrow> Some c \<notin> set cs \<Longrightarrow> one_seat_each (cs[k := Some c])"
proof (induction cs arbitrary: k)
  case (Cons x cs)
  have "set (cs[j := Some c]) \<subseteq> insert (Some c) (set cs)" for j by (rule set_update_subset_insert)
  then show ?case using Cons
    by (cases k) (auto simp: one_seat_each_def split: if_splits)
qed simp

definition desk_shape :: "ddz_desk \<Rightarrow> bool" where
  "desk_shape desk \<longleftrightarrow>
     length (seats desk) = 3 \<and> length (pos_pokers desk) = 3 \<and> length (bid_info desk) = 3 \<and>
     mset (desk_pokers desk) = mset DESK_POKERS \<and>
     (\<forall>h \<in> set (pos_pokers desk). sorted_wrt (<) h) \<and>
     -1 \<le> curr_pos desk \<and> curr_pos desk < 3 \<and> -1 \<le> first_pos desk \<and> first_pos desk < 3 \<and>
     -1 \<le> bid_pos desk \<and> bid_pos desk < 3 \<and>
     one_seat_each (seats desk)"

definition cards_placed :: "ddz_desk \<Rightarrow> bool" where
  "cards_placed desk \<longleftrightarrow> (\<forall>i < 3. set (pos_pokers desk ! i) \<subseteq> may_hold desk i)"

definition desk_ok :: "ddz_desk \<Rightarrow> bool" where
  "desk_ok desk \<longleftrightarrow> desk_shape desk \<and> (is_running desk \<longrightarrow> cards_placed desk)"

lemmas desk_ok_defs = desk_ok_def desk_shape_def cards_placed_def may_hold_def bottom_def

text \<open>An update that leaves every field of the invariant alone.\<close>

lemma desk_ok_other [simp]:
  "desk_ok (desk_active n d) = desk_ok d"
  "desk_ok (d\<lparr>desk_id := t\<rparr>) = desk_ok d"
  "desk_ok (d\<lparr>bomb_count := k\<rparr>) = desk_ok d"
  "desk_ok (d\<lparr>declare_count := k\<rparr>) = desk_ok d"
  "desk_ok (d\<lparr>curr_poker := q\<rparr>) = desk_ok d"
  "desk_ok (d\<lparr>curr_shower := c\<rparr>) = desk_ok d"
  "desk_ok (d\<lparr>temp_landlord := c\<rparr>) = desk_ok d"
  "desk_ok (d\<lparr>is_bided := b\<rparr>) = desk_ok d"
  "desk_ok (d\<lparr>verifi_code := k\<rparr>) = desk_ok d"
  "desk_ok (increase_multiple d) = desk_ok d"
  by (simp_all add: desk_ok_defs desk_active_def increase_multiple_def)

lemma desk_ok_turnI:
  assumes "desk_ok d" "seats d' = seats d" "pos_pokers d' = pos_pokers d" "desk_pokers d' = desk_pokers d"
    and "landlord d' = landlord d" "is_running d' \<Longrightarrow> is_running d" "length (bid_info d') = 3"
    and "-1 \<le> curr_pos d'" "curr_pos d' < 3" "-1 \<le> first_pos d'" "first_pos d' < 3"
    and "-1 \<le> bid_pos d'" "bid_pos d' < 3"
  shows "desk_ok d'"
proof -
  have "may_hold d' i = may_hold d i" for i
    using assms by (simp add: may_hold_def bottom_def)
  then show ?thesis using assms by (simp add: desk_ok_def desk_shape_def cards_placed_def)
qed

lemma desk_ok_bounds:
  assumes "desk_ok d"
  shows "length (seats d) = 3" "length (pos_pokers d) = 3" "length (bid_info d) = 3"
    "-1 \<le> curr_pos d" "curr_pos d < 3" "-1 \<le> first_pos d" "first_pos d < 3"
    "-1 \<le> bid_pos d" "bid_pos d < 3"
  using assms by (simp_all add: desk_ok_def desk_shape_def)

lemma next_in_range [simp]:
  "0 \<le> get_next_pos_index d" "get_next_pos_index d < 3" "-1 \<le> get_next_pos_index d"
proof -
  show "0 \<le> get_next_pos_index d" "get_next_pos_index d < 3"
    by (simp_all add: get_next_pos_index_def DESK_CAPACITY_def)
  then show "-1 \<le> get_next_pos_index d" by linarith
qed

lemma next_bid_pos_in_range: "-1 \<le> (k + 1) mod int DESK_CAPACITY" "(k + 1) mod int DESK_CAPACITY < 3"
  using pos_mod_sign [of 3 "k + 1"] by (simp_all add: DESK_CAPACITY_def)

lemma desk_ok_turns [simp]:
  assumes "desk_ok d"
  shows "desk_ok (move_next d)"
    "desk_ok (move_to_next_bid_pos d)"
    "-1 \<le> p \<Longrightarrow> p < 3 \<Longrightarrow> desk_ok (set_start_pos p d)"
    "-1 \<le> p \<Longrightarrow> p < 3 \<Longrightarrow> desk_ok (d\<lparr>bid_pos := p\<rparr>)"
    "desk_ok (d\<lparr>bid_info := (bid_info d)[k := v]\<rparr>)"
    "desk_ok (set_running False d)"
  by (rule desk_ok_turnI [OF assms];
      simp add: desk_ok_bounds [OF assms] move_next_def move_to_next_bid_pos_def set_start_pos_def
        next_bid_pos_in_range set_running_def)+

lemma desk_ok_landlord:
  "desk_ok d \<Longrightarrow> landlord d = None \<Longrightarrow> desk_ok (d\<lparr>landlord := l\<rparr>)"
  by (auto simp: desk_ok_defs)

lemma desk_ok_reset: "desk_ok d \<Longrightarrow> desk_ok (desk_reset now d)"
  by (simp add: desk_ok_defs desk_reset_def clear_pos_pokers_def)

lemma desk_ok_restart: "desk_ok d \<Longrightarrow> desk_ok (set_running True (desk_reset now d))"
  by (auto simp: desk_ok_defs desk_reset_def clear_pos_pokers_def set_running_def less_Suc_eq numeral_3_eq_3)

lemma desk_ok_next [simp]: "desk_ok d \<Longrightarrow> desk_ok (set_start_pos (get_next_pos_index d) d)"
  by (simp add: desk_ok_turns(3))

lemma desk_ok_erase:
  assumes "desk_ok d"
  shows "desk_ok (d\<lparr>pos_pokers := (pos_pokers d)[p := fold pset_erase cs (pos_pokers d ! p)]\<rparr>)"
proof (cases "p < 3")
  case True
  have len: "length (pos_pokers d) = 3" using assms by (simp add: desk_ok_defs)
  have sorted: "sorted_wrt (<) (fold pset_erase cs (pos_pokers d ! p))"
    using pset.ordered_del_all [of "pos_pokers d ! p" cs] assms True
    by (simp add: pset.del_all_def desk_ok_defs)
  have sub: "set (fold pset_erase cs h) \<subseteq> set h" for h :: "poker list"
    using pset.set_del_all [of cs h] by (auto simp: pset.del_all_def)
  show ?thesis
    using assms len sorted True sub [of "pos_pokers d ! p"]
    by (auto simp: desk_ok_def desk_shape_def cards_placed_def may_hold_def bottom_def nth_list_update
        dest!: set_update_subset_insert [THEN subsetD] split: if_splits)
next
  case False
  then show ?thesis using assms by (simp add: desk_ok_def desk_shape_def list_update_beyond)
qed

lemma desk_ok_allocate:
  assumes "desk_ok d"
  shows "desk_ok (allocate_pokers rnd (clear_pos_pokers d))" (is "desk_ok ?d")
proof -
  have m: "mset (desk_pokers d) = mset DESK_POKERS" using assms by (simp add: desk_ok_def desk_shape_def)
  note hands = allocate_hands [OF m, where rnd = rnd]
  have same: "seats ?d = seats d" "curr_pos ?d = curr_pos d" "first_pos ?d = first_pos d"
      "bid_pos ?d = bid_pos d" "length (bid_info ?d) = 3"
    by (simp_all add: allocate_pokers_def clear_pos_pokers_def Let_def)
  have "sorted_wrt (<) h" if "h \<in> set (pos_pokers ?d)" for h
  proof -
    from that obtain k where "k < 3" "h = pos_pokers ?d ! k" using hands(2) by (metis in_set_conv_nth)
    then show ?thesis using hands(3) [of k] pset.ordered_ins_all [of "[]"] by simp
  qed
  moreover have "cards_placed ?d"
    using hands(3) by (simp add: cards_placed_def may_hold_def pset.set_ins_all)
  ultimately show ?thesis
    using assms hands(1,2) same by (simp add: desk_ok_def desk_shape_def)
qed

lemma pos_index_seat:
  assumes "length (seats d) = 3" "pos_index_of d c \<noteq> -1"
  shows "nat (pos_index_of d c) < 3" "0 \<le> pos_index_of d c" "pos_index_of d c < 3"
    "seats d ! nat (pos_index_of d c) = c" "c \<noteq> None"
  using assms by (cases rule: pos_index_of_cases [of d c]; simp)+

lemma desk_ok_landlord_cards:
  assumes "desk_ok d" "landlord d \<noteq> None" "pos_index_of d (landlord d) \<noteq> -1"
  defines "p \<equiv> nat (pos_index_of d (landlord d))"
  shows "desk_ok (d\<lparr>pos_pokers := (pos_pokers d)[p := fold pset_insert (drop 51 (desk_pokers d)) (pos_pokers d ! p)]\<rparr>)"
proof -
  have len: "length (pos_pokers d) = 3" "length (seats d) = 3" using assms by (simp_all add: desk_ok_bounds)
  have p: "p < 3" "seats d ! p = landlord d" using pos_index_seat [OF len(2) assms(3)] by (simp_all add: p_def)
  let ?h = "fold pset_insert (drop 51 (desk_pokers d)) (pos_pokers d ! p)"
  have h: "set ?h = bottom d \<union> set (pos_pokers d ! p)"
    using pset.set_ins_all [of "drop 51 (desk_pokers d)" "pos_pokers d ! p"]
    by (simp add: pset.ins_all_def bottom_def)
  have "sorted_wrt (<) (pos_pokers d ! p)" using assms(1) len p by (simp add: desk_ok_def desk_shape_def)
  then have "sorted_wrt (<) ?h"
    using pset.ordered_ins_all [of "pos_pokers d ! p"] by (simp add: pset.ins_all_def)
  then have sorted: "\<forall>g \<in> set ((pos_pokers d)[p := ?h]). sorted_wrt (<) g"
    using assms(1) set_update_subset_insert [of "pos_pokers d" p ?h] by (auto simp: desk_ok_def desk_shape_def)
  have "set ((pos_pokers d)[p := ?h] ! i) \<subseteq> may_hold d i" if "cards_placed d" "i < 3" for i
  proof -
    have "set (pos_pokers d ! i) \<subseteq> may_hold d i" using that by (simp add: cards_placed_def)
    moreover have "bottom d \<subseteq> may_hold d p" using p(2) assms(2) by (simp add: may_hold_def)
    ultimately show ?thesis using len p(1) h by (cases "p = i") auto
  qed
  moreover have "may_hold (d\<lparr>pos_pokers := ps\<rparr>) i = may_hold d i" for ps i
    by (simp add: may_hold_def bottom_def)
  ultimately show ?thesis
    using assms(1) len sorted by (simp add: desk_ok_def desk_shape_def cards_placed_def)
qed

lemma desk_ok_unseat: "desk_ok d \<Longrightarrow> \<not> is_running d \<Longrightarrow> desk_ok (desk_set k None d)"
  by (simp add: desk_ok_def desk_shape_def desk_set_def one_seat_each_drop)

lemma desk_ok_unseat_stop: "desk_ok d \<Longrightarrow> desk_ok (set_running False (desk_set k None d))"
proof -
  assume "desk_ok d"
  then have "desk_ok (desk_set k None (set_running False d))"
    by (intro desk_ok_unseat) (simp_all, simp add: set_running_def)
  moreover have "desk_set k None (set_running False d) = set_running False (desk_set k None d)"
    by (simp add: set_running_def desk_set_def)
  ultimately show ?thesis by simp
qed

lemma desk_ok_seat:
  assumes "desk_ok d" "\<not> is_running d" "Some c \<notin> set (seats d)"
  shows "desk_ok (desk_set k (Some c) d)"
  using assms by (simp add: desk_ok_def desk_shape_def desk_set_def one_seat_each_add)

section \<open>The plugin\<close>

fun task_desk :: "task \<Rightarrow> nat" where
  "task_desk (Game_start d code) = d"
| "task_desk (Game_bid d code) = d"
| "task_desk (Game_landlord d lord code) = d"
| "task_desk (Robot_card d client code) = d"

fun effect_ok :: "nat \<Rightarrow> effect \<Rightarrow> bool" where
  "effect_ok n (Queue_task t delay) = (task_desk t < n)"
| "effect_ok n _ = True"

definition plugin_ok :: "nat \<Rightarrow> (nat \<Rightarrow> int) \<Rightarrow> ddz_plugin \<Rightarrow> bool" where
  "plugin_ok n codes w \<longleftrightarrow>
     length (desks w) = n \<and>
     (\<forall>d < n. desk_ok (desk_at w d) \<and> codes d \<le> verifi_code (desk_at w d)) \<and>
     (\<forall>c d. desk_of w c = Some d \<longleftrightarrow> d < n \<and> Some c \<in> set (seats (desk_at w d))) \<and>
     (\<forall>e \<in> set (outbox w). effect_ok n e)"

lemma plugin_okD:
  assumes "plugin_ok n codes w"
  shows "length (desks w) = n"
    "d < n \<Longrightarrow> desk_ok (desk_at w d)"
    "d < n \<Longrightarrow> codes d \<le> verifi_code (desk_at w d)"
    "desk_of w c = Some d \<Longrightarrow> d < n \<and> Some c \<in> set (seats (desk_at w d))"
    "d < n \<Longrightarrow> Some c \<in> set (seats (desk_at w d)) \<Longrightarrow> desk_of w c = Some d"
    "e \<in> set (outbox w) \<Longrightarrow> effect_ok n e"
  using assms by (auto simp: plugin_ok_def)

lemma ok_emit: "plugin_ok n codes w \<Longrightarrow> effect_ok n e \<Longrightarrow> plugin_ok n codes (emit e w)"
  by (auto simp: plugin_ok_def)

lemma ok_say: "plugin_ok n codes w \<Longrightarrow> plugin_ok n codes (say c s w)"
  by (simp add: say_def ok_emit)

lemma ok_everyone: "plugin_ok n codes w \<Longrightarrow> plugin_ok n codes (write_to_everyone d s w)"
  by (auto simp: plugin_ok_def write_to_everyone_outbox)

lemma ok_put:
  assumes "plugin_ok n codes w" "get_info w c = Inr i" "info_desk i' = info_desk i"
  shows "plugin_ok n codes (put_info c i' w)"
proof -
  have "desk_of (put_info c i' w) c' = desk_of w c'" for c'
    using assms(2,3) by (simp add: desk_of_put_info [OF assms(2)] desk_of_info)
  then show ?thesis using assms(1) by (simp add: plugin_ok_def)
qed

lemma ok_on_desk:
  assumes "plugin_ok n codes w"
    and "d < n \<Longrightarrow> desk_ok (desk_at w d) \<Longrightarrow>
      desk_ok (f (desk_at w d)) \<and> seats (f (desk_at w d)) = seats (desk_at w d) \<and>
      verifi_code (desk_at w d) \<le> verifi_code (f (desk_at w d))"
  shows "plugin_ok n codes (on_desk d f w)"
proof (cases "d < n")
  case True
  have len: "length (desks w) = n" using assms(1) by (simp add: plugin_ok_def)
  have at: "desk_at (on_desk d f w) k = (if k = d then f (desk_at w d) else desk_at w k)" for k
    using True len by simp
  have "desk_ok (desk_at (on_desk d f w) k) \<and> codes k \<le> verifi_code (desk_at (on_desk d f w) k) \<and>
      seats (desk_at (on_desk d f w) k) = seats (desk_at w k)" if "k < n" for k
    using assms that by (auto simp: at plugin_ok_def intro: order_trans)
  then show ?thesis using assms(1) by (auto simp: plugin_ok_def)
next
  case False
  then have "on_desk d f w = w" using assms(1)
    by (simp add: plugin_ok_def on_desk_def list_update_beyond)
  then show ?thesis using assms(1) by simp
qed

end
