(* ===== verification/PluginSteps.thy ===== *)
theory PluginSteps
  imports PluginOk
begin

text \<open>
  Every operation of the plugin keeps \<open>plugin_ok\<close>, and so does every run of it: commands of the
  clients, arrivals and departures, tasks of the zone, updates and the passing of time, in any
  order (\<open>plugin_step\<close>).
\<close>

abbreviation keeps :: "nat \<Rightarrow> (nat \<Rightarrow> int) \<Rightarrow> ddz_plugin result \<Rightarrow> bool" where
  "keeps n codes \<equiv> returns (plugin_ok n codes)"

lemma keeps_silent:
  "silent w' = silent w \<Longrightarrow> (\<forall>e \<in> set (outbox w'). effect_ok n e) \<Longrightarrow> plugin_ok n codes w \<Longrightarrow> plugin_ok n codes w'"
  using silent_frame [of w' w] by (simp add: plugin_ok_def desk_at_def desk_of_def get_info_def the_client_def)

section \<open>Fields of a desk that an operation leaves alone\<close>

lemma desk_fields [frame, simp]:
  "verifi_code (move_next d) = verifi_code d"
  "verifi_code (move_to_next_bid_pos d) = verifi_code d"
  "verifi_code (set_start_pos p d) = verifi_code d"
  "verifi_code (desk_active now d) = verifi_code d"
  "verifi_code (increase_multiple d) = verifi_code d"
  "verifi_code (set_running b d) = verifi_code d"
  "verifi_code (desk_set k c d) = verifi_code d"
  "verifi_code (desk_reset now d) = verifi_code d"
  "verifi_code (clear_pos_pokers d) = verifi_code d"
  "verifi_code (allocate_pokers rnd d) = verifi_code d"
  "seats (move_next d) = seats d"
  "seats (move_to_next_bid_pos d) = seats d"
  "seats (set_start_pos p d) = seats d"
  "seats (desk_active now d) = seats d"
  "seats (increase_multiple d) = seats d"
  "seats (set_running b d) = seats d"
  "seats (desk_reset now d) = seats d"
  "seats (clear_pos_pokers d) = seats d"
  "seats (allocate_pokers rnd d) = seats d"
  "landlord (move_next d) = landlord d"
  "landlord (move_to_next_bid_pos d) = landlord d"
  "landlord (set_start_pos p d) = landlord d"
  "landlord (desk_active now d) = landlord d"
  "landlord (increase_multiple d) = landlord d"
  "landlord (set_running b d) = landlord d"
  "landlord (desk_set k c d) = landlord d"
  "landlord (clear_pos_pokers d) = landlord d"
  "landlord (allocate_pokers rnd d) = landlord d"
  "is_running (move_next d) = is_running d"
  "is_running (move_to_next_bid_pos d) = is_running d"
  "is_running (set_start_pos p d) = is_running d"
  "is_running (desk_active now d) = is_running d"
  "is_running (increase_multiple d) = is_running d"
  "is_running (desk_set k c d) = is_running d"
  "is_running (clear_pos_pokers d) = is_running d"
  "is_running (allocate_pokers rnd d) = is_running d"
  "curr_pos (set_start_pos p d) = p" "is_running (set_running b d) = b" "\<not> is_running (desk_reset now d)"
  "landlord (desk_reset now d) = None" "seats (desk_set k c d) = (seats d)[k := c]"
  by (simp_all add: move_next_def move_to_next_bid_pos_def set_start_pos_def desk_active_def increase_multiple_def
      set_running_def desk_set_def desk_reset_def clear_pos_pokers_def allocate_pokers_def Let_def)

section \<open>Messages\<close>

lemma keeps_say_seat: "plugin_ok n codes w \<Longrightarrow> keeps n codes (say_seat c s w)"
  unfolding say_seat_def by (rule returns_bind) (simp add: ok_say)

lemma keeps_say_all_seats: "plugin_ok n codes w \<Longrightarrow> keeps n codes (say_all_seats d s w)"
  unfolding say_all_seats_def by (rule returns_efold) (simp_all add: keeps_say_seat)

lemma keeps_robot_bid: "plugin_ok n codes w \<Longrightarrow> keeps n codes (robot_bid d w)"
  unfolding robot_bid_def by (intro returns_bind) (auto intro: ok_emit)

lemma keeps_say_bid: "plugin_ok n codes w \<Longrightarrow> keeps n codes (say_bid d w)"
  unfolding say_bid_def Let_def by (intro returns_bind) (auto intro: keeps_robot_bid ok_everyone)

section \<open>Bidding\<close>

lemma ok_turns:
  assumes "plugin_ok n codes w"
  shows "plugin_ok n codes (on_desk d move_next w)"
    "plugin_ok n codes (on_desk d move_to_next_bid_pos w)"
    "plugin_ok n codes (on_desk d (\<lambda>desk. set_start_pos (get_next_pos_index desk) desk) w)"
    "plugin_ok n codes (on_desk d (desk_active now) w)"
    "plugin_ok n codes (on_desk d increase_multiple w)"
    "plugin_ok n codes (on_desk d (set_running False) w)"
    "-1 \<le> p \<Longrightarrow> p < 3 \<Longrightarrow> plugin_ok n codes (on_desk d (set_start_pos p) w)"
  by (rule ok_on_desk [OF assms]; simp)+

lemma ok_next_code: "plugin_ok n codes w \<Longrightarrow> plugin_ok n codes (next_code d w)"
  unfolding next_code_def by (erule ok_on_desk) simp

lemma landlord_free [simp]: "landlord (desk_at (next_code d w) d) = landlord (desk_at w d)"
  by (cases "d < length (desks w)") (simp_all add: next_code_def on_desk_def desk_at_def not_less list_update_beyond)

lemma ok_decide:
  "plugin_ok n codes w \<Longrightarrow> d < n \<Longrightarrow> landlord (desk_at w d) = None \<Longrightarrow>
     plugin_ok n codes (decide_landlord d l w)"
  unfolding decide_landlord_def Let_def
  by (intro ok_emit ok_next_code ok_on_desk) (simp_all add: desk_ok_landlord)

lemma landlord_move_next [simp]:
  "d < length (desks w) \<Longrightarrow> landlord (desk_at (on_desk d move_next w) d) = landlord (desk_at w d)"
  by simp

lemma keeps_after_first_bid:
  "plugin_ok n codes w \<Longrightarrow> d < n \<Longrightarrow> landlord (desk_at w d) = None \<Longrightarrow>
     keeps n codes (after_first_bid ks d p w)"
proof (induction ks d p w rule: after_first_bid.induct)
  case (2 k ks d p w)
  have "d < length (desks w)" using 2 by (simp add: plugin_ok_def)
  then show ?case using 2 by (simp add: ok_turns keeps_say_bid ok_decide)
qed simp

lemma keeps_after_later_bid:
  "plugin_ok n codes w \<Longrightarrow> d < n \<Longrightarrow> landlord (desk_at w d) = None \<Longrightarrow>
     keeps n codes (after_later_bid ks d w)"
proof (induction ks d w rule: after_later_bid.induct)
  case (2 i "is" d w)
  have len: "d < length (desks w)" using 2 by (simp add: plugin_ok_def)
  have ok: "plugin_ok n codes (on_desk d move_next w)" using 2 by (simp add: ok_turns)
  show ?case using 2 len ok
    by (simp add: keeps_say_bid ok_decide Let_def)
qed simp

lemma ok_bid_info: "plugin_ok n codes w \<Longrightarrow> plugin_ok n codes (on_desk d (\<lambda>desk. desk\<lparr>bid_info := (bid_info desk)[k := v]\<rparr>) w)"
  by (erule ok_on_desk) simp

lemma ok_temp_landlord: "plugin_ok n codes w \<Longrightarrow> plugin_ok n codes (on_desk d (\<lambda>desk. desk\<lparr>temp_landlord := l\<rparr>) w)"
  by (erule ok_on_desk) simp

lemma ok_queue_start:
  "plugin_ok n codes w \<Longrightarrow> d < n \<Longrightarrow> plugin_ok n codes (emit (Queue_task (Game_start d code) delay) w)"
  by (simp add: ok_emit)

lemma keeps_on_client_bid: "plugin_ok n codes w \<Longrightarrow> d < n \<Longrightarrow> keeps n codes (on_client_bid c d b w)"
proof -
  assume w: "plugin_ok n codes w" "d < n"
  then have len: "d < length (desks w)" by (simp add: plugin_ok_def)
  from w show ?thesis
    unfolding on_client_bid_def Let_def
    by (auto simp: len simp del: after_first_bid.simps after_later_bid.simps
        intro!: returns_bind keeps_after_first_bid keeps_after_later_bid ok_queue_start
        ok_next_code ok_decide keeps_say_bid ok_everyone ok_turns ok_bid_info ok_temp_landlord)
qed

section \<open>The end of a game\<close>

lemma info_update_desk: "info_update a b x y i = Inr i' \<Longrightarrow> info_desk i' = info_desk i"
  by (auto simp: info_update_def ebind_eq_Inr)

lemma info_reset_desk [simp]: "info_desk (info_reset b i) = (if b then None else info_desk i)"
  by (simp add: info_reset_def Let_def)

lemma ok_put_update:
  "get_info w c = Inr i \<Longrightarrow> info_update a b x y i = Inr i' \<Longrightarrow> plugin_ok n codes w \<Longrightarrow> plugin_ok n codes (put_info c i' w)"
  by (simp add: ok_put info_update_desk)

lemma keeps_send_left_cards: "plugin_ok n codes w \<Longrightarrow> keeps n codes (send_left_cards d i w)"
proof -
  assume w: "plugin_ok n codes w"
  have put: "plugin_ok n codes (put_info c (info\<lparr>is_ready := False\<rparr>) w)" if "get_info w c = Inr info" for c info
    using w that by (simp add: ok_put)
  show ?thesis
    unfolding send_left_cards_def Let_def
    by (auto simp: put intro!: returns_bind dest!: returnsD [OF keeps_say_seat, rotated] intro: put keeps_say_seat)
qed

lemma keeps_settle_peasant_lost:
  "plugin_ok n codes w \<Longrightarrow> returns (\<lambda>(win, w). plugin_ok n codes w) (settle_peasant_lost d tm i (win, w))"
  unfolding settle_peasant_lost_def Let_def
  by (auto intro!: returns_bind ok_everyone intro: ok_put_update split: option.splits)

lemma keeps_settle_landlord_won: "plugin_ok n codes w \<Longrightarrow> keeps n codes (settle_landlord_won d tm w)"
  unfolding settle_landlord_won_def Let_def
proof (rule returns_bind_via [where Q = "\<lambda>(win, w). plugin_ok n codes w"])
  assume "plugin_ok n codes w"
  then show "returns (\<lambda>(win, w). plugin_ok n codes w) (efold (settle_peasant_lost d tm) [0, 1, 2] (0, w))"
    by (intro returns_efold) (auto intro: keeps_settle_peasant_lost)
next
  fix x :: "int \<times> ddz_plugin"
  assume "case x of (win, w) \<Rightarrow> plugin_ok n codes w"
  then show "keeps n codes (case x of (win, w) \<Rightarrow> ebind (seated (landlord (desk_at w d))) (\<lambda>c.
      ebind (get_info w c) (\<lambda>info. ebind (int32 (win - game_tax)) (\<lambda>win.
        ebind (if win < 0 then ebind (int32 (money info + win)) (\<lambda>rest.
             if rest < 0 then int32 (0 - money info) else Inr win) else Inr win) (\<lambda>win.
        ebind (upd_message w c (pos_index_of (desk_at w d) (Some c)) ''1 1'' win tm info)
          (\<lambda>s. Inr (write_to_everyone d s w)))))))"
    by (cases x) (auto intro!: returns_bind ok_everyone)
qed

lemma keeps_settle_peasant_won: "plugin_ok n codes w \<Longrightarrow> keeps n codes (settle_peasant_won d tm k i w)"
  unfolding settle_peasant_won_def Let_def
  by (auto intro!: returns_bind ok_everyone intro: ok_put_update split: option.splits)

lemma keeps_settle_landlord_lost: "plugin_ok n codes w \<Longrightarrow> keeps n codes (settle_landlord_lost d tm w)"
  unfolding settle_landlord_lost_def Let_def
  by (intro returns_bind returns_efold keeps_settle_peasant_won ok_everyone) (blast intro: ok_put_update)+

lemma keeps_on_game_stop:
  assumes "plugin_ok n codes w"
  shows "keeps n codes (on_game_stop d c normal w)"
proof -
  have reset: "plugin_ok n codes (on_desk d (desk_reset now) v)" if "plugin_ok n codes v" for v now
    using that by (rule ok_on_desk) (simp add: desk_ok_reset)
  note w = assms [THEN ok_everyone, of d "if normal then ''STP 1'' else ''STP 0''"]
  show ?thesis
  proof (cases normal)
    case False
    then show ?thesis using w reset by (simp add: on_game_stop_def Let_def)
  next
    case True
    have left: "keeps n codes (efold (send_left_cards d) [0, 1, 2] (write_to_everyone d ''STP 1'' w))"
      using w True by (intro returns_efold keeps_send_left_cards) simp_all
    have "keeps n codes (ebind (sprintf 256 s) (\<lambda>s. ebind m (\<lambda>tm. if b then settle_landlord_won d tm (write_to_everyone d s v)
        else settle_landlord_lost d tm (write_to_everyone d s v))))"
      if "plugin_ok n codes v" for s b m v
      using that by (auto intro!: returns_bind keeps_settle_landlord_won keeps_settle_landlord_lost ok_everyone)
    with True left reset show ?thesis
      unfolding on_game_stop_def Let_def
      by (auto intro!: returns_bind_via [where Q = "plugin_ok n codes"])
  qed
qed

end
