(* ===== verification/PluginSeats.thy ===== *)
theory PluginSeats
  imports PluginSteps
begin

text \<open>
  Sitting down and getting up: the operations that change who sits where keep \<open>plugin_ok\<close>, and
  the search for a seat finds a free one at a desk where no game runs.
\<close>

section \<open>Leaving a desk\<close>

lemma one_seat_each_remove:
  assumes "one_seat_each cs" "p < length cs" "cs ! p = Some c"
  shows "Some x \<in> set (cs[p := None]) \<longleftrightarrow> Some x \<in> set cs \<and> x \<noteq> c"
proof
  assume "Some x \<in> set (cs[p := None])"
  then obtain i where i: "i < length cs" "cs[p := None] ! i = Some x" by (auto simp: in_set_conv_nth)
  then have "i \<noteq> p" "cs ! i = Some x" using assms(2) by (auto simp: nth_list_update split: if_splits)
  then show "Some x \<in> set cs \<and> x \<noteq> c"
    using i one_seat_each_nth [OF assms(1) i(1) assms(2)] assms(3) by (auto, metis nth_mem)
next
  assume x: "Some x \<in> set cs \<and> x \<noteq> c"
  then obtain i where "i < length cs" "cs ! i = Some x" by (auto simp: in_set_conv_nth)
  then have "cs[p := None] ! i = Some x" using x assms(3) by (cases "i = p") auto
  then show "Some x \<in> set (cs[p := None])" using \<open>i < length cs\<close> by (metis length_list_update nth_mem)
qed

lemma silent_moves:
  "silent (on_desk d f w) = on_desk d f (silent w)" "silent (put_info c i w) = put_info c i (silent w)"
  by (simp_all add: silent_def on_desk_def put_info_def)

lemma keeps_leave_seat:
  assumes w: "plugin_ok n codes w" and info: "get_info w c = Inr info" "info_desk info = Some d"
    and p: "p = nat (pos_index_of (desk_at w d) (Some c))"
    and g: "desk_ok (g (desk_set p None (desk_at w d)))"
      "\<And>x. seats (g x) = seats x" "\<And>x. verifi_code (g x) = verifi_code x"
  shows "plugin_ok n codes (on_desk d g (put_info c (info_reset True info) (on_desk d (desk_set p None) w)))"
    (is "plugin_ok n codes ?w")
proof -
  have c: "desk_of w c = Some d" using info by (simp add: desk_of_def)
  have d: "d < n" "Some c \<in> set (seats (desk_at w d))" using plugin_okD(4) [OF w c] by auto
  have len: "length (desks w) = n" using w by (simp add: plugin_ok_def)
  have ok: "desk_ok (desk_at w d)" using w d(1) by (rule plugin_okD(2))
  then have shape: "length (seats (desk_at w d)) = 3" "one_seat_each (seats (desk_at w d))"
    by (simp_all add: desk_ok_def desk_shape_def)
  have pos: "pos_index_of (desk_at w d) (Some c) \<noteq> -1" using d(2) by (simp add: pos_index_of_absent)
  have seat: "p < 3" "seats (desk_at w d) ! p = Some c"
    using pos_index_seat [OF shape(1) pos] p by simp_all
  have at: "desk_at ?w k = (if k = d then g (desk_set p None (desk_at w d)) else desk_at w k)" for k
    using d(1) len by simp
  have of: "desk_of ?w x = (if x = c then None else desk_of w x)" for x
    using info by (simp add: desk_of_put_info)
  have gone: "Some x \<in> set (seats (desk_at ?w d)) \<longleftrightarrow> Some x \<in> set (seats (desk_at w d)) \<and> x \<noteq> c" for x
    using one_seat_each_remove [OF shape(2) _ seat(2)] shape(1) seat(1) by (simp add: at g(2))
  have other: "Some c \<notin> set (seats (desk_at w k))" if "k < n" "k \<noteq> d" for k
    using plugin_okD(5) [OF w that(1), of c] that(2) c by auto
  have "desk_of ?w x = Some k \<longleftrightarrow> k < n \<and> Some x \<in> set (seats (desk_at ?w k))" for x k
  proof (cases "k = d")
    case True
    then show ?thesis using gone [of x] w d(1) of by (auto simp: plugin_ok_def)
  next
    case False
    then show ?thesis using other [of k] w of [of x] by (auto simp: plugin_ok_def at)
  qed
  moreover have "desk_ok (desk_at ?w k) \<and> codes k \<le> verifi_code (desk_at ?w k)" if "k < n" for k
    using w that g by (simp add: at plugin_ok_def)
  ultimately show ?thesis using w by (simp add: plugin_ok_def)
qed

lemma abnormal_stop [simp]:
  "on_game_stop d c False w = Inr (on_desk d (desk_reset (clock w)) (write_to_everyone d ''STP 0'' w))"
  by (simp add: on_game_stop_def Let_def)

text \<open>The state after the seat is given up, before anything is done about the game.\<close>

definition stood_up :: "ddz_plugin \<Rightarrow> cid \<Rightarrow> ddz_game_info \<Rightarrow> nat \<Rightarrow> ddz_plugin" where
  "stood_up w c info d = put_info c (info_reset True info)
     (on_desk d (desk_set (nat (pos_index_of (desk_at w d) (Some c))) None) w)"

lemma stood_up_running:
  "d < length (desks w) \<Longrightarrow> is_running (desk_at (stood_up w c info d) d) = is_running (desk_at w d)"
  by (simp add: stood_up_def)

lemma keeps_stood_up:
  assumes w: "plugin_ok n codes w" and info: "get_info w c = Inr info" "info_desk info = Some d"
  shows "\<not> is_running (desk_at w d) \<Longrightarrow> plugin_ok n codes (stood_up w c info d)"
    and "plugin_ok n codes (on_desk d (set_running False) (stood_up w c info d))"
proof -
  let ?p = "nat (pos_index_of (desk_at w d) (Some c))"
  have "desk_of w c = Some d" using info by (simp add: desk_of_def)
  then have d: "d < n" using plugin_okD(4) [OF w] by auto
  have ok: "desk_ok (desk_at w d)" using w d by (rule plugin_okD(2))
  show "plugin_ok n codes (on_desk d (set_running False) (stood_up w c info d))"
    unfolding stood_up_def
    by (rule keeps_leave_seat [OF w info refl]) (simp_all add: desk_ok_unseat_stop ok)
  assume "\<not> is_running (desk_at w d)"
  then have "plugin_ok n codes (on_desk d id (stood_up w c info d))"
    unfolding stood_up_def
    by (intro keeps_leave_seat [OF w info refl]) (simp_all add: desk_ok_unseat ok)
  moreover have "on_desk d id v = v" for v by (simp add: on_desk_def)
  ultimately show "plugin_ok n codes (stood_up w c info d)" by simp
qed

text \<open>The same state with the messages that were sent.\<close>

definition stood_up_told :: "ddz_plugin \<Rightarrow> cid \<Rightarrow> game_client \<Rightarrow> ddz_game_info \<Rightarrow> nat \<Rightarrow> ddz_plugin" where
  "stood_up_told w c r info d =
     (let pos = pos_index_of (desk_at w d) (Some c);
          w = on_desk d (desk_set (nat pos) None) w;
          w = (if client_available r
               then say c (words_of [''ODK'', desk_id (desk_at w d), pos_string pos]) w else w);
          w = write_to_everyone d (words_of [''LDK'', client_id r, pos_string pos]) w
      in put_info c (info_reset True info) w)"

lemma leave_desk_eq:
  assumes "clients w c = Some r" "game_info r = Some info" "0 \<le> pos_index_of (desk_at w d) (Some c)"
  shows "on_client_leave_desk c d reason w =
    (let w = stood_up_told w c r info d in
     Inr (if is_running (desk_at w d) then
            let w = on_desk d (set_running False) w in
            if reason \<noteq> SERVER_CLOSEING
            then let w = on_desk d (desk_reset (clock w)) (write_to_everyone d ''STP 0'' w)
                 in on_desk d (desk_reset (clock w)) w
            else w
          else w))"
  using assms
  by (simp add: on_client_leave_desk_def stood_up_told_def Let_def get_info_def the_client_def
      del: append.simps)

lemma told_silent:
  "silent (stood_up_told w c r info d) = silent (stood_up w c info d)"
  "e \<in> set (outbox (stood_up_told w c r info d)) \<Longrightarrow> e \<in> set (outbox w) \<or> (\<exists>x s. e = Write x s)"
  by (auto simp: stood_up_told_def stood_up_def Let_def silent_moves write_to_everyone_outbox split: if_splits)

lemma keeps_on_client_leave_desk:
  assumes w: "plugin_ok n codes w" and info: "get_info w c = Inr info" "info_desk info = Some d"
  shows "returns (\<lambda>w'. plugin_ok n codes w' \<and> desk_of w' c = None) (on_client_leave_desk c d reason w)"
proof -
  have c: "desk_of w c = Some d" using info by (simp add: desk_of_def)
  then have d: "d < n" "Some c \<in> set (seats (desk_at w d))" using plugin_okD(4) [OF w] by auto
  have len: "d < length (desks w)" using w d(1) by (simp add: plugin_ok_def)
  have pos: "0 \<le> pos_index_of (desk_at w d) (Some c)"
    using d(2) pos_index_of_absent [of "desk_at w d" c]
    by (cases rule: pos_index_of_cases [of "desk_at w d" "Some c"]) auto
  obtain r where r: "clients w c = Some r" "game_info r = Some info" using info(1) by (auto simp: get_info_eq_Inr)
  let ?v = "stood_up w c info d" and ?m = "stood_up_told w c r info d"
  note m = told_silent(1) [of w c r info d]
  have eff: "\<forall>e \<in> set (outbox ?m). effect_ok n e"
    using told_silent(2) [of _ w c r info d] w by (fastforce simp: plugin_ok_def)
  have gone: "desk_of ?m c = None"
    using info by (simp add: stood_up_told_def Let_def desk_of_put_info)
  have run: "is_running (desk_at ?m d) = is_running (desk_at w d)"
    using stood_up_running [OF len, of c info] silent_frame(1) [OF m] by (simp add: desk_at_def)
  have idle: "plugin_ok n codes ?m" if "\<not> is_running (desk_at w d)"
    using keeps_silent [OF m eff keeps_stood_up(1) [OF w info that]] .
  have "silent (on_desk d (set_running False) ?m) = silent (on_desk d (set_running False) ?v)"
    using m by (simp add: silent_moves)
  then have stopped: "plugin_ok n codes (on_desk d (set_running False) ?m)"
    using keeps_silent [OF _ _ keeps_stood_up(2) [OF w info]] eff by simp
  have reset: "plugin_ok n codes (on_desk d (desk_reset now) u)" if "plugin_ok n codes u" for u now
    using that by (rule ok_on_desk) (simp add: desk_ok_reset)
  show ?thesis
    unfolding leave_desk_eq [OF r pos] Let_def run
    using idle stopped gone by (simp add: reset ok_everyone)
qed

section \<open>Looking for a seat\<close>

definition open_seats :: "ddz_desk \<Rightarrow> nat" where
  "open_seats desk = length (filter (\<lambda>c. c = None) (seats desk))"

definition eligible :: "nat option \<Rightarrow> ddz_desk list \<Rightarrow> nat \<Rightarrow> bool" where
  "eligible last_desk ds k \<longleftrightarrow> k < length ds \<and> Some k \<noteq> last_desk \<and> \<not> is_running (ds ! k)"

lemma free_seats_count:
  "k \<le> r \<Longrightarrow> free_seats r cs i k fp = (f, p) \<Longrightarrow>
     (f = r \<longleftrightarrow> k + length (filter (\<lambda>c. c = None) cs) = r) \<and>
     (f \<le> r \<longrightarrow> f = k + length (filter (\<lambda>c. c = None) cs))"
proof (induction r cs i k fp rule: free_seats.induct)
  case (2 r c cs i k fp)
  then show ?case by (auto split: if_splits)
qed simp

definition first_free :: "cid option list \<Rightarrow> nat \<Rightarrow> bool" where
  "first_free cs j \<longleftrightarrow> j < length cs \<and> cs ! j = None \<and> (\<forall>j' < j. cs ! j' \<noteq> None)"

lemma first_free_Cons: "c \<noteq> None \<Longrightarrow> first_free (c # cs) (Suc j) = first_free cs j"
  by (auto simp: first_free_def less_Suc_eq_0_disj)

text \<open>The position is that of the first free seat.\<close>

lemma free_seats_pos:
  "free_seats r cs i k fp = (f, p) \<Longrightarrow>
     p = fp \<or> (fp = -1 \<and> (\<exists>j. p = int (i + j) \<and> first_free cs j))"
proof (induction r cs i k fp rule: free_seats.induct)
  case (2 r c cs i k fp)
  show ?case
  proof (cases "c = None")
    case True
    then have "first_free (c # cs) 0" by (simp add: first_free_def)
    with True show ?thesis using 2 by (force split: if_splits)
  next
    case False
    with 2 have "p = fp \<or> (fp = -1 \<and> (\<exists>j. p = int (i + 1 + j) \<and> first_free cs j))"
      by simp
    then show ?thesis
    proof
      assume "fp = -1 \<and> (\<exists>j. p = int (i + 1 + j) \<and> first_free cs j)"
      then obtain j where j: "fp = -1" "p = int (i + 1 + j)" "first_free cs j" by auto
      then have "first_free (c # cs) (Suc j)" using False by (simp add: first_free_Cons)
      with j show ?thesis by (intro disjI2 conjI exI [of _ "Suc j"]) simp_all
    qed simp
  qed
qed simp

lemma free_seats_some:
  assumes "free_seats r cs i k (-1) = (f, p)" "f = r" "k < r" "k \<le> r"
  shows "p \<noteq> -1"
  using assms
proof (induction cs arbitrary: i k)
  case (Cons c cs)
  have keep: "snd (free_seats r cs j m q) = q" if "q \<noteq> -1" for j m q
    using that by (induction r cs j m q rule: free_seats.induct) auto
  show ?case
  proof (cases "c = None")
    case True
    then show ?thesis using Cons.prems keep [of "int i" "i + 1" "k + 1"] by (auto split: if_splits)
  next
    case False
    then show ?thesis using Cons by auto
  qed
qed simp

lemma free_seats_found:
  assumes "0 < r" "free_seats r (seats desk) 0 0 (-1) = (f, p)"
  shows "p \<noteq> -1 \<and> f = r \<longleftrightarrow> open_seats desk = r"
    and "open_seats desk = r \<Longrightarrow> \<exists>j. p = int j \<and> first_free (seats desk) j"
proof -
  show a: "p \<noteq> -1 \<and> f = r \<longleftrightarrow> open_seats desk = r"
    using free_seats_count [OF _ assms(2)] free_seats_some [OF assms(2)] assms(1)
    by (auto simp: open_seats_def)
  assume "open_seats desk = r"
  with a have "p \<noteq> -1" by simp
  with free_seats_pos [OF assms(2)]
  show "\<exists>j. p = int j \<and> first_free (seats desk) j" by auto
qed

lemma search_desks_none:
  "0 < r \<Longrightarrow> search_desks r l ds i = None \<longleftrightarrow>
     (\<forall>k < length ds. Some (i + k) = l \<or> is_running (ds ! k) \<or> open_seats (ds ! k) \<noteq> r)"
proof (induction ds arbitrary: i)
  case (Cons desk ds)
  obtain f p where fp: "free_seats r (seats desk) 0 0 (-1) = (f, p)" by fastforce
  note found = free_seats_found(1) [OF Cons.prems fp]
  have split: "(\<forall>k < length (desk # ds). P k) \<longleftrightarrow> P 0 \<and> (\<forall>k < length ds. P (Suc k))" for P
    by (auto simp: less_Suc_eq_0_disj)
  show ?case
    unfolding split using Cons.IH [OF Cons.prems, of "i + 1"] fp found by simp
qed simp

lemma search_desks_some:
  assumes "0 < r" "search_desks r l ds i = Some (k, p)"
  obtains j where "k = i + j" "j < length ds" "Some k \<noteq> l" "\<not> is_running (ds ! j)" "open_seats (ds ! j) = r"
    "\<exists>q. p = int q \<and> first_free (seats (ds ! j)) q"
    "\<forall>j' < j. Some (i + j') = l \<or> is_running (ds ! j') \<or> open_seats (ds ! j') \<noteq> r"
  using assms(2)
proof (induction ds arbitrary: i thesis)
  case (Cons desk ds)
  obtain f q where fq: "free_seats r (seats desk) 0 0 (-1) = (f, q)" by fastforce
  note found = free_seats_found [OF assms(1) fq]
  show ?case
  proof (cases "Some i = l \<or> is_running desk \<or> open_seats desk \<noteq> r")
    case True
    then have "search_desks r l ds (i + 1) = Some (k, p)"
      using Cons.prems(2) fq found(1) by (auto split: if_splits)
    then obtain j where j: "k = i + 1 + j" "j < length ds" "Some k \<noteq> l" "\<not> is_running (ds ! j)"
        "open_seats (ds ! j) = r"
        "\<exists>q. p = int q \<and> first_free (seats (ds ! j)) q"
        "\<forall>j' < j. Some (i + 1 + j') = l \<or> is_running (ds ! j') \<or> open_seats (ds ! j') \<noteq> r"
      by (rule Cons.IH [rotated])
    show ?thesis
      by (rule Cons.prems(1) [of "Suc j"]) (use j True in \<open>auto simp: less_Suc_eq_0_disj\<close>)
  next
    case False
    then have "k = i" "p = q" using Cons.prems(2) fq found(1) by (auto split: if_splits)
    then show ?thesis using Cons.prems(1) [of 0] False found(2) by auto
  qed
qed simp

text \<open>What the search finds, and that it looks for the fullest desks first.\<close>

definition best_seat :: "nat option \<Rightarrow> ddz_desk list \<Rightarrow> nat \<Rightarrow> nat \<Rightarrow> bool" where
  "best_seat l ds k q \<longleftrightarrow>
     eligible l ds k \<and> first_free (seats (ds ! k)) q \<and>
     (\<forall>j. eligible l ds j \<and> 0 < open_seats (ds ! j) \<longrightarrow>
        open_seats (ds ! k) < open_seats (ds ! j) \<or> (open_seats (ds ! k) = open_seats (ds ! j) \<and> k \<le> j))"

lemma open_seats_bound: "length (seats desk) = 3 \<Longrightarrow> open_seats desk \<le> 3"
  by (metis length_filter_le open_seats_def)

lemma search_desks_best:
  assumes shape: "\<And>j. j < length ds \<Longrightarrow> length (seats (ds ! j)) = 3"
    and r: "0 < r" "search_desks r l ds 0 = Some (k, p)"
    and less: "\<And>j. eligible l ds j \<Longrightarrow> 0 < open_seats (ds ! j) \<Longrightarrow> r \<le> open_seats (ds ! j)"
  shows "\<exists>q. p = int q \<and> best_seat l ds k q"
proof -
  obtain j where j: "k = 0 + j" "j < length ds" "Some k \<noteq> l" "\<not> is_running (ds ! j)" "open_seats (ds ! j) = r"
    "\<exists>q. p = int q \<and> first_free (seats (ds ! j)) q"
    "\<forall>j' < j. Some (0 + j') = l \<or> is_running (ds ! j') \<or> open_seats (ds ! j') \<noteq> r"
    by (rule search_desks_some [OF r])
  have "open_seats (ds ! k) < open_seats (ds ! j') \<or> (open_seats (ds ! k) = open_seats (ds ! j') \<and> k \<le> j')"
    if "eligible l ds j'" "0 < open_seats (ds ! j')" for j'
    using less [OF that] j(1,5,7) that(1) by (force simp: eligible_def not_less)
  with j show ?thesis by (auto simp: best_seat_def eligible_def)
qed

lemma search_required_best:
  assumes shape: "\<And>j. j < length ds \<Longrightarrow> length (seats (ds ! j)) = 3"
  shows "case search_required [1, 2, 3] l ds of
       None \<Rightarrow> \<forall>j. eligible l ds j \<longrightarrow> open_seats (ds ! j) = 0
     | Some (k, p) \<Rightarrow> \<exists>q. p = int q \<and> best_seat l ds k q"
proof -
  have none: "open_seats (ds ! j) \<noteq> r" if "search_desks r l ds 0 = None" "0 < r" "eligible l ds j" for r j
    using search_desks_none [OF that(2), of l ds 0] that(1,3) by (auto simp: eligible_def)
  have "open_seats (ds ! j) \<le> 3" if "eligible l ds j" for j
    using that shape open_seats_bound by (simp add: eligible_def)
  note cases = this none
  show ?thesis
  proof (cases "search_desks 1 l ds 0")
    case (Some kp)
    obtain k p where "kp = (k, p)" by fastforce
    with Some search_desks_best [OF shape, where r = 1 and l = l and k = k and p = p] show ?thesis by auto
  next
    case one: None
    show ?thesis
    proof (cases "search_desks 2 l ds 0")
      case (Some kp)
      obtain k p where kp: "kp = (k, p)" by fastforce
      have "2 \<le> open_seats (ds ! j)" if "eligible l ds j" "0 < open_seats (ds ! j)" for j
        using none [OF one _ that(1)] that(2) by linarith
      with Some kp one search_desks_best [OF shape, where r = 2 and l = l and k = k and p = p] show ?thesis by auto
    next
      case two: None
      show ?thesis
      proof (cases "search_desks 3 l ds 0")
        case (Some kp)
        obtain k p where kp: "kp = (k, p)" by fastforce
        have "3 \<le> open_seats (ds ! j)" if "eligible l ds j" "0 < open_seats (ds ! j)" for j
          using none [OF one _ that(1)] none [OF two _ that(1)] that(2) by linarith
        with Some kp one two search_desks_best [OF shape, where r = 3 and l = l and k = k and p = p]
        show ?thesis by auto
      next
        case three: None
        have "open_seats (ds ! j) = 0" if "eligible l ds j" for j
          using none [OF one _ that] none [OF two _ that] none [OF three _ that] cases(1) [OF that] by simp
        then show ?thesis using one two three by simp
      qed
    qed
  qed
qed

section \<open>Joining a desk\<close>

lemma ok_silent_fold:
  assumes "plugin_ok n codes w" "\<And>i v v'. f i v = Inr v' \<Longrightarrow> silent v' = silent v \<and>
      (\<forall>e \<in> set (outbox v'). e \<in> set (outbox v) \<or> (\<exists>x s. e = Write x s))"
  shows "returns (\<lambda>w'. plugin_ok n codes w' \<and> silent w' = silent w) (efold f is w)"
proof (rule returns_efold)
  show "plugin_ok n codes w \<and> silent w = silent w" using assms(1) by simp
  fix i v
  assume v: "plugin_ok n codes v \<and> silent v = silent w"
  show "returns (\<lambda>w'. plugin_ok n codes w' \<and> silent w' = silent w) (f i v)"
    unfolding returns_def
  proof (intro allI impI)
    fix v' assume f: "f i v = Inr v'"
    have "\<forall>e \<in> set (outbox v'). effect_ok n e"
      using assms(2) [OF f] v by (fastforce simp: plugin_ok_def)
    then show "plugin_ok n codes v' \<and> silent v' = silent w"
      using keeps_silent [of v' v n codes] assms(2) [OF f] v by simp
  qed
qed

lemma join_desk_message_tells:
  "join_desk_message c d pos m i v = Inr v' \<Longrightarrow> silent v' = silent v \<and>
     (\<forall>e \<in> set (outbox v'). e \<in> set (outbox v) \<or> (\<exists>x s. e = Write x s))"
  by (auto simp: join_desk_message_def ebind_eq_Inr Let_def split: option.splits if_splits)

lemma ok_sit:
  assumes w: "plugin_ok n codes w" and info: "get_info w c = Inr info" "info_desk info = None"
    and d: "d < n" "\<not> is_running (desk_at w d)" "first_free (seats (desk_at w d)) q"
  shows "plugin_ok n codes (put_info c (info\<lparr>info_desk := Some d\<rparr>) (on_desk d (desk_set q (Some c)) w))"
    (is "plugin_ok n codes ?w")
proof -
  have len: "length (desks w) = n" using w by (simp add: plugin_ok_def)
  have c: "desk_of w c = None" using info by (simp add: desk_of_def)
  have absent: "Some c \<notin> set (seats (desk_at w k))" if "k < n" for k
    using plugin_okD(5) [OF w that, of c] c by auto
  have at: "desk_at ?w k = (if k = d then desk_set q (Some c) (desk_at w d) else desk_at w k)" for k
    using d(1) len by simp
  have of: "desk_of ?w x = (if x = c then Some d else desk_of w x)" for x
    using info by (simp add: desk_of_put_info)
  have q: "q < length (seats (desk_at w d))" "seats (desk_at w d) ! q = None" using d(3) by (simp_all add: first_free_def)
  have new: "Some x \<in> set ((seats (desk_at w d))[q := Some c]) \<longleftrightarrow> x = c \<or> Some x \<in> set (seats (desk_at w d))" for x
  proof
    assume "Some x \<in> set ((seats (desk_at w d))[q := Some c])"
    then show "x = c \<or> Some x \<in> set (seats (desk_at w d))"
      using set_update_subset_insert [of "seats (desk_at w d)" q "Some c"] by auto
  next
    assume "x = c \<or> Some x \<in> set (seats (desk_at w d))"
    then obtain j where "j < length (seats (desk_at w d))" "(seats (desk_at w d))[q := Some c] ! j = Some x"
    proof
      assume "Some x \<in> set (seats (desk_at w d))"
      then obtain j where j: "j < length (seats (desk_at w d))" "seats (desk_at w d) ! j = Some x"
        by (auto simp: in_set_conv_nth)
      then have "j \<noteq> q" using q by auto
      with j show ?thesis using that [of j] by simp
    qed (use q that [of q] in simp)
    then show "Some x \<in> set ((seats (desk_at w d))[q := Some c])" by (metis length_list_update nth_mem)
  qed
  have "desk_of ?w x = Some k \<longleftrightarrow> k < n \<and> Some x \<in> set (seats (desk_at ?w k))" for x k
  proof (cases "k = d")
    case True
    then show ?thesis using w d(1) new [of x] c absent [OF d(1)] unfolding at of plugin_ok_def by auto
  next
    case False
    then show ?thesis using w d(1) c absent [of k] unfolding at of plugin_ok_def by (cases "x = c") auto
  qed
  moreover have "desk_ok (desk_at ?w k) \<and> codes k \<le> verifi_code (desk_at ?w k)" if "k < n" for k
    using w that desk_ok_seat [OF _ d(2) absent [OF d(1)], of q] unfolding at plugin_ok_def by simp
  ultimately show ?thesis using w by (simp add: plugin_ok_def)
qed

lemma keeps_on_client_join_desk:
  assumes w: "plugin_ok n codes w" and info: "get_info w c = Inr info" "info_desk info = None"
    and d: "d < n" "\<not> is_running (desk_at w d)" "first_free (seats (desk_at w d)) q"
  shows "keeps n codes (on_client_join_desk c d (int q) (on_desk d (desk_set q (Some c)) w))"
proof -
  let ?v = "put_info c (info\<lparr>info_desk := Some d\<rparr>) (on_desk d (desk_set q (Some c)) w)"
  have "plugin_ok n codes ?v" by (rule ok_sit [OF w info d])
  then have "plugin_ok n codes (say c s ?v)" for s by (rule ok_say)
  then have "keeps n codes (efold (join_desk_message c d (int q) m) [0, 1, 2] (say c s ?v))" for s m
    by (rule returns_weaken [OF ok_silent_fold]) (auto dest: join_desk_message_tells)
  then show ?thesis using info by (simp add: on_client_join_desk_def Let_def del: efold.simps)
qed

lemma keeps_on_join_desk_handle:
  assumes w: "plugin_ok n codes w"
  shows "keeps n codes (on_join_desk_handle ce c params w)"
proof (cases "get_info w c")
  case (Inr info)
  have sit: "keeps n codes (case (if is_onlined v then search_required [1, 2, 3] l (desks v) else None) of
      Some (i, free_pos) \<Rightarrow> on_client_join_desk c i free_pos (on_desk i (desk_set (nat free_pos) (Some c)) v)
    | None \<Rightarrow> Inr (say c ''IDK -1'' v))"
    if v: "plugin_ok n codes v" "desk_of v c = None" and i: "get_info v c = Inr i" for v l i
  proof -
    have shape: "length (seats (desks v ! j)) = 3" if "j < length (desks v)" for j
      using plugin_okD(1,2) [OF v(1)] desk_ok_bounds(1) that by (simp add: desk_at_def)
    have free: "info_desk i = None" using v(2) i by (simp add: desk_of_def)
    show ?thesis
      using search_required_best [OF shape, of l] v(1) keeps_on_client_join_desk [OF v(1) i free] plugin_okD(1) [OF v(1)]
      by (auto simp: ok_say best_seat_def eligible_def desk_at_def split: option.splits)
  qed
  show ?thesis
  proof (cases "info_desk info")
    case None
    then show ?thesis using sit [OF w _ Inr] Inr by (simp add: on_join_desk_handle_def desk_of_def Let_def)
  next
    case (Some d)
    note leave = keeps_on_client_leave_desk [OF w Inr Some, of ce]
    have still: "\<exists>i. get_info v c = Inr i" if "on_client_leave_desk c d ce w = Inr v" for v
    proof -
      obtain r where "clients w c = Some r" "game_info r = Some info" using Inr by (auto simp: get_info_eq_Inr)
      then show ?thesis
        using that by (auto simp: on_client_leave_desk_def the_client_def get_info_def ebind_eq_Inr Let_def
            put_info_def split: if_splits option.splits)
    qed
    show ?thesis
      unfolding on_join_desk_handle_def Let_def Inr ebind_simps Some option.case
    proof (rule returns_bind)
      fix v assume v: "on_client_leave_desk c d ce w = Inr v"
      then obtain i where "get_info v c = Inr i" using still by blast
      with sit [of v] returnsD [OF leave v]
      show "keeps n codes (case (if is_onlined v then search_required [1, 2, 3] (Some d) (desks v) else None) of
          None \<Rightarrow> Inr (say c ''IDK -1'' v)
        | Some (i, free_pos) \<Rightarrow> on_client_join_desk c i free_pos (on_desk i (desk_set (nat free_pos) (Some c)) v))"
        by blast
    qed
  qed
qed (simp add: on_join_desk_handle_def)

end
