(* ===== verification/PluginRun.thy ===== *)
theory PluginRun
  imports PluginSeats
begin

text \<open>
  The remaining operations of the plugin keep \<open>plugin_ok\<close>, and so does every run: commands of the
  clients, arrivals and departures, tasks that the zone was given, updates and the passing of time,
  in any order (\<open>plugin_step\<close>).
\<close>

section \<open>Tasks\<close>

lemma ok_allocate:
  "plugin_ok n codes w \<Longrightarrow> plugin_ok n codes (on_desk d (\<lambda>desk. allocate_pokers rnd (clear_pos_pokers desk)) w)"
  by (erule ok_on_desk) (simp add: desk_ok_allocate)

lemma ok_put_reset:
  "get_info w c = Inr i \<Longrightarrow> plugin_ok n codes w \<Longrightarrow> plugin_ok n codes (put_info c (info_reset False i) w)"
  by (simp add: ok_put)

lemma keeps_deal_to_seat: "plugin_ok n codes w \<Longrightarrow> keeps n codes (deal_to_seat d i w)"
  unfolding deal_to_seat_def Let_def
  by (auto intro!: returns_bind ok_say intro: ok_put_reset)

lemma ok_queue: "plugin_ok n codes w \<Longrightarrow> task_desk t < n \<Longrightarrow> plugin_ok n codes (emit (Queue_task t delay) w)"
  by (simp add: ok_emit)

lemma keeps_on_game_start: "plugin_ok n codes w \<Longrightarrow> d < n \<Longrightarrow> keeps n codes (on_game_start rnd d code w)"
proof -
  assume w: "plugin_ok n codes w" "d < n"
  have dealt: "keeps n codes (efold (deal_to_seat d) xs v)" if "plugin_ok n codes v" for xs v
    using that by (intro returns_efold keeps_deal_to_seat)
  have done_: "plugin_ok n codes (emit (Queue_task (Game_bid d k) 4300)
      (on_desk d (\<lambda>desk. desk\<lparr>verifi_code := verifi_code desk + 1\<rparr>) v))" if "plugin_ok n codes v" for v k
    using ok_next_code [OF that, of d] w(2) by (simp add: next_code_def ok_queue)
  show ?thesis
    unfolding on_game_start_def Let_def
    using w by (auto simp del: efold.simps intro!: returns_bind_via [OF dealt [OF ok_allocate]] done_)
qed

lemma keeps_on_game_bid: "plugin_ok n codes w \<Longrightarrow> d < n \<Longrightarrow> keeps n codes (on_game_bid d code w)"
proof -
  assume w: "plugin_ok n codes w" "d < n"
  have bided: "plugin_ok n codes (on_desk d (\<lambda>desk. desk\<lparr>is_bided := True\<rparr>) v)" if "plugin_ok n codes v" for v
    using that by (rule ok_on_desk) simp
  have start: "plugin_ok n codes (on_desk d (set_start_pos (bid_pos (desk_at v d))) v)" if "plugin_ok n codes v" for v
    using plugin_okD(2) [OF that w(2)] that by (intro ok_turns) (simp_all add: desk_ok_bounds)
  have say: "keeps n codes (ebind (sprintf 16 s) (\<lambda>s. ebind (say_all_seats d s v) (robot_bid d)))"
    if "plugin_ok n codes v" for s v
    using that keeps_say_all_seats keeps_robot_bid by (intro returns_bind returns_bind_via [OF keeps_say_all_seats])
  let ?a = "on_desk d (desk_active (clock w)) w"
  let ?b = "if declare_count (desk_at ?a d) = 0 then on_desk d move_to_next_bid_pos ?a else ?a"
  have "plugin_ok n codes ?b" using w by (simp add: ok_turns)
  then show ?thesis
    unfolding on_game_bid_def Let_def
    using w by (auto intro!: say bided start)
qed

lemma ok_put_code:
  "get_info w c = Inr i \<Longrightarrow> plugin_ok n codes w \<Longrightarrow> plugin_ok n codes (put_info c (i\<lparr>verify_code := k\<rparr>) w)"
  by (simp add: ok_put)

lemma keeps_on_game_landlord:
  assumes w: "plugin_ok n codes w" "d < n"
  shows "keeps n codes (on_game_landlord d lord code w)"
proof (cases "landlord (desk_at w d) = lord \<and> lord \<noteq> None \<and> pos_index_of (desk_at w d) lord \<noteq> -1")
  case True
  let ?p = "pos_index_of (desk_at w d) lord"
  let ?f = "\<lambda>desk. desk\<lparr>pos_pokers := (pos_pokers desk)[nat ?p := fold pset_insert (drop 51 (desk_pokers desk)) (hand desk ?p)]\<rparr>"
  have d: "desk_ok (desk_at w d)" using plugin_okD(2) [OF w] .
  have p: "0 \<le> ?p" "?p < 3" using pos_index_seat [OF desk_ok_bounds(1) [OF d], of lord] True by simp_all
  have same: "pos_index_of (set_start_pos ?p (desk_at w d)) lord = ?p" by (simp add: pos_index_of_def)
  have "plugin_ok n codes (on_desk d (set_start_pos ?p) w)" (is "plugin_ok n codes ?v")
    using w p by (intro ok_turns) simp_all
  then have "plugin_ok n codes (on_desk d ?f ?v)"
  proof (rule ok_on_desk)
    assume d': "d < n" "desk_ok (desk_at ?v d)"
    have len: "d < length (desks w)" using w by (simp add: plugin_ok_def)
    have lord: "landlord (desk_at ?v d) = lord" using True len by simp
    have "desk_ok ((desk_at ?v d)\<lparr>pos_pokers := (pos_pokers (desk_at ?v d))[nat ?p :=
        fold pset_insert (drop 51 (desk_pokers (desk_at ?v d))) (pos_pokers (desk_at ?v d) ! nat ?p)]\<rparr>)"
      using desk_ok_landlord_cards [OF d'(2)] True len same lord by simp
    then show "desk_ok (?f (desk_at ?v d)) \<and> seats (?f (desk_at ?v d)) = seats (desk_at ?v d) \<and>
        verifi_code (desk_at ?v d) \<le> verifi_code (?f (desk_at ?v d))"
      by (simp add: hand_def)
  qed
  then show ?thesis
    unfolding on_game_landlord_def Let_def
    using w by (auto intro!: returns_bind ok_queue ok_everyone ok_put_code)
qed (auto simp: on_game_landlord_def Let_def w)

section \<open>Commands\<close>

lemma keeps_on_client_declare_handle:
  assumes w: "plugin_ok n codes w"
  shows "keeps n codes (on_client_declare_handle c params w)"
proof (cases "get_info w c")
  case (Inr info)
  then obtain r where r: "clients w c = Some r" "game_info r = Some info" by (auto simp: get_info_eq_Inr)
  show ?thesis
  proof (cases "info_desk info")
    case (Some d)
    then have "desk_of w c = Some d" using Inr by (simp add: desk_of_def)
    then have d: "d < n" using plugin_okD(4) [OF w] by auto
    let ?p = "pos_index_of (desk_at w d) (Some c)"
    have ok: "desk_ok (desk_at w d)" using plugin_okD(2) [OF w d] .
    have p: "-1 \<le> ?p" "?p < 3"
      using pos_index_seat [OF desk_ok_bounds(1) [OF ok], of "Some c"] by (cases "?p = -1"; simp)+
    have bid: "plugin_ok n codes (on_desk d (\<lambda>desk. desk\<lparr>bid_pos := ?p\<rparr>) w)"
      using w by (rule ok_on_desk) (simp add: p)
    have declared: "plugin_ok n codes (put_info c (info\<lparr>card_declared := True\<rparr>)
        (on_desk d (\<lambda>desk. desk\<lparr>declare_count := declare_count desk + 1\<rparr>) v))"
      if "plugin_ok n codes v" "get_info v c = Inr info" for v
    proof -
      have "plugin_ok n codes (on_desk d (\<lambda>desk. desk\<lparr>declare_count := declare_count desk + 1\<rparr>) v)"
        using that(1) by (rule ok_on_desk) simp
      then show ?thesis by (rule ok_put [where i = info]) (simp_all add: that(2))
    qed
    show ?thesis
      unfolding on_client_declare_handle_def Let_def
      using r Some w Inr bid
      by (auto simp: the_client_def intro!: returns_bind ok_everyone declared)
  qed (use r in \<open>simp add: on_client_declare_handle_def the_client_def w\<close>)
qed (auto simp: on_client_declare_handle_def the_client_def get_info_def w split: option.splits)

lemma keeps_queue_robot: "plugin_ok n codes w \<Longrightarrow> d < n \<Longrightarrow> keeps n codes (queue_robot d w)"
  unfolding queue_robot_def Let_def
  by (auto intro!: returns_bind ok_queue ok_put_code)

lemma keeps_on_client_show_poker:
  assumes w: "plugin_ok n codes w" "d < n"
  shows "keeps n codes (on_client_show_poker c d params w)"
proof -
  have active: "plugin_ok n codes (on_desk d (desk_active t) w)" for t using w by (simp add: ok_turns)
  have played: "plugin_ok n codes (on_desk d (\<lambda>desk. desk\<lparr>pos_pokers := (pos_pokers desk)
      [nat p := fold pset_erase params (hand desk p)]\<rparr>) v)" if "plugin_ok n codes v" for p v
    using that by (rule ok_on_desk) (simp add: hand_def desk_ok_erase)
  have stop: "keeps n codes (ebind (on_game_stop d c True v) (\<lambda>v. Inr (on_desk d (desk_reset (clock v)) v)))"
    if "plugin_ok n codes v" for v
    by (rule returns_bind_via [OF keeps_on_game_stop [OF that]]) (auto intro: ok_on_desk simp: desk_ok_reset)
  show ?thesis
    unfolding on_client_show_poker_def Let_def
    by (auto simp: w(1) intro!: returns_bind stop keeps_queue_robot ok_turns ok_everyone played active w(2))
qed

lemma silent_refuse:
  "on_client_card_refuse c params w = Inr w' \<Longrightarrow> w' = w \<or> (\<exists>s. w' = say c s w)"
  by (auto simp: on_client_card_refuse_def ebind_eq_Inr split: option.splits if_splits)

lemma keeps_on_client_card_refuse: "plugin_ok n codes w \<Longrightarrow> keeps n codes (on_client_card_refuse c params w)"
  using silent_refuse [of c params w] by (auto simp: returns_def ok_say)

lemma keeps_on_client_card_handle:
  assumes w: "plugin_ok n codes w"
  shows "keeps n codes (on_client_card_handle c params w)"
proof (cases "get_info w c")
  case (Inr info)
  show ?thesis
  proof (cases "info_desk info")
    case (Some d)
    then have "desk_of w c = Some d" using Inr by (simp add: desk_of_def)
    then have d: "d < n" using plugin_okD(4) [OF w] by auto
    have zero: "plugin_ok n codes (on_desk d (\<lambda>desk. desk\<lparr>curr_poker := q\<rparr>) v)" if "plugin_ok n codes v" for q v
      using that by (rule ok_on_desk) simp
    have bomb: "plugin_ok n codes (on_desk d (\<lambda>desk. desk\<lparr>bomb_count := bomb_count desk + 1\<rparr>) v)"
      if "plugin_ok n codes v" for v
      using that by (rule ok_on_desk) simp
    have shown: "plugin_ok n codes (on_desk d (\<lambda>desk. desk\<lparr>curr_poker := q, curr_shower := Some c\<rparr>) v)"
      if "plugin_ok n codes v" for q v
      using that by (rule ok_on_desk) simp
    show ?thesis
      unfolding on_client_card_handle_def Let_def Inr ebind_simps Some option.case
      by (auto simp: w split: flow.split option.split intro!: returns_bind ok_say
          keeps_on_client_card_refuse keeps_on_client_show_poker zero bomb shown d)
  qed (use Inr w in \<open>simp add: on_client_card_handle_def\<close>)
qed (simp add: on_client_card_handle_def w)

lemma keeps_on_client_bid_handle:
  assumes w: "plugin_ok n codes w"
  shows "keeps n codes (on_client_bid_handle c params w)"
proof -
  have "d < n" if "get_info w c = Inr info" "info_desk info = Some d" for info d
    using plugin_okD(4) [OF w, of c d] that by (simp add: desk_of_def)
  then show ?thesis
    unfolding on_client_bid_handle_def
    by (auto simp: w intro!: returns_bind keeps_on_client_bid split: option.split)
qed

lemma keeps_on_client_ready_handle:
  assumes w: "plugin_ok n codes w"
  shows "keeps n codes (on_client_ready_handle c params w)"
proof (cases "get_info w c")
  case (Inr info)
  show ?thesis
  proof (cases "info_desk info")
    case (Some d)
    then have "desk_of w c = Some d" using Inr by (simp add: desk_of_def)
    then have d: "d < n" using plugin_okD(4) [OF w] by auto
    have ready: "plugin_ok n codes (put_info c (info\<lparr>is_ready := True\<rparr>) w)"
      using w Inr by (rule ok_put) simp
    define tell where "tell r pos = (\<lambda>i (all_ready, w). case seats (desk_at w d) ! i of
        None \<Rightarrow> Inr (False, w)
      | Some other \<Rightarrow> ebind (get_info w other) (\<lambda>oi.
          Inr (all_ready \<and> is_ready oi, say other (words_of [''RDY'', client_id r, pos_string pos]) w)))"
      for r :: game_client and pos :: int
    have told: "returns (\<lambda>(all_ready, w). plugin_ok n codes w) (efold (tell r pos) xs
        (True, put_info c (info\<lparr>is_ready := True\<rparr>) w))" for r pos xs
      by (rule returns_efold)
        (auto simp: ready tell_def intro!: returns_bind ok_say split: option.split)
    have heard: "plugin_ok n codes v"
      if "efold (tell r pos) xs (True, put_info c (info\<lparr>is_ready := True\<rparr>) w) = Inr (b, v)" for r pos xs b v
      using returnsD [OF told that] by simp
    have restart: "plugin_ok n codes (on_desk d (set_running True) (on_desk d (desk_reset t) (on_desk d (desk_active t') v)))"
      if "plugin_ok n codes v" for v t t'
    proof -
      have "on_desk d (set_running True) (on_desk d (desk_reset t) (on_desk d (desk_active t') v)) =
          on_desk d (\<lambda>x. set_running True (desk_reset t x)) (on_desk d (desk_active t') v)"
        by (simp add: on_desk_on_desk comp_def)
      moreover have "plugin_ok n codes (on_desk d (desk_active t') v)" using that by (simp add: ok_turns)
      then have "plugin_ok n codes (on_desk d (\<lambda>x. set_running True (desk_reset t x)) (on_desk d (desk_active t') v))"
        by (rule ok_on_desk) (simp add: desk_ok_restart)
      ultimately show ?thesis by simp
    qed
    show ?thesis
      unfolding on_client_ready_handle_def Let_def Inr ebind_simps Some option.case tell_def [symmetric]
      by (auto simp: w simp del: efold.simps
          dest!: heard intro!: returns_bind ok_queue d ok_next_code restart)
  qed (use Inr w in \<open>simp add: on_client_ready_handle_def\<close>)
qed (simp add: on_client_ready_handle_def w)

lemma keeps_simulate: "plugin_ok n codes w \<Longrightarrow> plugin_ok n codes (emit (Simulate c s b) w)"
  by (simp add: ok_emit)

lemma keeps_on_robot_card: "plugin_ok n codes w \<Longrightarrow> keeps n codes (on_robot_card d client code w)"
  unfolding on_robot_card_def Let_def
  by (auto intro!: returns_bind keeps_simulate split: option.split)

lemma keeps_on_client_robot_handle:
  assumes w: "plugin_ok n codes w"
  shows "keeps n codes (on_client_robot_handle c params w)"
proof (cases "get_info w c")
  case (Inr info)
  have on: "plugin_ok n codes (put_info c (info\<lparr>robot_mode := True\<rparr>) w)" using w Inr by (rule ok_put) simp
  have off: "plugin_ok n codes (put_info c (info\<lparr>verify_code := 0, robot_mode := False\<rparr>) w)"
    using w Inr by (rule ok_put) simp
  show ?thesis
    unfolding on_client_robot_handle_def Let_def Inr ebind_simps
    by (auto simp: w intro!: returns_bind ok_everyone on off keeps_simulate keeps_on_robot_card split: option.split)
qed (simp add: on_client_robot_handle_def w)

lemma keeps_on_client_msg_handle: "plugin_ok n codes w \<Longrightarrow> keeps n codes (on_client_msg_handle c params w)"
  unfolding on_client_msg_handle_def by (auto intro!: returns_bind)

lemma keeps_on_client_ping_handle: "plugin_ok n codes w \<Longrightarrow> keeps n codes (on_client_ping_handle c params w)"
  by (simp add: on_client_ping_handle_def)

lemma keeps_on_client_bye_handle: "plugin_ok n codes w \<Longrightarrow> keeps n codes (on_client_bye_handle c params w)"
  unfolding on_client_bye_handle_def
  by (auto intro!: returns_bind returns_weaken [OF keeps_on_client_leave_desk] split: option.split)

section \<open>Updates, arrivals and departures\<close>

lemma keeps_update_desk: "plugin_ok n codes w \<Longrightarrow> d < n \<Longrightarrow> keeps n codes (update_desk d w)"
  unfolding update_desk_def Let_def
  by (auto intro!: returns_bind keeps_simulate keeps_on_client_bid split: option.split)

lemma keeps_on_update: "plugin_ok n codes w \<Longrightarrow> keeps n codes (on_update w)"
proof -
  assume w: "plugin_ok n codes w"
  then have "keeps n codes (efold update_desk [0..<length (desks w)] w)"
    by (intro returns_efold) (auto simp: plugin_okD(1) intro: keeps_update_desk)
  then show ?thesis
    using w by (auto simp: on_update_def ok_emit intro!: returns_bind_via [where Q = "plugin_ok n codes"])
qed

lemma desk_of_clients_update:
  "desk_of (w\<lparr>clients := (clients w)(c := map_option (\<lambda>r. r\<lparr>game_info := None\<rparr>) (clients w c))\<rparr>) x =
     (if x = c then None else desk_of w x)"
  by (cases "clients w c") (simp_all add: desk_of_def get_info_def the_client_def)

lemma keeps_forget:
  assumes "plugin_ok n codes w" "desk_of w c = None"
  shows "plugin_ok n codes (w\<lparr>clients := (clients w)(c := map_option (\<lambda>r. r\<lparr>game_info := None\<rparr>) (clients w c))\<rparr>)"
proof -
  have "desk_of (w\<lparr>clients := (clients w)(c := map_option (\<lambda>r. r\<lparr>game_info := None\<rparr>) (clients w c))\<rparr>) x = desk_of w x" for x
    using assms(2) by (simp add: desk_of_clients_update)
  then show ?thesis using assms(1) by (simp add: plugin_ok_def desk_at_def)
qed

lemma keeps_on_client_leave:
  assumes w: "plugin_ok n codes w"
  shows "keeps n codes (on_client_leave c code w)"
proof -
  have gone: "returns (\<lambda>v. plugin_ok n codes v \<and> desk_of v c = None)
      (case info_desk info of None \<Rightarrow> Inr w | Some d \<Rightarrow> on_client_leave_desk c d reason w)"
    if "clients w c = Some r" "game_info r = Some info" for r info reason
  proof -
    have i: "get_info w c = Inr info" using that by (simp add: get_info_def the_client_def)
    show ?thesis
      using keeps_on_client_leave_desk [OF w i] i w by (auto simp: desk_of_def split: option.split)
  qed
  show ?thesis
  proof (cases "clients w c")
    case (Some r)
    show ?thesis
    proof (cases "game_info r")
      case (Some info)
      have "keeps n codes (ebind (case info_desk info of None \<Rightarrow> Inr w
            | Some d \<Rightarrow> on_client_leave_desk c d (client_error r) w)
          (\<lambda>w. Inr (w\<lparr>clients := (clients w)(c := map_option (\<lambda>r. r\<lparr>game_info := None\<rparr>) (clients w c))\<rparr>)))"
        by (rule returns_bind_via [OF gone [OF \<open>clients w c = Some r\<close> Some]]) (auto intro: keeps_forget)
      then show ?thesis
        unfolding on_client_leave_def the_client_def \<open>clients w c = Some r\<close> option.case ebind_simps Some
        by (rule returns_bind_via) (simp add: ok_emit)
    qed (simp add: on_client_leave_def the_client_def Some w ok_emit)
  qed (simp add: on_client_leave_def the_client_def)
qed

text \<open>A client that arrives has no player state yet.\<close>

lemma keeps_on_client_join:
  assumes w: "plugin_ok n codes w" and new: "clients w c = Some r" "game_info r = None"
  shows "keeps n codes (on_client_join c w)"
proof -
  let ?v = "put_info c (new_game_info\<lparr>money := 10000, experience := 10000\<rparr>) w"
  have "desk_of ?v x = desk_of w x" for x
    using new by (auto simp: desk_of_def get_info_def the_client_def put_info_def new_game_info_def split: option.split)
  then have "plugin_ok n codes ?v" using w by (simp add: plugin_ok_def)
  then show ?thesis
    using new by (simp add: on_client_join_def the_client_def Let_def ok_say ok_emit del: append.simps)
qed

end
