(* ===== verification/PluginSafety.thy ===== *)
theory PluginSafety
  imports PluginRun
begin

text \<open>
  Runs of the plugin and what holds in all of them: \<open>plugin_step\<close> is one event, \<open>new_plugin\<close> the
  state the constructors of \<^verbatim>\<open>ddz_plugin\<close>, \<^verbatim>\<open>game_plugin\<close> and \<^verbatim>\<open>ddz_desk_list<100>\<close> leave. The theorems
  are read off the invariant.
\<close>

section \<open>The contract of a command handler\<close>

text \<open>
  A registered handler may change desks and players as it likes as long as the plugin stays sound;
  the dispatcher needs no more, whatever the parameters of the command are.
\<close>

locale sound_handler =
  fixes handle :: "cid \<Rightarrow> string list \<Rightarrow> ddz_plugin \<Rightarrow> ddz_plugin result"
  assumes keeps_handle: "plugin_ok n codes w \<Longrightarrow> keeps n codes (handle c params w)"
begin

lemma handle_ok: "plugin_ok n codes w \<Longrightarrow> handle c params w = Inr w' \<Longrightarrow> plugin_ok n codes w'"
  by (rule returnsD [OF keeps_handle])

lemma handle_all_ok:
  "plugin_ok n codes w \<Longrightarrow> efold (\<lambda>(c, params). handle c params) cmds w = Inr w' \<Longrightarrow> plugin_ok n codes w'"
  by (rule efold_invariant [where I = "plugin_ok n codes"]) (auto intro: handle_ok)

lemma handle_codes:
  assumes "plugin_ok n codes w" "handle c params w = Inr w'" "d < n"
  shows "verifi_code (desk_at w d) \<le> verifi_code (desk_at w' d)"
proof -
  have "plugin_ok n (\<lambda>d. verifi_code (desk_at w d)) w" using assms(1) by (simp add: plugin_ok_def)
  then show ?thesis using handle_ok [OF _ assms(2)] plugin_okD(3) assms(3) by blast
qed

end

interpretation idk: sound_handler "on_join_desk_handle ce" by unfold_locales (rule keeps_on_join_desk_handle)
interpretation rdy: sound_handler on_client_ready_handle by unfold_locales (rule keeps_on_client_ready_handle)
interpretation bid: sound_handler on_client_bid_handle by unfold_locales (rule keeps_on_client_bid_handle)
interpretation dla: sound_handler on_client_declare_handle by unfold_locales (rule keeps_on_client_declare_handle)
interpretation cad: sound_handler on_client_card_handle by unfold_locales (rule keeps_on_client_card_handle)
interpretation msg: sound_handler on_client_msg_handle by unfold_locales (rule keeps_on_client_msg_handle)
interpretation png: sound_handler on_client_ping_handle by unfold_locales (rule keeps_on_client_ping_handle)
interpretation rbt: sound_handler on_client_robot_handle by unfold_locales (rule keeps_on_client_robot_handle)
interpretation bye: sound_handler on_client_bye_handle by unfold_locales (rule keeps_on_client_bye_handle)

section \<open>Runs\<close>

text \<open>
  The desks are numbered when their list is constructed. An identifier is written into four bytes and cut after
  two digits, which is enough for a hundred desks.
\<close>

definition set_id :: "nat \<Rightarrow> ddz_desk \<Rightarrow> ddz_desk" where
  "set_id i d = d\<lparr>desk_id := take 2 (show_int (int i))\<rparr>"

definition new_desk_list :: "nat \<Rightarrow> int \<Rightarrow> ddz_desk list" where
  "new_desk_list desk_num now = map (\<lambda>i. set_id i (new_desk now)) [0..<desk_num]"

definition new_plugin :: "string \<Rightarrow> int \<Rightarrow> int \<Rightarrow> int \<Rightarrow> int \<Rightarrow> ddz_plugin" where
  "new_plugin gameid desks_wanted multiple_wanted waiting now =
     \<lparr>game_id = gameid, desk_count = desks_wanted, base_multiple = multiple_wanted,
      max_waiting = waiting, is_onlined = False, has_zone = False, plugin_clients = [],
      clients = (\<lambda>_. None), desks = new_desk_list 100 now, clock = now, outbox = []\<rparr>"

inductive plugin_step :: "int \<Rightarrow> ddz_plugin \<Rightarrow> ddz_plugin \<Rightarrow> bool" for client_exit where
  command: "(name, h) \<in> set (on_load client_exit) \<Longrightarrow> h c params w = Inr w' \<Longrightarrow> plugin_step client_exit w w'"
| arrive: "clients w c = None \<Longrightarrow> game_info r = None \<Longrightarrow>
     plugin_step client_exit w (w\<lparr>clients := (clients w)(c \<mapsto> r)\<rparr>)"
| join: "clients w c = Some r \<Longrightarrow> game_info r = None \<Longrightarrow> on_client_join c w = Inr w' \<Longrightarrow>
     plugin_step client_exit w w'"
| leave: "on_client_leave c code w = Inr w' \<Longrightarrow> plugin_step client_exit w w'"
| task: "Queue_task t delay \<in> set (outbox w) \<Longrightarrow> run_task rnd t w = Inr w' \<Longrightarrow> plugin_step client_exit w w'"
| update: "on_update w = Inr w' \<Longrightarrow> plugin_step client_exit w w'"
| tick: "clock w \<le> now \<Longrightarrow> plugin_step client_exit w (w\<lparr>clock := now\<rparr>)"
| online: "plugin_step client_exit w (w\<lparr>is_onlined := b, has_zone := z\<rparr>)"

lemma handlers_ok:
  assumes "(name, h) \<in> set (on_load ce)" "plugin_ok n codes w" "h c params w = Inr w'"
  shows "plugin_ok n codes w'"
  using assms unfolding on_load_def
  by (auto intro: idk.handle_ok rdy.handle_ok bid.handle_ok dla.handle_ok cad.handle_ok msg.handle_ok
      png.handle_ok rbt.handle_ok bye.handle_ok)

lemma keeps_run_task: "plugin_ok n codes w \<Longrightarrow> task_desk t < n \<Longrightarrow> keeps n codes (run_task rnd t w)"
  by (cases t) (auto intro: keeps_on_game_start keeps_on_game_bid keeps_on_game_landlord keeps_on_robot_card)

lemma plugin_step_ok: "plugin_step ce w w' \<Longrightarrow> plugin_ok n codes w \<Longrightarrow> plugin_ok n codes w'"
proof (induction rule: plugin_step.induct)
  case (command name h c params w w')
  then show ?case by (blast intro: handlers_ok)
next
  case (arrive w c r)
  then have "desk_of (w\<lparr>clients := (clients w)(c \<mapsto> r)\<rparr>) x = desk_of w x" for x
    by (simp add: desk_of_def get_info_def the_client_def)
  then show ?case using arrive by (simp add: plugin_ok_def desk_at_def)
next
  case (join w c r w')
  then show ?case by (blast intro: returnsD [OF keeps_on_client_join])
next
  case (leave c code w w')
  then show ?case by (blast intro: returnsD [OF keeps_on_client_leave])
next
  case (task t delay w rnd w')
  then have "task_desk t < n" using plugin_okD(6) [OF task.prems task.hyps(1)] by simp
  then show ?case using task by (blast intro: returnsD [OF keeps_run_task])
next
  case (update w w')
  then show ?case by (blast intro: returnsD [OF keeps_on_update])
next
  case (tick w now)
  then show ?case by (simp add: plugin_ok_def desk_at_def desk_of_def get_info_def the_client_def)
next
  case (online w b z)
  then show ?case by (simp add: plugin_ok_def desk_at_def desk_of_def get_info_def the_client_def)
qed

interpretation plugin_run: step_invariant "plugin_step ce" "plugin_ok n codes" for ce n codes
  by unfold_locales (rule plugin_step_ok)

lemmas plugin_run_ok = plugin_run.steps_good

lemma new_desk_ok: "desk_ok (new_desk now)"
  by (simp add: desk_ok_def desk_shape_def new_desk_def desk_reset_def clear_pos_pokers_def one_seat_each_def)

lemma set_id_ok: "desk_ok d \<Longrightarrow> desk_ok (set_id i d)"
  by (simp add: set_id_def)

lemma new_plugin_ok: "plugin_ok 100 (\<lambda>_. 0) (new_plugin gameid k m t now)"
proof -
  have at: "desk_at (new_plugin gameid k m t now) d = set_id d (new_desk now)" if "d < 100" for d
    using that by (simp add: new_plugin_def desk_at_def new_desk_list_def)
  have "Some c \<notin> set (seats (set_id d (new_desk now)))" for c d
    by (simp add: set_id_def new_desk_def desk_reset_def clear_pos_pokers_def)
  moreover have "verifi_code (set_id d (new_desk now)) = 0" for d by (simp add: set_id_def new_desk_def)
  moreover have "desk_of (new_plugin gameid k m t now) c = None" for c
    by (simp add: new_plugin_def desk_of_def get_info_def the_client_def)
  moreover have "length (desks (new_plugin gameid k m t now)) = 100" "outbox (new_plugin gameid k m t now) = []"
    by (simp_all add: new_plugin_def new_desk_list_def)
  ultimately show ?thesis
    by (auto simp: plugin_ok_def at set_id_ok [OF new_desk_ok])
qed

section \<open>What holds in every run\<close>

text \<open>
  C4. In every state that the plugin can reach from its construction, by any sequence of commands,
  arrivals, departures, tasks and updates, every desk is well formed: three seats, hands kept in
  order, turn positions in range, the pack a permutation of the fifty-four cards, no client on two
  seats, and while a game runs every hand holds only cards that were dealt to that seat or, for the
  landlord, the three bottom cards. A client sits at a desk if and only if it is registered there.
\<close>
theorem plugin_invariant:
  assumes "(plugin_step client_exit)\<^sup>*\<^sup>* (new_plugin gameid k m t now) w"
  shows "length (desks w) = 100 \<and> (\<forall>d < 100. desk_ok (desk_at w d)) \<and>
    (\<forall>c d. desk_of w c = Some d \<longleftrightarrow> d < 100 \<and> Some c \<in> set (seats (desk_at w d)))"
  using plugin_run_ok [OF assms new_plugin_ok] by (simp add: plugin_ok_def)

end
