(* ===== verification/PluginRules.thy ===== *)
theory PluginRules
  imports PluginSafety
begin

text \<open>
  Rules of the game that hold in every run: a card is in one hand only, a client has one seat, a
  task that was superseded never takes effect. \<open>sample_game\<close> is a plugin with one desk at which
  three players hold seventeen cards each; the witnesses use it.
\<close>

section \<open>A game in progress\<close>

definition sample_client :: "string \<Rightarrow> game_client" where
  "sample_client s = \<lparr>client_id = s, client_name = s, client_available = True, client_error = 0,
     game_info = Some (new_game_info\<lparr>money := 10000, info_desk := Some 0\<rparr>)\<rparr>"

definition sample_desk :: ddz_desk where
  "sample_desk = allocate_pokers (\<lambda>k. 7 * k) (clear_pos_pokers (set_running True (desk_reset 0
     (desk_set 2 (Some 2) (desk_set 1 (Some 1) (desk_set 0 (Some 0) (new_desk 0)))))))"

definition sample_game :: ddz_plugin where
  "sample_game = (new_plugin ''ddz'' 1 1 21000 0)\<lparr>is_onlined := True, has_zone := True,
     clients := (\<lambda>_. None)(0 \<mapsto> sample_client ''ann'', 1 \<mapsto> sample_client ''bob'', 2 \<mapsto> sample_client ''cid''),
     desks := [sample_desk]\<rparr>"

lemma sample_desk_seats: "seats sample_desk = [Some 0, Some 1, Some 2]"
  by (simp add: sample_desk_def) (simp add: new_desk_def desk_reset_def clear_pos_pokers_def)

lemma sample_desk_ok: "desk_ok sample_desk"
proof -
  have "desk_ok (desk_set 0 (Some 0) (new_desk 0))"
    by (rule desk_ok_seat) (simp_all add: new_desk_ok, simp_all add: new_desk_def desk_reset_def clear_pos_pokers_def)
  then have "desk_ok (desk_set 1 (Some 1) (desk_set 0 (Some 0) (new_desk 0)))"
    by (rule desk_ok_seat) (simp_all add: new_desk_def desk_reset_def clear_pos_pokers_def)
  then have "desk_ok (desk_set 2 (Some 2) (desk_set 1 (Some 1) (desk_set 0 (Some 0) (new_desk 0))))"
    by (rule desk_ok_seat) (simp_all add: new_desk_def desk_reset_def clear_pos_pokers_def)
  then show ?thesis unfolding sample_desk_def by (intro desk_ok_allocate desk_ok_restart)
qed

lemma sample_game_ok: "plugin_ok 1 (\<lambda>_. 0) sample_game"
proof -
  have code: "verifi_code sample_desk = 0" by (simp add: sample_desk_def) (simp add: new_desk_def)
  have "desk_of sample_game c = Some d \<longleftrightarrow> d < 1 \<and> Some c \<in> set (seats (desk_at sample_game d))" for c d
    by (cases "d = 0")
      (auto simp: sample_game_def desk_of_def get_info_def the_client_def sample_client_def desk_at_def sample_desk_seats)
  then show ?thesis
    by (simp add: plugin_ok_def sample_game_def desk_at_def sample_desk_ok code new_plugin_def)
qed

lemma sample_running: "is_running (desk_at sample_game 0)"
  by (simp add: sample_game_def desk_at_def sample_desk_def)

section \<open>Cards\<close>

lemma may_hold_disjoint:
  assumes "desk_shape desk" "i < 3" "j < 3" "i \<noteq> j"
  shows "may_hold desk i \<inter> may_hold desk j = {}"
proof -
  let ?ps = "desk_pokers desk"
  have pack: "mset ?ps = mset DESK_POKERS" using assms(1) by (simp add: desk_shape_def)
  have len: "length ?ps = 54" using mset_eq_length [OF pack] length_DESK_POKERS by simp
  have dist: "distinct ?ps" using mset_eq_imp_distinct_iff [OF pack] DESK_POKERS_distinct by simp
  have low: "set (dealt_to i [0..<51] ?ps) \<inter> set (dealt_to j [0..<51] ?ps) = {}"
    using assms(4) dist len by (auto simp: dealt_to_def nth_eq_iff_index_eq)
  have take: "set (dealt_to k [0..<51] ?ps) \<subseteq> set (take 51 ?ps)" for k
  proof
    fix x assume "x \<in> set (dealt_to k [0..<51] ?ps)"
    then obtain i where "i < 51" "x = ?ps ! i" by (auto simp: dealt_to_def)
    then have "i < length (take 51 ?ps)" "take 51 ?ps ! i = x" using len by simp_all
    then show "x \<in> set (take 51 ?ps)" by (metis nth_mem)
  qed
  have split: "set (take 51 ?ps) \<inter> bottom desk = {}"
    using dist distinct_append [of "take 51 ?ps" "drop 51 ?ps"] by (simp add: bottom_def)
  have "\<not> (landlord desk \<noteq> None \<and> seats desk ! i = landlord desk \<and> seats desk ! j = landlord desk)"
    using one_seat_each_nth [of "seats desk" i j] assms by (auto simp: desk_shape_def)
  then show ?thesis using low take [of i] take [of j] split by (auto simp: may_hold_def split: if_splits)
qed

lemma may_hold_pack:
  assumes "desk_shape desk"
  shows "may_hold desk i \<subseteq> set DESK_POKERS"
proof -
  let ?ps = "desk_pokers desk"
  have pack: "mset ?ps = mset DESK_POKERS" using assms by (simp add: desk_shape_def)
  have len: "length ?ps = 54" using mset_eq_length [OF pack] length_DESK_POKERS by simp
  have "set (dealt_to i [0..<51] ?ps) \<subseteq> set ?ps"
  proof
    fix x assume "x \<in> set (dealt_to i [0..<51] ?ps)"
    then obtain k where "k < 51" "x = ?ps ! k" by (auto simp: dealt_to_def)
    then show "x \<in> set ?ps" using len by simp
  qed
  moreover have "bottom desk \<subseteq> set ?ps" unfolding bottom_def by (rule set_drop_subset)
  ultimately have "may_hold desk i \<subseteq> set ?ps" by (simp add: may_hold_def)
  then show ?thesis unfolding mset_eq_setD [OF pack] .
qed

lemma hand_in_pack:
  assumes "desk_ok desk" "is_running desk" "i < 3"
  shows "set (pos_pokers desk ! i) \<subseteq> set DESK_POKERS"
proof -
  have "desk_shape desk" "cards_placed desk" using assms(1,2) by (simp_all add: desk_ok_def)
  then have "set (pos_pokers desk ! i) \<subseteq> may_hold desk i" "may_hold desk i \<subseteq> set DESK_POKERS"
    using assms(3) may_hold_pack by (simp_all add: cards_placed_def)
  then show ?thesis by (rule subset_trans)
qed

text \<open>
  C5. However the plugin got into its state from a sound one, no card is in two hands of a running
  game, every hand is an ordered set of cards of the pack.
\<close>
theorem no_card_in_two_hands:
  assumes "plugin_ok n codes w0" "(plugin_step client_exit)\<^sup>*\<^sup>* w0 w" "d < n" "is_running (desk_at w d)"
  shows "\<forall>i < 3. \<forall>j < 3.
    (i \<noteq> j \<longrightarrow> set (hand (desk_at w d) (int i)) \<inter> set (hand (desk_at w d) (int j)) = {}) \<and>
    set (hand (desk_at w d) (int i)) \<subseteq> set DESK_POKERS \<and> sorted_wrt (<) (hand (desk_at w d) (int i))"
proof -
  have ok: "desk_ok (desk_at w d)" using plugin_okD(2) [OF plugin_run_ok [OF assms(2,1)] assms(3)] .
  then have shape: "desk_shape (desk_at w d)" and placed: "cards_placed (desk_at w d)"
    using assms(4) by (simp_all add: desk_ok_def)
  have "set (hand (desk_at w d) (int i)) \<subseteq> may_hold (desk_at w d) i" if "i < 3" for i
    using placed that by (simp add: cards_placed_def hand_def)
  moreover have "sorted_wrt (<) (hand (desk_at w d) (int i))" if "i < 3" for i
    using shape that by (simp add: desk_shape_def hand_def)
  ultimately show ?thesis
    using may_hold_disjoint [OF shape] may_hold_pack [OF shape] by blast
qed

lemma no_card_in_two_hands_witness:
  "set (hand (desk_at sample_game 0) (int 0)) \<inter> set (hand (desk_at sample_game 0) (int 1)) = {}"
  using no_card_in_two_hands [OF sample_game_ok rtranclp.rtrancl_refl _ sample_running, THEN spec [of _ 0],
      THEN mp, THEN spec [of _ 1]] by simp

section \<open>Seats\<close>

text \<open>
  In every reachable state a client has at most one seat in the whole room, and it has one
  exactly when its own state names the desk.
\<close>
lemma one_seat_per_client:
  assumes "plugin_ok n codes w0" "(plugin_step client_exit)\<^sup>*\<^sup>* w0 w"
    and "d < n" "p < 3" "seats (desk_at w d) ! p = Some c"
  shows "desk_of w c = Some d \<and>
    (\<forall>d' < n. \<forall>p' < 3. seats (desk_at w d') ! p' = Some c \<longrightarrow> d' = d \<and> p' = p)"
proof -
  have ok: "plugin_ok n codes w" by (rule plugin_run_ok [OF assms(2,1)])
  have len: "length (seats (desk_at w k)) = 3" "one_seat_each (seats (desk_at w k))" if "k < n" for k
    using plugin_okD(2) [OF ok that] by (simp_all add: desk_ok_def desk_shape_def)
  have at: "desk_of w c = Some k" if "k < n" "q < 3" "seats (desk_at w k) ! q = Some c" for k q
    using plugin_okD(5) [OF ok that(1)] len(1) [OF that(1)] that by (metis nth_mem)
  have "d' = d \<and> p' = p" if "d' < n" "p' < 3" "seats (desk_at w d') ! p' = Some c" for d' p'
    using at [OF assms(3-5)] at [OF that] one_seat_each_nth [OF len(2) [OF assms(3)], of p' p]
      len(1) [OF assms(3)] that assms(4,5) by simp
  with at [OF assms(3-5)] show ?thesis by blast
qed

lemma one_seat_per_client_witness:
  "desk_of sample_game 1 = Some 0"
proof -
  have "seats (desk_at sample_game 0) ! 1 = Some 1"
    by (simp add: sample_game_def desk_at_def sample_desk_seats)
  then show ?thesis
    by (intro one_seat_per_client [OF sample_game_ok rtranclp.rtrancl_refl, THEN conjunct1]) simp_all
qed

section \<open>Tasks\<close>

text \<open>
  Once the code of a desk has moved past the code a queued task carries, the task does nothing
  whenever it comes due: every later state of the plugin is left exactly as it is.
\<close>
lemma superseded_task_is_dead:
  assumes "plugin_ok n codes w0" "d < n" "code < verifi_code (desk_at w0 d)"
    and "(plugin_step client_exit)\<^sup>*\<^sup>* w0 w"
  shows "run_task rnd (Game_start d code) w = Inr w \<and> run_task rnd (Game_bid d code) w = Inr w \<and>
    run_task rnd (Game_landlord d lord code) w = Inr w"
proof -
  have "plugin_ok n (\<lambda>d. verifi_code (desk_at w0 d)) w0" using assms(1) by (simp add: plugin_ok_def)
  then have "plugin_ok n (\<lambda>d. verifi_code (desk_at w0 d)) w" by (rule plugin_run_ok [OF assms(4)])
  then have "verifi_code (desk_at w0 d) \<le> verifi_code (desk_at w d)" using assms(2) by (rule plugin_okD(3))
  then have "verifi_code (desk_at w d) \<noteq> code" using assms(3) by simp
  then show ?thesis by (simp add: on_game_start_def on_game_bid_def on_game_landlord_def Let_def)
qed

lemma superseded_task_is_dead_witness:
  "run_task id (Game_start 0 (-1)) sample_game = Inr sample_game \<and>
   run_task id (Game_bid 0 (-1)) sample_game = Inr sample_game \<and>
   run_task id (Game_landlord 0 (Some 0) (-1)) sample_game = Inr sample_game"
proof -
  have "-1 < verifi_code (desk_at sample_game 0)"
    by (simp add: sample_game_def desk_at_def sample_desk_def) (simp add: new_desk_def)
  then show ?thesis
    by (rule superseded_task_is_dead [OF sample_game_ok _ _ rtranclp.rtrancl_refl, rotated]) simp
qed

end
