(* ===== verification/PluginPlay.thy ===== *)
theory PluginPlay
  imports PluginRules PokerGroups
begin

text \<open>
  What a play does: only the player whose turn it is can change the table, an accepted play is a
  group of cards from the hand that beats the table, and it leaves the hand by exactly its cards.
\<close>

section \<open>Showing cards\<close>

definition played_desk :: "ddz_plugin \<Rightarrow> nat \<Rightarrow> int \<Rightarrow> string list \<Rightarrow> ddz_desk" where
  "played_desk w d pos params = (desk_active (clock w) (desk_at w d))\<lparr>pos_pokers :=
     (pos_pokers (desk_at w d))[nat pos := fold pset_erase params (hand (desk_at w d) pos)]\<rparr>"

lemma queue_robot_desks: "queue_robot d w = Inr w' \<Longrightarrow> desks w' = desks w"
  by (auto simp: queue_robot_def ebind_eq_Inr Let_def split: if_splits)

lemma hand_without: "fold pset_erase xs h = filter (\<lambda>p. p \<notin> set xs) h"
proof (induction xs arbitrary: h)
  case (Cons x xs)
  have "pset_erase x h = filter (\<lambda>p. p \<noteq> x) h"
    unfolding pset_erase_def by (rule filter_cong) auto
  then show ?case using Cons by (simp add: conj_commute)
qed simp

lemma hand_played:
  "nat pos < length (pos_pokers (desk_at w d)) \<Longrightarrow>
     hand (played_desk w d pos params) pos = filter (\<lambda>p. p \<notin> set params) (hand (desk_at w d) pos)"
  by (simp add: played_desk_def hand_def hand_without)

lemma show_poker_goes_on:
  assumes w: "plugin_ok n codes w" "d < n" and show': "on_client_show_poker c d params w = Inr w'"
    and pos: "pos = pos_index_of (desk_at w d) (Some c)" "pos \<noteq> -1"
    and left: "filter (\<lambda>p. p \<notin> set params) (hand (desk_at w d) pos) \<noteq> []"
  shows "desk_at w' d = move_next (played_desk w d pos params)"
proof -
  have len: "d < length (desks w)" using w by (simp add: plugin_ok_def)
  have ok: "desk_ok (desk_at w d)" using w by (rule plugin_okD(2))
  have p: "nat pos < length (pos_pokers (desk_at w d))"
    using pos_index_seat(1) [OF desk_ok_bounds(1) [OF ok]] pos desk_ok_bounds(2) [OF ok] by simp
  let ?v = "on_desk d (\<lambda>desk. desk\<lparr>pos_pokers := (pos_pokers desk)
      [nat pos := fold pset_erase params (hand desk pos)]\<rparr>) (on_desk d (desk_active (clock w)) w)"
  have same: "pos_index_of (desk_at (on_desk d (desk_active (clock w)) w) d) (Some c) = pos"
    using len pos by (simp add: pos_index_of_def)
  have at: "desk_at ?v d = played_desk w d pos params"
    using len by (simp add: played_desk_def hand_def) (simp add: desk_active_def)
  have "length (hand (desk_at ?v d) pos) \<noteq> 0"
    unfolding at using hand_played [OF p] left by simp
  then obtain u s where "queue_robot d (write_to_everyone d s (on_desk d move_next ?v)) = Inr w'"
    using show' pos(2) unfolding on_client_show_poker_def Let_def same by (auto simp: ebind_eq_Inr)
  then have "desk_at w' d = desk_at (on_desk d move_next ?v) d"
    using queue_robot_desks by (force simp: desk_at_def)
  then show ?thesis using at len by simp
qed

lemma show_poker_ends:
  assumes w: "plugin_ok n codes w" "d < n" and show': "on_client_show_poker c d params w = Inr w'"
    and pos: "pos = pos_index_of (desk_at w d) (Some c)" "pos \<noteq> -1"
    and left: "filter (\<lambda>p. p \<notin> set params) (hand (desk_at w d) pos) = []"
  shows "\<not> is_running (desk_at w' d) \<and> landlord (desk_at w' d) = None"
proof -
  have len: "d < length (desks w)" using w by (simp add: plugin_ok_def)
  have ok: "desk_ok (desk_at w d)" using w by (rule plugin_okD(2))
  have p: "nat pos < length (pos_pokers (desk_at w d))"
    using pos_index_seat(1) [OF desk_ok_bounds(1) [OF ok]] pos desk_ok_bounds(2) [OF ok] by simp
  let ?v = "on_desk d (\<lambda>desk. desk\<lparr>pos_pokers := (pos_pokers desk)
      [nat pos := fold pset_erase params (hand desk pos)]\<rparr>) (on_desk d (desk_active (clock w)) w)"
  have same: "pos_index_of (desk_at (on_desk d (desk_active (clock w)) w) d) (Some c) = pos"
    using len pos by (simp add: pos_index_of_def)
  have at: "desk_at ?v d = played_desk w d pos params"
    using len by (simp add: played_desk_def hand_def) (simp add: desk_active_def)
  have empty: "length (hand (desk_at ?v d) pos) = 0"
    unfolding at using hand_played [OF p] left by simp
  obtain s v u where u: "on_game_stop d c True v = Inr u" "w' = on_desk d (desk_reset (clock u)) u"
    "v = on_desk d (set_running False) (write_to_everyone d s ?v)"
    using show' pos(2) empty unfolding on_client_show_poker_def Let_def same by (auto simp: ebind_eq_Inr)
  have "plugin_ok n codes (on_desk d (desk_active (clock w)) w)" using w by (simp add: ok_turns)
  then have "plugin_ok n codes ?v" by (rule ok_on_desk) (simp add: hand_def desk_ok_erase)
  then have "plugin_ok n codes v" unfolding u(3) by (intro ok_turns ok_everyone)
  then have "plugin_ok n codes u" using returnsD [OF keeps_on_game_stop u(1)] by simp
  then have "d < length (desks u)" using w(2) by (simp add: plugin_ok_def)
  then show ?thesis unfolding u(2) by simp
qed

section \<open>The card handler\<close>

text \<open>A state of play: the client sits at a running desk with a landlord.\<close>

definition in_play :: "ddz_plugin \<Rightarrow> cid \<Rightarrow> nat \<Rightarrow> bool" where
  "in_play w c d \<longleftrightarrow> desk_of w c = Some d \<and> is_running (desk_at w d) \<and> landlord (desk_at w d) \<noteq> None"

lemma desk_of_info_of: "desk_of w c = Some d \<Longrightarrow> \<exists>info. get_info w c = Inr info \<and> info_desk info = Some d"
  by (auto simp: desk_of_def split: sum.splits)

lemma refuse_silent: "on_client_card_refuse c params w = Inr w' \<Longrightarrow> silent w' = silent w"
  using silent_refuse [of c params w w'] by auto

lemma read_cards_result:
  "read_cards h ps i chars = Next (Some chars') \<Longrightarrow>
     set ps \<subseteq> set h \<and> list_all is_poker ps \<and> chars' = chars @ map rank ps"
  by (induction h ps i chars rule: read_cards.induct) (auto split: if_splits)

text \<open>The table after an accepted play, before the cards are shown.\<close>

definition with_play :: "nat \<Rightarrow> cid \<Rightarrow> poker_info \<Rightarrow> ddz_plugin \<Rightarrow> ddz_plugin" where
  "with_play d c g w = on_desk d (\<lambda>desk. desk\<lparr>curr_poker := g, curr_shower := Some c\<rparr>)
     (if pi_type g = BOMB then on_desk d (\<lambda>desk. desk\<lparr>bomb_count := bomb_count desk + 1\<rparr>) w else w)"

lemma card_handler_cases:
  assumes "on_client_card_handle c params w = Inr w'" "silent w' \<noteq> silent w"
  obtains d where "in_play w c d" "desk_current (desk_at w d) = Some c"
      "params = [''0'']" "curr_shower (desk_at w d) \<noteq> None" "curr_shower (desk_at w d) \<noteq> Some c"
  | d g where "in_play w c d" "desk_current (desk_at w d) = Some c" "params \<noteq> [''0'']"
      "set params \<subseteq> set (hand (desk_at w d) (pos_index_of (desk_at w d) (Some c)))"
      "parse (map rank params) poker_info_zero = Inr g" "pi_type (snd g) \<noteq> ERR"
      "is_large (snd g) (curr_poker (desk_at w d))"
      "on_client_show_poker c d params (with_play d c (snd g) w) = Inr w'"
proof -
  obtain info where info: "get_info w c = Inr info" using assms
    by (auto simp: on_client_card_handle_def ebind_eq_Inr split: if_splits)
  obtain d where d: "info_desk info = Some d"
    using assms info by (cases "info_desk info") (auto simp: on_client_card_handle_def split: if_splits)
  let ?desk = "desk_at w d"
  have of: "desk_of w c = Some d" using info d by (simp add: desk_of_def)
  have run: "is_running ?desk" "landlord ?desk \<noteq> None" and turn: "desk_current ?desk = Some c"
    using assms info d
    by (auto simp: on_client_card_handle_def Let_def dest: refuse_silent split: if_splits)
  then have play: "in_play w c d" using of by (simp add: in_play_def)
  show ?thesis
  proof (cases "params = [''0'']")
    case True
    then have "curr_shower ?desk \<noteq> None" "curr_shower ?desk \<noteq> Some c"
      using assms info d run turn
      by (auto simp: on_client_card_handle_def Let_def ebind_eq_Inr split: if_splits)
    then show ?thesis using that(1) [OF play turn True] by simp
  next
    case False
    then have np: "\<not> (length params = Suc 0 \<and> params ! 0 = ''0'')" by (cases params) auto
    obtain chars where chars: "read_cards (hand ?desk (pos_index_of ?desk (Some c))) params 0 [] = Next (Some chars)"
      using assms info d run turn np
      by (auto simp: on_client_card_handle_def Let_def ebind_eq_Inr dest: refuse_silent
          split: if_splits flow.splits option.splits)
    obtain g where g: "parse chars poker_info_zero = Inr g" "pi_type (snd g) \<noteq> ERR" "is_large (snd g) (curr_poker ?desk)"
      "on_client_show_poker c d params (with_play d c (snd g) w) = Inr w'"
      using assms info d run turn np chars
      by (auto simp: on_client_card_handle_def Let_def ebind_eq_Inr with_play_def dest: refuse_silent
          split: if_splits)
    then show ?thesis
      using that(2) [OF play turn False _ _ g(2-4)] read_cards_result [OF chars] by simp
  qed
qed

section \<open>Legal plays are accepted\<close>

lemma read_cards_legal:
  "set ps \<subseteq> set h \<Longrightarrow> list_all is_poker ps \<Longrightarrow> i + length ps \<le> 21 \<Longrightarrow>
     read_cards h ps i chars = Next (Some (chars @ map rank ps))"
  by (induction h ps i chars rule: read_cards.induct) auto

lemma length_join: "list_all is_poker ps \<Longrightarrow> ps \<noteq> [] \<Longrightarrow> length (join '','' ps) = 3 * length ps - 1"
  by (induction "'',''" ps rule: join.induct) (auto simp: is_poker_def split: if_splits)

lemma length_pos_string: "0 \<le> p \<Longrightarrow> p < 3 \<Longrightarrow> length (pos_string p) = 1"
proof -
  assume "0 \<le> p" "p < 3"
  then have "p = 0 \<or> p = 1 \<or> p = 2" by linarith
  then show ?thesis by (auto simp: pos_string_def POS_STRINGS_def)
qed

lemma next_seated:
  assumes ok: "plugin_ok n codes w" "d < n" and full: "None \<notin> set (seats (desk_at w d))"
    and cur: "0 \<le> curr_pos (desk_at w d)"
  obtains c info where "desk_current (desk_at w d) = Some c" "get_info w c = Inr info"
proof -
  have dk: "desk_ok (desk_at w d)" using ok by (rule plugin_okD(2))
  have "nat (curr_pos (desk_at w d)) < length (seats (desk_at w d))"
    using desk_ok_bounds [OF dk] cur by simp
  then have in_seats: "pos_client (desk_at w d) (curr_pos (desk_at w d)) \<in> set (seats (desk_at w d))"
    by (simp add: pos_client_def)
  then obtain c where c: "pos_client (desk_at w d) (curr_pos (desk_at w d)) = Some c" using full by (metis option.exhaust)
  then have "desk_of w c = Some d" using plugin_okD(5) [OF ok] in_seats by metis
  then obtain info where "get_info w c = Inr info" using desk_of_info_of by blast
  then show ?thesis using that c cur by (simp add: desk_current_def)
qed

lemma queue_robot_returns:
  assumes "plugin_ok n codes w" "d < n" "None \<notin> set (seats (desk_at w d))" "0 \<le> curr_pos (desk_at w d)"
  shows "\<exists>w'. queue_robot d w = Inr w'"
proof -
  obtain c info where "desk_current (desk_at w d) = Some c" "get_info w c = Inr info"
    by (rule next_seated [OF assms])
  then show ?thesis by (simp add: queue_robot_def seated_def)
qed

lemma show_poker_returns:
  assumes ok: "plugin_ok n codes w" "d < n" and full: "None \<notin> set (seats (desk_at w d))"
    and c: "Some c \<in> set (seats (desk_at w d))"
    and params: "params \<noteq> []" "list_all is_poker params" "length params \<le> 20"
    and left: "filter (\<lambda>p. p \<notin> set params) (hand (desk_at w d) (pos_index_of (desk_at w d) (Some c))) \<noteq> []"
  shows "\<exists>w'. on_client_show_poker c d params w = Inr w'"
proof -
  have len: "d < length (desks w)" using ok by (simp add: plugin_ok_def)
  have dk: "desk_ok (desk_at w d)" using ok by (rule plugin_okD(2))
  define pos where "pos = pos_index_of (desk_at w d) (Some c)"
  have pos: "pos \<noteq> -1" using c by (simp add: pos_def pos_index_of_absent)
  have bounds: "0 \<le> pos" "pos < 3" "nat pos < length (pos_pokers (desk_at w d))"
    using pos_index_seat [OF desk_ok_bounds(1) [OF dk], of "Some c"] pos desk_ok_bounds(2) [OF dk] by (simp_all add: pos_def)
  let ?v = "on_desk d (\<lambda>desk. desk\<lparr>pos_pokers := (pos_pokers desk)
      [nat pos := fold pset_erase params (hand desk pos)]\<rparr>) (on_desk d (desk_active (clock w)) w)"
  have same: "pos_index_of (desk_at (on_desk d (desk_active (clock w)) w) d) (Some c) = pos"
    using len by (simp add: pos_index_of_def pos_def)
  have at: "desk_at ?v d = played_desk w d pos params"
    using len by (simp add: played_desk_def hand_def) (simp add: desk_active_def)
  have rest: "length (hand (desk_at ?v d) pos) \<noteq> 0"
    unfolding at using hand_played [OF bounds(3)] left by (simp add: pos_def)
  define said where "said = ''CAD '' @ pos_string pos @ '' '' @ join '','' params"
  have short: "length said < 70"
    using length_join [OF params(2,1)] length_pos_string [OF bounds(1,2)] params(3) by (simp add: said_def)
  let ?u = "on_desk d move_next ?v"
  have pos': "curr_pos (desk_at ?u d) = get_next_pos_index (desk_at ?v d)" using len by (simp add: move_next_def)
  define said' where "said' = said @ '' '' @ pos_string (curr_pos (desk_at ?u d)) @ '','' @
      flag (pi_type (curr_poker (desk_at ?u d)) = ZERO)"
  have short': "length said' < 76"
    unfolding said'_def pos' using short length_pos_string [of "get_next_pos_index (desk_at ?v d)"] by simp
  have "plugin_ok n codes ?v"
    using ok by (intro ok_on_desk) (auto simp: hand_def desk_ok_erase ok_turns)
  then have "plugin_ok n codes ?u" by (rule ok_turns)
  then have ok': "plugin_ok n codes (write_to_everyone d said' ?u)" by (rule ok_everyone)
  have full': "None \<notin> set (seats (desk_at (write_to_everyone d said' ?u) d))" using full len by simp
  have cur': "0 \<le> curr_pos (desk_at (write_to_everyone d said' ?u) d)" using pos' by simp
  obtain w' where "queue_robot d (write_to_everyone d said' ?u) = Inr w'"
    using queue_robot_returns [OF ok' ok(2) full' cur'] by auto
  then have "on_client_show_poker c d params w = Inr w'"
    unfolding on_client_show_poker_def Let_def same
    using pos rest short short' by (simp add: said_def [symmetric] said'_def [symmetric] del: append.simps)
  then show ?thesis by blast
qed

lemma with_play_ok: "plugin_ok n codes w \<Longrightarrow> plugin_ok n codes (with_play d c g w)"
  by (auto simp: with_play_def intro!: ok_on_desk)

lemma with_play_fields:
  assumes "d < length (desks w)"
  shows "curr_poker (desk_at (with_play d c g w) d) = g" "curr_shower (desk_at (with_play d c g w) d) = Some c"
    "seats (desk_at (with_play d c g w) d) = seats (desk_at w d)"
    "pos_pokers (desk_at (with_play d c g w) d) = pos_pokers (desk_at w d)"
    "curr_pos (desk_at (with_play d c g w) d) = curr_pos (desk_at w d)"
    "clock (with_play d c g w) = clock w"
  using assms by (simp_all add: with_play_def)

lemma legal_play_returns:
  assumes ok: "plugin_ok n codes w" and turn: "in_play w c d" "desk_current (desk_at w d) = Some c"
    and full: "None \<notin> set (seats (desk_at w d))"
    and params: "params \<noteq> []" "length params \<le> 20"
      "set params \<subseteq> set (hand (desk_at w d) (pos_index_of (desk_at w d) (Some c)))"
    and left: "\<not> set (hand (desk_at w d) (pos_index_of (desk_at w d) (Some c))) \<subseteq> set params"
    and group: "parse (map rank params) poker_info_zero = Inr g" "pi_type (snd g) \<noteq> ERR"
      "is_large (snd g) (curr_poker (desk_at w d))"
  shows "\<exists>w'. on_client_card_handle c params w = Inr w' \<and>
    desk_at w' d = move_next (played_desk (with_play d c (snd g) w) d (pos_index_of (desk_at w d) (Some c)) params)"
proof -
  let ?pos = "pos_index_of (desk_at w d) (Some c)" and ?v = "with_play d c (snd g) w"
  have of: "desk_of w c = Some d" using turn by (simp add: in_play_def)
  then have d: "d < n" "Some c \<in> set (seats (desk_at w d))" using plugin_okD(4) [OF ok] by auto
  obtain info where info: "get_info w c = Inr info" "info_desk info = Some d" using desk_of_info_of [OF of] by blast
  have len: "d < length (desks w)" using ok d by (simp add: plugin_ok_def)
  note f = with_play_fields [OF len, of c "snd g"]
  have dk: "desk_ok (desk_at w d)" using plugin_okD(2) [OF ok d(1)] .
  have pos: "?pos \<noteq> -1" using d(2) by (simp add: pos_index_of_absent)
  have same: "pos_index_of (desk_at ?v d) (Some c) = ?pos" by (simp add: pos_index_of_def f)
  have h: "hand (desk_at ?v d) k = hand (desk_at w d) k" for k by (simp add: hand_def f)
  have cards: "list_all is_poker params"
  proof -
    have "set (pos_pokers (desk_at w d) ! nat ?pos) \<subseteq> set DESK_POKERS"
      using hand_in_pack [OF dk _ pos_index_seat(1) [OF desk_ok_bounds(1) [OF dk] pos]] turn(1) by (simp add: in_play_def)
    then have "set params \<subseteq> set DESK_POKERS" using params(3) by (simp add: hand_def)
    then show ?thesis using DESK_POKERS_poker by (auto simp: list_all_iff)
  qed
  then have np: "\<not> (length params = 1 \<and> params ! 0 = ''0'')" using params(1) by (cases params) (auto simp: is_poker_def)
  have read: "read_cards (hand (desk_at w d) ?pos) params 0 [] = Next (Some (map rank params))"
    using read_cards_legal [OF params(3) cards, of 0 "[]"] params(2) by simp
  have rest: "filter (\<lambda>p. p \<notin> set params) (hand (desk_at w d) ?pos) \<noteq> []"
    using left by (auto simp: filter_empty_conv)
  obtain w' where w': "on_client_show_poker c d params ?v = Inr w'"
    using show_poker_returns [OF with_play_ok [OF ok, of d c "snd g"] d(1), where c = c and params = params]
      full d(2) params(1,2) cards rest by (auto simp: f same h)
  have "on_client_card_handle c params w = Inr w'"
    using info turn params(1) np pos read group w'
    by (cases g) (auto simp: on_client_card_handle_def in_play_def Let_def with_play_def)
  moreover have "desk_at w' d = move_next (played_desk ?v d ?pos params)"
    using show_poker_goes_on [OF with_play_ok [OF ok] d(1) w' same [symmetric] pos] rest by (simp add: h)
  ultimately show ?thesis by blast
qed

lemma parse_pair:
  "parse [r, r] poker_info_zero = Inr ([r, r], \<lparr>pi_type = DOUBLE, pi_value = r, pi_length = 2\<rparr>)"
  by (simp add: parse_def parse_sorted_def sortCards_def poker_info_set_def poker_info_zero_def
      bubble_pass_def swap_step_def)

section \<open>A small game\<close>

text \<open>
  Three players at the end of a game: the landlord leads and holds a pair of A and a D. Every card
  is in a hand it can be dealt to.
\<close>

definition lead_desk :: ddz_desk where
  "lead_desk = (new_desk 0)\<lparr>seats := [Some 0, Some 1, Some 2], is_running := True, landlord := Some 0,
     curr_pos := 0, first_pos := 0, pos_pokers := [[''A1'', ''A4'', ''D1''], [''A2''], [''A3'']]\<rparr>"

definition lead_game :: ddz_plugin where
  "lead_game = sample_game\<lparr>desks := [lead_desk]\<rparr>"

lemma lead_desk_fields:
  "seats lead_desk = [Some 0, Some 1, Some 2]" "is_running lead_desk" "landlord lead_desk = Some 0"
  "curr_pos lead_desk = 0" "pos_pokers lead_desk = [[''A1'', ''A4'', ''D1''], [''A2''], [''A3'']]"
  "curr_poker lead_desk = poker_info_zero" "curr_shower lead_desk = None"
  by (simp_all add: lead_desk_def) (simp_all add: new_desk_def desk_reset_def clear_pos_pokers_def)

lemma lead_desk_ok: "desk_ok lead_desk"
proof -
  have pack: "desk_pokers lead_desk = DESK_POKERS"
    by (simp add: lead_desk_def) (simp add: new_desk_def desk_reset_def clear_pos_pokers_def)
  have in_hand: "x \<in> set (dealt_to k [0..<51] DESK_POKERS)" if "DESK_POKERS ! i = x" "i < 51" "i mod 3 = k" for i k x
    using that by (auto simp: dealt_to_def)
  have "''A1'' \<in> set (dealt_to 0 [0..<51] DESK_POKERS)" by (rule in_hand [where i = 0]) (simp_all add: DESK_POKERS_def)
  moreover have "''A4'' \<in> set (dealt_to 0 [0..<51] DESK_POKERS)" by (rule in_hand [where i = 3]) (simp_all add: DESK_POKERS_def)
  moreover have "''D1'' \<in> set (dealt_to 0 [0..<51] DESK_POKERS)" by (rule in_hand [where i = 12]) (simp_all add: DESK_POKERS_def)
  moreover have "''A2'' \<in> set (dealt_to 1 [0..<51] DESK_POKERS)" by (rule in_hand [where i = 1]) (simp_all add: DESK_POKERS_def)
  moreover have "''A3'' \<in> set (dealt_to 2 [0..<51] DESK_POKERS)" by (rule in_hand [where i = 2]) (simp_all add: DESK_POKERS_def)
  ultimately have "set (pos_pokers lead_desk ! i) \<subseteq> may_hold lead_desk i" if "i = 0 \<or> i = 1 \<or> i = 2" for i
    using that by (auto simp: may_hold_def pack lead_desk_fields)
  then have "cards_placed lead_desk" unfolding cards_placed_def by (metis One_nat_def Suc_1 less_Suc_eq less_one numeral_3_eq_3)
  moreover have "desk_shape lead_desk"
    by (simp add: desk_shape_def lead_desk_fields pack one_seat_each_def)
      (simp add: lead_desk_def new_desk_def desk_reset_def clear_pos_pokers_def)
  ultimately show ?thesis by (simp add: desk_ok_def)
qed

lemma lead_game_ok: "plugin_ok 1 (\<lambda>_. 0) lead_game"
proof -
  have "verifi_code lead_desk = 0" by (simp add: lead_desk_def) (simp add: new_desk_def)
  moreover have "desk_of lead_game c = desk_of sample_game c" for c
    by (simp add: lead_game_def desk_of_def get_info_def the_client_def)
  ultimately show ?thesis
    using sample_game_ok
    by (auto simp: plugin_ok_def lead_game_def desk_at_def lead_desk_ok lead_desk_fields sample_game_def sample_desk_seats)
qed

lemma lead_at: "desk_at lead_game 0 = lead_desk" "length (desks lead_game) = 1"
  by (simp_all add: lead_game_def desk_at_def)

lemma lead_info: "c < 3 \<Longrightarrow> get_info lead_game c = Inr (new_game_info\<lparr>money := 10000, info_desk := Some 0\<rparr>)"
  by (auto simp: lead_game_def sample_game_def get_info_def the_client_def sample_client_def less_Suc_eq numeral_3_eq_3)

lemma lead_in_play: "in_play lead_game 0 0" "desk_current (desk_at lead_game 0) = Some 0"
  using lead_info [of 0]
  by (simp_all add: in_play_def desk_of_def lead_at lead_desk_fields desk_current_def pos_client_def)

section \<open>Properties\<close>

text \<open>
  C8. A command to play cards changes nothing but the messages sent unless a game with a landlord
  runs at the desk of the sender and it is the sender's turn; a pass moreover needs another player's
  play on the table.
\<close>
theorem only_current_player_plays:
  assumes "on_client_card_handle c params w = Inr w'"
    and "\<not> (\<exists>d. in_play w c d \<and> desk_current (desk_at w d) = Some c \<and>
          (params = [''0''] \<longrightarrow> curr_shower (desk_at w d) \<notin> {None, Some c}))"
  shows "silent w' = silent w"
proof (rule ccontr)
  assume "silent w' \<noteq> silent w"
  then show False using assms(2) by (cases rule: card_handler_cases [OF assms(1)]) auto
qed

lemma only_current_player_plays_witness:
  "\<exists>w'. on_client_card_handle 1 [''A2''] lead_game = Inr w' \<and> silent w' = silent lead_game \<and>
    outbox w' = [Write 1 ''RFS A2'']"
proof -
  have pos: "pos_index_of lead_desk (Some (Suc 0)) = 1" by (simp add: pos_index_of_def lead_desk_fields)
  have turn: "desk_current lead_desk = Some 0" by (simp add: desk_current_def pos_client_def lead_desk_fields)
  have h: "on_client_card_handle 1 [''A2''] lead_game = Inr (say 1 ''RFS A2'' lead_game)"
    using lead_info [of 1]
    by (simp add: on_client_card_handle_def on_client_card_refuse_def lead_at turn pos lead_desk_fields
        is_poker_def cchar_def Let_def)
  have "silent (say 1 ''RFS A2'' lead_game) = silent lead_game"
    by (rule only_current_player_plays [OF h]) (use turn lead_info [of 1] in \<open>auto simp: in_play_def desk_of_def lead_at\<close>)
  then show ?thesis using h by (simp add: lead_game_def sample_game_def new_plugin_def)
qed

text \<open>
  C6. A play that changes the table consists of cards the player holds, the parser accepts their
  ranks as a group, and the group beats the one on the table. The hand afterwards is what it was
  without the cards of the play: when nothing is left the game is over and the desk reset, otherwise
  the group is on the table under the player's name, and the turn has moved to the next seat.
\<close>
theorem accepted_play:
  assumes ok: "plugin_ok n codes w" and play: "on_client_card_handle c params w = Inr w'"
    and change: "silent w' \<noteq> silent w" "params \<noteq> [''0'']"
  shows "\<exists>d g. desk_of w c = Some d \<and> desk_current (desk_at w d) = Some c \<and>
    (let desk = desk_at w d; desk' = desk_at w' d; pos = pos_index_of desk (Some c);
         rest = filter (\<lambda>p. p \<notin> set params) (hand desk pos)
     in set params \<subseteq> set (hand desk pos) \<and> parse (map rank params) poker_info_zero = Inr g \<and>
        pi_type (snd g) \<noteq> ERR \<and> is_large (snd g) (curr_poker desk) \<and>
        (if rest = [] then \<not> is_running desk' \<and> landlord desk' = None
         else hand desk' pos = rest \<and> curr_poker desk' = snd g \<and> curr_shower desk' = Some c \<and>
           curr_pos desk' = (curr_pos desk + 1) mod 3 \<and>
           (\<forall>i. i \<noteq> nat pos \<longrightarrow> pos_pokers desk' ! i = pos_pokers desk ! i)))"
  using play change(1)
proof (cases rule: card_handler_cases)
  case (2 d g)
  let ?v = "with_play d c (snd g) w" and ?pos = "pos_index_of (desk_at w d) (Some c)"
  have of: "desk_of w c = Some d" using 2 by (simp add: in_play_def)
  then have d: "d < n" "Some c \<in> set (seats (desk_at w d))" using plugin_okD(4) [OF ok] by auto
  have len: "d < length (desks w)" using ok d by (simp add: plugin_ok_def)
  note f = with_play_fields [OF len, of c "snd g"]
  have dk: "desk_ok (desk_at w d)" using plugin_okD(2) [OF ok d(1)] .
  have pos: "?pos = pos_index_of (desk_at ?v d) (Some c)" "?pos \<noteq> -1"
    using d(2) by (simp_all add: pos_index_of_absent) (simp add: pos_index_of_def f)
  have p: "nat ?pos < length (pos_pokers (desk_at w d))"
    using pos_index_seat(1) [OF desk_ok_bounds(1) [OF dk], of "Some c"] pos(2) desk_ok_bounds(2) [OF dk] by simp
  have h: "hand (desk_at ?v d) k = hand (desk_at w d) k" for k by (simp add: hand_def f)
  let ?rest = "filter (\<lambda>p. p \<notin> set params) (hand (desk_at w d) ?pos)"
  show ?thesis
  proof (cases "?rest = []")
    case True
    then show ?thesis
      using show_poker_ends [OF with_play_ok [OF ok] d(1) 2(8) pos] of 2 by (auto simp: h Let_def)
  next
    case False
    have at: "desk_at w' d = move_next (played_desk ?v d ?pos params)"
      using show_poker_goes_on [OF with_play_ok [OF ok] d(1) 2(8) pos] False by (simp add: h)
    have "hand (desk_at w' d) ?pos = ?rest"
      using hand_played [of ?pos ?v d params] p by (simp add: at f h) (simp add: hand_def move_next_def)
    moreover have "curr_poker (desk_at w' d) = snd g" "curr_shower (desk_at w' d) = Some c"
        "curr_pos (desk_at w' d) = (curr_pos (desk_at w d) + 1) mod 3"
        "\<forall>i. i \<noteq> nat ?pos \<longrightarrow> pos_pokers (desk_at w' d) ! i = pos_pokers (desk_at w d) ! i"
      using f by (simp_all add: at move_next_def played_desk_def desk_active_def get_next_pos_index_def
          DESK_CAPACITY_def)
    ultimately show ?thesis using of 2 False by (auto simp: Let_def)
  qed
qed (use change in simp)

text \<open>
  C7. A legal play is always accepted: the player whose turn it is names at most twenty cards of the
  hand, at least one card stays, and the parser reads them as a group that beats the table. The
  handler then returns and the group is on the table.
\<close>
theorem legal_play_accepted:
  assumes ok: "plugin_ok n codes w" and turn: "in_play w c d" "desk_current (desk_at w d) = Some c"
    and full: "None \<notin> set (seats (desk_at w d))"
    and params: "params \<noteq> []" "length params \<le> 20"
      "set params \<subseteq> set (hand (desk_at w d) (pos_index_of (desk_at w d) (Some c)))"
    and left: "\<not> set (hand (desk_at w d) (pos_index_of (desk_at w d) (Some c))) \<subseteq> set params"
    and group: "parse (map rank params) poker_info_zero = Inr g" "pi_type (snd g) \<noteq> ERR"
      "is_large (snd g) (curr_poker (desk_at w d))"
  shows "\<exists>w'. on_client_card_handle c params w = Inr w' \<and> curr_poker (desk_at w' d) = snd g \<and>
    curr_shower (desk_at w' d) = Some c"
proof -
  have "desk_of w c = Some d" using turn by (simp add: in_play_def)
  then have "d < length (desks w)" using plugin_okD(1,4) [OF ok] by auto
  note f = with_play_fields [OF this, of c "snd g"]
  show ?thesis
    using legal_play_returns [OF ok turn full params left group] f
    by (auto simp: move_next_def played_desk_def desk_active_def)
qed

text \<open>
  The handler checks each card of a play against the hand by itself, so a card named twice
  passes twice: with an empty table the player can name one card as a pair. The pair is accepted
  and the hand loses a single card.
\<close>
theorem doubled_card_is_a_pair:
  assumes ok: "plugin_ok n codes w" and turn: "in_play w c d" "desk_current (desk_at w d) = Some c"
    and full: "None \<notin> set (seats (desk_at w d))" and table: "pi_type (curr_poker (desk_at w d)) = ZERO"
    and cards: "p \<in> set (hand (desk_at w d) (pos_index_of (desk_at w d) (Some c)))"
      "q \<in> set (hand (desk_at w d) (pos_index_of (desk_at w d) (Some c)))" "q \<noteq> p"
  shows "\<exists>w'. on_client_card_handle c [p, p] w = Inr w' \<and> pi_type (curr_poker (desk_at w' d)) = DOUBLE \<and>
    length (hand (desk_at w' d) (pos_index_of (desk_at w d) (Some c))) =
      length (hand (desk_at w d) (pos_index_of (desk_at w d) (Some c))) - 1"
proof -
  let ?pos = "pos_index_of (desk_at w d) (Some c)" and ?g = "([rank p, rank p], \<lparr>pi_type = DOUBLE, pi_value = rank p, pi_length = 2\<rparr>)"
  have of: "desk_of w c = Some d" using turn by (simp add: in_play_def)
  then have d: "d < n" "Some c \<in> set (seats (desk_at w d))" using plugin_okD(4) [OF ok] by auto
  then have len: "d < length (desks w)" using ok by (simp add: plugin_ok_def)
  have dk: "desk_ok (desk_at w d)" using plugin_okD(2) [OF ok d(1)] .
  have pos: "nat ?pos < length (pos_pokers (desk_at w d))"
    using pos_index_seat(1) [OF desk_ok_bounds(1) [OF dk], of "Some c"] d(2) desk_ok_bounds(2) [OF dk]
    by (simp add: pos_index_of_absent)
  have sorted: "sorted_wrt (<) (hand (desk_at w d) ?pos)"
    using dk pos by (simp add: desk_ok_def desk_shape_def hand_def)
  obtain w' where w': "on_client_card_handle c [p, p] w = Inr w'"
      "desk_at w' d = move_next (played_desk (with_play d c (snd ?g) w) d ?pos [p, p])"
    using legal_play_returns [OF ok turn full, of "[p, p]" ?g] cards table parse_pair [of "rank p"]
    by (auto simp: is_large_def)
  note f = with_play_fields [OF len, of c "snd ?g", unfolded snd_conv]
  have "curr_poker (desk_at w' d) = snd ?g"
    using f w'(2) by (simp add: move_next_def played_desk_def desk_active_def)
  moreover have "hand (desk_at w' d) ?pos = filter (\<lambda>x. x \<notin> set [p, p]) (hand (desk_at w d) ?pos)"
    using hand_played [of ?pos "with_play d c (snd ?g) w" d "[p, p]"] pos
    by (simp add: w'(2) f) (simp add: hand_def move_next_def f)
  moreover have "length (filter (\<lambda>x. x \<noteq> p) (hand (desk_at w d) ?pos)) = length (hand (desk_at w d) ?pos) - 1"
    using pset.length_del [OF sorted cards(1)] hand_without [of "[p]" "hand (desk_at w d) ?pos"] by simp
  ultimately show ?thesis using w'(1) by (auto cong: filter_cong)
qed

lemma lead_pair:
  "parse (map rank [''A1'', ''A4'']) poker_info_zero =
     Inr ([65, 65], \<lparr>pi_type = DOUBLE, pi_value = 65, pi_length = 2\<rparr>)"
  using parse_pair [of 65] by (simp add: cchar_def)

lemma lead_hand: "hand lead_desk (pos_index_of lead_desk (Some 0)) = [''A1'', ''A4'', ''D1'']"
  by (simp add: hand_def pos_index_of_def lead_desk_fields)

lemma lead_large: "is_large \<lparr>pi_type = DOUBLE, pi_value = v, pi_length = k\<rparr> poker_info_zero"
  by (simp add: is_large_def poker_info_zero_def)

lemma legal_play_accepted_witness:
  "\<exists>w'. on_client_card_handle 0 [''A1'', ''A4''] lead_game = Inr w' \<and>
    curr_poker (desk_at w' 0) = \<lparr>pi_type = DOUBLE, pi_value = 65, pi_length = 2\<rparr> \<and>
    curr_shower (desk_at w' 0) = Some 0"
  using legal_play_accepted [OF lead_game_ok lead_in_play, of "[''A1'', ''A4'']", OF _ _ _ _ _ lead_pair]
  by (simp add: lead_at lead_hand lead_large lead_desk_fields)

lemma lead_accepts:
  obtains w' where "on_client_card_handle 0 [''A1'', ''A4''] lead_game = Inr w'" "silent w' \<noteq> silent lead_game"
proof -
  let ?v = "with_play 0 0 \<lparr>pi_type = DOUBLE, pi_value = 65, pi_length = 2\<rparr> lead_game"
  have pos: "pos_index_of lead_desk (Some 0) = 0" by (simp add: pos_index_of_def lead_desk_fields)
  have v: "desk_at ?v 0 = lead_desk\<lparr>curr_poker := \<lparr>pi_type = DOUBLE, pi_value = 65, pi_length = 2\<rparr>, curr_shower := Some 0\<rparr>"
    by (simp add: with_play_def lead_at)
  have vpos: "pos_index_of (desk_at ?v 0) (Some 0) = 0"
    by (simp add: v pos_index_of_def lead_desk_fields)
  have vhand: "hand (desk_at ?v 0) 0 = [''A1'', ''A4'', ''D1'']" by (simp add: v hand_def lead_desk_fields)
  have vseats: "seats (desk_at ?v 0) = [Some 0, Some 1, Some 2]" by (simp add: v lead_desk_fields)
  obtain w' where w': "on_client_show_poker 0 0 [''A1'', ''A4''] ?v = Inr w'"
    using show_poker_returns [OF with_play_ok [OF lead_game_ok, of 0 0 "\<lparr>pi_type = DOUBLE, pi_value = 65, pi_length = 2\<rparr>"],
        where d = 0 and c = 0 and params = "[''A1'', ''A4'']"]
    by (auto simp: vseats vpos vhand is_poker_def cchar_def)
  have "desk_at w' 0 = move_next (played_desk ?v 0 0 [''A1'', ''A4''])"
    by (rule show_poker_goes_on [OF with_play_ok [OF lead_game_ok] _ w']) (simp_all add: vpos vhand)
  then have "curr_pos (desk_at w' 0) = 1"
    by (simp add: move_next_def get_next_pos_index_def DESK_CAPACITY_def played_desk_def desk_active_def v lead_desk_fields)
  then have "silent w' \<noteq> silent lead_game"
    using silent_frame(1) [of w' lead_game] lead_at lead_desk_fields(4) by (auto simp: desk_at_def)
  moreover have "on_client_card_handle 0 [''A1'', ''A4''] lead_game = Inr w'"
    using lead_info [of 0] lead_in_play lead_pair w' lead_hand lead_large [of 65 2]
    by (simp add: on_client_card_handle_def lead_at lead_desk_fields pos with_play_def is_poker_def cchar_def Let_def)
  ultimately show ?thesis using that by blast
qed

lemma accepted_play_witness:
  "\<exists>w'. on_client_card_handle 0 [''A1'', ''A4''] lead_game = Inr w' \<and> hand (desk_at w' 0) 0 = [''D1''] \<and>
    curr_pos (desk_at w' 0) = 1"
proof -
  obtain w' where w': "on_client_card_handle 0 [''A1'', ''A4''] lead_game = Inr w'" "silent w' \<noteq> silent lead_game"
    by (rule lead_accepts)
  have pos: "pos_index_of lead_desk (Some 0) = 0" by (simp add: pos_index_of_def lead_desk_fields)
  have of: "desk_of lead_game 0 = Some 0" using lead_in_play by (simp add: in_play_def)
  show ?thesis
    using accepted_play [OF lead_game_ok w'] w'(1) lead_hand
    by (simp add: lead_at of pos Let_def) (auto simp: lead_desk_fields)
qed

lemma doubled_card_is_a_pair_witness:
  "\<exists>w'. on_client_card_handle 0 [''D1'', ''D1''] lead_game = Inr w' \<and>
    pi_type (curr_poker (desk_at w' 0)) = DOUBLE \<and> length (hand (desk_at w' 0) 0) = 2"
proof -
  have "pos_index_of lead_desk (Some 0) = 0" by (simp add: pos_index_of_def lead_desk_fields)
  then show ?thesis
    using doubled_card_is_a_pair [OF lead_game_ok lead_in_play, of "''D1''" "''A1''"] lead_hand
    by (simp add: lead_at lead_desk_fields poker_info_zero_def numeral_2_eq_2)
qed

end
