(* ===== verification/PluginSettle.thy ===== *)
theory PluginSettle
  imports PluginPlay
begin

text \<open>
  Settling a game (\<^verbatim>\<open>ddz_plugin::on_game_stop\<close>): what every player has afterwards, when the landlord
  has lost and when it has won.
\<close>

section \<open>Money\<close>

definition money_of :: "ddz_plugin \<Rightarrow> cid \<Rightarrow> int" where
  "money_of w c = (case get_info w c of Inl _ \<Rightarrow> 0 | Inr i \<Rightarrow> money i)"

lemma money_of_frame [simp]:
  "money_of (emit e w) c = money_of w c" "money_of (say c' s w) c = money_of w c"
  "money_of (write_to_everyone d s w) c = money_of w c" "money_of (on_desk d f w) c = money_of w c"
  by (simp_all add: money_of_def)

lemma money_of_put: "get_info w c = Inr i \<Longrightarrow> money_of (put_info c i' w) x = (if x = c then money i' else money_of w x)"
  by (simp add: money_of_def get_info_put_info)

lemma money_of_info: "get_info w c = Inr i \<Longrightarrow> money_of w c = money i"
  by (simp add: money_of_def)

lemma money_update: "info_update m e x y i = Inr i' \<Longrightarrow> money i' = money i + m"
  by (auto simp: info_update_def ebind_eq_Inr)

lemma mul_pow_eq_Inr: "mul_pow m b e = Inr x \<longleftrightarrow> (let p = if e < 0 then 0 else b ^ nat e in
    x = m * p \<and> int32 p = Inr p \<and> int32 (m * p) = Inr (m * p))"
  by (auto simp: mul_pow_def int_pow_def ebind_eq_Inr Let_def)

lemma mul_pow_nonneg: "mul_pow m b e = Inr x \<Longrightarrow> 0 \<le> b \<Longrightarrow> 0 \<le> m \<Longrightarrow> 0 \<le> x"
  by (auto simp: mul_pow_eq_Inr Let_def)

lemma total_multiple_nonneg: "total_multiple base d = Inr tm \<Longrightarrow> 0 \<le> base \<Longrightarrow> 0 \<le> tm"
  by (auto simp: total_multiple_def ebind_eq_Inr dest!: mul_pow_nonneg)

text \<open>The multiple doubles with every bomb and every rocket, so it soon does not fit an \<^verbatim>\<open>int\<close>.\<close>

lemma many_bombs_overflow: "30 < bomb_count d \<Longrightarrow> total_multiple base d \<in> range Inl"
proof -
  assume "30 < bomb_count d"
  then have "(2::int) ^ 31 \<le> 2 ^ nat (bomb_count d)" by (intro power_increasing) auto
  then have "\<not> (\<exists>m x. mul_pow m 2 (bomb_count d) = Inr x)"
    using \<open>30 < bomb_count d\<close> by (auto simp: mul_pow_eq_Inr Let_def)
  then have "total_multiple base d \<noteq> Inr tm" for tm by (auto simp: total_multiple_def ebind_eq_Inr)
  then show ?thesis by (cases "total_multiple base d") auto
qed

section \<open>Shares\<close>

definition peasant_at :: "ddz_desk \<Rightarrow> nat \<Rightarrow> cid \<Rightarrow> bool" where
  "peasant_at desk i c \<longleftrightarrow> seats desk ! i = Some c \<and> landlord desk \<noteq> Some c"

lemma settle_peasant_won_cases:
  assumes "settle_peasant_won d tm k i w = Inr w'" "0 \<le> k"
  obtains (skip) "w' = w" "\<And>x. \<not> peasant_at (desk_at w d) i x"
  | (pay) c info info' s where "seats (desk_at w d) ! i = Some c" "landlord (desk_at w d) \<noteq> Some c" "get_info w c = Inr info"
      "money info' = money info + k div 2" "w' = write_to_everyone d s (put_info c info' w)"
proof (cases "seats (desk_at w d) ! i")
  case None
  then show ?thesis using assms(1) skip by (simp add: settle_peasant_won_def peasant_at_def)
next
  case (Some c)
  have k: "\<not> k div 2 < 0" using assms(2) by simp
  show ?thesis
  proof (cases "landlord (desk_at w d) = Some c")
    case True
    then show ?thesis using assms(1) skip Some by (simp add: settle_peasant_won_def peasant_at_def)
  next
    case False
    then obtain info info' s where r: "get_info w c = Inr info" "info_update (k div 2) tm 1 0 info = Inr info'"
      "w' = write_to_everyone d s (put_info c info' w)"
      using assms(1) Some k by (auto simp: settle_peasant_won_def Let_def ebind_eq_Inr game_tax_def)
    show ?thesis by (rule pay [OF Some False r(1) money_update [OF r(2)] r(3)])
  qed
qed

lemma settle_peasant_won_share:
  assumes "settle_peasant_won d tm k i w = Inr w'" "0 \<le> k"
  shows "desks w' = desks w \<and>
    (\<forall>x. money_of w' x = money_of w x + (if peasant_at (desk_at w d) i x then k div 2 else 0))"
  using assms
proof (cases rule: settle_peasant_won_cases)
  case (pay c info info' s)
  then show ?thesis by (auto simp: peasant_at_def money_of_put money_of_info)
qed simp

lemma settle_peasants_won:
  assumes "efold (settle_peasant_won d tm k) is w = Inr w'" "0 \<le> k"
  shows "desks w' = desks w \<and>
    (\<forall>x. money_of w' x = money_of w x + (\<Sum>i\<leftarrow>is. if peasant_at (desk_at w d) i x then k div 2 else 0))"
  using assms(1)
proof (induction "is" arbitrary: w)
  case (Cons i "is")
  then obtain v where v: "settle_peasant_won d tm k i w = Inr v" "efold (settle_peasant_won d tm k) is v = Inr w'"
    by (auto simp: ebind_eq_Inr)
  note one = settle_peasant_won_share [OF v(1) assms(2)]
  then have "desk_at v d = desk_at w d" by (simp add: desk_at_def)
  then show ?case using Cons.IH [OF v(2)] one by simp
qed simp

lemma settle_peasant_lost_cases:
  assumes "settle_peasant_lost d tm i (win, w) = Inr (win', w')"
  obtains (skip) "w' = w" "\<And>x. \<not> peasant_at (desk_at w d) i x"
  | (pay) c info info' s where "seats (desk_at w d) ! i = Some c" "landlord (desk_at w d) \<noteq> Some c" "get_info w c = Inr info"
      "money info' = money info + min (tm * 2) (money info)" "w' = write_to_everyone d s (put_info c info' w)"
proof (cases "seats (desk_at w d) ! i")
  case None
  then show ?thesis using assms skip by (simp add: settle_peasant_lost_def peasant_at_def)
next
  case (Some c)
  show ?thesis
  proof (cases "landlord (desk_at w d) = Some c")
    case True
    then show ?thesis using assms skip Some by (simp add: settle_peasant_lost_def peasant_at_def)
  next
    case False
    have lost: "(if money info < tm * 2 then money info else tm * 2) = min (tm * 2) (money info)" for info by simp
    from False obtain info info' s where r: "get_info w c = Inr info" "info_update (min (tm * 2) (money info)) tm 0 1 info = Inr info'"
      "w' = write_to_everyone d s (put_info c info' w)"
      using assms Some unfolding settle_peasant_lost_def Let_def game_tax_def
      by (simp add: ebind_eq_Inr lost del: min_less_iff_conj min_less_iff_disj split del: if_split) blast
    show ?thesis by (rule pay [OF Some False r(1) money_update [OF r(2)] r(3)])
  qed
qed

lemma settle_peasant_lost_share:
  assumes "settle_peasant_lost d tm i (win, w) = Inr (win', w')"
  shows "desks w' = desks w \<and>
    (\<forall>x. money_of w' x = money_of w x + (if peasant_at (desk_at w d) i x then min (tm * 2) (money_of w x) else 0))"
  using assms
proof (cases rule: settle_peasant_lost_cases)
  case (pay c info info' s)
  then show ?thesis by (auto simp: peasant_at_def money_of_put money_of_info)
qed simp

text \<open>A peasant is at one seat, so its share is paid once.\<close>

lemma peasant_seats:
  assumes "length (seats desk) = 3" "one_seat_each (seats desk)"
  shows "(\<Sum>i\<leftarrow>[0, 1, 2]. if peasant_at desk i x then m else (0::int)) =
    (if Some x \<in> set (seats desk) \<and> landlord desk \<noteq> Some x then m else 0)"
proof -
  obtain a b c where abc: "seats desk = [a, b, c]" using assms(1) by (auto simp: length_Suc_conv numeral_3_eq_3)
  show ?thesis using assms(2) by (cases a; cases b; cases c) (auto simp: peasant_at_def abc one_seat_each_def)
qed

lemma settle_peasants_lost:
  assumes shape: "length (seats (desk_at w d)) = 3" "one_seat_each (seats (desk_at w d))"
    and run: "efold (settle_peasant_lost d tm) [0, 1, 2] (0, w) = Inr (win, w')"
  shows "desks w' = desks w \<and>
    (\<forall>x. money_of w' x = money_of w x +
      (if Some x \<in> set (seats (desk_at w d)) \<and> landlord (desk_at w d) \<noteq> Some x
       then min (tm * 2) (money_of w x) else 0))"
proof -
  let ?desk = "desk_at w d"
  from run obtain p1 p2 where
    "settle_peasant_lost d tm 0 (0, w) = Inr p1" "settle_peasant_lost d tm 1 p1 = Inr p2"
    "settle_peasant_lost d tm 2 p2 = Inr (win, w')"
    by (auto simp: ebind_eq_Inr)
  then obtain a1 w1 a2 w2 where s: "settle_peasant_lost d tm 0 (0, w) = Inr (a1, w1)"
    "settle_peasant_lost d tm 1 (a1, w1) = Inr (a2, w2)" "settle_peasant_lost d tm 2 (a2, w2) = Inr (win, w')"
    by (cases p1; cases p2) auto
  note share = settle_peasant_lost_share [OF s(1)] settle_peasant_lost_share [OF s(2)] settle_peasant_lost_share [OF s(3)]
  have at: "desk_at w1 d = ?desk" "desk_at w2 d = ?desk" using share by (simp_all add: desk_at_def)
  have once: "\<not> (peasant_at ?desk i x \<and> peasant_at ?desk j x)" if "i < 3" "j < 3" "i \<noteq> j" for i j x
    using one_seat_each_nth [OF shape(2), of i j] shape(1) that by (auto simp: peasant_at_def)
  have some: "Some x \<in> set (seats ?desk) \<and> landlord ?desk \<noteq> Some x \<longleftrightarrow>
      peasant_at ?desk 0 x \<or> peasant_at ?desk 1 x \<or> peasant_at ?desk 2 x" for x
  proof -
    obtain a b c where "seats ?desk = [a, b, c]" using shape(1) by (auto simp: length_Suc_conv numeral_3_eq_3)
    then show ?thesis by (auto simp: peasant_at_def)
  qed
  show ?thesis
    unfolding some using share at once [of 0 1] once [of 0 2] once [of 1 2] by auto
qed

lemma send_left_cards_money:
  "send_left_cards d i w = Inr w' \<Longrightarrow> desks w' = desks w \<and> base_multiple w' = base_multiple w \<and> (\<forall>x. money_of w' x = money_of w x)"
  by (auto simp: send_left_cards_def ebind_eq_Inr Let_def say_seat_def money_of_put money_of_info split: if_splits)

lemma send_all_left_cards_money:
  assumes "efold (send_left_cards d) is w = Inr w'"
  shows "desks w' = desks w \<and> base_multiple w' = base_multiple w \<and> (\<forall>x. money_of w' x = money_of w x)"
  by (rule efold_invariant [where I = "\<lambda>v. desks v = desks w \<and> base_multiple v = base_multiple w \<and> (\<forall>x. money_of v x = money_of w x)",
        OF _ _ assms]) (auto dest: send_left_cards_money)

lemma on_game_stop_normal:
  assumes "on_game_stop d c True w = Inr w'"
  obtains tm v u where "total_multiple (base_multiple w) (desk_at w d) = Inr tm"
    "desks v = desks w" "\<forall>x. money_of v x = money_of w x"
    "(if Some c = landlord (desk_at w d) then settle_landlord_won d tm v else settle_landlord_lost d tm v) = Inr u"
    "w' = on_desk d (desk_reset (clock u)) u"
proof -
  obtain v0 s tm u where v0: "efold (send_left_cards d) [0, 1, 2] (write_to_everyone d ''STP 1'' w) = Inr v0"
    and tm: "total_multiple (base_multiple v0) (desk_at v0 d) = Inr tm"
    and u: "(if Some c = landlord (desk_at v0 d) then settle_landlord_won d tm (write_to_everyone d s v0)
      else settle_landlord_lost d tm (write_to_everyone d s v0)) = Inr u"
    "w' = on_desk d (desk_reset (clock u)) u"
    using assms unfolding on_game_stop_def Let_def by (auto simp: ebind_eq_Inr simp del: efold.simps)
  note m = send_all_left_cards_money [OF v0]
  have same: "desk_at v0 d = desk_at w d" "base_multiple v0 = base_multiple w" using m by (simp_all add: desk_at_def)
  show ?thesis by (rule that [OF tm [unfolded same] _ _ u(1) [unfolded same] u(2)]) (use m in simp_all)
qed

lemma landlord_lost_run:
  assumes "settle_landlord_lost d tm v = Inr u" "landlord (desk_at v d) = Some l" "0 \<le> tm" "0 \<le> money_of v l"
  obtains info info' s where "get_info v l = Inr info" "tm * 4 < 2 ^ 31" "money info' = money info - min (tm * 4) (money info)"
    "efold (settle_peasant_won d tm (min (tm * 4) (money info))) [0, 1, 2]
      (write_to_everyone d s (put_info l info' v)) = Inr u"
proof -
  obtain info where info: "get_info v l = Inr info"
    using assms(1,2) by (auto simp: settle_landlord_lost_def seated_def ebind_eq_Inr)
  have m: "0 \<le> money info" using assms(4) info by (simp add: money_of_info)
  define loss where "loss = (if money info < tm * 2 * 2 then money info else tm * 2 * 2)"
  have small: "tm < 536870912"
    using assms(1,2) info by (auto simp: settle_landlord_lost_def seated_def ebind_eq_Inr Let_def game_tax_def simp del: efold.simps)
  have "0 \<le> loss" "loss < 2147483648" using m assms(3) small by (auto simp: loss_def)
  then have fits: "int32 (tm * 2) = Inr (tm * 2)" "int32 (tm * 2 * 2) = Inr (tm * 2 * 2)" "int32 loss = Inr loss"
    "int32 (0 - loss) = Inr (0 - loss)" "int32 (0 - tm * 2) = Inr (0 - tm * 2)" "\<not> loss < 0"
    using assms(3) small by auto
  obtain info' s where r: "info_update (0 - loss) (0 - tm * 2) 0 1 info = Inr info'"
    "efold (settle_peasant_won d tm loss) [0, 1, 2] (write_to_everyone d s (put_info l info' v)) = Inr u"
    using assms(1) unfolding settle_landlord_lost_def seated_def assms(2) option.case Let_def info game_tax_def ebind_simps
      diff_0_right fits loss_def [symmetric] if_not_P [OF fits(6)] ebind_eq_Inr by blast
  have "loss = min (tm * 4) (money info)" by (simp add: loss_def)
  with that [OF info _ _ r(2) [unfolded this]] small money_update [OF r(1)] show ?thesis by simp
qed

section \<open>Properties\<close>

lemma loss_bounds:
  fixes m :: int
  assumes "0 \<le> tm" "0 \<le> m"
  shows "0 \<le> min (tm * 4) m" "0 \<le> m - min (tm * 4) m"
  using assms by auto

text \<open>
  C9. When a peasant has played the last card and the settlement returns, the multiple fits an \<^verbatim>\<open>int\<close> four times over, the landlord
  loses four times the multiple, but never more than it has, and each peasant gets half of that. Nobody else's money changes and
  nobody's becomes negative; an odd amount loses its last coin in the division.
\<close>
theorem landlord_lost_settlement:
  assumes ok: "plugin_ok n codes w" "d < n" and stop: "on_game_stop d c True w = Inr w'"
    and lost: "landlord (desk_at w d) = Some l" "l \<noteq> c"
    and rich: "0 \<le> base_multiple w" "0 \<le> money_of w l"
  shows "\<exists>tm lost. total_multiple (base_multiple w) (desk_at w d) = Inr tm \<and> 0 \<le> tm \<and> tm * 4 < 2 ^ 31 \<and>
     lost = min (tm * 4) (money_of w l) \<and>
     money_of w' l = money_of w l - lost \<and> 0 \<le> money_of w' l \<and>
     (\<forall>x. x \<noteq> l \<longrightarrow> money_of w' x = money_of w x + (if Some x \<in> set (seats (desk_at w d)) then lost div 2 else 0))"
proof -
  have shape: "length (seats (desk_at w d)) = 3" "one_seat_each (seats (desk_at w d))"
    using plugin_okD(2) [OF ok] by (simp_all add: desk_ok_def desk_shape_def)
  obtain tm v u where tm: "total_multiple (base_multiple w) (desk_at w d) = Inr tm"
    and v: "desks v = desks w" "\<forall>x. money_of v x = money_of w x"
    and settle: "settle_landlord_lost d tm v = Inr u" and w': "w' = on_desk d (desk_reset (clock u)) u"
    using on_game_stop_normal [OF stop] lost by (auto split: if_splits)
  have tm0: "0 \<le> tm" by (rule total_multiple_nonneg [OF tm rich(1)])
  have at: "desk_at v d = desk_at w d" using v(1) by (simp add: desk_at_def)
  have v_l: "landlord (desk_at v d) = Some l" "0 \<le> money_of v l" using lost(1) at rich(2) v(2) by simp_all
  define loss where "loss = min (tm * 4) (money_of w l)"
  have loss: "0 \<le> loss" "loss \<le> money_of w l" using tm0 rich(2) by (simp_all add: loss_def)
  obtain info info' s where info: "get_info v l = Inr info" "tm * 4 < 2 ^ 31" "money info' = money_of w l - loss"
    and peasants: "efold (settle_peasant_won d tm loss) [0, 1, 2] (write_to_everyone d s (put_info l info' v)) = Inr u"
  proof (rule landlord_lost_run [OF settle v_l(1) tm0 v_l(2)])
    fix info info' s
    assume i: "get_info v l = Inr info" "tm * 4 < 2 ^ 31" "money info' = money info - min (tm * 4) (money info)"
      "efold (settle_peasant_won d tm (min (tm * 4) (money info))) [0, 1, 2] (write_to_everyone d s (put_info l info' v)) = Inr u"
    have "money info = money_of w l" using v(2) i(1) by (simp add: money_of_info [symmetric])
    then show thesis using that [OF i(1,2)] i(3,4) by (simp add: loss_def del: efold.simps)
  qed
  let ?u0 = "write_to_everyone d s (put_info l info' v)"
  have u0_money: "money_of ?u0 x = (if x = l then money_of w l - loss else money_of w x)" for x
    using v(2) info by (simp add: money_of_put [OF info(1)])
  note share = settle_peasants_won [OF peasants loss(1)]
  have "money_of w' x = money_of ?u0 x + (if Some x \<in> set (seats (desk_at w d)) \<and> landlord (desk_at w d) \<noteq> Some x
      then loss div 2 else 0)" for x
    using share peasant_seats [OF shape, of x "loss div 2"] by (simp add: w' at)
  then show ?thesis
    using u0_money loss lost tm tm0 info(2) by (auto simp: loss_def [symmetric])
qed

text \<open>
  C12. When the landlord has played the last card and the settlement returns, nobody pays: every peasant's money grows by what it was to
  lose (twice the multiple, at most what it has), and the landlord's money stays as it was.
\<close>
theorem landlord_won_settlement:
  assumes ok: "plugin_ok n codes w" "d < n" and stop: "on_game_stop d l True w = Inr w'"
    and won: "landlord (desk_at w d) = Some l"
  shows "\<exists>tm. total_multiple (base_multiple w) (desk_at w d) = Inr tm \<and>
     money_of w' l = money_of w l \<and>
     (\<forall>x. x \<noteq> l \<longrightarrow> money_of w' x = money_of w x +
       (if Some x \<in> set (seats (desk_at w d)) then min (tm * 2) (money_of w x) else 0))"
proof -
  have shape: "length (seats (desk_at w d)) = 3" "one_seat_each (seats (desk_at w d))"
    using plugin_okD(2) [OF ok] by (simp_all add: desk_ok_def desk_shape_def)
  obtain tm v u where tm: "total_multiple (base_multiple w) (desk_at w d) = Inr tm"
    and v: "desks v = desks w" "\<forall>x. money_of v x = money_of w x"
    and settle: "settle_landlord_won d tm v = Inr u" and w': "w' = on_desk d (desk_reset (clock u)) u"
    using on_game_stop_normal [OF stop] won by (auto split: if_splits)
  have at: "desk_at v d = desk_at w d" using v(1) by (simp add: desk_at_def)
  obtain win u0 s where run: "efold (settle_peasant_lost d tm) [0, 1, 2] (0, v) = Inr (win, u0)"
    and u: "u = write_to_everyone d s u0"
    using settle by (auto simp: settle_landlord_won_def ebind_eq_Inr Let_def simp del: efold.simps)
  have "money_of u x = money_of w x +
      (if Some x \<in> set (seats (desk_at w d)) \<and> landlord (desk_at w d) \<noteq> Some x
       then min (tm * 2) (money_of w x) else 0)" for x
    using settle_peasants_lost [OF _ _ run] shape v(2) by (simp add: at u)
  then show ?thesis using won tm by (auto simp: w')
qed

section \<open>The settlement fits its buffers\<close>

text \<open>The amounts of a player are below \<open>N\<close>; no money is owed.\<close>

definition info_bound :: "int \<Rightarrow> ddz_game_info \<Rightarrow> bool" where
  "info_bound N i \<longleftrightarrow> 0 \<le> money i \<and> money i < N \<and> \<bar>experience i\<bar> < N \<and> \<bar>win_count i\<bar> < N \<and> \<bar>fail_count i\<bar> < N \<and>
     \<bar>money_modify i\<bar> < N \<and> \<bar>experience_modify i\<bar> < N \<and> \<bar>win_count_modify i\<bar> < N \<and> \<bar>fail_count_modify i\<bar> < N"

lemma info_bound_ready [simp]: "info_bound N (i\<lparr>is_ready := b\<rparr>) = info_bound N i"
  by (simp add: info_bound_def)

lemma info_bound_mono: "info_bound N i \<Longrightarrow> N \<le> M \<Longrightarrow> info_bound M i"
  by (auto simp: info_bound_def)

lemma info_update_bounded:
  assumes "info_bound N i" "0 \<le> money i + m" "\<bar>m\<bar> \<le> K" "\<bar>e\<bar> \<le> K" "\<bar>x\<bar> \<le> K" "\<bar>y\<bar> \<le> K" "N + K \<le> 2000000000"
  obtains i' where "info_update m e x y i = Inr i'" "info_bound (N + K) i'"
proof -
  have fits: "int32 (a + b) = Inr (a + b)" if "\<bar>a\<bar> < N" "\<bar>b\<bar> \<le> K" for a b using that assms(7) by (intro int32_fits) linarith
  have grows: "\<bar>a + b\<bar> < N + K" if "\<bar>a\<bar> < N" "\<bar>b\<bar> \<le> K" for a b using that by linarith
  from assms(1) have b: "\<bar>money i\<bar> < N" "\<bar>experience i\<bar> < N" "\<bar>win_count i\<bar> < N" "\<bar>fail_count i\<bar> < N" "\<bar>money_modify i\<bar> < N"
    "\<bar>experience_modify i\<bar> < N" "\<bar>win_count_modify i\<bar> < N" "\<bar>fail_count_modify i\<bar> < N" by (auto simp: info_bound_def)
  note k = assms(3-6)
  have "info_bound (N + K) (i\<lparr>money_modify := money_modify i + m, experience_modify := experience_modify i + e, money := money i + m,
      experience := experience i + e, win_count_modify := win_count_modify i + x, win_count := win_count i + x,
      fail_count_modify := fail_count_modify i + y, fail_count := fail_count i + y\<rparr>)"
    using assms(2) grows [OF b(1) k(1)] by (simp add: info_bound_def grows b k)
  with that show thesis unfolding info_update_def fits [OF b(1) k(1)] fits [OF b(2) k(2)] fits [OF b(3) k(3)] fits [OF b(4) k(4)]
    fits [OF b(5) k(1)] fits [OF b(6) k(2)] fits [OF b(7) k(3)] fits [OF b(8) k(4)] ebind_simps by blast
qed

definition in_bounds :: "int \<Rightarrow> ddz_plugin \<Rightarrow> bool" where
  "in_bounds N w \<longleftrightarrow> (\<forall>c r. clients w c = Some r \<longrightarrow> length (client_id r) \<le> 32 \<and> length (client_name r) \<le> 32 \<and>
     (\<forall>i. game_info r = Some i \<longrightarrow> info_bound N i))"

lemma in_boundsD:
  assumes "in_bounds N w" "get_info w c = Inr i"
  obtains r where "the_client w c = Inr r" "length (client_id r) \<le> 32" "length (client_name r) \<le> 32" "info_bound N i"
proof -
  obtain r where "clients w c = Some r" "game_info r = Some i" using assms(2) by (auto simp: get_info_eq_Inr)
  with assms(1) show ?thesis using that [of r] by (auto simp: in_bounds_def the_client_def)
qed

lemma in_bounds_frame [simp]:
  "in_bounds N (emit e w) = in_bounds N w" "in_bounds N (say c s w) = in_bounds N w"
  "in_bounds N (write_to_everyone d s w) = in_bounds N w" "in_bounds N (on_desk d f w) = in_bounds N w"
  by (simp_all add: in_bounds_def)

lemma in_bounds_mono: "in_bounds N w \<Longrightarrow> N \<le> M \<Longrightarrow> in_bounds M w"
  unfolding in_bounds_def by (blast intro: info_bound_mono)

lemma in_bounds_put:
  assumes "in_bounds N w" "get_info w c = Inr i" "info_bound N i'"
  shows "in_bounds N (put_info c i' w)"
  using assms by (auto simp: in_bounds_def put_info_def get_info_eq_Inr)

lemma in_bounds_update:
  assumes "in_bounds N w" "get_info w c = Inr i" "0 \<le> money i + m" "\<bar>m\<bar> \<le> K" "\<bar>e\<bar> \<le> K" "\<bar>x\<bar> \<le> K" "\<bar>y\<bar> \<le> K"
    "N + K \<le> 2000000000"
  obtains i' where "info_update m e x y i = Inr i'" "in_bounds (N + K) (put_info c i' w)"
proof -
  obtain r where i: "info_bound N i" by (rule in_boundsD [OF assms(1,2)])
  obtain i' where i': "info_update m e x y i = Inr i'" "info_bound (N + K) i'"
    by (rule info_update_bounded [OF i assms(3-8)])
  have "in_bounds (N + K) w" using assms(4) by (intro in_bounds_mono [OF assms(1)]) linarith
  from that [OF i'(1) in_bounds_put [OF this assms(2) i'(2)]] show thesis .
qed

lemma length_show_int: "\<bar>i\<bar> < 10 ^ 10 \<Longrightarrow> length (show_int i) \<le> 11"
proof -
  assume "\<bar>i\<bar> < 10 ^ 10"
  then have "nat \<bar>i\<bar> < 10 ^ 10" by simp
  then have "length (show_nat (nat \<bar>i\<bar>)) \<le> 10" by (rule length_show_nat) simp
  then show ?thesis by (cases "i < 0") (simp_all add: show_int_def abs_if)
qed

lemma upd_message_fits:
  assumes "in_bounds N w" "N \<le> 2000000000" "get_info w c = Inr i" "\<bar>p\<bar> < 10 ^ 10" "\<bar>m\<bar> < 10 ^ 10" "\<bar>e\<bar> < 10 ^ 10"
    "length flags = 3"
  obtains s where "upd_message w c p flags m e i = Inr s"
proof -
  obtain r where r: "the_client w c = Inr r" "length (client_id r) \<le> 32" "length (client_name r) \<le> 32" "info_bound N i"
    by (rule in_boundsD [OF assms(1,3)])
  have "length (show_int p) \<le> 11" "length (show_int m) \<le> 11" "length (show_int e) \<le> 11"
    "length (show_int (money i)) \<le> 11" "length (show_int (experience i)) \<le> 11"
    "length (show_int (win_count i)) \<le> 11" "length (show_int (fail_count i)) \<le> 11"
    using r(4) assms(2,4-6) by (auto simp: info_bound_def intro!: length_show_int)
  then show ?thesis
    using r(1-3) assms(7) that unfolding upd_message_def by (simp add: sprintf_def)
qed

definition joined :: "ddz_plugin \<Rightarrow> nat \<Rightarrow> bool" where
  "joined w d \<longleftrightarrow> (\<forall>c. Some c \<in> set (seats (desk_at w d)) \<longrightarrow> (\<exists>i. get_info w c = Inr i))"

lemma joined_put: "joined w d \<Longrightarrow> get_info w c = Inr i \<Longrightarrow> joined (put_info c i' w) d"
  by (auto simp: joined_def get_info_put_info)

lemma joined_frame [simp]: "joined (write_to_everyone d' s w) d = joined w d" "joined (say c s w) d = joined w d"
  by (simp_all add: joined_def)

text \<open>One share moves no amount by more than \<open>share_max\<close>.\<close>

definition share_max :: int where "share_max = 250000000"

lemma settle_peasant_won_returns:
  assumes b: "in_bounds N w" "N + share_max \<le> 2000000000" and j: "joined w d" "length (seats (desk_at w d)) = 3" "i < 3"
    and k: "0 \<le> tm" "tm < share_max" "0 \<le> k" "k < share_max"
  shows "\<exists>w'. settle_peasant_won d tm k i w = Inr w' \<and> in_bounds (N + share_max) w' \<and> joined w' d \<and> desks w' = desks w"
proof -
  have more: "in_bounds (N + share_max) w" using b(1) by (rule in_bounds_mono) (simp add: share_max_def)
  consider (skip) "settle_peasant_won d tm k i w = Inr w"
    | (pay) c where "seats (desk_at w d) ! i = Some c" "Some c \<noteq> landlord (desk_at w d)"
    by (cases "seats (desk_at w d) ! i"; cases "seats (desk_at w d) ! i = landlord (desk_at w d)")
      (auto simp: settle_peasant_won_def)
  then show ?thesis
  proof cases
    case skip
    then show ?thesis using more j(1) by auto
  next
    case pay
    have "Some c \<in> set (seats (desk_at w d))" using pay(1) j(2,3) by (metis nth_mem)
    then obtain info where info: "get_info w c = Inr info" using j(1) by (auto simp: joined_def)
    obtain r where m: "info_bound N info" by (rule in_boundsD [OF b(1) info])
    then have m: "0 \<le> money info" by (simp add: info_bound_def)
    have half: "0 \<le> k div 2" "k div 2 < share_max" "\<not> k div 2 < 0" using k by auto
    obtain i' where i': "info_update (k div 2) tm 1 0 info = Inr i'" "in_bounds (N + share_max) (put_info c i' w)"
      by (rule in_bounds_update [OF b(1) info, of "k div 2" share_max tm 1 0])
        (use k m b(2) half in \<open>auto simp: share_max_def\<close>)
    let ?v = "put_info c i' w"
    have "get_info ?v c = Inr i'" using get_info_put_info [OF info] by simp
    then obtain s where s: "upd_message ?v c (int i) ''0 0'' (k div 2) tm i' = Inr s"
      by (rule upd_message_fits [OF i'(2) b(2), where p = "int i" and m = "k div 2" and e = tm and flags = "''0 0''"])
        (use j(3) k half in \<open>auto simp: share_max_def\<close>)
    have "settle_peasant_won d tm k i w = Inr (write_to_everyone d s ?v)"
      using pay info s i'(1) half by (simp add: settle_peasant_won_def Let_def game_tax_def int32_fits share_max_def)
    then show ?thesis using i'(2) joined_put [OF j(1) info] by simp
  qed
qed

lemma settle_peasant_lost_returns:
  assumes b: "in_bounds N w" "N + share_max \<le> 2000000000" and j: "joined w d" "length (seats (desk_at w d)) = 3" "i < 3"
    and k: "0 \<le> tm" "tm * 2 < share_max" and win: "0 \<le> win" "win + share_max \<le> 2000000000"
  shows "\<exists>win' w'. settle_peasant_lost d tm i (win, w) = Inr (win', w') \<and> in_bounds (N + share_max) w' \<and> joined w' d \<and> desks w' = desks w \<and>
    win \<le> win' \<and> win' < win + share_max"
proof -
  have more: "in_bounds (N + share_max) w" using b(1) by (rule in_bounds_mono) (simp add: share_max_def)
  consider (skip) "settle_peasant_lost d tm i (win, w) = Inr (win, w)"
    | (pay) c where "seats (desk_at w d) ! i = Some c" "Some c \<noteq> landlord (desk_at w d)"
    by (cases "seats (desk_at w d) ! i"; cases "seats (desk_at w d) ! i = landlord (desk_at w d)")
      (auto simp: settle_peasant_lost_def)
  then show ?thesis
  proof cases
    case skip
    then show ?thesis using more j(1) by (auto simp: share_max_def)
  next
    case pay
    have "Some c \<in> set (seats (desk_at w d))" using pay(1) j(2,3) by (metis nth_mem)
    then obtain info where info: "get_info w c = Inr info" using j(1) by (auto simp: joined_def)
    obtain r where "info_bound N info" by (rule in_boundsD [OF b(1) info])
    then have m: "0 \<le> money info" by (simp add: info_bound_def)
    define lost where "lost = (if money info < tm * 2 then money info else tm * 2)"
    have lost: "0 \<le> lost" "lost < share_max" using k m by (auto simp: lost_def)
    obtain i' where i': "info_update lost tm 0 1 info = Inr i'" "in_bounds (N + share_max) (put_info c i' w)"
      by (rule in_bounds_update [OF b(1) info, of lost share_max tm 0 1])
        (use k m lost b(2) in \<open>auto simp: share_max_def\<close>)
    let ?v = "put_info c i' w"
    have "get_info ?v c = Inr i'" using get_info_put_info [OF info] by simp
    then obtain s where s: "upd_message ?v c (int i) ''0 0'' (0 - lost) (0 - tm) i' = Inr s"
      by (rule upd_message_fits [OF i'(2) b(2), where p = "int i" and m = "0 - lost" and e = "0 - tm" and flags = "''0 0''"])
        (use j(3) k lost in \<open>auto simp: share_max_def\<close>)
    have fits: "int32 (tm * 2) = Inr (tm * 2)" "int32 lost = Inr lost" "int32 (0 - lost) = Inr (0 - lost)"
      "int32 (0 - tm) = Inr (0 - tm)" "int32 (win + lost) = Inr (win + lost)" "\<not> lost < 0"
      using k lost win by (auto simp: share_max_def)
    have "settle_peasant_lost d tm i (win, w) = Inr (win + lost, write_to_everyone d s ?v)"
      unfolding settle_peasant_lost_def Let_def prod.case pay(1) option.case if_not_P [OF pay(2)] info game_tax_def
        ebind_simps add_0_right diff_0_right fits lost_def [symmetric] i' s if_not_P [OF fits(6)] ..
    then show ?thesis using i'(2) lost joined_put [OF j(1) info] by auto
  qed
qed

lemma settle_peasants_won_return:
  assumes b: "in_bounds N w" "N + 3 * share_max \<le> 2000000000" and j: "joined w d" "length (seats (desk_at w d)) = 3"
    and k: "0 \<le> tm" "tm < share_max" "0 \<le> k" "k < share_max"
  shows "\<exists>w'. efold (settle_peasant_won d tm k) [0, 1, 2] w = Inr w'"
proof -
  have m: "0 < share_max" by (simp add: share_max_def)
  obtain v where v: "settle_peasant_won d tm k 0 w = Inr v" "in_bounds (N + share_max) v" "joined v d" "desks v = desks w"
    using settle_peasant_won_returns [OF b(1) _ j _ k, of 0] b(2) m by auto
  have vs: "length (seats (desk_at v d)) = 3" using v(4) j(2) by (simp add: desk_at_def)
  obtain u where u: "settle_peasant_won d tm k 1 v = Inr u" "in_bounds (N + share_max + share_max) u" "joined u d" "desks u = desks v"
    using settle_peasant_won_returns [OF v(2) _ v(3) vs _ k, of 1] b(2) m by auto
  have us: "length (seats (desk_at u d)) = 3" using u(4) vs by (simp add: desk_at_def)
  obtain t where "settle_peasant_won d tm k 2 u = Inr t"
    using settle_peasant_won_returns [OF u(2) _ u(3) us _ k, of 2] b(2) m by auto
  then show ?thesis using v(1) u(1) by simp
qed

lemma settle_peasants_lost_return:
  assumes b: "in_bounds N w" "N + 3 * share_max \<le> 2000000000" and j: "joined w d" "length (seats (desk_at w d)) = 3"
    and k: "0 \<le> tm" "tm * 2 < share_max"
  shows "\<exists>win w'. efold (settle_peasant_lost d tm) [0, 1, 2] (0, w) = Inr (win, w') \<and>
    in_bounds (N + 3 * share_max) w' \<and> joined w' d \<and> desks w' = desks w \<and> 0 \<le> win \<and> win < 3 * share_max"
proof -
  have m: "0 < share_max" "3 * share_max \<le> 2000000000" by (simp_all add: share_max_def)
  obtain k1 v where v: "settle_peasant_lost d tm 0 (0, w) = Inr (k1, v)" "in_bounds (N + share_max) v" "joined v d" "desks v = desks w"
    "0 \<le> k1" "k1 < share_max"
    using settle_peasant_lost_returns [OF b(1) _ j _ k, of 0 0] b(2) m by auto
  have vs: "length (seats (desk_at v d)) = 3" using v(4) j(2) by (simp add: desk_at_def)
  obtain k2 u where u: "settle_peasant_lost d tm 1 (k1, v) = Inr (k2, u)" "in_bounds (N + share_max + share_max) u" "joined u d" "desks u = desks v"
    "k1 \<le> k2" "k2 < k1 + share_max"
    using settle_peasant_lost_returns [OF v(2) _ v(3) vs _ k v(5), of 1] v(6) b(2) m by auto
  have us: "length (seats (desk_at u d)) = 3" using u(4) vs by (simp add: desk_at_def)
  have k2: "0 \<le> k2" using v(5) u(5) by simp
  obtain k3 t where t: "settle_peasant_lost d tm 2 (k2, u) = Inr (k3, t)" "in_bounds (N + share_max + share_max + share_max) t" "joined t d" "desks t = desks u"
    "k2 \<le> k3" "k3 < k2 + share_max"
    using settle_peasant_lost_returns [OF u(2) _ u(3) us _ k k2, of 2] u(6) v(6) b(2) m by auto
  have sum: "N + share_max + share_max + share_max = N + 3 * share_max" by simp
  have "efold (settle_peasant_lost d tm) [0, 1, 2] (0, w) = Inr (k3, t)" using v(1) u(1) t(1) by simp
  moreover have "desks t = desks w" using v(4) u(4) t(4) by simp
  moreover have "0 \<le> k3" "k3 < 3 * share_max" using v(5,6) u(5,6) t(5,6) by simp_all
  ultimately show ?thesis using t(2,3) unfolding sum by blast
qed

lemma send_left_cards_returns:
  assumes "in_bounds N w" "joined w d" "seats (desk_at w d) = [Some a, Some b, Some e]" "i < 3"
    and "length (pos_pokers (desk_at w d) ! i) \<le> 19" "\<forall>p \<in> set (pos_pokers (desk_at w d) ! i). length p = 2"
  shows "\<exists>w'. send_left_cards d i w = Inr w' \<and> in_bounds N w' \<and> joined w' d \<and> desks w' = desks w"
proof -
  have seats: "\<exists>c. seats (desk_at w d) ! (k mod 3) = Some c \<and> Some c \<in> set (seats (desk_at w d))" for k
  proof -
    have "k mod 3 = 0 \<or> k mod 3 = 1 \<or> k mod 3 = 2" by linarith
    then show ?thesis using assms(3) by auto
  qed
  obtain c where c: "seats (desk_at w d) ! i = Some c" "Some c \<in> set (seats (desk_at w d))" using seats [of i] assms(4) by auto
  obtain info where info: "get_info w c = Inr info" using c(2) assms(2) by (auto simp: joined_def)
  obtain c1 c2 where others: "seats (desk_at w d) ! ((i + 1) mod 3) = Some c1" "seats (desk_at w d) ! ((i + 2) mod 3) = Some c2"
    using seats by blast
  obtain r where m: "info_bound N info" by (rule in_boundsD [OF assms(1) info])
  let ?v = "put_info c (info\<lparr>is_ready := False\<rparr>) w"
  have v: "in_bounds N ?v" "joined ?v d" using m by (auto intro: in_bounds_put [OF assms(1) info] joined_put [OF assms(2) info])
  have long: "length (concat (map (\<lambda>p. '' '' @ p) ps)) = 3 * length ps" if "\<forall>p \<in> set ps. length p = 2" for ps :: "string list"
    using that by (induction ps) auto
  have short: "length (concat (map (\<lambda>p. '' '' @ p) (pos_pokers (desk_at w d) ! i))) \<le> 57"
    unfolding long [OF assms(6)] using assms(5) by simp
  have "length (pos_string (int i)) = 1" using assms(4) by (intro length_pos_string) auto
  then have fits: "sprintf 64 (''LFC '' @ pos_string (int i) @ concat (map (\<lambda>p. '' '' @ p) (pos_pokers (desk_at w d) ! i))) =
      Inr (''LFC '' @ pos_string (int i) @ concat (map (\<lambda>p. '' '' @ p) (pos_pokers (desk_at w d) ! i)))"
    using short by (simp add: sprintf_def)
  show ?thesis
    unfolding send_left_cards_def Let_def
    using c(1) info others v fits by (simp add: seated_def say_seat_def del: append.simps)
qed

lemma send_all_left_cards_return:
  assumes "in_bounds N w" "joined w d" "seats (desk_at w d) = [Some a, Some b, Some e]"
    and "\<And>i. i < 3 \<Longrightarrow> length (pos_pokers (desk_at w d) ! i) \<le> 19 \<and> (\<forall>p \<in> set (pos_pokers (desk_at w d) ! i). length p = 2)"
  shows "\<exists>w'. efold (send_left_cards d) [0, 1, 2] w = Inr w' \<and> in_bounds N w' \<and> joined w' d"
proof -
  obtain v where v: "send_left_cards d 0 w = Inr v" "in_bounds N v" "joined v d" "desks v = desks w"
    using send_left_cards_returns [OF assms(1-3), of 0] assms(4) [of 0] by auto
  have vd: "desk_at v d = desk_at w d" using v(4) by (simp add: desk_at_def)
  obtain u where u: "send_left_cards d 1 v = Inr u" "in_bounds N u" "joined u d" "desks u = desks v"
    using send_left_cards_returns [OF v(2,3), unfolded vd, OF assms(3), of 1] assms(4) [of 1] by auto
  have ud: "desk_at u d = desk_at w d" using u(4) vd by (simp add: desk_at_def)
  obtain t where "send_left_cards d 2 u = Inr t" "in_bounds N t" "joined t d"
    using send_left_cards_returns [OF u(2,3), unfolded ud, OF assms(3), of 2] assms(4) [of 2] by auto
  then show ?thesis using v(1) u(1) by auto
qed

definition calm :: "ddz_plugin \<Rightarrow> nat \<Rightarrow> bool" where
  "calm w d \<longleftrightarrow> in_bounds (10 ^ 9) w \<and>
     (\<exists>tm. total_multiple (base_multiple w) (desk_at w d) = Inr tm \<and> 0 \<le> tm \<and> tm * 4 < share_max) \<and> \<bar>base_multiple w\<bar> < 10 ^ 10 \<and>
     \<bar>multiple (desk_at w d)\<bar> < 10 ^ 10 \<and> \<bar>declare_count (desk_at w d)\<bar> < 10 ^ 10 \<and>
     \<bar>bomb_count (desk_at w d)\<bar> < 10 ^ 10 \<and> \<bar>doublejoker_count (desk_at w d)\<bar> < 10 ^ 10 \<and>
     (\<forall>ps \<in> set (pos_pokers (desk_at w d)). length ps \<le> 19 \<and> (\<forall>p \<in> set ps. length p = 2))"

lemma pos_index_small:
  assumes "length (seats desk) = 3"
  shows "\<bar>pos_index_of desk x\<bar> < 10 ^ 10"
  using first_index_bounds [of "\<lambda>c. c \<noteq> None \<and> c = x" "seats desk" 0] assms
  by (auto simp: pos_index_of_def)

lemma landlord_won_returns:
  assumes b: "in_bounds (10 ^ 9) u" and j: "joined u d" "length (seats (desk_at u d)) = 3"
    and l: "landlord (desk_at u d) = Some l" "Some l \<in> set (seats (desk_at u d))"
    and tm: "0 \<le> tm" "tm * 4 < share_max"
  shows "\<exists>t. settle_landlord_won d tm u = Inr t"
proof -
  note p = pos_index_small [OF j(2), of "Some l"]
  obtain win t where t: "efold (settle_peasant_lost d tm) [0, 1, 2] (0, u) = Inr (win, t)"
      "in_bounds (10 ^ 9 + 3 * share_max) t" "joined t d" "desks t = desks u" "0 \<le> win" "win < 3 * share_max"
    using settle_peasants_lost_return [OF b _ j tm(1)] tm by (auto simp: share_max_def)
  have td: "desk_at t d = desk_at u d" using t(4) by (simp add: desk_at_def)
  obtain i where i: "get_info t l = Inr i" using t(3) l(2) by (auto simp: joined_def td)
  obtain s where "upd_message t l (pos_index_of (desk_at u d) (Some l)) ''1 1'' win tm i = Inr s"
    by (rule upd_message_fits [OF t(2) _ i, of "pos_index_of (desk_at u d) (Some l)" win tm "''1 1''"])
      (use t(5,6) tm p in \<open>simp_all add: share_max_def\<close>)
  then show ?thesis
    using t(1,5,6) l(1) i
    by (simp add: settle_landlord_won_def td seated_def Let_def game_tax_def int32_fits share_max_def del: efold.simps)
qed

lemma landlord_lost_returns:
  assumes b: "in_bounds (10 ^ 9) u" and j: "joined u d" "length (seats (desk_at u d)) = 3"
    and l: "landlord (desk_at u d) = Some l" "Some l \<in> set (seats (desk_at u d))"
    and tm: "0 \<le> tm" "tm * 4 < share_max"
  shows "\<exists>t. settle_landlord_lost d tm u = Inr t"
proof -
  note p = pos_index_small [OF j(2), of "Some l"]
  obtain info where info: "get_info u l = Inr info" using j(1) l(2) by (auto simp: joined_def)
  define loss where "loss = (if money info < tm * 2 * 2 then money info else tm * 2 * 2)"
  obtain r where "info_bound (10 ^ 9) info" by (rule in_boundsD [OF b info])
  then have m: "0 \<le> money info" by (simp add: info_bound_def)
  have loss: "0 \<le> loss" "loss < share_max" "loss \<le> money info" using tm m by (auto simp: loss_def)
  obtain i' where i': "info_update (0 - loss) (0 - tm * 2) 0 1 info = Inr i'" "in_bounds (10 ^ 9 + share_max) (put_info l i' u)"
    by (rule in_bounds_update [OF b info, of "0 - loss" share_max "0 - tm * 2" 0 1])
      (use tm loss in \<open>auto simp: share_max_def\<close>)
  let ?v = "put_info l i' u"
  have i: "get_info ?v l = Inr i'" using get_info_put_info [OF info] by simp
  have same: "desk_at ?v d = desk_at u d" by simp
  obtain s where s: "upd_message ?v l (pos_index_of (desk_at u d) (Some l)) ''1 1'' (0 - loss) (0 - tm * 2) i' = Inr s"
    by (rule upd_message_fits [OF i'(2) _ i p, of "0 - loss" "0 - tm * 2" "''1 1''"])
      (use tm loss in \<open>simp_all add: share_max_def\<close>)
  have w: "in_bounds (10 ^ 9 + share_max) (write_to_everyone d s ?v)" "joined (write_to_everyone d s ?v) d"
    "length (seats (desk_at (write_to_everyone d s ?v) d)) = 3"
    using i'(2) joined_put [OF j(1) info] j(2) by simp_all
  have bounds: "10 ^ 9 + share_max + 3 * share_max \<le> 2000000000" "tm < share_max" using tm by (simp_all add: share_max_def)
  obtain t where t: "efold (settle_peasant_won d tm loss) [0, 1, 2] (write_to_everyone d s ?v) = Inr t"
    using settle_peasants_won_return [OF w(1) bounds(1) w(2,3) tm(1) bounds(2) loss(1,2)] by blast
  have fits: "int32 (tm * 2) = Inr (tm * 2)" "int32 (tm * 2 * 2) = Inr (tm * 2 * 2)" "int32 loss = Inr loss"
    "int32 (0 - loss) = Inr (0 - loss)" "int32 (0 - tm * 2) = Inr (0 - tm * 2)" "\<not> loss < 0"
    using tm loss by (auto simp: share_max_def)
  have "settle_landlord_lost d tm u = Inr t"
    unfolding settle_landlord_lost_def seated_def l(1) option.case Let_def info game_tax_def ebind_simps diff_0_right fits
      loss_def [symmetric] if_not_P [OF fits(6)] i' same s t ..
  then show ?thesis ..
qed

lemma stop_returns:
  assumes ok: "plugin_ok n codes w" "d < n" and seats: "seats (desk_at w d) = [Some a, Some b, Some e]"
    and lord: "landlord (desk_at w d) \<in> set (seats (desk_at w d))" and calm: "calm w d"
  shows "\<exists>w'. on_game_stop d c True w = Inr w'"
proof -
  obtain tm where m: "total_multiple (base_multiple w) (desk_at w d) = Inr tm" and tm: "0 \<le> tm" "tm * 4 < share_max"
    using calm by (auto simp: calm_def)
  have joined: "joined w d"
    unfolding joined_def using plugin_okD(5) [OF ok] desk_of_info_of by blast
  have "length (pos_pokers (desk_at w d)) = 3"
    using plugin_okD(2) [OF ok] by (simp add: desk_ok_def desk_shape_def)
  then have cards: "\<And>i. i < 3 \<Longrightarrow> length (pos_pokers (desk_at w d) ! i) \<le> 19 \<and> (\<forall>p \<in> set (pos_pokers (desk_at w d) ! i). length p = 2)"
    using calm by (auto simp: calm_def)
  obtain v where v: "efold (send_left_cards d) [0, 1, 2] (write_to_everyone d ''STP 1'' w) = Inr v"
      "in_bounds (10 ^ 9) v" "joined v d"
    using send_all_left_cards_return [of "10 ^ 9" "write_to_everyone d ''STP 1'' w" d a b e] calm joined seats cards
    by (auto simp: calm_def simp del: efold.simps)
  have same: "desks v = desks w" "base_multiple v = base_multiple w" using send_all_left_cards_money [OF v(1)] by simp_all
  have at: "desk_at v d = desk_at w d" using same(1) by (simp add: desk_at_def)
  define rst where "rst = ''RST '' @ join '','' (map show_int [base_multiple w, multiple (desk_at w d),
    declare_count (desk_at w d), bomb_count (desk_at w d), doublejoker_count (desk_at w d)])"
  have "length (show_int (base_multiple w)) \<le> 11" "length (show_int (multiple (desk_at w d))) \<le> 11"
    "length (show_int (declare_count (desk_at w d))) \<le> 11" "length (show_int (bomb_count (desk_at w d))) \<le> 11"
    "length (show_int (doublejoker_count (desk_at w d))) \<le> 11"
    using calm by (auto simp: calm_def intro!: length_show_int)
  then have rst: "sprintf 256 rst = Inr rst" by (simp add: rst_def sprintf_def)
  define u where "u = write_to_everyone d rst v"
  have u: "in_bounds (10 ^ 9) u" "joined u d" "desk_at u d = desk_at w d" using v at by (simp_all add: u_def)
  obtain l where l: "landlord (desk_at w d) = Some l" using lord seats by auto
  have "\<exists>t. (if Some c = landlord (desk_at w d) then settle_landlord_won d tm u else settle_landlord_lost d tm u) = Inr t"
    using landlord_won_returns [OF u(1,2) _ _ _ tm, of l] landlord_lost_returns [OF u(1,2) _ _ _ tm, of l] lord
    by (simp add: l u(3) seats)
  then obtain t where "(if Some c = landlord (desk_at w d) then settle_landlord_won d tm u else settle_landlord_lost d tm u) = Inr t" ..
  then show ?thesis
    using v(1) rst unfolding on_game_stop_def
    by (cases "Some c = landlord (desk_at w d)") (simp_all add: Let_def at same(2) m u_def rst_def del: efold.simps append.simps)
qed

text \<open>
  C15. With three players at the desk, names of at most thirty-two characters, at most nineteen
  cards left in every hand, amounts below one thousand million and a multiple below 62.5 million,
  the settlement returns, whoever has won: no message overruns its buffer and no amount overflows.
\<close>
lemma settlement_returns:
  assumes "plugin_ok n codes w" "d < n" "seats (desk_at w d) = [Some a, Some b, Some e]"
    and "landlord (desk_at w d) \<in> set (seats (desk_at w d))" "calm w d"
  shows "\<exists>w'. on_game_stop d c True w = Inr w'"
  using assms by (rule stop_returns)

section \<open>Witnesses\<close>

lemma lead_counts: "multiple lead_desk = -1" "declare_count lead_desk = 0" "bomb_count lead_desk = 0" "doublejoker_count lead_desk = 0"
  "base_multiple lead_game = 1"
  by (simp_all add: lead_desk_def lead_game_def sample_game_def new_plugin_def)
    (simp_all add: new_desk_def desk_reset_def clear_pos_pokers_def)

lemma lead_multiple: "total_multiple (base_multiple lead_game) lead_desk = Inr 1"
  by (simp add: lead_counts total_multiple_def mul_pow_def int_pow_def int32_fits)

lemma lead_calm: "calm lead_game 0"
proof -
  have "in_bounds (10 ^ 9) lead_game"
    by (auto simp: in_bounds_def lead_game_def sample_game_def sample_client_def new_game_info_def info_bound_def split: if_splits)
  then show ?thesis
    unfolding calm_def lead_at lead_multiple by (simp add: lead_counts lead_desk_fields share_max_def)
qed

lemma lead_stops: obtains w' where "on_game_stop 0 c True lead_game = Inr w'"
  using stop_returns [OF lead_game_ok, of 0 0 1 2 c] lead_calm by (auto simp: lead_at lead_desk_fields)

lemma settlement_returns_witness: "\<exists>w'. on_game_stop 0 2 True lead_game = Inr w'"
  by (rule settlement_returns [OF lead_game_ok _ _ _ lead_calm, of 0 1 2]) (simp_all add: lead_at lead_desk_fields)

lemma lead_money: "c < 3 \<Longrightarrow> money_of lead_game c = 10000"
  using lead_info by (simp add: money_of_info)

lemma landlord_lost_settlement_witness:
  "\<exists>w'. on_game_stop 0 1 True lead_game = Inr w' \<and> money_of w' 0 = 9996 \<and> money_of w' 2 = 10002"
proof -
  obtain w' where w': "on_game_stop 0 1 True lead_game = Inr w'" by (rule lead_stops)
  have "money_of w' 0 = 9996 \<and> money_of w' 2 = 10002"
    using landlord_lost_settlement [OF lead_game_ok _ w', of 0] lead_money [of 0] lead_money [of 2]
    by (auto simp: lead_at lead_desk_fields lead_counts(5) lead_multiple [unfolded lead_counts(5)])
  then show ?thesis using w' by blast
qed

lemma landlord_won_settlement_witness:
  "\<exists>w'. on_game_stop 0 0 True lead_game = Inr w' \<and> money_of w' 0 = 10000 \<and> money_of w' 2 = 10002"
proof -
  obtain w' where w': "on_game_stop 0 0 True lead_game = Inr w'" by (rule lead_stops)
  have "money_of w' 0 = 10000 \<and> money_of w' 2 = 10002"
    using landlord_won_settlement [OF lead_game_ok _ w'] lead_money [of 0] lead_money [of 2]
    by (auto simp: lead_at lead_desk_fields lead_multiple)
  then show ?thesis using w' by blast
qed

end
