(* ===== verification/PluginJoin.thy ===== *)
theory PluginJoin
  imports PluginRules
begin

text \<open>
  Joining a table (\<^verbatim>\<open>ddz_plugin::on_join_desk_handle\<close>, \<^verbatim>\<open>game_desk_list\<close>): where a client without a desk
  is put.
\<close>

lemma join_desk_messages:
  assumes "efold (join_desk_message c d pos m) is v = Inr v'"
  shows "silent v' = silent v"
  by (rule efold_invariant [where I = "\<lambda>u. silent u = silent v", OF _ _ assms])
    (auto dest: join_desk_message_tells)

lemma silent_desks:
  assumes "silent v = silent w"
  shows "desks v = desks w" "desk_of v c = desk_of w c"
proof -
  show "desks v = desks w" using arg_cong [OF assms, of desks] by (simp add: silent_def)
  have "clients v = clients w" using arg_cong [OF assms, of clients] by (simp add: silent_def)
  then show "desk_of v c = desk_of w c" by (simp add: desk_of_def get_info_def the_client_def)
qed

lemma on_client_join_desk_sits:
  assumes "on_client_join_desk c d (int q) (on_desk d (desk_set q (Some c)) w) = Inr w'" "get_info w c = Inr info"
  shows "desks w' = desks (on_desk d (desk_set q (Some c)) w) \<and> desk_of w' c = Some d"
proof -
  let ?v = "put_info c (info\<lparr>info_desk := Some d\<rparr>) (on_desk d (desk_set q (Some c)) w)"
  obtain s where "efold (join_desk_message c d (int q) (money info)) [0, 1, 2] (say c s ?v) = Inr w'"
    using assms by (auto simp: on_client_join_desk_def Let_def simp del: efold.simps)
  then have "silent w' = silent (say c s ?v)" by (rule join_desk_messages)
  then have "desks w' = desks ?v" "desk_of w' c = desk_of ?v c" by (auto dest: silent_desks)
  then show ?thesis using assms(2) by (simp add: desk_of_put_info)
qed

text \<open>
  C10. A client without a desk that asks for one, while the plugin is on line, is put on the first free
  chair of the fullest desk on which no game runs (the first one where several are equally full), and
  nobody else moves; it is told \<^verbatim>\<open>IDK -1\<close> exactly when every such desk is full.
\<close>
theorem join_takes_fullest_desk:
  assumes ok: "plugin_ok n codes w" and info: "get_info w c = Inr info" "info_desk info = None"
    and join: "on_join_desk_handle client_exit c params w = Inr w'" "is_onlined w"
  shows "(\<exists>k q. best_seat None (desks w) k q \<and> desk_of w' c = Some k \<and>
      desks w' = (desks w)[k := desk_set q (Some c) (desk_at w k)]) \<or>
    (\<forall>j < n. \<not> is_running (desk_at w j) \<longrightarrow> None \<notin> set (seats (desk_at w j))) \<and> w' = say c ''IDK -1'' w"
proof -
  have len: "length (desks w) = n" by (rule plugin_okD(1) [OF ok])
  have shape: "length (seats (desks w ! j)) = 3" if "j < length (desks w)" for j
    using plugin_okD(2) [OF ok] desk_ok_bounds(1) that len by (simp add: desk_at_def)
  show ?thesis
  proof (cases "search_required [1, 2, 3] None (desks w)")
    case None
    then have "\<forall>j. eligible None (desks w) j \<longrightarrow> open_seats (desks w ! j) = 0"
      using search_required_best [OF shape, of None] by simp
    then have "\<forall>j < n. \<not> is_running (desk_at w j) \<longrightarrow> None \<notin> set (seats (desk_at w j))"
      by (auto simp: eligible_def open_seats_def filter_empty_conv desk_at_def len)
    then show ?thesis using join info None by (simp add: on_join_desk_handle_def Let_def)
  next
    case (Some kp)
    obtain k p where kp: "kp = (k, p)" by fastforce
    then obtain q where q: "p = int q" "best_seat None (desks w) k q"
      using search_required_best [OF shape, of None] Some by auto
    have "on_client_join_desk c k (int q) (on_desk k (desk_set q (Some c)) w) = Inr w'"
      using join info Some kp q(1) by (simp add: on_join_desk_handle_def Let_def)
    from on_client_join_desk_sits [OF this info(1)] q(2) show ?thesis
      by (auto simp: on_desk_def desk_at_def)
  qed
qed

text \<open>One player waits at the only desk and another one arrives.\<close>

definition waiting_room :: ddz_plugin where
  "waiting_room = (new_plugin ''ddz'' 1 1 21000 0)\<lparr>is_onlined := True, has_zone := True,
     clients := (\<lambda>_. None)(0 \<mapsto> sample_client ''ann'',
       1 \<mapsto> (sample_client ''bob'')\<lparr>game_info := Some (new_game_info\<lparr>money := 10000\<rparr>)\<rparr>),
     desks := [desk_set 0 (Some 0) (new_desk 0)]\<rparr>"

lemma new_desk_fields: "seats (new_desk t) = [None, None, None]" "is_running (new_desk t) = False" "desk_id (new_desk t) = ''''"
  "verifi_code (new_desk t) = 0"
  by (simp_all add: new_desk_def desk_reset_def clear_pos_pokers_def)

lemma waiting_room_ok: "plugin_ok 1 (\<lambda>_. 0) waiting_room"
proof -
  have "desk_ok (desk_set 0 (Some 0) (new_desk 0))"
    by (rule desk_ok_seat) (simp_all add: new_desk_ok new_desk_fields)
  moreover have "desk_of waiting_room c = Some d \<longleftrightarrow> d < 1 \<and> Some c \<in> set (seats (desk_at waiting_room d))" for c d
    by (cases "d = 0")
      (auto simp: waiting_room_def desk_of_def get_info_def the_client_def sample_client_def desk_at_def
        new_desk_fields new_game_info_def)
  ultimately show ?thesis
    by (simp add: plugin_ok_def waiting_room_def desk_at_def new_desk_fields new_plugin_def)
qed

lemma waiting_info: "get_info waiting_room 1 = Inr (new_game_info\<lparr>money := 10000\<rparr>)"
  by (simp add: waiting_room_def get_info_def the_client_def)

lemma bob_joins:
  obtains w' where "on_join_desk_handle 0 1 [] waiting_room = Inr w'"
proof -
  let ?d = "desk_set 0 (Some 0) (new_desk 0)"
  let ?v = "put_info 1 (new_game_info\<lparr>money := 10000, info_desk := Some 0\<rparr>) (on_desk 0 (desk_set 1 (Some 1)) waiting_room)"
  have at: "desk_at waiting_room 0 = ?d" "desks waiting_room = [?d]" "is_onlined waiting_room"
    by (simp_all add: waiting_room_def desk_at_def)
  have found: "search_required [1, 2, 3] None [?d] = Some (0, 1)"
    by (simp add: new_desk_fields)
  have info: "get_info ?v 1 = Inr (new_game_info\<lparr>money := 10000, info_desk := Some 0\<rparr>)" "get_info ?v 0 = Inr (new_game_info\<lparr>money := 10000, info_desk := Some 0\<rparr>)"
    by (simp_all add: waiting_room_def get_info_def the_client_def put_info_def on_desk_def sample_client_def)
  have client: "\<exists>r. the_client ?v 1 = Inr r" "\<exists>r. the_client ?v 0 = Inr r"
    by (simp_all add: waiting_room_def the_client_def put_info_def on_desk_def)
  then obtain r0 r1 where client: "the_client ?v 1 = Inr r1" "the_client ?v 0 = Inr r0" by blast
  note facts = info [unfolded One_nat_def] client [unfolded One_nat_def]
  have "\<exists>w'. efold (join_desk_message 1 0 1 10000) [0, 1, 2] (say 1 s ?v) = Inr w'" for s
    by (simp add: join_desk_message_def at new_desk_fields facts)
  then obtain w' where w': "efold (join_desk_message 1 0 1 10000) [0, 1, 2]
      (say 1 (words_of [''IDK'', desk_id (desk_at ?v 0), show_int 1]) ?v) = Inr w'" by blast
  have "info_desk (new_game_info\<lparr>money := 10000\<rparr>) = None" by (simp add: new_game_info_def)
  then have "on_join_desk_handle 0 1 [] waiting_room = on_client_join_desk 1 0 1 (on_desk 0 (desk_set (nat 1) (Some 1)) waiting_room)"
    unfolding on_join_desk_handle_def Let_def waiting_info ebind_simps by (simp only: option.case ebind_simps at if_True found prod.case)
  also have "\<dots> = Inr w'"
    using w' waiting_info by (simp add: on_client_join_desk_def Let_def del: efold.simps)
  finally show ?thesis by (rule that)
qed

lemma join_takes_fullest_desk_witness:
  "\<exists>w'. on_join_desk_handle 0 1 [] waiting_room = Inr w' \<and> desk_of w' 1 = Some 0"
proof -
  obtain w' where w': "on_join_desk_handle 0 1 [] waiting_room = Inr w'" by (rule bob_joins)
  have "is_onlined waiting_room" "info_desk (new_game_info\<lparr>money := 10000\<rparr>) = None"
    by (simp_all add: waiting_room_def new_game_info_def)
  then have "desk_of w' 1 = Some 0"
    using join_takes_fullest_desk [OF waiting_room_ok waiting_info _ w']
    by (auto simp: best_seat_def eligible_def waiting_room_def desk_at_def new_desk_fields)
  then show ?thesis using w' by blast
qed

section \<open>The invariant at work\<close>

text \<open>A guest arrives at a new plugin, joins it and asks for a desk.\<close>

definition guest :: game_client where
  "guest = (sample_client ''ann'')\<lparr>game_info := None\<rparr>"

definition lobby :: ddz_plugin where
  "lobby = (new_plugin ''ddz'' 100 1 21000 0)\<lparr>is_onlined := True, has_zone := True, clients := (\<lambda>_. None)(1 \<mapsto> guest)\<rparr>"

definition joined_info :: ddz_game_info where
  "joined_info = new_game_info\<lparr>money := 10000, experience := 10000\<rparr>"

lemma two_steps: "r a b \<Longrightarrow> r b c \<Longrightarrow> r\<^sup>*\<^sup>* a c"
  by (rule rtranclp.rtrancl_into_rtrancl [OF r_into_rtranclp])

lemma lobby_reached: "(plugin_step 0)\<^sup>*\<^sup>* (new_plugin ''ddz'' 100 1 21000 0) lobby"
proof -
  let ?w = "(new_plugin ''ddz'' 100 1 21000 0)\<lparr>is_onlined := True, has_zone := True\<rparr>"
  have new: "clients ?w = (\<lambda>_. None)" by (simp add: new_plugin_def)
  have eq: "lobby = ?w\<lparr>clients := (clients ?w)(1 \<mapsto> guest)\<rparr>" by (simp add: lobby_def new)
  have first: "plugin_step 0 (new_plugin ''ddz'' 100 1 21000 0) ?w" by (rule plugin_step.online)
  have second: "plugin_step 0 ?w lobby" unfolding eq by (rule plugin_step.arrive) (simp_all add: new guest_def)
  show ?thesis using first second by (rule two_steps)
qed

lemma first_desk_found: "search_required [1, 2, 3] None (new_desk_list 100 0) = Some (0, 0)"
  by code_simp

lemma guest_seated:
  obtains w where "(plugin_step 0)\<^sup>*\<^sup>* (new_plugin ''ddz'' 100 1 21000 0) w" "desk_of w 1 = Some 0"
proof -
  have g: "clients lobby 1 = Some guest" "game_info guest = None" by (simp_all add: lobby_def guest_def)
  obtain v where v: "on_client_join 1 lobby = Inr v" using g(1) by (simp add: on_client_join_def the_client_def Let_def)
  have at: "desks v = new_desk_list 100 0" "is_onlined v" and info: "get_info v 1 = Inr joined_info"
    using v by (auto simp: on_client_join_def ebind_eq_Inr Let_def put_info_def lobby_def new_plugin_def say_def emit_def
        get_info_def the_client_def joined_info_def)
  let ?u = "put_info 1 (joined_info\<lparr>info_desk := Some 0\<rparr>) (on_desk 0 (desk_set 0 (Some 1)) v)"
  have seats: "seats (desk_at ?u 0) = [Some 1, None, None]"
    by (simp add: at(1) new_desk_list_def set_id_def new_desk_fields desk_at_def on_desk_def nth_append)
  have "get_info ?u 1 = Inr (joined_info\<lparr>info_desk := Some 0\<rparr>)" using get_info_put_info info by simp
  moreover from this obtain r where "the_client ?u 1 = Inr r" by (auto simp: get_info_def ebind_eq_Inr)
  ultimately have "\<exists>w. efold (join_desk_message 1 0 0 (money joined_info)) [0, 1, 2] (say 1 s ?u) = Inr w" for s
    using seats by (simp add: join_desk_message_def Let_def)
  then obtain w where w: "efold (join_desk_message 1 0 0 (money joined_info)) [0, 1, 2]
      (say 1 (words_of [''IDK'', desk_id (desk_at ?u 0), show_int 0]) ?u) = Inr w" by blast
  have "info_desk joined_info = None" by (simp add: joined_info_def new_game_info_def)
  then have "on_join_desk_handle 0 1 [] v = on_client_join_desk 1 0 0 (on_desk 0 (desk_set (nat 0) (Some 1)) v)"
    unfolding on_join_desk_handle_def Let_def info ebind_simps
    by (simp only: option.case ebind_simps at if_True first_desk_found prod.case)
  also have "\<dots> = Inr w" using w info by (simp add: on_client_join_desk_def Let_def del: efold.simps)
  finally have idk: "on_join_desk_handle 0 1 [] v = Inr w" .
  have "desk_of w 1 = Some 0"
    using on_client_join_desk_sits [of 1 0 0 v w joined_info] \<open>on_client_join_desk 1 0 0 (on_desk 0 (desk_set (nat 0) (Some 1)) v) = Inr w\<close> info
    by simp
  moreover have "plugin_step 0 lobby v" by (rule plugin_step.join [OF g v])
  moreover have "plugin_step 0 v w"
    by (rule plugin_step.command [of "''IDK''" "on_join_desk_handle 0"]) (simp add: on_load_def, rule idk)
  ultimately show thesis
    using that [of w] rtranclp.rtrancl_into_rtrancl [OF rtranclp.rtrancl_into_rtrancl [OF lobby_reached]] by blast
qed

lemma plugin_invariant_witness:
  "\<exists>w. (plugin_step 0)\<^sup>*\<^sup>* (new_plugin ''ddz'' 100 1 21000 0) w \<and> desk_of w 1 = Some 0 \<and>
     Some 1 \<in> set (seats (desk_at w 0)) \<and> desk_ok (desk_at w 0)"
proof -
  obtain w where w: "(plugin_step 0)\<^sup>*\<^sup>* (new_plugin ''ddz'' 100 1 21000 0) w" "desk_of w 1 = Some 0" by (rule guest_seated)
  have "desk_ok (desk_at w 0)" "Some 1 \<in> set (seats (desk_at w 0))"
    using plugin_invariant [OF w(1)] w(2) by auto
  then show ?thesis using w by blast
qed

end
