(* ===== verification/HttpParser.thy ===== *)
theory HttpParser
  imports Format
begin

text \<open>
  The parser of the opening request (\<^verbatim>\<open>src/src/net/ws_request_parser.cpp\<close>, \<^verbatim>\<open>ws_request.h\<close>): a state
  machine that takes one character at a time and can stop between any two. The request it fills in and
  its state are the arguments of \<^verbatim>\<open>consume\<close> and of the object; the vector of headers is a list, and
  \<^verbatim>\<open>back()\<close> of an empty one is a fault, as is a version number that leaves the range of \<^verbatim>\<open>int\<close>.
\<close>

section \<open>Requests and states\<close>

record header =
  header_name :: string
  header_value :: string

record ws_request =
  req_method :: string
  req_uri :: string
  http_version_major :: int
  http_version_minor :: int
  headers :: "header list"
  content_size :: "32 word"

text \<open>The version is not initialised by the source; it is set before it is read.\<close>

definition new_ws_request :: ws_request where
  "new_ws_request = \<lparr>req_method = [], req_uri = [], http_version_major = 0, http_version_minor = 0,
     headers = [], content_size = 0\<rparr>"

datatype parse_result = Parse_ok | Parse_error | Parse_indeterminate

datatype parser_state =
    Method_start | Method | Uri
  | Http_version_h | Http_version_t_1 | Http_version_t_2 | Http_version_p | Http_version_slash
  | Http_version_major_start | Http_version_major | Http_version_minor_start | Http_version_minor
  | Expecting_newline_1 | Header_line_start | Header_lws | Header_name | Space_before_header_value
  | Header_value | Expecting_newline_2 | Expecting_newline_3

section \<open>Characters\<close>

definition is_char :: "char \<Rightarrow> bool" where
  "is_char c \<longleftrightarrow> 0 \<le> cchar c \<and> cchar c \<le> 127"

definition is_ctl :: "char \<Rightarrow> bool" where
  "is_ctl c \<longleftrightarrow> (0 \<le> cchar c \<and> cchar c \<le> 31) \<or> cchar c = 127"

definition is_tspecial :: "char \<Rightarrow> bool" where
  "is_tspecial c \<longleftrightarrow> c \<in> set [CHR ''('', CHR '')'', CHR ''<'', CHR ''>'', CHR ''@'', CHR '','', CHR '';'', CHR '':'',
     CHR 0x5C, CHR 0x22, CHR ''/'', CHR ''['', CHR '']'', CHR ''?'', CHR ''='', CHR ''{'', CHR ''}'', CHR '' '', CHR 0x09]"

abbreviation CR :: char where "CR \<equiv> CHR 0x0D"
abbreviation LF :: char where "LF \<equiv> CHR 0x0A"
abbreviation HT :: char where "HT \<equiv> CHR 0x09"

definition is_token :: "char \<Rightarrow> bool" where
  "is_token c \<longleftrightarrow> \<not> (\<not> is_char c \<or> is_ctl c \<or> is_tspecial c)"

section \<open>One character\<close>

text \<open>\<^verbatim>\<open>v * 10 + input - '0'\<close> in \<^verbatim>\<open>int\<close>, from left to right.\<close>

definition add_digit :: "char \<Rightarrow> int \<Rightarrow> int result" where
  "add_digit c v = (if v * 10 + cchar c > 2147483647 then Inl Int_overflow else Inr (v * 10 + cchar c - 48))"

definition push_method :: "char \<Rightarrow> ws_request \<Rightarrow> ws_request" where
  "push_method c req = req\<lparr>req_method := req_method req @ [c]\<rparr>"

definition push_uri :: "char \<Rightarrow> ws_request \<Rightarrow> ws_request" where
  "push_uri c req = req\<lparr>req_uri := req_uri req @ [c]\<rparr>"

definition push_major :: "char \<Rightarrow> ws_request \<Rightarrow> ws_request result" where
  "push_major c req = ebind (add_digit c (http_version_major req)) (\<lambda>v. Inr (req\<lparr>http_version_major := v\<rparr>))"

definition push_minor :: "char \<Rightarrow> ws_request \<Rightarrow> ws_request result" where
  "push_minor c req = ebind (add_digit c (http_version_minor req)) (\<lambda>v. Inr (req\<lparr>http_version_minor := v\<rparr>))"

definition on_back :: "(header \<Rightarrow> header) \<Rightarrow> ws_request \<Rightarrow> ws_request result" where
  "on_back f req =
     (if headers req = [] then Inl Out_of_bounds
      else Inr (req\<lparr>headers := butlast (headers req) @ [f (last (headers req))]\<rparr>))"

definition push_name :: "char \<Rightarrow> ws_request \<Rightarrow> ws_request result" where
  "push_name c = on_back (\<lambda>h. h\<lparr>header_name := header_name h @ [c]\<rparr>)"

definition push_value :: "char \<Rightarrow> ws_request \<Rightarrow> ws_request result" where
  "push_value c = on_back (\<lambda>h. h\<lparr>header_value := header_value h @ [c]\<rparr>)"

type_synonym parser = "parser_state \<times> ws_request"

abbreviation goes :: "parser_state \<Rightarrow> ws_request \<Rightarrow> (parse_result \<times> parser) result" where
  "goes st req \<equiv> Inr (Parse_indeterminate, st, req)"

abbreviation fails :: "parser_state \<Rightarrow> ws_request \<Rightarrow> (parse_result \<times> parser) result" where
  "fails st req \<equiv> Inr (Parse_error, st, req)"

text \<open>A state that accepts one given character.\<close>

abbreviation expect :: "char \<Rightarrow> parser_state \<Rightarrow> parser_state \<Rightarrow> char \<Rightarrow> ws_request \<Rightarrow> (parse_result \<times> parser) result" where
  "expect c st st' input req \<equiv> (if input = c then goes st' req else fails st req)"

fun consume :: "char \<Rightarrow> parser \<Rightarrow> (parse_result \<times> parser) result" where
  "consume input (Method_start, req) =
     (if \<not> is_char input \<or> is_ctl input \<or> is_tspecial input then fails Method_start req
      else goes Method (push_method input req))"
| "consume input (Method, req) =
     (if input = CHR '' '' then goes Uri req
      else if \<not> is_char input \<or> is_ctl input \<or> is_tspecial input then fails Method req
      else goes Method (push_method input req))"
| "consume input (Uri, req) =
     (if input = CHR '' '' then goes Http_version_h req
      else if is_ctl input then fails Uri req
      else goes Uri (push_uri input req))"
| "consume input (Http_version_h, req) = expect (CHR ''H'') Http_version_h Http_version_t_1 input req"
| "consume input (Http_version_t_1, req) = expect (CHR ''T'') Http_version_t_1 Http_version_t_2 input req"
| "consume input (Http_version_t_2, req) = expect (CHR ''T'') Http_version_t_2 Http_version_p input req"
| "consume input (Http_version_p, req) = expect (CHR ''P'') Http_version_p Http_version_slash input req"
| "consume input (Http_version_slash, req) =
     (if input = CHR ''/''
      then goes Http_version_major_start (req\<lparr>http_version_major := 0, http_version_minor := 0\<rparr>)
      else fails Http_version_slash req)"
| "consume input (Http_version_major_start, req) =
     (if is_digit input
      then ebind (push_major input req) (\<lambda>req. goes Http_version_major req)
      else fails Http_version_major_start req)"
| "consume input (Http_version_major, req) =
     (if input = CHR ''.'' then goes Http_version_minor_start req
      else if is_digit input then ebind (push_major input req) (\<lambda>req. goes Http_version_major req)
      else fails Http_version_major req)"
| "consume input (Http_version_minor_start, req) =
     (if is_digit input
      then ebind (push_minor input req) (\<lambda>req. goes Http_version_minor req)
      else fails Http_version_minor_start req)"
| "consume input (Http_version_minor, req) =
     (if input = CR then goes Expecting_newline_1 req
      else if is_digit input then ebind (push_minor input req) (\<lambda>req. goes Http_version_minor req)
      else fails Http_version_minor req)"
| "consume input (Expecting_newline_1, req) = expect LF Expecting_newline_1 Header_line_start input req"
| "consume input (Header_line_start, req) =
     (if input = CR then goes Expecting_newline_3 req
      else if headers req \<noteq> [] \<and> (input = CHR '' '' \<or> input = HT) then goes Header_lws req
      else if \<not> is_char input \<or> is_ctl input \<or> is_tspecial input then fails Header_line_start req
      else goes Header_name (req\<lparr>headers := headers req @ [\<lparr>header_name = [input], header_value = []\<rparr>]\<rparr>))"
| "consume input (Header_lws, req) =
     (if input = CR then goes Expecting_newline_2 req
      else if input = CHR '' '' \<or> input = HT then goes Header_lws req
      else if is_ctl input then fails Header_lws req
      else ebind (push_value input req) (\<lambda>req. goes Header_value req))"
| "consume input (Header_name, req) =
     (if input = CHR '':'' then goes Space_before_header_value req
      else if \<not> is_char input \<or> is_ctl input \<or> is_tspecial input then fails Header_name req
      else ebind (push_name input req) (\<lambda>req. goes Header_name req))"
| "consume input (Space_before_header_value, req) =
     expect (CHR '' '') Space_before_header_value Header_value input req"
| "consume input (Header_value, req) =
     (if input = CR then goes Expecting_newline_2 req
      else if is_ctl input then fails Header_value req
      else ebind (push_value input req) (\<lambda>req. goes Header_value req))"
| "consume input (Expecting_newline_2, req) = expect LF Expecting_newline_2 Header_line_start input req"
| "consume input (Expecting_newline_3, req) =
     (if input = LF then Inr (Parse_ok, Expecting_newline_3, req) else fails Expecting_newline_3 req)"

text \<open>\<^verbatim>\<open>parse\<close>: the characters up to the first decision, and what is left of the input.\<close>

fun parse_request :: "string \<Rightarrow> parser \<Rightarrow> (parse_result \<times> string \<times> parser) result" where
  "parse_request [] p = Inr (Parse_indeterminate, [], p)"
| "parse_request (c # cs) p =
     ebind (consume c p) (\<lambda>(ret, p).
       if ret \<noteq> Parse_indeterminate then Inr (ret, cs, p) else parse_request cs p)"

definition parser_reset :: "parser \<Rightarrow> parser" where
  "parser_reset = (\<lambda>(_, req). (Method_start, req))"

definition parser_start :: parser where
  "parser_start = (Method_start, new_ws_request)"

section \<open>Feeding the parser in pieces\<close>

lemma parse_append:
  "parse_request (xs @ ys) p =
     ebind (parse_request xs p) (\<lambda>(ret, rest, p).
       if ret = Parse_indeterminate then parse_request ys p else Inr (ret, rest @ ys, p))"
proof (induction xs arbitrary: p)
  case (Cons c xs)
  then show ?case by (cases "consume c p") auto
qed simp

lemma parse_indeterminate_rest: "parse_request s p = Inr (Parse_indeterminate, rest, p') \<Longrightarrow> rest = []"
  by (induction s arbitrary: p) (auto simp: ebind_eq_Inr split: if_splits)

end
