(* ===== verification/HttpGrammar.thy ===== *)
theory HttpGrammar
  imports HttpParser
begin

text \<open>
  What the parser of the opening request accepts: the grammar it implements, that it neither gets lost
  in the middle of a request nor touches a header that is not there.
\<close>

section \<open>What the loops of the machine read\<close>

definition accepts :: "parser_state \<Rightarrow> ws_request \<Rightarrow> string \<Rightarrow> string \<Rightarrow> ws_request \<Rightarrow> bool" where
  "accepts st req s rest req' \<longleftrightarrow> parse_request s (st, req) = Inr (Parse_ok, rest, Expecting_newline_3, req')"

lemma accepts_Nil [simp]: "\<not> accepts st req [] rest req'"
  by (simp add: accepts_def)

lemma accepts_Cons:
  "accepts st req (c # cs) rest req' \<longleftrightarrow>
     (\<exists>st1 req1. consume c (st, req) = goes st1 req1 \<and> accepts st1 req1 cs rest req') \<or>
     consume c (st, req) = Inr (Parse_ok, Expecting_newline_3, req') \<and> rest = cs"
  by (cases "consume c (st, req)") (auto simp: accepts_def split: if_splits)

lemma accepts_loop:
  assumes step: "\<And>c req. consume c (st, req) =
      (if c = sep then goes st' req else if ok c then ebind (push c req) (\<lambda>req. goes st req) else fails st req)"
    and sep: "\<not> ok sep"
  shows "accepts st req s rest req' \<longleftrightarrow>
    (\<exists>m s' req1. s = m @ sep # s' \<and> (\<forall>c \<in> set m. ok c) \<and> efold push m req = Inr req1 \<and> accepts st' req1 s' rest req')"
proof (induction s arbitrary: req)
  case (Cons c cs)
  show ?case
  proof (cases "c = sep")
    case True
    have "(\<exists>m s' req1. c # cs = m @ sep # s' \<and> (\<forall>c \<in> set m. ok c) \<and> efold push m req = Inr req1 \<and>
        accepts st' req1 s' rest req') \<longleftrightarrow> accepts st' req cs rest req'"
      (is "?l \<longleftrightarrow> ?r")
    proof
      assume ?l
      then show ?r using sep True by (auto simp: Cons_eq_append_conv)
    next
      assume ?r
      then have "c # cs = [] @ sep # cs" "efold push [] req = Inr req" using True by simp_all
      with \<open>?r\<close> show ?l by fastforce
    qed
    then show ?thesis using True by (simp add: accepts_Cons step)
  next
    case False
    have right: "(\<exists>m s' req1. c # cs = m @ sep # s' \<and> (\<forall>c \<in> set m. ok c) \<and> efold push m req = Inr req1 \<and>
        accepts st' req1 s' rest req') \<longleftrightarrow>
      ok c \<and> (\<exists>r. push c req = Inr r \<and> (\<exists>m s' req1. cs = m @ sep # s' \<and> (\<forall>c \<in> set m. ok c) \<and>
        efold push m r = Inr req1 \<and> accepts st' req1 s' rest req'))"
      (is "?l = ?r")
    proof
      assume ?l
      then obtain m s' req1 where m: "c # cs = m @ sep # s'" "\<forall>c \<in> set m. ok c" "efold push m req = Inr req1"
        "accepts st' req1 s' rest req'" by blast
      then obtain m' where "m = c # m'" "cs = m' @ sep # s'" using False by (auto simp: Cons_eq_append_conv)
      then show ?r using m by (auto simp: ebind_eq_Inr)
    next
      assume ?r
      then obtain r m s' req1 where r: "ok c" "push c req = Inr r" "cs = m @ sep # s'" "\<forall>c \<in> set m. ok c"
        "efold push m r = Inr req1" "accepts st' req1 s' rest req'" by blast
      then have "c # cs = (c # m) @ sep # s'" "\<forall>x \<in> set (c # m). ok x" "efold push (c # m) req = Inr req1" by simp_all
      with r(6) show ?l by blast
    qed
    show ?thesis
      unfolding right using False Cons.IH by (auto simp: accepts_Cons step ebind_eq_Inr split: if_splits)
  qed
qed simp

lemma accepts_expect:
  assumes "\<And>c req. consume c (st, req) = (if c = x then goes st' (f req) else fails st req)"
  shows "accepts st req s rest req' \<longleftrightarrow> (\<exists>s'. s = x # s' \<and> accepts st' (f req) s' rest req')"
  by (cases s) (auto simp: accepts_Cons assms)

section \<open>What it stores\<close>

definition version_of :: "string \<Rightarrow> int result" where
  "version_of ds = efold add_digit ds 0"

lemma efold_push_method: "efold (\<lambda>c req. Inr (push_method c req)) m req = Inr (req\<lparr>req_method := req_method req @ m\<rparr>)"
  by (induction m arbitrary: req) (simp_all add: push_method_def)

lemma efold_push_uri: "efold (\<lambda>c req. Inr (push_uri c req)) m req = Inr (req\<lparr>req_uri := req_uri req @ m\<rparr>)"
  by (induction m arbitrary: req) (simp_all add: push_uri_def)

lemma efold_push_major:
  "efold push_major ds req =
     ebind (efold add_digit ds (http_version_major req)) (\<lambda>v. Inr (req\<lparr>http_version_major := v\<rparr>))"
  by (induction ds arbitrary: req) (auto simp: push_major_def ebind_assoc intro!: ebind_cong)

lemma efold_push_minor:
  "efold push_minor ds req =
     ebind (efold add_digit ds (http_version_minor req)) (\<lambda>v. Inr (req\<lparr>http_version_minor := v\<rparr>))"
  by (induction ds arbitrary: req) (auto simp: push_minor_def ebind_assoc intro!: ebind_cong)

definition extend_back :: "(header \<Rightarrow> header) \<Rightarrow> ws_request \<Rightarrow> ws_request" where
  "extend_back f req = req\<lparr>headers := butlast (headers req) @ [f (last (headers req))]\<rparr>"

lemma on_back_some: "headers req \<noteq> [] \<Longrightarrow> on_back f req = Inr (extend_back f req)"
  by (simp add: on_back_def extend_back_def)

lemma headers_extend_back [simp]: "headers (extend_back f req) \<noteq> []"
  by (simp add: extend_back_def)

lemma extend_back_comp: "extend_back g (extend_back f req) = extend_back (\<lambda>h. g (f h)) req"
  by (simp add: extend_back_def)

lemma extend_back_id: "headers req \<noteq> [] \<Longrightarrow> extend_back (\<lambda>h. h) req = req"
  by (simp add: extend_back_def)

lemma efold_push_name:
  "headers req \<noteq> [] \<Longrightarrow>
   efold push_name m req = Inr (extend_back (\<lambda>h. h\<lparr>header_name := header_name h @ m\<rparr>) req)"
  by (induction m arbitrary: req) (simp_all add: extend_back_id push_name_def on_back_some extend_back_comp)

lemma efold_push_value:
  "headers req \<noteq> [] \<Longrightarrow>
   efold push_value m req = Inr (extend_back (\<lambda>h. h\<lparr>header_value := header_value h @ m\<rparr>) req)"
  by (induction m arbitrary: req) (simp_all add: extend_back_id push_value_def on_back_some extend_back_comp)


section \<open>The grammar\<close>

text \<open>
  A line of the header is a field or the continuation of the field before it. The grammar is the one of
  HTTP with exactly one blank behind the colon.
\<close>

datatype header_line = Field string string | Fold string string

abbreviation text_char :: "char \<Rightarrow> bool" where
  "text_char c \<equiv> \<not> is_ctl c"

abbreviation blank_char :: "char \<Rightarrow> bool" where
  "blank_char c \<equiv> c = CHR '' '' \<or> c = HT"

fun line_text :: "header_line \<Rightarrow> string" where
  "line_text (Field n v) = n @ CHR '':'' # CHR '' '' # v @ [CR, LF]"
| "line_text (Fold b t) = b @ t @ [CR, LF]"

fun line_ok :: "header_line \<Rightarrow> bool" where
  "line_ok (Field n v) \<longleftrightarrow> n \<noteq> [] \<and> (\<forall>c \<in> set n. is_token c) \<and> (\<forall>c \<in> set v. text_char c)"
| "line_ok (Fold b t) \<longleftrightarrow> b \<noteq> [] \<and> (\<forall>c \<in> set b. blank_char c) \<and> (\<forall>c \<in> set t. text_char c) \<and>
     (t \<noteq> [] \<longrightarrow> \<not> blank_char (hd t))"

fun add_line :: "header_line \<Rightarrow> ws_request \<Rightarrow> ws_request" where
  "add_line (Field n v) req = req\<lparr>headers := headers req @ [\<lparr>header_name = n, header_value = v\<rparr>]\<rparr>"
| "add_line (Fold b t) req = extend_back (\<lambda>h. h\<lparr>header_value := header_value h @ t\<rparr>) req"

fun begins_with_field :: "header_line list \<Rightarrow> bool" where
  "begins_with_field (Fold b t # ls) = False"
| "begins_with_field ls = True"

definition lines_text :: "header_line list \<Rightarrow> string" where
  "lines_text ls = concat (map line_text ls)"

record request_text =
  t_method :: string
  t_uri :: string
  t_major :: string
  t_minor :: string
  t_lines :: "header_line list"

definition text_of :: "request_text \<Rightarrow> string" where
  "text_of t = t_method t @ CHR '' '' # t_uri t @ CHR '' '' # ''HTTP/'' @ t_major t @ CHR ''.'' # t_minor t @ CR # LF #
     lines_text (t_lines t) @ [CR, LF]"

definition request_ok :: "request_text \<Rightarrow> bool" where
  "request_ok t \<longleftrightarrow> t_method t \<noteq> [] \<and> (\<forall>c \<in> set (t_method t). is_token c) \<and>
     (\<forall>c \<in> set (t_uri t). text_char c \<and> c \<noteq> CHR '' '') \<and>
     t_major t \<noteq> [] \<and> (\<forall>c \<in> set (t_major t). is_digit c) \<and>
     t_minor t \<noteq> [] \<and> (\<forall>c \<in> set (t_minor t). is_digit c) \<and>
     (\<forall>l \<in> set (t_lines t). line_ok l) \<and> begins_with_field (t_lines t)"

text \<open>The request a text stands for, when its version numbers fit.\<close>

definition request_of :: "request_text \<Rightarrow> ws_request result" where
  "request_of t =
     ebind (version_of (t_major t)) (\<lambda>maj. ebind (version_of (t_minor t)) (\<lambda>mnr.
       Inr (fold add_line (t_lines t) (new_ws_request\<lparr>req_method := t_method t, req_uri := t_uri t,
              http_version_major := maj, http_version_minor := mnr\<rparr>))))"

section \<open>Header lines\<close>

lemma special_chars:
  "\<not> is_token (CHR '' '')" "\<not> is_token (CHR '':'')" "\<not> is_token CR" "\<not> is_token HT" "is_ctl CR" "is_ctl HT" "\<not> is_ctl (CHR '' '')"
  "\<not> is_digit (CHR ''.'')" "\<not> is_digit CR"
  by (simp_all add: is_token_def is_char_def is_ctl_def is_tspecial_def is_digit_def cchar_def Let_def)

abbreviation add_value :: "string \<Rightarrow> ws_request \<Rightarrow> ws_request" where
  "add_value v \<equiv> extend_back (\<lambda>h. h\<lparr>header_value := header_value h @ v\<rparr>)"

lemma accepts_newline_2:
  "accepts Expecting_newline_2 req s rest req' \<longleftrightarrow> (\<exists>s'. s = LF # s' \<and> accepts Header_line_start req s' rest req')"
  by (rule accepts_expect [where f = "\<lambda>r. r"]) simp

lemma accepts_value:
  assumes "headers req \<noteq> []"
  shows "accepts Header_value req s rest req' \<longleftrightarrow>
    (\<exists>v s'. s = v @ CR # LF # s' \<and> (\<forall>c \<in> set v. text_char c) \<and> accepts Header_line_start (add_value v req) s' rest req')"
proof -
  have "accepts Header_value req s rest req' \<longleftrightarrow>
    (\<exists>m s' req1. s = m @ CR # s' \<and> (\<forall>c \<in> set m. text_char c) \<and> efold push_value m req = Inr req1 \<and>
      accepts Expecting_newline_2 req1 s' rest req')"
    by (rule accepts_loop) (simp_all add: special_chars)
  then show ?thesis unfolding efold_push_value [OF assms] accepts_newline_2 by auto
qed

definition lws_text :: "string \<Rightarrow> string \<Rightarrow> string \<Rightarrow> string \<Rightarrow> bool" where
  "lws_text s b t s' \<longleftrightarrow> s = b @ t @ CR # LF # s' \<and> (\<forall>c \<in> set b. blank_char c) \<and> (\<forall>c \<in> set t. text_char c) \<and>
     (t \<noteq> [] \<longrightarrow> \<not> blank_char (hd t))"

lemma accepts_lws:
  assumes "headers req \<noteq> []"
  shows "accepts Header_lws req s rest req' \<longleftrightarrow>
    (\<exists>b t s'. lws_text s b t s' \<and> accepts Header_line_start (add_value t req) s' rest req')"
proof
  assume "accepts Header_lws req s rest req'"
  then show "\<exists>b t s'. lws_text s b t s' \<and> accepts Header_line_start (add_value t req) s' rest req'"
  proof (induction s)
    case (Cons c cs)
    consider (newline) "c = CR" | (blank) "blank_char c" | (ctl) "is_ctl c" "c \<noteq> CR" "\<not> blank_char c" | (visible) "text_char c" "\<not> blank_char c"
      by blast
    then show ?case
    proof cases
      case newline
      then obtain s' where "cs = LF # s'" "accepts Header_line_start req s' rest req'"
        using Cons.prems by (auto simp: accepts_Cons accepts_newline_2)
      then have "lws_text (c # cs) [] [] s' \<and> accepts Header_line_start (add_value [] req) s' rest req'"
        using newline assms by (simp add: lws_text_def extend_back_id)
      then show ?thesis by blast
    next
      case blank
      then have "accepts Header_lws req cs rest req'" using Cons.prems by (auto simp: accepts_Cons)
      from Cons.IH [OF this] obtain b t s' where "lws_text cs b t s'" "accepts Header_line_start (add_value t req) s' rest req'" by blast
      then have "lws_text (c # cs) (c # b) t s' \<and> accepts Header_line_start (add_value t req) s' rest req'"
        using blank by (simp add: lws_text_def)
      then show ?thesis by blast
    next
      case ctl
      then show ?thesis using Cons.prems by (simp add: accepts_Cons)
    next
      case visible
      have "c \<noteq> CR" using visible special_chars by auto
      then have "accepts Header_value (add_value [c] req) cs rest req'"
        using visible Cons.prems assms by (simp add: accepts_Cons push_value_def on_back_some)
      then obtain v s' where "cs = v @ CR # LF # s'" "\<forall>c \<in> set v. text_char c"
        "accepts Header_line_start (add_value v (add_value [c] req)) s' rest req'"
        using accepts_value by auto
      then have "lws_text (c # cs) [] (c # v) s' \<and> accepts Header_line_start (add_value (c # v) req) s' rest req'"
        using visible by (simp add: lws_text_def extend_back_comp)
      then show ?thesis by blast
    qed
  qed simp
next
  assume "\<exists>b t s'. lws_text s b t s' \<and> accepts Header_line_start (add_value t req) s' rest req'"
  then obtain b t s' where shape: "lws_text s b t s'" "accepts Header_line_start (add_value t req) s' rest req'" by blast
  then have f: "s = b @ t @ CR # LF # s'" "\<forall>c \<in> set b. blank_char c" "\<forall>c \<in> set t. text_char c"
    "t \<noteq> [] \<longrightarrow> \<not> blank_char (hd t)" "accepts Header_line_start (add_value t req) s' rest req'"
    unfolding lws_text_def by simp_all
  have "accepts Header_lws req (t @ CR # LF # s') rest req'"
  proof (cases t)
    case Nil
    then show ?thesis using f(5) assms by (simp add: accepts_Cons extend_back_id)
  next
    case (Cons c v)
    have c: "\<not> blank_char c" "text_char c" using f(3,4) by (simp_all add: Cons)
    then have "c \<noteq> CR" using special_chars(5) by blast
    note c = this c
    have "accepts Header_line_start (add_value v (add_value [c] req)) s' rest req'"
      using f(5) by (simp add: Cons extend_back_comp)
    moreover have "\<forall>x \<in> set v. text_char x" using f(3) by (simp add: Cons)
    ultimately have "accepts Header_value (add_value [c] req) (v @ CR # LF # s') rest req'"
      unfolding accepts_value [OF headers_extend_back] by blast
    then show ?thesis using c assms by (simp add: Cons accepts_Cons push_value_def on_back_some)
  qed
  moreover have "accepts Header_lws req (b @ r) rest req'" if "accepts Header_lws req r rest req'" for r
    using f(2) that by (induction b) (auto simp: accepts_Cons)
  ultimately show "accepts Header_lws req s rest req'" by (simp add: f(1))
qed


lemma accepts_name:
  "accepts Header_name (req\<lparr>headers := hs @ [\<lparr>header_name = [c], header_value = []\<rparr>]\<rparr>) s rest req' \<longleftrightarrow>
    (\<exists>m v s'. s = m @ CHR '':'' # CHR '' '' # v @ CR # LF # s' \<and> (\<forall>x \<in> set m. is_token x) \<and> (\<forall>x \<in> set v. text_char x) \<and>
      accepts Header_line_start (req\<lparr>headers := hs @ [\<lparr>header_name = c # m, header_value = v\<rparr>]\<rparr>) s' rest req')"
proof -
  let ?r = "req\<lparr>headers := hs @ [\<lparr>header_name = [c], header_value = []\<rparr>]\<rparr>"
  have "headers ?r \<noteq> []" by simp
  note name = efold_push_name [OF this]
  have loop: "accepts Header_name ?r s rest req' \<longleftrightarrow>
    (\<exists>m s' req1. s = m @ CHR '':'' # s' \<and> (\<forall>x \<in> set m. is_token x) \<and> efold push_name m ?r = Inr req1 \<and>
      accepts Space_before_header_value req1 s' rest req')"
  proof (rule accepts_loop)
    show "\<not> is_token (CHR '':'')" by (rule special_chars)
  qed (auto simp: is_token_def)
  have space: "accepts Space_before_header_value r t rest req' \<longleftrightarrow> (\<exists>s'. t = CHR '' '' # s' \<and> accepts Header_value r s' rest req')" for r t
    by (rule accepts_expect [where f = "\<lambda>r. r"]) simp
  show ?thesis
    unfolding loop name space
    by (simp add: accepts_value extend_back_def ex_simps(1,2) [symmetric] del: ex_simps)
qed

definition is_field :: "header_line \<Rightarrow> bool" where
  "is_field l = (case l of Field n v \<Rightarrow> True | Fold b t \<Rightarrow> False)"

lemma accepts_line_start:
  "accepts Header_line_start req s rest req' \<longleftrightarrow>
    (s = CR # LF # rest \<and> req' = req) \<or>
    (\<exists>l s'. line_ok l \<and> s = line_text l @ s' \<and> (headers req \<noteq> [] \<or> is_field l) \<and>
      accepts Header_line_start (add_line l req) s' rest req')"
  (is "_ \<longleftrightarrow> ?end \<or> ?more")
proof (cases s)
  case Nil
  have "line_text l \<noteq> []" for l by (cases l) simp_all
  then show ?thesis using Nil by simp
next
  case (Cons c cs)
  have first: "(is_field l \<longrightarrow> is_token c) \<and> (\<not> is_field l \<longrightarrow> blank_char c)"
    if l: "line_ok l" "s = line_text l @ s'" for l s'
  proof (cases l)
    case (Field n v)
    then show ?thesis using l Cons by (cases n) (simp_all add: is_field_def)
  next
    case (Fold b t)
    then show ?thesis using l Cons by (cases b) (simp_all add: is_field_def)
  qed
  consider (newline) "c = CR" | (blank) "blank_char c" | (token) "is_token c"
    | (other) "c \<noteq> CR" "\<not> blank_char c" "\<not> is_token c" by blast
  then show ?thesis
  proof cases
    case newline
    then have "\<not> is_token c" "\<not> blank_char c" using special_chars(3) by simp_all
    then have "\<not> ?more" using first by blast
    moreover have "accepts Expecting_newline_3 req cs rest req' \<longleftrightarrow> cs = LF # rest \<and> req' = req"
      by (cases cs) (auto simp: accepts_Cons)
    then have "accepts Header_line_start req s rest req' \<longleftrightarrow> ?end" using newline Cons by (simp add: accepts_Cons)
    ultimately show ?thesis by blast
  next
    case blank
    have ntoken: "\<not> is_token c" "c \<noteq> CR" using blank special_chars by auto
    have "?more \<longleftrightarrow> headers req \<noteq> [] \<and> (\<exists>b t s'. lws_text cs b t s' \<and> accepts Header_line_start (add_value t req) s' rest req')"
    proof
      assume ?more
      then obtain l s' where l: "line_ok l" "s = line_text l @ s'" "headers req \<noteq> [] \<or> is_field l"
        "accepts Header_line_start (add_line l req) s' rest req'" by blast
      then have "\<not> is_field l" using first [OF l(1,2)] ntoken by blast
      then obtain b t where bt: "l = Fold b t" by (cases l) (auto simp: is_field_def)
      then obtain b' where "b = c # b'" using l(1,2) Cons by (cases b) auto
      then have "lws_text cs b' t s'" using l(1,2) bt Cons by (simp add: lws_text_def)
      then show "headers req \<noteq> [] \<and> (\<exists>b t s'. lws_text cs b t s' \<and> accepts Header_line_start (add_value t req) s' rest req')"
        using l(3,4) \<open>\<not> is_field l\<close> bt by auto
    next
      assume r: "headers req \<noteq> [] \<and> (\<exists>b t s'. lws_text cs b t s' \<and> accepts Header_line_start (add_value t req) s' rest req')"
      then obtain b t s' where b: "lws_text cs b t s'" "accepts Header_line_start (add_value t req) s' rest req'" by blast
      have "line_ok (Fold (c # b) t)" "s = line_text (Fold (c # b) t) @ s'"
        using b(1) blank Cons by (simp_all add: lws_text_def)
      then show ?more using b(2) r by (metis add_line.simps(2))
    qed
    moreover have "accepts Header_line_start req s rest req' \<longleftrightarrow> headers req \<noteq> [] \<and> accepts Header_lws req cs rest req'"
      using ntoken blank by (auto simp: Cons accepts_Cons is_token_def)
    moreover have "\<not> ?end" using ntoken Cons by simp
    ultimately show ?thesis using accepts_lws by blast
  next
    case token
    have nblank: "c \<noteq> CR" "\<not> blank_char c" using token special_chars by auto
    have "accepts Header_line_start req s rest req' \<longleftrightarrow>
        accepts Header_name (req\<lparr>headers := headers req @ [\<lparr>header_name = [c], header_value = []\<rparr>]\<rparr>) cs rest req'"
      using token nblank by (simp add: Cons accepts_Cons is_token_def)
    also have "\<dots> \<longleftrightarrow> ?more"
      unfolding accepts_name
    proof
      assume "\<exists>m v s'. cs = m @ CHR '':'' # CHR '' '' # v @ CR # LF # s' \<and> (\<forall>x \<in> set m. is_token x) \<and> (\<forall>x \<in> set v. text_char x) \<and>
        accepts Header_line_start (req\<lparr>headers := headers req @ [\<lparr>header_name = c # m, header_value = v\<rparr>]\<rparr>) s' rest req'"
      then obtain m v s' where m: "cs = m @ CHR '':'' # CHR '' '' # v @ CR # LF # s'" "\<forall>x \<in> set m. is_token x"
        "\<forall>x \<in> set v. text_char x"
        "accepts Header_line_start (req\<lparr>headers := headers req @ [\<lparr>header_name = c # m, header_value = v\<rparr>]\<rparr>) s' rest req'" by blast
      have "line_ok (Field (c # m) v)" "s = line_text (Field (c # m) v) @ s'" "is_field (Field (c # m) v)"
        using m(1-3) token Cons by (simp_all add: is_field_def)
      then show ?more using m(4) by (metis add_line.simps(1))
    next
      assume ?more
      then obtain l s' where l: "line_ok l" "s = line_text l @ s'" "accepts Header_line_start (add_line l req) s' rest req'" by blast
      then have "is_field l" using first [OF l(1,2)] nblank by blast
      then obtain n v where nv: "l = Field n v" by (cases l) (auto simp: is_field_def)
      then obtain m where "n = c # m" "cs = m @ CHR '':'' # CHR '' '' # v @ CR # LF # s'"
        using l(1,2) Cons by (cases n) auto
      then show "\<exists>m v s'. cs = m @ CHR '':'' # CHR '' '' # v @ CR # LF # s' \<and> (\<forall>x \<in> set m. is_token x) \<and> (\<forall>x \<in> set v. text_char x) \<and>
        accepts Header_line_start (req\<lparr>headers := headers req @ [\<lparr>header_name = c # m, header_value = v\<rparr>]\<rparr>) s' rest req'"
        using l(1,3) nv by auto
    qed
    finally have "accepts Header_line_start req s rest req' \<longleftrightarrow> ?more" .
    moreover have "\<not> ?end" using nblank Cons by simp
    ultimately show ?thesis by blast
  next
    case other
    then have "\<not> ?more" using first by blast
    moreover have "\<not> accepts Header_line_start req s rest req'" using other by (auto simp: Cons accepts_Cons is_token_def)
    moreover have "\<not> ?end" using other Cons by simp
    ultimately show ?thesis by blast
  qed
qed


lemma headers_add_line [simp]: "headers (add_line l req) \<noteq> []"
  by (cases l) simp_all

lemma begins_Cons: "begins_with_field (l # ls) \<longleftrightarrow> is_field l"
  by (cases l) (simp_all add: is_field_def)

lemma line_text_nonempty: "line_text l \<noteq> []"
  by (cases l) simp_all

lemma accepts_lines:
  "accepts Header_line_start req s rest req' \<longleftrightarrow>
    (\<exists>ls. s = lines_text ls @ CR # LF # rest \<and> (\<forall>l \<in> set ls. line_ok l) \<and>
      (headers req \<noteq> [] \<or> begins_with_field ls) \<and> req' = fold add_line ls req)"
proof (induction "length s" arbitrary: s req rule: less_induct)
  case less
  have later: "accepts Header_line_start (add_line l req) s' rest req' \<longleftrightarrow>
      (\<exists>ls. s' = lines_text ls @ CR # LF # rest \<and> (\<forall>l \<in> set ls. line_ok l) \<and> req' = fold add_line ls (add_line l req))"
    if "s = line_text l @ s'" for l s'
    using less [of s' "add_line l req"] that line_text_nonempty [of l] by simp
  show ?case (is "?l \<longleftrightarrow> ?r")
  proof
    assume ?l
    then consider (stop) "s = CR # LF # rest" "req' = req"
      | (more) l s' where "line_ok l" "s = line_text l @ s'" "headers req \<noteq> [] \<or> is_field l"
        "accepts Header_line_start (add_line l req) s' rest req'"
      unfolding accepts_line_start [of req s] by blast
    then show ?r
    proof cases
      case stop
      then show ?thesis by (intro exI [of _ "[]"]) (simp add: lines_text_def)
    next
      case more
      then obtain ls where "s' = lines_text ls @ CR # LF # rest" "\<forall>l \<in> set ls. line_ok l" "req' = fold add_line ls (add_line l req)"
        using later by blast
      then show ?thesis using more by (intro exI [of _ "l # ls"]) (auto simp: lines_text_def begins_Cons)
    qed
  next
    assume ?r
    then obtain ls where ls: "s = lines_text ls @ CR # LF # rest" "\<forall>l \<in> set ls. line_ok l"
      "headers req \<noteq> [] \<or> begins_with_field ls" "req' = fold add_line ls req" by blast
    show ?l
    proof (cases ls)
      case Nil
      then show ?thesis using ls by (subst accepts_line_start) (simp add: lines_text_def)
    next
      case (Cons l ls')
      let ?s = "lines_text ls' @ CR # LF # rest"
      have "s = line_text l @ ?s" using ls(1) Cons by (simp add: lines_text_def)
      moreover from this have "accepts Header_line_start (add_line l req) ?s rest req'"
        unfolding later [OF \<open>s = line_text l @ ?s\<close>] using ls Cons by auto
      moreover have "headers req \<noteq> [] \<or> is_field l" "line_ok l" using ls Cons by (auto simp: begins_Cons)
      ultimately show ?thesis unfolding accepts_line_start [of req s] by blast
    qed
  qed
qed

section \<open>The request line\<close>

lemma accepts_start:
  "accepts Method_start req s rest req' \<longleftrightarrow>
    (\<exists>m s'. s = m @ CHR '' '' # s' \<and> m \<noteq> [] \<and> (\<forall>c \<in> set m. is_token c) \<and>
      accepts Uri (req\<lparr>req_method := req_method req @ m\<rparr>) s' rest req')"
proof -
  have loop: "accepts Method r t rest req' \<longleftrightarrow>
      (\<exists>m s'. t = m @ CHR '' '' # s' \<and> (\<forall>c \<in> set m. is_token c) \<and> accepts Uri (r\<lparr>req_method := req_method r @ m\<rparr>) s' rest req')" for r t
  proof -
    have "accepts Method r t rest req' \<longleftrightarrow>
      (\<exists>m s' r1. t = m @ CHR '' '' # s' \<and> (\<forall>c \<in> set m. is_token c) \<and> efold (\<lambda>c r. Inr (push_method c r)) m r = Inr r1 \<and>
        accepts Uri r1 s' rest req')"
    proof (rule accepts_loop)
      show "\<not> is_token (CHR '' '')" by (rule special_chars)
    qed (auto simp: is_token_def)
    then show ?thesis unfolding efold_push_method by auto
  qed
  show ?thesis
  proof (cases s)
    case (Cons c cs)
    have "accepts Method_start req s rest req' \<longleftrightarrow> is_token c \<and> accepts Method (push_method c req) cs rest req'"
      by (auto simp: Cons accepts_Cons is_token_def)
    also have "\<dots> \<longleftrightarrow> (\<exists>m s'. s = m @ CHR '' '' # s' \<and> m \<noteq> [] \<and> (\<forall>c \<in> set m. is_token c) \<and>
      accepts Uri (req\<lparr>req_method := req_method req @ m\<rparr>) s' rest req')" (is "_ \<longleftrightarrow> ?r")
    proof
      assume l: "is_token c \<and> accepts Method (push_method c req) cs rest req'"
      then obtain m s' where "cs = m @ CHR '' '' # s'" "\<forall>c \<in> set m. is_token c"
        "accepts Uri (req\<lparr>req_method := req_method req @ c # m\<rparr>) s' rest req'"
        unfolding loop by (auto simp: push_method_def)
      with l show ?r by (intro exI [of _ "c # m"] exI [of _ s']) (simp add: Cons)
    next
      assume ?r
      then obtain m s' where m: "s = m @ CHR '' '' # s'" "m \<noteq> []" "\<forall>c \<in> set m. is_token c"
        "accepts Uri (req\<lparr>req_method := req_method req @ m\<rparr>) s' rest req'" by blast
      then obtain m' where "m = c # m'" "cs = m' @ CHR '' '' # s'" using Cons by (cases m) auto
      with m show "is_token c \<and> accepts Method (push_method c req) cs rest req'"
        unfolding loop by (auto simp: push_method_def)
    qed
    finally show ?thesis .
  qed simp
qed

lemma accepts_uri:
  "accepts Uri req s rest req' \<longleftrightarrow>
    (\<exists>u s'. s = u @ CHR '' '' # s' \<and> (\<forall>c \<in> set u. text_char c \<and> c \<noteq> CHR '' '') \<and>
      accepts Http_version_h (req\<lparr>req_uri := req_uri req @ u\<rparr>) s' rest req')"
proof -
  have "accepts Uri req s rest req' \<longleftrightarrow>
    (\<exists>m s' r1. s = m @ CHR '' '' # s' \<and> (\<forall>c \<in> set m. text_char c \<and> c \<noteq> CHR '' '') \<and>
      efold (\<lambda>c r. Inr (push_uri c r)) m req = Inr r1 \<and> accepts Http_version_h r1 s' rest req')"
    by (rule accepts_loop) auto
  then show ?thesis unfolding efold_push_uri by auto
qed

lemma accepts_http:
  "accepts Http_version_h req s rest req' \<longleftrightarrow>
    (\<exists>s'. s = ''HTTP/'' @ s' \<and> accepts Http_version_major_start (req\<lparr>http_version_major := 0, http_version_minor := 0\<rparr>) s' rest req')"
proof -
  have h: "accepts Http_version_h r t rest req' \<longleftrightarrow> (\<exists>s'. t = CHR ''H'' # s' \<and> accepts Http_version_t_1 r s' rest req')" for r t
    by (rule accepts_expect [where f = "\<lambda>r. r"]) simp
  have t1: "accepts Http_version_t_1 r t rest req' \<longleftrightarrow> (\<exists>s'. t = CHR ''T'' # s' \<and> accepts Http_version_t_2 r s' rest req')" for r t
    by (rule accepts_expect [where f = "\<lambda>r. r"]) simp
  have t2: "accepts Http_version_t_2 r t rest req' \<longleftrightarrow> (\<exists>s'. t = CHR ''T'' # s' \<and> accepts Http_version_p r s' rest req')" for r t
    by (rule accepts_expect [where f = "\<lambda>r. r"]) simp
  have pp: "accepts Http_version_p r t rest req' \<longleftrightarrow> (\<exists>s'. t = CHR ''P'' # s' \<and> accepts Http_version_slash r s' rest req')" for r t
    by (rule accepts_expect [where f = "\<lambda>r. r"]) simp
  have sl: "accepts Http_version_slash r t rest req' \<longleftrightarrow> (\<exists>s'. t = CHR ''/'' # s' \<and>
      accepts Http_version_major_start (r\<lparr>http_version_major := 0, http_version_minor := 0\<rparr>) s' rest req')" for r t
    by (rule accepts_expect) simp
  show ?thesis unfolding h t1 t2 pp sl by auto
qed


lemma accepts_number:
  assumes first: "\<And>c req. consume c (st0, req) =
      (if is_digit c then ebind (push c req) (\<lambda>req. goes st req) else fails st0 req)"
    and step: "\<And>c req. consume c (st, req) =
      (if c = sep then goes st' req else if is_digit c then ebind (push c req) (\<lambda>req. goes st req) else fails st req)"
    and sep: "\<not> is_digit sep"
  shows "accepts st0 req s rest req' \<longleftrightarrow>
    (\<exists>ds s' req1. s = ds @ sep # s' \<and> ds \<noteq> [] \<and> (\<forall>c \<in> set ds. is_digit c) \<and> efold push ds req = Inr req1 \<and>
      accepts st' req1 s' rest req')"
proof (cases s)
  case (Cons c cs)
  note loop = accepts_loop [where st = st and push = push, OF step sep]
  have "accepts st0 req s rest req' \<longleftrightarrow> is_digit c \<and> (\<exists>r. push c req = Inr r \<and> accepts st r cs rest req')"
    by (auto simp: Cons accepts_Cons first ebind_eq_Inr)
  also have "\<dots> \<longleftrightarrow> (\<exists>ds s' req1. s = ds @ sep # s' \<and> ds \<noteq> [] \<and> (\<forall>c \<in> set ds. is_digit c) \<and>
      efold push ds req = Inr req1 \<and> accepts st' req1 s' rest req')" (is "_ \<longleftrightarrow> ?r")
  proof
    assume "is_digit c \<and> (\<exists>r. push c req = Inr r \<and> accepts st r cs rest req')"
    then obtain r m s' req1 where "is_digit c" "push c req = Inr r" "cs = m @ sep # s'" "\<forall>c \<in> set m. is_digit c"
      "efold push m r = Inr req1" "accepts st' req1 s' rest req'" unfolding loop by blast
    then show ?r by (intro exI [of _ "c # m"] exI [of _ s'] exI [of _ req1]) (simp add: Cons)
  next
    assume ?r
    then obtain ds s' req1 where d: "s = ds @ sep # s'" "ds \<noteq> []" "\<forall>c \<in> set ds. is_digit c"
      "efold push ds req = Inr req1" "accepts st' req1 s' rest req'" by blast
    then obtain m where m: "ds = c # m" "cs = m @ sep # s'" using Cons by (cases ds) auto
    then obtain r where r: "push c req = Inr r" "efold push m r = Inr req1" using d(4) by (auto simp: ebind_eq_Inr)
    then have "accepts st r cs rest req'" unfolding loop using m d(3,5) by auto
    with r(1) m(1) d(3) show "is_digit c \<and> (\<exists>r. push c req = Inr r \<and> accepts st r cs rest req')" by auto
  qed
  finally show ?thesis .
qed simp

lemma accepts_version:
  "accepts Http_version_major_start (req\<lparr>http_version_major := 0, http_version_minor := 0\<rparr>) s rest req' \<longleftrightarrow>
    (\<exists>ma mi maj mnr s'. s = ma @ CHR ''.'' # mi @ CR # LF # s' \<and> ma \<noteq> [] \<and> (\<forall>c \<in> set ma. is_digit c) \<and>
      mi \<noteq> [] \<and> (\<forall>c \<in> set mi. is_digit c) \<and> version_of ma = Inr maj \<and> version_of mi = Inr mnr \<and>
      accepts Header_line_start (req\<lparr>http_version_major := maj, http_version_minor := mnr\<rparr>) s' rest req')"
proof -
  have nl: "accepts Expecting_newline_1 r t rest req' \<longleftrightarrow> (\<exists>s'. t = LF # s' \<and> accepts Header_line_start r s' rest req')" for r t
    by (rule accepts_expect [where f = "\<lambda>r. r"]) simp
  have minor: "accepts Http_version_minor_start r t rest req' \<longleftrightarrow>
      (\<exists>ds s' r1. t = ds @ CR # s' \<and> ds \<noteq> [] \<and> (\<forall>c \<in> set ds. is_digit c) \<and> efold push_minor ds r = Inr r1 \<and>
        accepts Expecting_newline_1 r1 s' rest req')" for r t
    by (rule accepts_number [where st = Http_version_minor]) (simp_all add: special_chars)
  have major: "accepts Http_version_major_start r t rest req' \<longleftrightarrow>
      (\<exists>ds s' r1. t = ds @ CHR ''.'' # s' \<and> ds \<noteq> [] \<and> (\<forall>c \<in> set ds. is_digit c) \<and> efold push_major ds r = Inr r1 \<and>
        accepts Http_version_minor_start r1 s' rest req')" for r t
    by (rule accepts_number [where st = Http_version_major]) (simp_all add: special_chars)
  let ?z = "req\<lparr>http_version_major := 0, http_version_minor := 0\<rparr>"
  have A: "accepts Http_version_major_start ?z s rest req' \<longleftrightarrow>
    (\<exists>ma t maj. s = ma @ CHR ''.'' # t \<and> ma \<noteq> [] \<and> (\<forall>c \<in> set ma. is_digit c) \<and> version_of ma = Inr maj \<and>
      accepts Http_version_minor_start (?z\<lparr>http_version_major := maj\<rparr>) t rest req')"
    unfolding major efold_push_major by (auto simp: version_of_def ebind_eq_Inr)
  have B: "accepts Http_version_minor_start (?z\<lparr>http_version_major := maj\<rparr>) t rest req' \<longleftrightarrow>
    (\<exists>mi s' mnr. t = mi @ CR # LF # s' \<and> mi \<noteq> [] \<and> (\<forall>c \<in> set mi. is_digit c) \<and> version_of mi = Inr mnr \<and>
      accepts Header_line_start (req\<lparr>http_version_major := maj, http_version_minor := mnr\<rparr>) s' rest req')" for maj t
    unfolding minor efold_push_minor nl by (auto simp: version_of_def ebind_eq_Inr)
  show ?thesis (is "?l \<longleftrightarrow> ?r")
  proof
    assume ?l
    then obtain ma t maj where a: "s = ma @ CHR ''.'' # t" "ma \<noteq> []" "\<forall>c \<in> set ma. is_digit c" "version_of ma = Inr maj"
      "accepts Http_version_minor_start (?z\<lparr>http_version_major := maj\<rparr>) t rest req'" unfolding A by blast
    from a(5) obtain mi s' mnr where "t = mi @ CR # LF # s'" "mi \<noteq> []" "\<forall>c \<in> set mi. is_digit c" "version_of mi = Inr mnr"
      "accepts Header_line_start (req\<lparr>http_version_major := maj, http_version_minor := mnr\<rparr>) s' rest req'" unfolding B by blast
    with a(1-4) show ?r by blast
  next
    assume ?r
    then obtain ma mi maj mnr s' where r: "s = ma @ CHR ''.'' # mi @ CR # LF # s'" "ma \<noteq> []" "\<forall>c \<in> set ma. is_digit c"
      "mi \<noteq> []" "\<forall>c \<in> set mi. is_digit c" "version_of ma = Inr maj" "version_of mi = Inr mnr"
      "accepts Header_line_start (req\<lparr>http_version_major := maj, http_version_minor := mnr\<rparr>) s' rest req'" by blast
    then have "accepts Http_version_minor_start (?z\<lparr>http_version_major := maj\<rparr>) (mi @ CR # LF # s') rest req'" unfolding B by blast
    with r(1-3,6) show ?l unfolding A by blast
  qed
qed

lemma grammar_sound:
  assumes "accepts Method_start new_ws_request s rest req"
  shows "\<exists>t. request_ok t \<and> s = text_of t @ rest \<and> request_of t = Inr req"
proof -
  from assms obtain m s1 where m: "s = m @ CHR '' '' # s1" "m \<noteq> []" "\<forall>c \<in> set m. is_token c"
    "accepts Uri (new_ws_request\<lparr>req_method := m\<rparr>) s1 rest req"
    unfolding accepts_start by (auto simp: new_ws_request_def)
  then obtain u s2 where u: "s1 = u @ CHR '' '' # ''HTTP/'' @ s2" "\<forall>c \<in> set u. text_char c \<and> c \<noteq> CHR '' ''"
    "accepts Http_version_major_start (new_ws_request\<lparr>req_method := m, req_uri := u, http_version_major := 0, http_version_minor := 0\<rparr>) s2 rest req"
    unfolding accepts_uri accepts_http by (auto simp: new_ws_request_def)
  from u(3) obtain ma mi maj mnr s3 where v: "s2 = ma @ CHR ''.'' # mi @ CR # LF # s3" "ma \<noteq> []" "\<forall>c \<in> set ma. is_digit c"
    "mi \<noteq> []" "\<forall>c \<in> set mi. is_digit c" "version_of ma = Inr maj" "version_of mi = Inr mnr"
    "accepts Header_line_start (new_ws_request\<lparr>req_method := m, req_uri := u, http_version_major := maj, http_version_minor := mnr\<rparr>) s3 rest req"
    unfolding accepts_version by blast
  from v(8) obtain ls where ls: "s3 = lines_text ls @ CR # LF # rest" "\<forall>l \<in> set ls. line_ok l" "begins_with_field ls"
    "req = fold add_line ls (new_ws_request\<lparr>req_method := m, req_uri := u, http_version_major := maj, http_version_minor := mnr\<rparr>)"
    unfolding accepts_lines by (auto simp: new_ws_request_def)
  let ?t = "\<lparr>t_method = m, t_uri = u, t_major = ma, t_minor = mi, t_lines = ls\<rparr>"
  have "request_ok ?t" "s = text_of ?t @ rest" "request_of ?t = Inr req"
    using m(1-3) u(1,2) v(1-7) ls by (simp_all add: request_ok_def text_of_def request_of_def)
  then show ?thesis by blast
qed

lemma grammar_complete:
  assumes t: "request_ok t" "request_of t = Inr req"
  shows "accepts Method_start new_ws_request (text_of t @ rest) rest req"
proof -
  from t(2) obtain maj mnr where v: "version_of (t_major t) = Inr maj" "version_of (t_minor t) = Inr mnr"
    "req = fold add_line (t_lines t) (new_ws_request\<lparr>req_method := t_method t, req_uri := t_uri t,
            http_version_major := maj, http_version_minor := mnr\<rparr>)"
    by (auto simp: request_of_def ebind_eq_Inr)
  let ?req = "new_ws_request\<lparr>req_method := t_method t, req_uri := t_uri t, http_version_major := maj, http_version_minor := mnr\<rparr>"
  let ?s3 = "lines_text (t_lines t) @ CR # LF # rest"
  let ?s2 = "t_major t @ CHR ''.'' # t_minor t @ CR # LF # ?s3"
  have ok: "t_method t \<noteq> []" "\<forall>c \<in> set (t_method t). is_token c" "\<forall>c \<in> set (t_uri t). text_char c \<and> c \<noteq> CHR '' ''"
    "t_major t \<noteq> []" "\<forall>c \<in> set (t_major t). is_digit c" "t_minor t \<noteq> []" "\<forall>c \<in> set (t_minor t). is_digit c"
    "\<forall>l \<in> set (t_lines t). line_ok l" "begins_with_field (t_lines t)"
    using t(1) by (simp_all add: request_ok_def)
  have "accepts Header_line_start ?req ?s3 rest req"
    unfolding accepts_lines using ok(8,9) v(3) by blast
  then have "accepts Http_version_major_start
      ((new_ws_request\<lparr>req_method := t_method t, req_uri := t_uri t\<rparr>)\<lparr>http_version_major := 0, http_version_minor := 0\<rparr>)
      ?s2 rest req"
    unfolding accepts_version using ok(4-7) v(1,2) by blast
  then have "accepts Http_version_h (new_ws_request\<lparr>req_method := t_method t, req_uri := t_uri t\<rparr>) (''HTTP/'' @ ?s2) rest req"
    unfolding accepts_http by blast
  then have "accepts Http_version_h ((new_ws_request\<lparr>req_method := t_method t\<rparr>)\<lparr>req_uri := [] @ t_uri t\<rparr>) (''HTTP/'' @ ?s2) rest req"
    by simp
  moreover have "req_uri (new_ws_request\<lparr>req_method := t_method t\<rparr>) = []" by (simp add: new_ws_request_def)
  ultimately have "accepts Uri (new_ws_request\<lparr>req_method := t_method t\<rparr>) (t_uri t @ CHR '' '' # ''HTTP/'' @ ?s2) rest req"
    unfolding accepts_uri using ok(3) by metis
  moreover have "new_ws_request\<lparr>req_method := req_method new_ws_request @ t_method t\<rparr> = new_ws_request\<lparr>req_method := t_method t\<rparr>"
    by (simp add: new_ws_request_def)
  ultimately have "accepts Method_start new_ws_request (t_method t @ CHR '' '' # t_uri t @ CHR '' '' # ''HTTP/'' @ ?s2) rest req"
    unfolding accepts_start using ok(1,2) by metis
  moreover have "t_method t @ CHR '' '' # t_uri t @ CHR '' '' # ''HTTP/'' @ ?s2 = text_of t @ rest" by (simp add: text_of_def)
  ultimately show ?thesis by (simp only:)
qed

section \<open>What never happens\<close>

text \<open>In the states that write to the last header there is one.\<close>

definition state_ok :: "parser \<Rightarrow> bool" where
  "state_ok = (\<lambda>(st, req).
     (st \<in> {Header_lws, Header_name, Space_before_header_value, Header_value, Expecting_newline_2} \<longrightarrow> headers req \<noteq> []) \<and>
     (st \<in> {Http_version_major_start, Http_version_major, Http_version_minor_start} \<longrightarrow> http_version_minor req = 0) \<and>
     (st = Http_version_major_start \<longrightarrow> http_version_major req = 0))"

lemma push_major_minor: "push_major c req = Inr req' \<Longrightarrow> http_version_minor req' = http_version_minor req"
  by (auto simp: push_major_def ebind_eq_Inr)

lemma state_ok_consume:
  assumes "state_ok p" "consume c p = Inr (ret, p')"
  shows "state_ok p'"
  using assms
  by (cases "(c, p)" rule: consume.cases)
    (auto simp: state_ok_def ebind_eq_Inr push_value_def push_name_def on_back_def push_major_minor split: if_splits)

lemma consume_fault:
  assumes "state_ok p" "consume c p = Inl e"
  shows "e = Int_overflow"
  using assms
  by (cases "(c, p)" rule: consume.cases)
    (auto simp: state_ok_def ebind_eq_Inl push_value_def push_name_def on_back_def push_major_def push_minor_def
      add_digit_def split: if_splits)

lemma parse_fault: "state_ok p \<Longrightarrow> parse_request s p = Inl e \<Longrightarrow> e = Int_overflow"
proof (induction s arbitrary: p)
  case (Cons c s)
  show ?case
  proof (cases "consume c p")
    case (Inl e')
    then show ?thesis using Cons.prems consume_fault by auto
  next
    case (Inr x)
    obtain r q where x: "x = (r, q)" by (cases x)
    then have "state_ok q" using Cons.prems(1) Inr state_ok_consume by blast
    then show ?thesis using Cons.IH [of q] Cons.prems(2) Inr x by (simp split: if_splits)
  qed
qed simp

lemma state_ok_parse: "state_ok p \<Longrightarrow> parse_request s p = Inr (ret, rest, p') \<Longrightarrow> state_ok p'"
proof (induction s arbitrary: p)
  case (Cons c s)
  then obtain r q where q: "consume c p = Inr (r, q)" by (cases "consume c p") auto
  then show ?case using Cons.prems Cons.IH [of q] state_ok_consume [OF Cons.prems(1) q] by (auto split: if_splits)
qed simp

lemma start_ok: "state_ok parser_start"
  by (simp add: state_ok_def parser_start_def)

section \<open>A way out of every state\<close>

text \<open>The shortest completion of a request from each state.\<close>

fun completion :: "parser_state \<Rightarrow> string" where
  "completion Expecting_newline_3 = [LF]"
| "completion Header_line_start = [CR, LF]"
| "completion Expecting_newline_2 = [LF, CR, LF]"
| "completion Header_value = [CR, LF, CR, LF]"
| "completion Header_lws = [CR, LF, CR, LF]"
| "completion Space_before_header_value = [CHR '' '', CR, LF, CR, LF]"
| "completion Header_name = [CHR '':'', CHR '' '', CR, LF, CR, LF]"
| "completion Expecting_newline_1 = [LF, CR, LF]"
| "completion Http_version_minor = [CR, LF, CR, LF]"
| "completion Http_version_minor_start = ''0'' @ [CR, LF, CR, LF]"
| "completion Http_version_major = ''.0'' @ [CR, LF, CR, LF]"
| "completion Http_version_major_start = ''0.0'' @ [CR, LF, CR, LF]"
| "completion Http_version_slash = ''/0.0'' @ [CR, LF, CR, LF]"
| "completion Http_version_p = ''P/0.0'' @ [CR, LF, CR, LF]"
| "completion Http_version_t_2 = ''TP/0.0'' @ [CR, LF, CR, LF]"
| "completion Http_version_t_1 = ''TTP/0.0'' @ [CR, LF, CR, LF]"
| "completion Http_version_h = ''HTTP/0.0'' @ [CR, LF, CR, LF]"
| "completion Uri = '' HTTP/0.0'' @ [CR, LF, CR, LF]"
| "completion Method = ''  HTTP/0.0'' @ [CR, LF, CR, LF]"
| "completion Method_start = ''A  HTTP/0.0'' @ [CR, LF, CR, LF]"

lemma zero_digit: "is_digit (CHR ''0'')" "add_digit (CHR ''0'') 0 = Inr 0" "is_char (CHR ''A'')" "\<not> is_ctl (CHR ''A'')"
  "\<not> is_tspecial (CHR ''A'')"
  by (simp_all add: is_digit_def add_digit_def is_char_def is_ctl_def is_tspecial_def cchar_def Let_def)

lemma completion_accepted:
  assumes "state_ok (st, req)"
  shows "\<exists>req'. accepts st req (completion st) [] req'"
  using assms
  by (cases st) (simp_all add: state_ok_def accepts_Cons zero_digit push_major_def push_minor_def)

section \<open>Properties\<close>

text \<open>
  C23. The machine accepts exactly the requests of the grammar and reads them right: starting afresh,
  it stops with success and the request \<^verbatim>\<open>req\<close> at a given point of the input if and only if the input
  up to there is the text of a well-formed request whose meaning is \<^verbatim>\<open>req\<close>. In particular no field of an
  accepted request holds a control character.
\<close>
theorem parses_the_grammar:
  "parse_request s parser_start = Inr (Parse_ok, rest, Expecting_newline_3, req) \<longleftrightarrow>
    (\<exists>t. request_ok t \<and> s = text_of t @ rest \<and> request_of t = Inr req)"
  (is "?l \<longleftrightarrow> ?r")
proof -
  have start: "?l \<longleftrightarrow> accepts Method_start new_ws_request s rest req" by (simp add: accepts_def parser_start_def)
  show ?thesis unfolding start using grammar_sound grammar_complete by blast
qed

text \<open>
  No input makes the parser write to a header that does not exist: the only fault it can run into
  is a version number that overflows.
\<close>
theorem only_versions_overflow:
  assumes "parse_request s parser_start = Inl e"
  shows "e = Int_overflow"
  using assms by (rule parse_fault [OF start_ok])


lemma only_versions_overflow_witness:
  "parse_request ''GET / HTTP/99999999999'' parser_start = Inl Int_overflow"
proof -
  have "isl (parse_request ''GET / HTTP/99999999999'' parser_start)" by code_simp
  then obtain e where "parse_request ''GET / HTTP/99999999999'' parser_start = Inl e" by (auto simp: isl_def)
  then show ?thesis using only_versions_overflow by blast
qed

text \<open>
  The parser never waits in vain: while it has not decided, some continuation of the input makes a
  request that it accepts.
\<close>
theorem undecided_can_finish:
  assumes "parse_request s parser_start = Inr (Parse_indeterminate, rest, p)"
  shows "\<exists>t req. parse_request (s @ t) parser_start = Inr (Parse_ok, [], Expecting_newline_3, req)"
proof -
  obtain st req where p: "p = (st, req)" by fastforce
  have "state_ok (st, req)" using state_ok_parse [OF start_ok assms] by (simp add: p)
  then obtain req' where "parse_request (completion st) (st, req) = Inr (Parse_ok, [], Expecting_newline_3, req')"
    using completion_accepted by (auto simp: accepts_def)
  then have "parse_request (s @ completion st) parser_start = Inr (Parse_ok, [], Expecting_newline_3, req')"
    by (simp add: parse_append assms p)
  then show ?thesis by blast
qed

lemma undecided_can_finish_witness:
  "\<exists>t req. parse_request (''GET /chat HTTP/1.1'' @ t) parser_start = Inr (Parse_ok, [], Expecting_newline_3, req)"
proof -
  have "\<exists>rest p. parse_request ''GET /chat HTTP/1.1'' parser_start = Inr (Parse_indeterminate, rest, p)"
    by (simp add: parser_start_def is_char_def is_ctl_def is_tspecial_def cchar_def Let_def is_digit_def push_major_def
        push_minor_def add_digit_def)
  then show ?thesis using undecided_can_finish by blast
qed

end
