(* ===== verification/AcceptKey.thy ===== *)
theory AcceptKey
  imports Prelude
begin

text \<open>
  The answer to a client's key (\<^verbatim>\<open>src/src/util/ws_util.h\<close>): SHA-1 of the key and a fixed GUID in a
  compact form that works in place on five registers and sixteen schedule words, and its base 64 text.
  The numbers are unsigned 32-bit words that wrap.
\<close>

unbundle bit_operations_syntax

section \<open>SHA-1\<close>

definition rol :: "32 word \<Rightarrow> nat \<Rightarrow> 32 word" where
  "rol value bits = (push_bit bits value) OR (drop_bit (32 - bits) value)"

text \<open>\<^verbatim>\<open>(i + 13) & 15\<close> is the remainder by 16.\<close>

definition blk :: "32 word list \<Rightarrow> nat \<Rightarrow> 32 word" where
  "blk b i = rol (b ! ((i + 13) mod 16) XOR b ! ((i + 8) mod 16) XOR b ! ((i + 2) mod 16) XOR b ! i) 1"

type_synonym registers = "32 word list"

fun sha1_loop :: "nat \<Rightarrow> nat \<Rightarrow> registers \<times> 32 word list \<Rightarrow> registers \<times> 32 word list" where
  "sha1_loop state i (a, b) =
     (if state = 1 then
        let a = a[i mod 5 := a ! (i mod 5) + (((a ! ((3 + i) mod 5) AND (a ! ((2 + i) mod 5) XOR a ! ((1 + i) mod 5)))
                    XOR a ! ((1 + i) mod 5)) + b ! i + 0x5a827999 + rol (a ! ((4 + i) mod 5)) 5)];
            a = a[(3 + i) mod 5 := rol (a ! ((3 + i) mod 5)) 30] in (a, b)
      else if state = 2 then
        let b = b[i := blk b i];
            a = a[(1 + i) mod 5 := a ! ((1 + i) mod 5) + (((a ! ((4 + i) mod 5) AND (a ! ((3 + i) mod 5) XOR a ! ((2 + i) mod 5)))
                    XOR a ! ((2 + i) mod 5)) + b ! i + 0x5a827999 + rol (a ! ((5 + i) mod 5)) 5)];
            a = a[(4 + i) mod 5 := rol (a ! ((4 + i) mod 5)) 30] in (a, b)
      else if state = 3 then
        let b = b[(i + 4) mod 16 := blk b ((i + 4) mod 16)];
            a = a[i mod 5 := a ! (i mod 5) + ((a ! ((3 + i) mod 5) XOR a ! ((2 + i) mod 5) XOR a ! ((1 + i) mod 5))
                    + b ! ((i + 4) mod 16) + 0x6ed9eba1 + rol (a ! ((4 + i) mod 5)) 5)];
            a = a[(3 + i) mod 5 := rol (a ! ((3 + i) mod 5)) 30] in (a, b)
      else if state = 4 then
        let b = b[(i + 8) mod 16 := blk b ((i + 8) mod 16)];
            a = a[i mod 5 := a ! (i mod 5) + ((((a ! ((3 + i) mod 5) OR a ! ((2 + i) mod 5)) AND a ! ((1 + i) mod 5))
                    OR (a ! ((3 + i) mod 5) AND a ! ((2 + i) mod 5)))
                    + b ! ((i + 8) mod 16) + 0x8f1bbcdc + rol (a ! ((4 + i) mod 5)) 5)];
            a = a[(3 + i) mod 5 := rol (a ! ((3 + i) mod 5)) 30] in (a, b)
      else if state = 5 then
        let b = b[(i + 12) mod 16 := blk b ((i + 12) mod 16)];
            a = a[i mod 5 := a ! (i mod 5) + ((a ! ((3 + i) mod 5) XOR a ! ((2 + i) mod 5) XOR a ! ((1 + i) mod 5))
                    + b ! ((i + 12) mod 16) + 0xca62c1d6 + rol (a ! ((4 + i) mod 5)) 5)];
            a = a[(3 + i) mod 5 := rol (a ! ((3 + i) mod 5)) 30] in (a, b)
      else if state = 6 then (a, b[i := b ! i + a ! (4 - i)])
      else (a, b))"

declare sha1_loop.simps [simp del]

definition static_for :: "nat \<Rightarrow> nat \<Rightarrow> registers \<times> 32 word list \<Rightarrow> registers \<times> 32 word list" where
  "static_for n state s = fold (sha1_loop state) [0..<n] s"

text \<open>The new hash and the schedule words left behind.\<close>

definition sha1 :: "32 word list \<Rightarrow> 32 word list \<Rightarrow> 32 word list \<times> 32 word list" where
  "sha1 hash b =
     (let a = [hash ! 4, hash ! 3, hash ! 2, hash ! 1, hash ! 0];
          (a, b) = static_for 16 1 (a, b);
          (a, b) = static_for 4 2 (a, b);
          (a, b) = static_for 20 3 (a, b);
          (a, b) = static_for 20 4 (a, b);
          (a, b) = static_for 20 5 (a, b);
          (a, hash) = static_for 5 6 (a, hash)
      in (hash, b))"

section \<open>Base 64\<close>

definition b64 :: string where
  "b64 = ''ABCDEFGHIJKLMNOPQRSTUVWXYZabcdefghijklmnopqrstuvwxyz0123456789+/''"

abbreviation b64_at :: "nat \<Rightarrow> char" where
  "b64_at i \<equiv> b64 ! i"

definition base64_triple :: "nat list \<Rightarrow> nat \<Rightarrow> string" where
  "base64_triple src i =
     [b64_at (drop_bit 2 (src ! i) AND 63),
      b64_at (push_bit 4 (src ! i AND 3) OR drop_bit 4 (src ! (i + 1) AND 240)),
      b64_at (push_bit 2 (src ! (i + 1) AND 15) OR drop_bit 6 (src ! (i + 2) AND 192)),
      b64_at (src ! (i + 2) AND 63)]"

definition base64 :: "nat list \<Rightarrow> string" where
  "base64 src = concat (map (base64_triple src) [0, 3, 6, 9, 12, 15]) @
     [b64_at (drop_bit 2 (src ! 18) AND 63),
      b64_at (push_bit 4 (src ! 18 AND 3) OR drop_bit 4 (src ! 19 AND 240)),
      b64_at (push_bit 2 (src ! 19 AND 15)), CHR ''='']"

section \<open>The key of the answer\<close>

text \<open>\<^verbatim>\<open>input[i] & 0xff\<close>: a byte is unsigned here. \<^verbatim>\<open>generate\<close> reads 24 characters.\<close>

definition input_byte :: "string \<Rightarrow> nat \<Rightarrow> 32 word" where
  "input_byte input i = of_nat (of_char (input ! i))"

definition input_word :: "string \<Rightarrow> nat \<Rightarrow> 32 word" where
  "input_word input i =
     input_byte input (4 * i + 3) OR push_bit 8 (input_byte input (4 * i + 2)) OR
     push_bit 16 (input_byte input (4 * i + 1)) OR push_bit 24 (input_byte input (4 * i))"

definition initial_hash :: "32 word list" where
  "initial_hash = [0x67452301, 0xefcdab89, 0x98badcfe, 0x10325476, 0xc3d2e1f0]"

definition guid_words :: "32 word list" where
  "guid_words = [0x32353845, 0x41464135, 0x2d453931, 0x342d3437, 0x44412d39,
     0x3543412d, 0x43354142, 0x30444338, 0x35423131]"

text \<open>\<^verbatim>\<open>bytes[k] = (tmp >> (24 - 8 k)) & 0xff\<close>\<close>

definition word_bytes :: "32 word \<Rightarrow> nat list" where
  "word_bytes w = map (\<lambda>s. unat (drop_bit s w AND 0xff)) [24, 16, 8, 0]"

definition generate :: "string \<Rightarrow> string" where
  "generate input =
     (let b_input = map (input_word input) [0..<6] @ guid_words @ [0x80000000];
          (b_output, _) = sha1 initial_hash b_input;
          (b_output, _) = sha1 b_output (replicate 15 0 @ [480])
      in base64 (concat (map word_bytes b_output)))"

end
