(* ===== verification/AcceptSpec.thy ===== *)
theory AcceptSpec
  imports AcceptKey
begin

text \<open>
  SHA-1 and base 64 as their standards state them, and that the compact code computes them.
\<close>

section \<open>SHA-1 as the standard has it\<close>

text \<open>The message schedule, the functions and constants of the eighty rounds.\<close>

function sched :: "32 word list \<Rightarrow> nat \<Rightarrow> 32 word" where
  "sched b t = (if t < 16 then b ! t
     else word_rotl 1 (sched b (t - 3) XOR sched b (t - 8) XOR sched b (t - 14) XOR sched b (t - 16)))"
  by pat_completeness auto
termination by (relation "measure snd") auto

declare sched.simps [simp del]

definition mix :: "nat \<Rightarrow> 32 word \<Rightarrow> 32 word \<Rightarrow> 32 word \<Rightarrow> 32 word" where
  "mix t B C D =
     (if t < 20 then (B AND C) XOR (NOT B AND D)
      else if t < 40 then B XOR C XOR D
      else if t < 60 then (B AND C) XOR (B AND D) XOR (C AND D)
      else B XOR C XOR D)"

definition konst :: "nat \<Rightarrow> 32 word" where
  "konst t = (if t < 20 then 0x5a827999 else if t < 40 then 0x6ed9eba1 else if t < 60 then 0x8f1bbcdc else 0xca62c1d6)"

type_synonym five = "32 word \<times> 32 word \<times> 32 word \<times> 32 word \<times> 32 word"

definition sha1_round :: "32 word list \<Rightarrow> nat \<Rightarrow> five \<Rightarrow> five" where
  "sha1_round b t = (\<lambda>(A, B, C, D, E). (word_rotl 5 A + mix t B C D + E + konst t + sched b t, A, word_rotl 30 B, C, D))"

definition compress :: "32 word list \<Rightarrow> 32 word list \<Rightarrow> 32 word list" where
  "compress h b =
     (let (A, B, C, D, E) = fold (sha1_round b) [0..<80] (h ! 0, h ! 1, h ! 2, h ! 3, h ! 4)
      in [h ! 0 + A, h ! 1 + B, h ! 2 + C, h ! 3 + D, h ! 4 + E])"

section \<open>The same in the terms of the code\<close>

lemma rol_word_rotl:
  assumes "0 < n" "n < 32"
  shows "word_rotl n w = rol w n"
proof (rule bit_eqI)
  fix i assume "possible_bit TYPE(32 word) i"
  then have "i < 32" by simp
  have turn: "(i + (32 - n mod 32)) mod 32 = (if i < n then 32 - n + i else i - n)"
    using assms \<open>i < 32\<close> by (auto simp: mod_if)
  have len: "LENGTH(32) = 32" by simp
  have "bit (word_rotl n w) i = bit w (if i < n then 32 - n + i else i - n)"
    unfolding bit_word_rotl_iff len turn using \<open>i < 32\<close> by simp
  also have "\<dots> = bit (rol w n) i"
    using assms \<open>i < 32\<close> bit_imp_le_length [of w "32 - n + i"]
    by (auto simp: rol_def bit_or_iff bit_push_bit_iff bit_drop_bit_eq)
  finally show "bit (word_rotl n w) i = bit (rol w n) i" .
qed

lemma mix_code:
  "mix t B C D =
     (if t < 20 then (B AND (C XOR D)) XOR D
      else if t < 40 then B XOR C XOR D
      else if t < 60 then ((B OR C) AND D) OR (B AND C)
      else B XOR C XOR D)"
proof -
  have "(B AND C) XOR (NOT B AND D) = (B AND (C XOR D)) XOR D"
    "(B AND C) XOR (B AND D) XOR (C AND D) = ((B OR C) AND D) OR (B AND C)"
    by (rule bit_eqI, auto simp: bit_simps)+
  then show ?thesis by (simp add: mix_def)
qed

lemma sched_code:
  "sched b t = (if t < 16 then b ! t
     else rol (sched b (t - 3) XOR sched b (t - 8) XOR sched b (t - 14) XOR sched b (t - 16)) 1)"
  using sched.simps [of b t] by (simp add: rol_word_rotl)

lemma round_code:
  "sha1_round b t = (\<lambda>(A, B, C, D, E). (E + (mix t B C D + sched b t + konst t + rol A 5), A, rol B 30, C, D))"
  by (rule ext) (simp add: sha1_round_def rol_word_rotl split: prod.splits)

section \<open>The five loops are one\<close>

definition code_round :: "nat \<Rightarrow> registers \<times> 32 word list \<Rightarrow> registers \<times> 32 word list" where
  "code_round t = (\<lambda>(a, b).
     let b = (if t < 16 then b else b[t mod 16 := blk b (t mod 16)]);
         a = a[t mod 5 := a ! (t mod 5) + (mix t (a ! ((3 + t) mod 5)) (a ! ((2 + t) mod 5)) (a ! ((1 + t) mod 5))
               + b ! (t mod 16) + konst t + rol (a ! ((4 + t) mod 5)) 5)]
     in (a[(3 + t) mod 5 := rol (a ! ((3 + t) mod 5)) 30], b))"

lemma shift5: "(16 + i) mod 5 = (1 + i) mod 5" "(20 + i) mod 5 = i mod (5::nat)" "(40 + i) mod 5 = i mod (5::nat)"
    "(60 + i) mod 5 = i mod (5::nat)"
  by presburger+

lemma loop_1: "i < 16 \<Longrightarrow> sha1_loop 1 i = code_round i"
  by (rule ext) (auto simp: sha1_loop.simps code_round_def mix_code konst_def Let_def)

lemma loop_2: "i < 4 \<Longrightarrow> sha1_loop 2 i = code_round (16 + i)"
proof (rule ext, clarify)
  fix a b assume "i < 4"
  moreover have "(16 + i) mod 5 = (1 + i) mod 5" "(3 + (16 + i)) mod 5 = (4 + i) mod 5" "(2 + (16 + i)) mod 5 = (3 + i) mod 5"
    "(1 + (16 + i)) mod 5 = (2 + i) mod 5" "(4 + (16 + i)) mod 5 = (5 + i) mod 5" by presburger+
  moreover have "(16 + i) mod 16 = i" using \<open>i < 4\<close> by presburger
  ultimately show "sha1_loop 2 i (a, b) = code_round (16 + i) (a, b)"
    unfolding sha1_loop.simps code_round_def prod.case by (simp add: mix_code konst_def Let_def)
qed

lemma loop_345: "i < 20 \<Longrightarrow> sha1_loop 3 i = code_round (20 + i)" "i < 20 \<Longrightarrow> sha1_loop 4 i = code_round (40 + i)"
  "i < 20 \<Longrightarrow> sha1_loop 5 i = code_round (60 + i)"
proof -
  have m: "(k + (20 + i)) mod 5 = (k + i) mod 5" "(k + (40 + i)) mod 5 = (k + i) mod 5" "(k + (60 + i)) mod 5 = (k + i) mod 5"
    for k :: nat
    using mod_mult_self1 [of "k + i" 4 5] mod_mult_self1 [of "k + i" 8 5] mod_mult_self1 [of "k + i" 12 5]
    by (simp_all add: ac_simps)
  have z: "(20 + i) mod 5 = i mod 5" "(40 + i) mod 5 = i mod 5" "(60 + i) mod 5 = i mod 5"
    using m [of 0] by simp_all
  have s: "(20 + i) mod 16 = (i + 4) mod 16" "(40 + i) mod 16 = (i + 8) mod 16" "(60 + i) mod 16 = (i + 12) mod 16"
    using mod_mult_self1 [of "i + 4" 1 16] mod_mult_self1 [of "i + 8" 2 16] mod_mult_self1 [of "i + 12" 3 16]
    by (simp_all add: ac_simps)
  show "sha1_loop 3 i = code_round (20 + i)" if "i < 20"
    using that by (intro ext, clarify, unfold sha1_loop.simps code_round_def prod.case m z s) (simp add: mix_code konst_def Let_def)
  show "sha1_loop 4 i = code_round (40 + i)" if "i < 20"
    using that by (intro ext, clarify, unfold sha1_loop.simps code_round_def prod.case m z s) (simp add: mix_code konst_def Let_def)
  show "sha1_loop 5 i = code_round (60 + i)" if "i < 20"
    using that by (intro ext, clarify, unfold sha1_loop.simps code_round_def prod.case m z s) (simp add: mix_code konst_def Let_def)
qed

lemma static_for_rounds:
  assumes "\<And>i. i < n \<Longrightarrow> sha1_loop state i = code_round (k + i)"
  shows "static_for n state s = fold code_round [k..<k + n] s"
proof -
  have "fold (sha1_loop state) [0..<n] s = fold code_round (map (\<lambda>i. k + i) [0..<n]) s"
    unfolding fold_map by (rule fold_cong) (use assms in auto)
  then show ?thesis by (simp add: static_for_def map_add_upt add.commute [of k])
qed

lemma upt_split: "i \<le> j \<Longrightarrow> j \<le> k \<Longrightarrow> [i..<k] = [i..<j] @ [j..<k]"
  using upt_add_eq_append [of i j "k - j"] by simp

lemma eighty_rounds:
  "static_for 20 5 (static_for 20 4 (static_for 20 3 (static_for 4 2 (static_for 16 1 s)))) = fold code_round [0..<80] s"
proof -
  have "static_for 16 1 s = fold code_round [0..<0 + 16] s" for s by (rule static_for_rounds) (unfold add_0, rule loop_1)
  moreover have "static_for 4 2 s = fold code_round [16..<16 + 4] s" for s by (rule static_for_rounds) (rule loop_2)
  moreover have "static_for 20 3 s = fold code_round [20..<20 + 20] s" for s by (rule static_for_rounds) (rule loop_345)
  moreover have "static_for 20 4 s = fold code_round [40..<40 + 20] s" for s by (rule static_for_rounds) (rule loop_345)
  moreover have "static_for 20 5 s = fold code_round [60..<60 + 20] s" for s by (rule static_for_rounds) (rule loop_345)
  moreover have "[0..<80] = [0..<16] @ [16..<20] @ [20..<40] @ [40..<60] @ [60..<80::nat]"
    using upt_split [of 0 16 80] upt_split [of 16 20 80] upt_split [of 20 40 80] upt_split [of 40 60 80] by simp
  ultimately show ?thesis by simp
qed

section \<open>The registers rotate\<close>

definition tracks :: "32 word list \<Rightarrow> nat \<Rightarrow> registers \<times> 32 word list \<Rightarrow> five \<Rightarrow> bool" where
  "tracks blk0 t = (\<lambda>(a, b) (A, B, C, D, E).
     length a = 5 \<and> length b = 16 \<and>
     a ! ((4 + t) mod 5) = A \<and> a ! ((3 + t) mod 5) = B \<and> a ! ((2 + t) mod 5) = C \<and> a ! ((1 + t) mod 5) = D \<and> a ! (t mod 5) = E \<and>
     (\<forall>j < max 16 t. max 16 t \<le> j + 16 \<longrightarrow> b ! (j mod 16) = sched blk0 j))"

lemma track_schedule:
  assumes "length b = 16" "\<forall>j < max 16 t. max 16 t \<le> j + 16 \<longrightarrow> b ! (j mod 16) = sched blk0 j"
    and "b' = (if t < 16 then b else b[t mod 16 := blk b (t mod 16)])"
  shows "length b' = 16" "b' ! (t mod 16) = sched blk0 t"
    "\<forall>j < max 16 (Suc t). max 16 (Suc t) \<le> j + 16 \<longrightarrow> b' ! (j mod 16) = sched blk0 j"
proof -
  show len: "length b' = 16" using assms(1,3) by simp
  show new: "b' ! (t mod 16) = sched blk0 t"
  proof (cases "t < 16")
    case True
    then show ?thesis using assms by simp
  next
    case False
    have old: "b ! (j mod 16) = sched blk0 j" if "j < t" "t \<le> j + 16" for j using assms(2) that False by simp
    obtain u where u: "t = u + 16" using False by (metis add.commute le_Suc_ex not_less)
    have base: "t mod 16 = u mod 16" "t - 3 = u + 13" "t - 8 = u + 8" "t - 14 = u + 2" "t - 16 = u" by (simp_all add: u)
    have idx: "(t mod 16 + 13) mod 16 = (t - 3) mod 16" "(t mod 16 + 8) mod 16 = (t - 8) mod 16"
      "(t mod 16 + 2) mod 16 = (t - 14) mod 16" "t mod 16 = (t - 16) mod 16"
      unfolding base by (rule mod_add_left_eq)+ (rule refl)
    have "blk b (t mod 16) = rol (sched blk0 (t - 3) XOR sched blk0 (t - 8) XOR sched blk0 (t - 14) XOR sched blk0 (t - 16)) 1"
      using old [of "t - 3"] old [of "t - 8"] old [of "t - 14"] old [of "t - 16"] False
      unfolding blk_def idx(1-3) by (simp add: idx(4) [symmetric])
    then show ?thesis using False assms(1,3) by (simp add: sched_code [of blk0 t])
  qed
  show "\<forall>j < max 16 (Suc t). max 16 (Suc t) \<le> j + 16 \<longrightarrow> b' ! (j mod 16) = sched blk0 j"
  proof (intro allI impI)
    fix j assume j: "j < max 16 (Suc t)" "max 16 (Suc t) \<le> j + 16"
    show "b' ! (j mod 16) = sched blk0 j"
    proof (cases "j = t \<or> t < 16")
      case True
      then show ?thesis using new assms j by auto
    next
      case False
      then have "j < t" "t < j + 16" using j by auto
      have "j mod 16 \<noteq> t mod 16"
      proof
        assume "j mod 16 = t mod 16"
        then have "16 dvd t - j" using \<open>j < t\<close> by (metis mod_eq_dvd_iff_nat less_imp_le_nat)
        then show False using \<open>j < t\<close> \<open>t < j + 16\<close> by (auto dest: dvd_imp_le)
      qed
      then show ?thesis using assms False \<open>j < t\<close> \<open>t < j + 16\<close> by simp
    qed
  qed
qed

lemma turns:
  "(4 + Suc t) mod 5 = t mod 5" "(3 + Suc t) mod 5 = (4 + t) mod 5" "(2 + Suc t) mod 5 = (3 + t) mod 5"
  "(1 + Suc t) mod 5 = (2 + t) mod 5" "Suc t mod 5 = (1 + t) mod 5"
  by presburger+

lemma seats5:
  "(4 + t) mod 5 \<noteq> t mod 5" "(3 + t) mod 5 \<noteq> t mod 5" "(2 + t) mod 5 \<noteq> t mod 5" "(1 + t) mod 5 \<noteq> t mod (5::nat)"
  "(4 + t) mod 5 \<noteq> (3 + t) mod (5::nat)" "(2 + t) mod 5 \<noteq> (3 + t) mod (5::nat)" "(1 + t) mod 5 \<noteq> (3 + t) mod (5::nat)"
  by presburger+

lemma tracks_round:
  assumes "tracks blk0 t s r"
  shows "tracks blk0 (Suc t) (code_round t s) (sha1_round blk0 t r)"
proof -
  obtain a b where s: "s = (a, b)" by (cases s)
  obtain A B C D E where r: "r = (A, B, C, D, E)" by (cases r)
  have tr: "length a = 5" "length b = 16" "a ! ((4 + t) mod 5) = A" "a ! ((3 + t) mod 5) = B" "a ! ((2 + t) mod 5) = C"
    "a ! ((1 + t) mod 5) = D" "a ! (t mod 5) = E" "\<forall>j < max 16 t. max 16 t \<le> j + 16 \<longrightarrow> b ! (j mod 16) = sched blk0 j"
    using assms by (simp_all add: tracks_def s r)
  define b' where "b' = (if t < 16 then b else b[t mod 16 := blk b (t mod 16)])"
  note sch = track_schedule [OF tr(2,8) b'_def]
  define e where "e = E + (mix t B C D + sched blk0 t + konst t + rol A 5)"
  have code: "code_round t s = (a[t mod 5 := e, (3 + t) mod 5 := rol B 30], b')"
    unfolding code_round_def s prod.case Let_def b'_def [symmetric] tr(3-7) sch(2) e_def [symmetric]
    using seats5(2) [of t] tr(4) by simp
  show ?thesis
    unfolding code r round_code prod.case e_def [symmetric] tracks_def turns
    using sch(1,3) tr(1,3-6) seats5 [of t] by simp
qed

lemma tracks_rounds:
  "tracks blk0 0 s r \<Longrightarrow> tracks blk0 n (fold code_round [0..<n] s) (fold (sha1_round blk0) [0..<n] r)"
  by (induction n) (auto intro: tracks_round)


lemma static_for_sum:
  assumes "length a = 5" "length h = 5"
  shows "static_for 5 6 (a, h) = (a, [h ! 0 + a ! 4, h ! 1 + a ! 3, h ! 2 + a ! 2, h ! 3 + a ! 1, h ! 4 + a ! 0])"
proof -
  obtain h0 h1 h2 h3 h4 where "h = [h0, h1, h2, h3, h4]" using assms(2) by (auto simp: length_Suc_conv eval_nat_numeral)
  then show ?thesis by (simp add: static_for_def sha1_loop.simps upt_rec eval_nat_numeral)
qed

lemma sha1_compress:
  assumes "length h = 5" "length b = 16"
  shows "fst (sha1 h b) = compress h b"
proof -
  let ?s = "([h ! 4, h ! 3, h ! 2, h ! 1, h ! 0], b)" and ?r = "(h ! 0, h ! 1, h ! 2, h ! 3, h ! 4)"
  have "tracks b 0 ?s ?r" using assms by (simp add: tracks_def sched_code)
  from tracks_rounds [OF this, of 80]
  have t: "tracks b 80 (fold code_round [0..<80] ?s) (fold (sha1_round b) [0..<80] ?r)" .
  obtain a b' where s: "fold code_round [0..<80] ?s = (a, b')" by fastforce
  obtain A B C D E where r: "fold (sha1_round b) [0..<80] ?r = (A, B, C, D, E)" by (metis prod_cases5)
  have a: "length a = 5" "a ! 4 = A" "a ! 3 = B" "a ! 2 = C" "a ! 1 = D" "a ! 0 = E"
    using t unfolding s r by (simp_all add: tracks_def)
  have "fst (sha1 h b) = snd (static_for 5 6 (a, h))"
    unfolding sha1_def Let_def
    by (simp only: split_def prod.collapse eighty_rounds s fst_conv snd_conv)
  then show ?thesis
    using a assms(1) unfolding compress_def r by (simp add: static_for_sum)
qed

section \<open>Messages\<close>

definition be_word :: "nat \<Rightarrow> nat \<Rightarrow> nat \<Rightarrow> nat \<Rightarrow> 32 word" where
  "be_word b0 b1 b2 b3 =
     of_nat b3 OR push_bit 8 (of_nat b2) OR push_bit 16 (of_nat b1) OR push_bit 24 (of_nat b0)"

fun words_be :: "nat list \<Rightarrow> 32 word list" where
  "words_be (b0 # b1 # b2 # b3 # bs) = be_word b0 b1 b2 b3 # words_be bs"
| "words_be _ = []"

definition pad :: "nat list \<Rightarrow> nat list" where
  "pad msg = msg @ [0x80] @ replicate ((119 - length msg mod 64) mod 64) 0 @
     map (\<lambda>s. drop_bit s (8 * length msg) mod 256) [56, 48, 40, 32, 24, 16, 8, 0]"

function blocks16 :: "32 word list \<Rightarrow> 32 word list list" where
  "blocks16 ws = (if length ws < 16 then [] else take 16 ws # blocks16 (drop 16 ws))"
  by pat_completeness auto
termination by (relation "measure length") auto

declare blocks16.simps [simp del]

definition sha1_bytes :: "nat list \<Rightarrow> nat list" where
  "sha1_bytes msg = concat (map word_bytes (foldl compress initial_hash (blocks16 (words_be (pad msg)))))"

definition bytes_of :: "string \<Rightarrow> nat list" where
  "bytes_of s = map of_char s"

definition GUID :: string where
  "GUID = ''258EAFA5-E914-47DA-95CA-C5AB0DC85B11''"

lemma guid_bytes: "words_be (bytes_of GUID) = guid_words"
  by code_simp

lemma words_be_append:
  "length xs mod 4 = 0 \<Longrightarrow> words_be (xs @ ys) = words_be xs @ words_be ys"
  by (induction xs rule: words_be.induct) (auto simp: mod_Suc split: if_splits)


lemma first_four:
  assumes "length xs = Suc (Suc (Suc (Suc m)))"
  obtains a b c d ys where "xs = a # b # c # d # ys" "length ys = m"
  using assms that by (auto simp: length_Suc_conv)

definition quad :: "string \<Rightarrow> nat \<Rightarrow> 32 word" where
  "quad zs i = be_word (of_char (zs ! (4 * i))) (of_char (zs ! (4 * i + 1))) (of_char (zs ! (4 * i + 2))) (of_char (zs ! (4 * i + 3)))"

lemma quad_Suc: "quad (a # b # c # d # zs) (Suc i) = quad zs i"
proof -
  have "4 * Suc i = Suc (Suc (Suc (Suc (4 * i))))" "4 * Suc i + 1 = Suc (Suc (Suc (Suc (4 * i + 1))))"
    "4 * Suc i + 2 = Suc (Suc (Suc (Suc (4 * i + 2))))" "4 * Suc i + 3 = Suc (Suc (Suc (Suc (4 * i + 3))))" by simp_all
  then show ?thesis unfolding quad_def by (simp only: nth_Cons_Suc)
qed

lemma words_be_quads: "length zs = 4 * n \<Longrightarrow> words_be (bytes_of zs) = map (quad zs) [0..<n]"
proof (induction n arbitrary: zs)
  case (Suc n)
  then have "length zs = Suc (Suc (Suc (Suc (4 * n))))" by simp
  then obtain a b c d ys where zs: "zs = a # b # c # d # ys" "length ys = 4 * n"
    by (rule first_four)
  have "map (quad zs) [0..<Suc n] = quad zs 0 # map (\<lambda>i. quad zs (Suc i)) [0..<n]"
    unfolding upt_conv_Cons [OF zero_less_Suc] map_Suc_upt [symmetric] by (simp add: comp_def)
  also have "\<dots> = be_word (of_char a) (of_char b) (of_char c) (of_char d) # map (quad ys) [0..<n]"
    unfolding zs(1) quad_Suc by (simp add: quad_def numeral_2_eq_2 numeral_3_eq_3)
  finally show ?case using Suc.IH [OF zs(2)] by (simp add: zs(1) bytes_of_def)
qed (simp add: bytes_of_def)

lemma key_words:
  assumes "length key = 24"
  shows "words_be (bytes_of key) = map (input_word key) [0..<6]"
proof -
  have "input_word key = quad key"
    by (rule ext) (simp add: input_word_def input_byte_def quad_def be_word_def)
  then show ?thesis using words_be_quads [of key 6] assms by simp
qed

lemma padded_key:
  assumes "length key = 24"
  shows "words_be (pad (bytes_of key @ bytes_of GUID)) =
    (map (input_word key) [0..<6] @ guid_words @ [0x80000000]) @ replicate 15 0 @ [480]"
proof -
  have len: "length (bytes_of key @ bytes_of GUID) = 60" "length (bytes_of key) mod 4 = 0" "length (bytes_of GUID) mod 4 = 0"
    using assms by (simp_all add: bytes_of_def GUID_def)
  have tail: "words_be ([0x80] @ replicate ((119 - 60 mod 64) mod 64) 0 @
      map (\<lambda>s. drop_bit s (8 * 60) mod 256) [56, 48, 40, 32, 24, 16, 8, 0]) = 0x80000000 # replicate 15 0 @ [480]"
  proof -
    have zeros: "words_be (replicate (4 * n) 0) = replicate n 0" for n
      by (induction n) (simp_all add: be_word_def numeral_eq_Suc)
    have "(119 - 60 mod 64) mod 64 = 3 + 4 * (14 :: nat)" by simp
    then have "replicate ((119 - 60 mod 64) mod 64) 0 = replicate 3 0 @ replicate (4 * 14) (0::nat)"
      by (simp only: replicate_add)
    moreover have "replicate 3 (0::nat) = [0, 0, 0]" by (simp add: numeral_3_eq_3)
    moreover have "map (\<lambda>s. drop_bit s (8 * 60) mod 256) [56, 48, 40, 32, 24, 16, 8, 0] = [0, 0, 0, 0, 0, 0, 1, 224 :: nat]"
      by (simp add: drop_bit_eq_div)
    ultimately have "[0x80 :: nat] @ replicate ((119 - 60 mod 64) mod 64) 0 @ map (\<lambda>s. drop_bit s (8 * 60) mod 256) [56, 48, 40, 32, 24, 16, 8, 0]
      = [0x80, 0, 0, 0] @ replicate (4 * 14) 0 @ [0, 0, 0, 0, 0, 0, 1, 224]"
      by (simp only: append_Cons append_Nil append_assoc)
    moreover have "words_be ([0x80, 0, 0, 0] @ replicate (4 * 14) 0 @ [0, 0, 0, 0, 0, 0, 1, 224]) =
      words_be [0x80, 0, 0, 0] @ replicate 14 0 @ words_be [0, 0, 0, 0, 0, 0, 1, 224]"
      by (subst words_be_append, simp, subst words_be_append, simp, subst zeros, simp)
    moreover have "words_be [0x80, 0, 0, 0] = [0x80000000]" "words_be [0, 0, 0, 0, 0, 0, 1, 224] = [0, 480]"
      by (simp_all add: be_word_def)
    moreover have "replicate 15 (0 :: 32 word) = replicate 14 0 @ [0]"
      using replicate_add [of 14 1 "0 :: 32 word"] by simp
    ultimately show ?thesis by (simp only: append_Cons append_Nil append_assoc)
  qed
  show ?thesis
    unfolding pad_def len(1) append_assoc words_be_append [OF len(2)] words_be_append [OF len(3)] key_words [OF assms] guid_bytes tail
    by simp
qed

lemma word_bytes_bound: "\<forall>x \<in> set (word_bytes w). x < 256"
proof -
  have "unat (v AND 0xff) < 256" for v :: "32 word"
  proof -
    have "v AND 0xff = take_bit 8 v" by (simp add: take_bit_eq_mask mask_eq_exp_minus_1)
    then have "unat (v AND 0xff) = take_bit 8 (unat v)" by (simp only: unsigned_take_bit_eq)
    then show ?thesis by (simp only: take_bit_eq_mod) simp
  qed
  then show ?thesis by (simp add: word_bytes_def)
qed

section \<open>Base 64 as the standard has it\<close>

definition sextet :: "nat \<Rightarrow> nat \<Rightarrow> char" where
  "sextet n k = b64 ! ((n div 64 ^ (3 - k)) mod 64)"

fun encode64 :: "nat list \<Rightarrow> string" where
  "encode64 [] = []"
| "encode64 [a] = (let n = a * 65536 in [sextet n 0, sextet n 1, CHR ''='', CHR ''=''])"
| "encode64 [a, b] = (let n = a * 65536 + b * 256 in [sextet n 0, sextet n 1, sextet n 2, CHR ''=''])"
| "encode64 (a # b # c # bs) =
     (let n = a * 65536 + b * 256 + c in [sextet n 0, sextet n 1, sextet n 2, sextet n 3] @ encode64 bs)"

lemma masks:
  fixes x :: nat
  shows "x AND 3 = x mod 4" "x AND 15 = x mod 16" "x AND 63 = x mod 64"
  using take_bit_eq_mask [of 2 x] take_bit_eq_mask [of 4 x] take_bit_eq_mask [of 6 x]
  by (simp_all add: mask_eq_exp_minus_1 take_bit_eq_mod)

lemma high_masks:
  fixes x :: nat
  shows "drop_bit 4 (x AND 240) = x div 16 mod 16" "drop_bit 6 (x AND 192) = x div 64 mod 4"
proof -
  have "drop_bit 4 (x AND 240) = drop_bit 4 x AND 15" unfolding drop_bit_and by simp
  then show "drop_bit 4 (x AND 240) = x div 16 mod 16" by (simp add: masks drop_bit_eq_div)
  have "drop_bit 6 (x AND 192) = drop_bit 6 x AND 3" unfolding drop_bit_and by simp
  then show "drop_bit 6 (x AND 192) = x div 64 mod 4" by (simp add: masks drop_bit_eq_div)
qed

lemma glue:
  fixes p q :: nat
  assumes "q < 2 ^ n"
  shows "push_bit n p OR q = 2 ^ n * p + q"
proof -
  have "q = take_bit n q" using assms by (simp add: take_bit_eq_mod)
  then have "push_bit n p AND q = 0" by (intro bit_eqI) (metis bit_0_eq bit_and_iff bit_push_bit_iff bit_take_bit_iff bot_apply bot_bool_def not_le)
  then show ?thesis using disjunctive_add_eq_or [of "push_bit n p" q] by (simp add: push_bit_eq_mult mult.commute)
qed


lemma sextets:
  assumes "d0 < 64" "d1 < 64" "d2 < 64" "d3 < 64" "n = 262144 * d3 + 4096 * d2 + 64 * d1 + d0"
  shows "sextet n 0 = b64 ! d3" "sextet n 1 = b64 ! d2" "sextet n 2 = b64 ! d1" "sextet n 3 = b64 ! d0"
proof -
  have n: "n = d0 + 64 * (d1 + 64 * (d2 + 64 * d3))" using assms(5) by simp
  have step: "(d + 64 * m) div 64 = m" "(d + 64 * m) mod 64 = d" if "d < 64" for d m :: nat using that by simp_all
  have pow: "(64::nat) ^ 3 = 64 * 64 * 64" "(64::nat) ^ 2 = 64 * 64" "(64::nat) ^ 1 = 64" "(64::nat) ^ 0 = 1" by simp_all
  have digit: "(n div 64 ^ 3) mod 64 = d3" "(n div 64 ^ 2) mod 64 = d2" "(n div 64 ^ 1) mod 64 = d1" "(n div 64 ^ 0) mod 64 = d0"
    unfolding pow div_mult2_eq div_by_1 n step(1) [OF assms(1)] step(1) [OF assms(2)] step(1) [OF assms(3)]
      step(2) [OF assms(1)] step(2) [OF assms(2)] step(2) [OF assms(3)]
    using assms(4) by simp_all
  have idx: "3 - 0 = (3::nat)" "3 - 1 = (2::nat)" "3 - 2 = (1::nat)" "3 - 3 = (0::nat)" by simp_all
  show "sextet n 0 = b64 ! d3" "sextet n 1 = b64 ! d2" "sextet n 2 = b64 ! d1" "sextet n 3 = b64 ! d0"
    unfolding sextet_def idx digit by (rule refl)+
qed

lemma regroup:
  fixes a b c :: nat
  assumes "a = 4 * a1 + a0" "b = 16 * b1 + b0" "c = 64 * c1 + c0"
  shows "a * 65536 + b * 256 + c = 262144 * a1 + 4096 * (16 * a0 + b1) + 64 * (4 * b0 + c1) + c0"
  using assms by simp

lemma byte_digits:
  fixes a b c :: nat
  assumes "a < 256" "b < 256" "c < 256"
  shows "a * 65536 + b * 256 + c = 262144 * (a div 4) + 4096 * (16 * (a mod 4) + b div 16) + 64 * (4 * (b mod 16) + c div 64) + c mod 64"
    and "a div 4 < 64" "16 * (a mod 4) + b div 16 < 64" "4 * (b mod 16) + c div 64 < 64" "c mod 64 < 64"
proof -
  show "a * 65536 + b * 256 + c = 262144 * (a div 4) + 4096 * (16 * (a mod 4) + b div 16) + 64 * (4 * (b mod 16) + c div 64) + c mod 64"
    by (rule regroup) simp_all
  show "a div 4 < 64" "c mod 64 < 64" using assms by simp_all
  have "a mod 4 < 4" "b div 16 < 16" "b mod 16 < 16" "c div 64 < 4" using assms by (simp_all add: less_mult_imp_div_less)
  then show "16 * (a mod 4) + b div 16 < 64" "4 * (b mod 16) + c div 64 < 64" by linarith+
qed

lemma code_digits:
  fixes a b c :: nat
  assumes "a < 256" "b < 256" "c < 256"
  shows "drop_bit 2 a AND 63 = a div 4"
    "push_bit 4 (a AND 3) OR drop_bit 4 (b AND 240) = 16 * (a mod 4) + b div 16"
    "push_bit 2 (b AND 15) OR drop_bit 6 (c AND 192) = 4 * (b mod 16) + c div 64"
    "push_bit 2 (b AND 15) = 4 * (b mod 16)" "c AND 63 = c mod 64"
proof -
  have "b div 16 < 16" "c div 64 < 4" "a div 4 < 64" using assms by (simp_all add: less_mult_imp_div_less)
  then show "drop_bit 2 a AND 63 = a div 4"
    "push_bit 4 (a AND 3) OR drop_bit 4 (b AND 240) = 16 * (a mod 4) + b div 16"
    "push_bit 2 (b AND 15) OR drop_bit 6 (c AND 192) = 4 * (b mod 16) + c div 64"
    "push_bit 2 (b AND 15) = 4 * (b mod 16)" "c AND 63 = c mod 64"
    unfolding high_masks unfolding masks
    using glue [of "b div 16" 4 "a mod 4"] glue [of "c div 64" 2 "b mod 16"]
    by (simp_all add: drop_bit_eq_div push_bit_eq_mult)
qed

lemma triple_encode:
  assumes "a < 256" "b < 256" "c < 256"
  shows "[b64 ! (drop_bit 2 a AND 63), b64 ! (push_bit 4 (a AND 3) OR drop_bit 4 (b AND 240)),
      b64 ! (push_bit 2 (b AND 15) OR drop_bit 6 (c AND 192)), b64 ! (c AND 63)] @ encode64 bs = encode64 (a # b # c # bs)"
  unfolding code_digits(1-3,5) [OF assms] encode64.simps Let_def sextets [OF byte_digits(5,4,3,2,1) [OF assms]] ..

lemma pair_encode:
  assumes "a < 256" "b < 256"
  shows "[b64 ! (drop_bit 2 a AND 63), b64 ! (push_bit 4 (a AND 3) OR drop_bit 4 (b AND 240)),
      b64 ! (push_bit 2 (b AND 15)), CHR ''=''] = encode64 [a, b]"
proof -
  have z: "0 < (256::nat)" by simp
  have e: "encode64 [a, b] = [sextet (a * 65536 + b * 256 + 0) 0, sextet (a * 65536 + b * 256 + 0) 1,
      sextet (a * 65536 + b * 256 + 0) 2, CHR ''='']" by (simp add: Let_def)
  show ?thesis
    unfolding e code_digits(1) [OF assms z] code_digits(2) [OF assms z] code_digits(4) [OF assms z]
      sextets [OF byte_digits(5,4,3,2,1) [OF assms z]]
    by simp
qed

lemma base64_encode:
  assumes "length src = 20" "\<forall>x \<in> set src. x < 256"
  shows "base64 src = encode64 src"
proof -
  define d where "d i = drop i src" for i
  have byte: "src ! i < 256" if "i < 20" for i using assms that by simp
  have d: "d i = src ! i # src ! (i + 1) # src ! (i + 2) # d (i + 3)" if "i + 2 < 20" for i
    using that assms(1) Cons_nth_drop_Suc [of i src] Cons_nth_drop_Suc [of "i + 1" src] Cons_nth_drop_Suc [of "i + 2" src]
    by (simp add: d_def numeral_3_eq_3)
  have step: "base64_triple src i @ encode64 (d (i + 3)) = encode64 (d i)" if "i + 2 < 20" for i
    unfolding d [OF that] base64_triple_def using that by (intro triple_encode byte) simp_all
  have "d 18 = [src ! 18, src ! 19]"
    using assms(1) Cons_nth_drop_Suc [of 18 src] Cons_nth_drop_Suc [of 19 src] by (simp add: d_def)
  then have last: "encode64 (d 18) = [b64 ! (drop_bit 2 (src ! 18) AND 63),
      b64 ! (push_bit 4 (src ! 18 AND 3) OR drop_bit 4 (src ! 19 AND 240)), b64 ! (push_bit 2 (src ! 19 AND 15)), CHR ''='']"
    using pair_encode [OF byte [of 18] byte [of 19]] by simp
  have "base64 src = concat (map (base64_triple src) [0, 3, 6, 9, 12, 15]) @ encode64 (d 18)"
    unfolding base64_def last ..
  also have "\<dots> = encode64 (d 0)"
    using step [of 0] step [of 3] step [of 6] step [of 9] step [of 12] step [of 15] by simp
  finally show ?thesis by (simp add: d_def)
qed

section \<open>Properties\<close>

lemma generate_standard:
  assumes "length key = 24"
  shows "generate key = encode64 (sha1_bytes (bytes_of key @ bytes_of GUID))"
proof -
  let ?b1 = "map (input_word key) [0..<6] @ guid_words @ [0x80000000]" and ?b2 = "replicate 15 0 @ [480] :: 32 word list"
  have len: "length ?b1 = 16" "length ?b2 = 16" "length initial_hash = 5" "length (compress h b) = 5" for h b
    by (simp_all add: guid_words_def initial_hash_def compress_def split_def Let_def)
  have "blocks16 (?b1 @ ?b2) = [?b1, ?b2]"
    using len(1,2) by (simp add: blocks16.simps del: upt_rec_numeral)
  then have hash: "sha1_bytes (bytes_of key @ bytes_of GUID) = concat (map word_bytes (compress (compress initial_hash ?b1) ?b2))"
    unfolding sha1_bytes_def padded_key [OF assms] by simp
  have code: "fst (sha1 initial_hash ?b1) = compress initial_hash ?b1"
    "fst (sha1 (compress initial_hash ?b1) ?b2) = compress (compress initial_hash ?b1) ?b2"
    by (rule sha1_compress; rule len)+
  have "generate key = base64 (concat (map word_bytes (fst (sha1 (fst (sha1 initial_hash ?b1)) ?b2))))"
    unfolding generate_def Let_def split_def ..
  also have "\<dots> = encode64 (concat (map word_bytes (compress (compress initial_hash ?b1) ?b2)))"
    unfolding code
  proof (rule base64_encode)
    have "length (word_bytes w) = 4" for w by (simp add: word_bytes_def)
    then have "length (concat (map word_bytes ws)) = 4 * length ws" for ws by (induction ws) simp_all
    then show "length (concat (map word_bytes (compress (compress initial_hash ?b1) ?b2))) = 20" by (simp only: len(4))
  qed (use word_bytes_bound in auto)
  finally show ?thesis unfolding hash .
qed

text \<open>
  C24. The answer to a key of twenty-four characters is what the protocol asks for: the base 64 text of
  the SHA-1 hash of the key followed by the GUID, both as their standards define them. The compact
  loops, the hard-wired second half of the message and the byte shuffling compute exactly that.
\<close>
theorem generate_accepts:
  assumes "length key = 24"
  shows "generate key = encode64 (sha1_bytes (bytes_of key @ bytes_of GUID))"
  by (rule generate_standard [OF assms])

lemma generate_accepts_witness:
  "generate ''dGhlIHNhbXBsZSBub25jZQ=='' = encode64 (sha1_bytes (bytes_of ''dGhlIHNhbXBsZSBub25jZQ=='' @ bytes_of GUID))"
  by (rule generate_accepts) simp


text \<open>Reading base 64 back.\<close>

definition b64_index :: "char \<Rightarrow> nat" where
  "b64_index c = length (takeWhile (\<lambda>x. x \<noteq> c) b64)"

definition b64_number :: "char \<Rightarrow> char \<Rightarrow> char \<Rightarrow> nat \<Rightarrow> nat" where
  "b64_number w x y z = 262144 * b64_index w + 4096 * b64_index x + 64 * b64_index y + z"

fun decode64 :: "string \<Rightarrow> nat list" where
  "decode64 (w # x # y # z # cs) =
     (if z = CHR ''=''
      then let n = b64_number w x y 0 in [n div 65536, n div 256 mod 256]
      else let n = b64_number w x y (b64_index z) in [n div 65536, n div 256 mod 256, n mod 256] @ decode64 cs)"
| "decode64 _ = []"

lemma b64_indices: "\<forall>d < 64. b64_index (b64 ! d) = d \<and> b64 ! d \<noteq> CHR ''=''"
  by code_simp

lemma byte_split:
  fixes a b c :: nat
  assumes "a < 256" "b < 256" "c < 256"
  shows "(a * 65536 + b * 256 + c) div 65536 = a" "(a * 65536 + b * 256 + c) div 256 mod 256 = b"
    "(a * 65536 + b * 256 + c) mod 256 = c"
proof -
  have n: "a * 65536 + b * 256 + c = c + 256 * (b + 256 * a)" by simp
  have step: "(d + 256 * m) div 256 = m" "(d + 256 * m) mod 256 = d" if "d < 256" for d m :: nat using that by simp_all
  have k: "m div 65536 = m div 256 div (256::nat)" for m using div_mult2_eq [of m 256 256] by simp
  show "(a * 65536 + b * 256 + c) div 65536 = a" unfolding k unfolding n step(1) [OF assms(3)] step(1) [OF assms(2)] ..
  show "(a * 65536 + b * 256 + c) div 256 mod 256 = b" unfolding n step(1) [OF assms(3)] step(2) [OF assms(2)] ..
  show "(a * 65536 + b * 256 + c) mod 256 = c" unfolding n step(2) [OF assms(3)] ..
qed

lemma decode_triple:
  assumes "a < 256" "b < 256" "c < 256"
  shows "decode64 (encode64 (a # b # c # bs)) = a # b # c # decode64 (encode64 bs)"
proof -
  note d = byte_digits(2-5) [OF assms]
  have "b64_number (b64 ! (a div 4)) (b64 ! (16 * (a mod 4) + b div 16)) (b64 ! (4 * (b mod 16) + c div 64)) (c mod 64) =
      a * 65536 + b * 256 + c"
    unfolding byte_digits(1) [OF assms] using b64_indices d by (simp add: b64_number_def)
  then show ?thesis
    unfolding encode64.simps Let_def sextets [OF byte_digits(5,4,3,2,1) [OF assms]]
    using b64_indices d(4) byte_split [OF assms] by simp
qed

lemma decode_pair:
  assumes "a < 256" "b < 256"
  shows "decode64 (encode64 [a, b]) = [a, b]"
proof -
  have z: "0 < (256::nat)" by simp
  note d = byte_digits(2-4) [OF assms z]
  have e: "encode64 [a, b] = [sextet (a * 65536 + b * 256 + 0) 0, sextet (a * 65536 + b * 256 + 0) 1,
      sextet (a * 65536 + b * 256 + 0) 2, CHR ''='']" by (simp add: Let_def)
  have "b64_number (b64 ! (a div 4)) (b64 ! (16 * (a mod 4) + b div 16)) (b64 ! (4 * (b mod 16) + 0 div 64)) 0 =
      a * 65536 + b * 256 + 0"
    unfolding byte_digits(1) [OF assms z] using b64_indices d by (simp add: b64_number_def)
  then show ?thesis
    unfolding e sextets [OF byte_digits(5,4,3,2,1) [OF assms z]] using byte_split [OF assms z] by simp
qed

text \<open>
  Nothing is lost in the text of the answer: reading the base 64 text of twenty bytes back gives
  the bytes.
\<close>
theorem base64_roundtrip:
  assumes "length src = 20" "\<forall>x \<in> set src. x < 256"
  shows "length (base64 src) = 28 \<and> decode64 (base64 src) = src"
proof -
  have triples: "decode64 (encode64 (xs @ [y, z])) = xs @ [y, z] \<and> length (encode64 (xs @ [y, z])) = 4 * n + 4"
    if "length xs = 3 * n" "\<forall>x \<in> set xs. x < 256" "y < 256" "z < 256" for xs y z n
    using that(1,2)
  proof (induction n arbitrary: xs)
    case 0
    then show ?case using decode_pair [OF that(3,4)] by (simp add: Let_def)
  next
    case (Suc n)
    then have "length xs = Suc (Suc (Suc (3 * n)))" by simp
    then obtain a b c ys where xs: "xs = a # b # c # ys" "length ys = 3 * n" by (auto simp: length_Suc_conv)
    then show ?case using Suc.IH [of ys] Suc.prems(2) decode_triple [of a b c "ys @ [y, z]"] by (simp add: Let_def)
  qed
  have "src = take 18 src @ [src ! 18, src ! 19]"
    using assms(1) Cons_nth_drop_Suc [of 18 src] Cons_nth_drop_Suc [of 19 src] append_take_drop_id [of 18 src] by simp
  moreover have "\<forall>x \<in> set (take 18 src). x < 256" using assms(2) by (meson in_set_takeD)
  moreover have "src ! 18 < 256" "src ! 19 < 256" using assms by simp_all
  ultimately have "decode64 (encode64 src) = src \<and> length (encode64 src) = 28"
    using triples [of "take 18 src" 6 "src ! 18" "src ! 19"] assms(1) by simp
  then show ?thesis by (simp add: base64_encode [OF assms])
qed

lemma base64_roundtrip_witness: "decode64 (base64 (replicate 20 200)) = replicate 20 200"
  using base64_roundtrip [of "replicate 20 200"] by simp

end
