(* ===== verification/Command.thy ===== *)
theory Command
  imports Prelude
begin

text \<open>
  The command line (\<^verbatim>\<open>src/src/service/command.cpp\<close>): the tokenizer cuts a C string in place, writing a
  terminator over every blank, and keeps pointers to the pieces. A pointer into the buffer is an
  index here; the text behind it runs to the next terminator.
\<close>

section \<open>The buffer\<close>

definition NUL :: char where
  "NUL = CHR 0x00"

definition c_str :: "string \<Rightarrow> nat \<Rightarrow> string" where
  "c_str buf p = takeWhile (\<lambda>c. c \<noteq> NUL) (drop p buf)"

definition strlen :: "string \<Rightarrow> nat" where
  "strlen buf = length (c_str buf 0)"

record command =
  command_data :: string
  name_pos :: "nat option"
  params_pos :: "nat list"
  correct :: bool

definition new_command :: command where
  "new_command = \<lparr>command_data = [], name_pos = None, params_pos = [], correct = False\<rparr>"

definition command_null :: "command \<Rightarrow> command" where
  "command_null cmd = cmd\<lparr>correct := False, name_pos := None, params_pos := []\<rparr>"

text \<open>\<^verbatim>\<open>if (name_ == NULL) name_ = &command_data[pos]; else params_.push_back(&command_data[pos]);\<close>\<close>

definition add_segment :: "nat \<Rightarrow> command \<Rightarrow> command" where
  "add_segment pos cmd =
     (case name_pos cmd of
        None \<Rightarrow> cmd\<lparr>name_pos := Some pos\<rparr>
      | Some _ \<Rightarrow> cmd\<lparr>params_pos := params_pos cmd @ [pos]\<rparr>)"

definition init_step :: "nat \<Rightarrow> nat \<Rightarrow> command \<times> nat \<Rightarrow> command \<times> nat" where
  "init_step str_length curr_index = (\<lambda>(cmd, seg).
     if command_data cmd ! curr_index = CHR '' ''
     then let cmd = cmd\<lparr>command_data := (command_data cmd)[curr_index := NUL]\<rparr> in
          if curr_index = seg then (cmd, seg + 1)
          else (add_segment seg cmd, curr_index + 1)
     else if curr_index = str_length - 1 then (add_segment seg cmd, seg)
     else (cmd, seg))"

definition command_init :: "command \<Rightarrow> command \<times> bool" where
  "command_init cmd =
     (let str_length = strlen (command_data cmd) in
      if str_length = 0 then (cmd, False)
      else let (cmd, _) = fold (init_step str_length) [0..<str_length] (cmd, 0)
           in (cmd, name_pos cmd \<noteq> None))"

definition command_reset :: "string \<Rightarrow> command \<Rightarrow> command" where
  "command_reset data cmd =
     (let (cmd, ok) = command_init ((command_null cmd)\<lparr>command_data := data\<rparr>)
      in cmd\<lparr>correct := ok\<rparr>)"

text \<open>The texts the accessors return; \<^verbatim>\<open>std::vector::at\<close> throws behind the end.\<close>

definition command_name :: "command \<Rightarrow> string option" where
  "command_name cmd = map_option (c_str (command_data cmd)) (name_pos cmd)"

definition param_size :: "command \<Rightarrow> nat" where
  "param_size cmd = length (params_pos cmd)"

definition command_param :: "command \<Rightarrow> nat \<Rightarrow> string result" where
  "command_param cmd i =
     (if i < length (params_pos cmd) then Inr (c_str (command_data cmd) (params_pos cmd ! i))
      else Inl Range_exception)"

definition param_strings :: "command \<Rightarrow> string list" where
  "param_strings cmd = map (c_str (command_data cmd)) (params_pos cmd)"

section \<open>Reference: the words of a line\<close>

fun split_words :: "string \<Rightarrow> string \<Rightarrow> string list" where
  "split_words acc [] = (if acc = [] then [] else [acc])"
| "split_words acc (c # cs) =
     (if c = CHR '' '' then (if acc = [] then split_words [] cs else acc # split_words [] cs)
      else split_words (acc @ [c]) cs)"

definition line_words :: "string \<Rightarrow> string list" where
  "line_words s = split_words [] s"

section \<open>The loop\<close>

definition blanked :: "nat \<Rightarrow> string \<Rightarrow> string" where
  "blanked i data = map (\<lambda>c. if c = CHR '' '' then NUL else c) (take i data) @ drop i data"

definition segments :: "command \<Rightarrow> nat list" where
  "segments cmd = (case name_pos cmd of None \<Rightarrow> [] | Some p \<Rightarrow> p # params_pos cmd)"

definition word_at :: "string \<Rightarrow> nat \<Rightarrow> string" where
  "word_at s p = takeWhile (\<lambda>c. c \<noteq> CHR '' '') (drop p s)"

lemma segments_add [simp]:
  "(name_pos cmd = None \<longrightarrow> params_pos cmd = []) \<Longrightarrow> segments (add_segment p cmd) = segments cmd @ [p]"
  by (auto simp: segments_def add_segment_def split: option.splits)

lemma segments_data [simp]: "segments (cmd\<lparr>command_data := b\<rparr>) = segments cmd"
  by (cases "name_pos cmd") (simp_all add: segments_def)

lemma add_segment_frame [simp]:
  "command_data (add_segment p cmd) = command_data cmd" "name_pos (add_segment p cmd) \<noteq> None"
  by (auto simp: add_segment_def split: option.splits)

lemma length_blanked [simp]: "length (blanked i data) = length data"
  by (simp add: blanked_def)

lemma blanked_nth: "i < length data \<Longrightarrow> blanked i data ! i = data ! i"
  by (simp add: blanked_def nth_append)

lemma blanked_Suc:
  assumes "i < length data"
  shows "blanked (Suc i) data = (blanked i data)[i := if data ! i = CHR '' '' then NUL else data ! i]"
proof (rule nth_equalityI)
  fix j assume "j < length (blanked (Suc i) data)"
  then show "blanked (Suc i) data ! j = (blanked i data)[i := if data ! i = CHR '' '' then NUL else data ! i] ! j"
    using assms by (cases "j < i"; cases "j = i") (simp_all add: blanked_def nth_append nth_list_update)
qed simp

lemma blanked_keep: "i < length data \<Longrightarrow> data ! i \<noteq> CHR '' '' \<Longrightarrow> blanked (Suc i) data = blanked i data"
  by (simp add: blanked_Suc) (metis blanked_nth list_update_id)

text \<open>
  Before character \<^verbatim>\<open>i\<close> the words found and the words still to come, with the open one, are those of
  the line.
\<close>

definition scanned :: "string \<Rightarrow> string \<Rightarrow> nat \<Rightarrow> command \<times> nat \<Rightarrow> bool" where
  "scanned data s i = (\<lambda>(cmd, seg).
     command_data cmd = blanked i data \<and> (name_pos cmd = None \<longrightarrow> params_pos cmd = []) \<and> seg \<le> i \<and>
     CHR '' '' \<notin> set (drop seg (take i s)) \<and> (\<forall>p \<in> set (segments cmd). p < length s) \<and>
     line_words s = map (word_at s) (segments cmd) @ split_words (drop seg (take i s)) (drop i s))"

lemma drop_take_append:
  assumes "p \<le> i" "i < length s"
  shows "drop p s = drop p (take i s) @ s ! i # drop (Suc i) s"
proof -
  have "s = take i s @ s ! i # drop (Suc i) s" using assms(2) by (rule id_take_nth_drop)
  then have "drop p s = drop p (take i s @ s ! i # drop (Suc i) s)" by (rule arg_cong)
  then show ?thesis using assms by simp
qed

lemma word_at_closed:
  assumes "p \<le> i" "i < length s" "s ! i = CHR '' ''" "CHR '' '' \<notin> set (drop p (take i s))"
  shows "word_at s p = drop p (take i s)"
  unfolding word_at_def drop_take_append [OF assms(1,2)] using assms(3,4)
  by (subst takeWhile_append2) auto

lemma scanned_step:
  assumes inv: "scanned data s i (cmd, seg)" and i: "Suc i < n" and s: "s = take n data" "n \<le> length data"
  shows "scanned data s (Suc i) (init_step n i (cmd, seg))"
proof -
  have len: "length s = n" "i < length s" "i < length data" using i s by simp_all
  have nth: "s ! i = data ! i" using i s by simp
  have take: "drop p (take (Suc i) s) = (if p \<le> i then drop p (take i s) @ [s ! i] else [])" for p
    using len by (simp add: take_Suc_conv_app_nth)
  have rest: "drop i s = s ! i # drop (Suc i) s" using len by (simp add: Cons_nth_drop_Suc)
  have read: "command_data cmd ! i = s ! i" "(command_data cmd)[i := NUL] = blanked (Suc i) data \<or> s ! i \<noteq> CHR '' ''"
    "blanked (Suc i) data = command_data cmd \<or> s ! i = CHR '' ''"
    using inv len nth blanked_nth [of i data] blanked_Suc [of i data] blanked_keep [of i data]
    by (auto simp: scanned_def)
  have here: "i \<noteq> n - 1" using i by simp
  have empty: "drop seg (take i s) = [] \<longleftrightarrow> i = seg" using inv len by (auto simp: scanned_def)
  show ?thesis
  proof (cases "s ! i = CHR '' ''")
    case True
    show ?thesis
    proof (cases "i = seg")
      case True
      then show ?thesis
        using inv read \<open>s ! i = CHR '' ''\<close> take rest empty by (auto simp: scanned_def init_step_def Let_def)
    next
      case False
      have "word_at s seg = drop seg (take i s)"
        using inv False len \<open>s ! i = CHR '' ''\<close> by (intro word_at_closed) (auto simp: scanned_def)
      then show ?thesis
        using inv read \<open>s ! i = CHR '' ''\<close> take rest empty False len
        by (auto simp: scanned_def init_step_def Let_def)
    qed
  next
    case False
    then show ?thesis
      using inv read take rest here by (auto simp: scanned_def init_step_def Let_def)
  qed
qed


lemma scanned_last:
  assumes inv: "scanned data s i (cmd, seg)" and i: "Suc i = n" and s: "s = take n data" "n \<le> length data"
  obtains cmd' seg' where "init_step n i (cmd, seg) = (cmd', seg')" "command_data cmd' = blanked n data"
    "name_pos cmd' = None \<longrightarrow> params_pos cmd' = []" "\<forall>p \<in> set (segments cmd'). p < length s"
    "line_words s = map (word_at s) (segments cmd')"
proof -
  have len: "length s = n" "i < length s" "i < length data" using i s by simp_all
  have nth: "s ! i = data ! i" using i s by simp
  have rest: "drop i s = [s ! i]" using len i Cons_nth_drop_Suc [of i s] by simp
  have here: "i = n - 1" using i by simp
  have empty: "drop seg (take i s) = [] \<longleftrightarrow> i = seg" using inv len by (auto simp: scanned_def)
  have closed: "word_at s seg = drop seg (take i s)" if "s ! i = CHR '' ''"
    using inv len that by (intro word_at_closed) (auto simp: scanned_def)
  have opened: "word_at s seg = drop seg (take i s) @ [s ! i]" if "s ! i \<noteq> CHR '' ''"
  proof -
    have "drop seg s = drop seg (take i s) @ [s ! i]"
      using drop_take_append [of seg i s] inv len i by (auto simp: scanned_def)
    then show ?thesis using inv that by (simp add: word_at_def scanned_def) (metis takeWhile_eq_all_conv)
  qed
  have fields: "command_data cmd = blanked i data" "name_pos cmd = None \<longrightarrow> params_pos cmd = []"
    "\<forall>p \<in> set (segments cmd). p < length s" "seg < length s"
    "line_words s = map (word_at s) (segments cmd) @ split_words (drop seg (take i s)) [s ! i]"
    using inv rest len by (auto simp: scanned_def)
  have data: "blanked n data = (if s ! i = CHR '' '' then (blanked i data)[i := NUL] else blanked i data)"
    using blanked_Suc [of i data] blanked_keep [of i data] len nth i by auto
  obtain cmd' seg' where step: "init_step n i (cmd, seg) = (cmd', seg')" by fastforce
  show ?thesis
  proof (rule that [OF step])
    show "command_data cmd' = blanked n data" "name_pos cmd' = None \<longrightarrow> params_pos cmd' = []"
      "\<forall>p \<in> set (segments cmd'). p < length s" "line_words s = map (word_at s) (segments cmd')"
      using step fields data closed opened empty nth here blanked_nth [of i data] len
      by (auto simp: init_step_def Let_def split: if_splits)
  qed
qed


lemma strlen_le: "strlen data \<le> length data"
  by (simp add: strlen_def c_str_def length_takeWhile_le)

lemma c_str_take: "c_str data 0 = take (strlen data) data"
  by (simp add: strlen_def c_str_def) (metis takeWhile_eq_take)

lemma c_str_no_NUL: "NUL \<notin> set (c_str data p)"
  by (auto simp: c_str_def dest: set_takeWhileD)

lemma takeWhile_blank:
  "NUL \<notin> set s \<Longrightarrow> rest = [] \<or> hd rest = NUL \<Longrightarrow>
   takeWhile (\<lambda>c. c \<noteq> NUL) (map (\<lambda>c. if c = CHR '' '' then NUL else c) s @ rest) = takeWhile (\<lambda>c. c \<noteq> CHR '' '') s"
  by (induction s) (auto simp: takeWhile_eq_Nil_iff)

lemma c_str_blanked:
  assumes "n = strlen data" "s = c_str data 0" "p < n"
  shows "c_str (blanked n data) p = word_at s p"
proof -
  have s: "s = take n data" "length s = n" using assms(1,2) c_str_take [of data] strlen_le [of data] by simp_all
  have "drop n data = dropWhile (\<lambda>c. c \<noteq> NUL) data" by (simp add: assms(1) strlen_def c_str_def dropWhile_eq_drop)
  then have rest: "drop n data = [] \<or> hd (drop n data) = NUL"
    using hd_dropWhile [of "\<lambda>c. c \<noteq> NUL" data] by (cases "dropWhile (\<lambda>c. c \<noteq> NUL) data") auto
  have "drop p (blanked n data) = map (\<lambda>c. if c = CHR '' '' then NUL else c) (drop p s) @ drop n data"
    using assms(3) strlen_le [of data] by (simp add: blanked_def s(1) drop_map assms(1))
  moreover have "NUL \<notin> set (drop p s)" using c_str_no_NUL [of data 0] assms(2) by (meson in_set_dropD)
  ultimately show ?thesis using rest by (simp add: c_str_def word_at_def takeWhile_blank)
qed

lemma init_scan:
  assumes "command_data cmd = data" "name_pos cmd = None" "params_pos cmd = []"
  obtains cmd' where "command_init cmd = (cmd', line_words (c_str data 0) \<noteq> [])"
    "command_data cmd' = blanked (strlen data) data"
    "map (c_str (command_data cmd')) (segments cmd') = line_words (c_str data 0)"
    "name_pos cmd' = None \<longrightarrow> params_pos cmd' = []"
proof -
  define n where "n = strlen data"
  define s where "s = c_str data 0"
  have s: "s = take n data" "n \<le> length data" "length s = n"
    using c_str_take [of data] strlen_le [of data] by (simp_all add: s_def n_def)
  show ?thesis
  proof (cases n)
    case 0
    then have "s = []" using s by simp
    then show ?thesis
      using that [of cmd] 0 assms by (simp add: command_init_def n_def [symmetric] s_def [symmetric] line_words_def blanked_def segments_def)
  next
    case (Suc m)
    have start: "scanned data s 0 (cmd, 0)"
      using assms by (simp add: scanned_def blanked_def segments_def line_words_def)
    have "scanned data s m (fold (init_step n) [0..<m] (cmd, 0))"
      if "m \<le> m'" "Suc m' = n" for m m'
      using that
    proof (induction m)
      case 0
      then show ?case using start by simp
    next
      case (Suc k)
      then have "scanned data s k (fold (init_step n) [0..<k] (cmd, 0))" by simp
      then show ?case
        using Suc.prems s by (cases "fold (init_step n) [0..<k] (cmd, 0)") (auto intro: scanned_step)
    qed
    from this [of m m] obtain c g where c: "fold (init_step n) [0..<m] (cmd, 0) = (c, g)" "scanned data s m (c, g)"
      using Suc by (cases "fold (init_step n) [0..<m] (cmd, 0)") auto
    obtain cmd' seg' where e: "init_step n m (c, g) = (cmd', seg')" "command_data cmd' = blanked n data"
      "name_pos cmd' = None \<longrightarrow> params_pos cmd' = []" "\<forall>p \<in> set (segments cmd'). p < length s"
      "line_words s = map (word_at s) (segments cmd')"
      by (rule scanned_last [OF c(2) Suc [symmetric] s(1,2)])
    have "map (c_str (command_data cmd')) (segments cmd') = line_words s"
      unfolding e(5) map_eq_conv e(2) using e(4) s(3) by (auto intro!: c_str_blanked simp: n_def s_def)
    moreover have "command_init cmd = (cmd', name_pos cmd' \<noteq> None)"
      using c(1) e(1) Suc assms(1) by (simp add: command_init_def Let_def n_def [symmetric])
    moreover have "name_pos cmd' \<noteq> None \<longleftrightarrow> line_words s \<noteq> []"
      using e(3,5) by (auto simp: segments_def split: option.splits)
    ultimately show ?thesis using that [of cmd'] e(2,3) by (simp add: n_def s_def)
  qed
qed


section \<open>Properties\<close>

lemma reset_scan:
  obtains cmd' where "command_reset data cmd = cmd'\<lparr>correct := line_words (c_str data 0) \<noteq> []\<rparr>"
    "map (c_str (command_data cmd')) (segments cmd') = line_words (c_str data 0)"
    "name_pos cmd' = None \<longrightarrow> params_pos cmd' = []" "command_data cmd' = blanked (strlen data) data"
proof -
  let ?c = "(command_null cmd)\<lparr>command_data := data\<rparr>"
  have "command_data ?c = data" "name_pos ?c = None" "params_pos ?c = []" by (simp_all add: command_null_def)
  from init_scan [OF this] obtain cmd' where "command_init ?c = (cmd', line_words (c_str data 0) \<noteq> [])"
    "command_data cmd' = blanked (strlen data) data"
    "map (c_str (command_data cmd')) (segments cmd') = line_words (c_str data 0)"
    "name_pos cmd' = None \<longrightarrow> params_pos cmd' = []" by blast
  with that [of cmd'] show ?thesis by (simp add: command_reset_def)
qed

lemma reset_fields:
  "correct (command_reset data cmd) \<longleftrightarrow> line_words (c_str data 0) \<noteq> []"
  "command_name (command_reset data cmd) =
     (case line_words (c_str data 0) of [] \<Rightarrow> None | w # _ \<Rightarrow> Some w)"
  "param_strings (command_reset data cmd) = tl (line_words (c_str data 0))"
  "command_data (command_reset data cmd) = blanked (strlen data) data"
proof -
  obtain c where c: "command_reset data cmd = c\<lparr>correct := line_words (c_str data 0) \<noteq> []\<rparr>"
    "map (c_str (command_data c)) (segments c) = line_words (c_str data 0)"
    "name_pos c = None \<longrightarrow> params_pos c = []" "command_data c = blanked (strlen data) data"
    by (rule reset_scan)
  show "correct (command_reset data cmd) \<longleftrightarrow> line_words (c_str data 0) \<noteq> []"
    "command_data (command_reset data cmd) = blanked (strlen data) data" using c by simp_all
  show "command_name (command_reset data cmd) = (case line_words (c_str data 0) of [] \<Rightarrow> None | w # _ \<Rightarrow> Some w)"
    "param_strings (command_reset data cmd) = tl (line_words (c_str data 0))"
    using c(1,3) c(2) [symmetric]
    by (auto simp: command_name_def param_strings_def segments_def split: option.splits)
qed

text \<open>
  C20. Cutting a line in place gives the words of the line: the name of the command is the first word
  and its parameters are the others, in order, whatever the number of blanks before, between and
  after them; a line without words is not a command. Nothing behind the terminator of the line is
  written.
\<close>
theorem command_words:
  "let cmd' = command_reset data cmd; ws = line_words (c_str data 0) in
     (correct cmd' \<longleftrightarrow> ws \<noteq> []) \<and>
     command_name cmd' = (case ws of [] \<Rightarrow> None | w # _ \<Rightarrow> Some w) \<and>
     param_size cmd' = length (tl ws) \<and>
     (\<forall>i. command_param cmd' i = (if i < length (tl ws) then Inr (tl ws ! i) else Inl Range_exception)) \<and>
     drop (strlen data) (command_data cmd') = drop (strlen data) data"
proof -
  let ?c = "command_reset data cmd"
  have "length (params_pos ?c) = length (tl (line_words (c_str data 0)))"
    using arg_cong [OF reset_fields(3) [of data cmd], of length] by (simp add: param_strings_def)
  moreover have "c_str (command_data ?c) (params_pos ?c ! i) = tl (line_words (c_str data 0)) ! i"
    if "i < length (params_pos ?c)" for i
    using arg_cong [OF reset_fields(3) [of data cmd], of "\<lambda>xs. xs ! i"] that by (simp add: param_strings_def)
  ultimately show ?thesis
    using reset_fields [of data cmd] strlen_le [of data]
    by (simp add: Let_def param_size_def command_param_def blanked_def)
qed

lemma split_words_word:
  assumes "CHR '' '' \<notin> set w" "acc @ w \<noteq> []"
  shows "split_words acc (w @ CHR '' '' # cs) = (acc @ w) # split_words [] cs"
  using assms by (induction w arbitrary: acc) auto

lemma split_words_last: "CHR '' '' \<notin> set w \<Longrightarrow> acc @ w \<noteq> [] \<Longrightarrow> split_words acc w = [acc @ w]"
  by (induction w arbitrary: acc) auto

end
