(* ===== verification/SendQueue.thy ===== *)
theory SendQueue
  imports Command
begin

text \<open>
  What a connection sends (\<^verbatim>\<open>buffer_stream\<close> in \<^verbatim>\<open>src/src/net/ws_client.h\<close>, the sending half of
  \<^verbatim>\<open>src/src/net/ws_client.cpp\<close>): messages are formatted into a vector of buffers that is reused once the
  queue has run empty, one buffer is on the wire at a time, and the completion of one send starts the next.

  A formatted text is an argument; \<^verbatim>\<open>vsnprintf\<close> stores as much of it as fits. What is handed to the
  socket is recorded in order in \<^verbatim>\<open>wire\<close>. The loop that doubles a buffer until the text fits need not end,
  so a write that never returns is \<^verbatim>\<open>None\<close>.
\<close>

section \<open>Buffers\<close>

record buffer_stream =
  stream_buffer :: string
  stream_size :: int
  pos_start :: nat

definition DATA_POS :: nat where "DATA_POS = 4"
definition MAX_BUFFER_SIZE :: nat where "MAX_BUFFER_SIZE = 128"
definition MAX_BUFFER_SEQUENCE_SIZE :: nat where "MAX_BUFFER_SEQUENCE_SIZE = 32"

text \<open>\<^verbatim>\<open>pos_start\<close> is not initialised; a write sets it before it is read.\<close>

definition new_buffer :: "nat \<Rightarrow> buffer_stream" where
  "new_buffer n = \<lparr>stream_buffer = replicate n NUL, stream_size = 0, pos_start = 0\<rparr>"

text \<open>\<^verbatim>\<open>vsnprintf(buf + p, size, format, args)\<close> with the text that is formatted; it returns its length.\<close>

definition vsnprintf :: "nat \<Rightarrow> nat \<Rightarrow> string \<Rightarrow> string \<Rightarrow> string" where
  "vsnprintf p n s buf =
     (if n = 0 then buf
      else let t = take (n - 1) s @ [NUL] in take p buf @ t @ drop (p + length t) buf)"

definition stream_write :: "string \<Rightarrow> buffer_stream \<Rightarrow> int \<times> buffer_stream" where
  "stream_write s b =
     (let n = length s; b = b\<lparr>stream_buffer := vsnprintf 0 (length (stream_buffer b)) s (stream_buffer b)\<rparr> in
      if n \<ge> length (stream_buffer b) then (0, b)
      else (int n, b\<lparr>stream_size := int n, pos_start := 0\<rparr>))"

text \<open>The bytes of \<^verbatim>\<open>htons\<close> of a number below 65536, as the number a little-endian machine reads.\<close>

definition htons :: "nat \<Rightarrow> nat" where
  "htons n = 256 * (n mod 256) + n div 256"

definition stream_write_frame :: "string \<Rightarrow> buffer_stream \<Rightarrow> int \<times> buffer_stream" where
  "stream_write_frame s b =
     (let n = length s; room = length (stream_buffer b) - DATA_POS;
          b = b\<lparr>stream_buffer := vsnprintf DATA_POS room s (stream_buffer b)\<rparr> in
      if n \<ge> room then (0, b)
      else if n < 126 then
        (let b = b\<lparr>stream_buffer := (stream_buffer b)[3 := char_of n], pos_start := 2\<rparr>;
             b = b\<lparr>stream_size := int n + int DATA_POS - int (pos_start b)\<rparr> in (stream_size b, b))
      else if n < 65536 then
        (let m = htons n;
             b = b\<lparr>stream_buffer := (stream_buffer b)[2 := char_of (m mod 256), 3 := char_of (m div 256)], pos_start := 0\<rparr>;
             b = b\<lparr>stream_size := int m + int DATA_POS - int (pos_start b)\<rparr> in (stream_size b, b))
      else (-1, b))"

definition double_size :: "buffer_stream \<Rightarrow> buffer_stream" where
  "double_size b = b\<lparr>stream_buffer := stream_buffer b @ replicate (length (stream_buffer b)) NUL\<rparr>"

text \<open>\<^verbatim>\<open>for (;;) { n = write(...); if (n == 0) { double_size(); continue; } ... break; }\<close>\<close>

partial_function (option) fill_loop ::
    "(buffer_stream \<Rightarrow> int \<times> buffer_stream) \<Rightarrow> buffer_stream \<Rightarrow> (int \<times> buffer_stream) option" where
  "fill_loop write b =
     (let (n, b) = write b in if n = 0 then fill_loop write (double_size b) else Some (n, b))"

section \<open>The queue\<close>

record sender =
  send_buffer_sequence :: "buffer_stream list"
  read_pos :: int
  write_pos :: int
  is_data_sending :: bool
  wire :: "string list"

definition new_sender :: sender where
  "new_sender = \<lparr>send_buffer_sequence = replicate 8 (new_buffer MAX_BUFFER_SIZE), read_pos = -1, write_pos = 0,
     is_data_sending = False, wire = []\<rparr>"

definition alloc_available_buffer :: "sender \<Rightarrow> nat option \<times> sender" where
  "alloc_available_buffer s =
     (if write_pos s < int (length (send_buffer_sequence s))
      then (Some (nat (write_pos s)), s\<lparr>write_pos := write_pos s + 1\<rparr>)
      else if length (send_buffer_sequence s) \<ge> MAX_BUFFER_SEQUENCE_SIZE then (None, s)
      else let s = s\<lparr>send_buffer_sequence := send_buffer_sequence s @ [new_buffer MAX_BUFFER_SIZE]\<rparr>
           in (Some (nat (write_pos s)), s\<lparr>write_pos := write_pos s + 1\<rparr>))"

text \<open>Starting to send a buffer: the socket reads \<^verbatim>\<open>size()\<close> bytes from \<^verbatim>\<open>pos_start\<close> on.\<close>

definition async_write :: "buffer_stream \<Rightarrow> sender \<Rightarrow> sender result" where
  "async_write b s =
     (if int (pos_start b) + stream_size b \<le> int (length (stream_buffer b))
      then Inr (s\<lparr>wire := wire s @ [take (nat (stream_size b)) (drop (pos_start b) (stream_buffer b))]\<rparr>)
      else Inl Out_of_bounds)"

text \<open>The end of both writing functions.\<close>

definition start_sending :: "buffer_stream \<Rightarrow> sender \<Rightarrow> sender result" where
  "start_sending b s =
     (if read_pos s = -1
      then ebind (async_write b (s\<lparr>read_pos := read_pos s + 1\<rparr>)) (\<lambda>s. Inr (s\<lparr>is_data_sending := True\<rparr>))
      else Inr s)"

definition put_buffer :: "nat \<Rightarrow> buffer_stream \<Rightarrow> sender \<Rightarrow> sender" where
  "put_buffer i b s = s\<lparr>send_buffer_sequence := (send_buffer_sequence s)[i := b]\<rparr>"

definition client_write :: "string \<Rightarrow> sender \<Rightarrow> sender result option" where
  "client_write text s =
     (case alloc_available_buffer s of
        (None, s) \<Rightarrow> Some (Inr s)
      | (Some i, s) \<Rightarrow>
          map_option (\<lambda>(n, b).
            let s = put_buffer i b s in if n < 0 then Inr s else start_sending b s)
          (fill_loop (stream_write text) (send_buffer_sequence s ! i)))"

definition client_write_frame :: "bool \<Rightarrow> nat \<Rightarrow> string \<Rightarrow> sender \<Rightarrow> sender result option" where
  "client_write_frame is_fin opcode text s =
     (case alloc_available_buffer s of
        (None, s) \<Rightarrow> Some (Inr s)
      | (Some i, s) \<Rightarrow>
          map_option (\<lambda>(n, b).
            if n < 0 then Inr (put_buffer i b s)
            else let b = b\<lparr>stream_buffer := (stream_buffer b)[pos_start b := char_of (128 * of_bool is_fin + opcode)]\<rparr>
                 in start_sending b (put_buffer i b s))
          (fill_loop (stream_write_frame text) (send_buffer_sequence s ! i)))"

definition send_handle :: "bool \<Rightarrow> sender \<Rightarrow> sender result" where
  "send_handle error s =
     (if error then Inr (s\<lparr>read_pos := -1, write_pos := 0, is_data_sending := False\<rparr>)
      else let s = s\<lparr>read_pos := read_pos s + 1\<rparr> in
        if read_pos s \<ge> write_pos s then Inr (s\<lparr>read_pos := -1, write_pos := 0, is_data_sending := False\<rparr>)
        else if nat (read_pos s) < length (send_buffer_sequence s)
        then async_write (send_buffer_sequence s ! nat (read_pos s)) s
        else Inl Range_exception)"

end
