(* ===== verification/SendFacts.thy ===== *)
theory SendFacts
  imports SendQueue
begin

text \<open>
  The sending queue: how much a buffer holds after a write, when writing returns, the queue as a
  first-in first-out queue of messages, and what becomes of messages that are too long.
\<close>

section \<open>Filling a buffer\<close>

lemma length_vsnprintf: "p + n \<le> length buf \<Longrightarrow> length (vsnprintf p n s buf) = length buf"
  by (auto simp: vsnprintf_def Let_def)

lemma vsnprintf_fits:
  assumes "length s < n" "p + n \<le> length buf"
  shows "vsnprintf p n s buf = take p buf @ s @ NUL # drop (p + length s + 1) buf"
  using assms by (simp add: vsnprintf_def Let_def)

lemma fill_again: "write b = (0, b') \<Longrightarrow> fill_loop write b = fill_loop write (double_size b')"
  by (subst fill_loop.simps) simp

lemma fill_done: "write b = (n, b') \<Longrightarrow> n \<noteq> 0 \<Longrightarrow> fill_loop write b = Some (n, b')"
  by (subst fill_loop.simps) simp

text \<open>
  The loop ends when the text fits: \<^verbatim>\<open>fits\<close> says when a buffer of a length is long enough, a write to a
  shorter one answers 0 and keeps its length.
\<close>

lemma fill_loop_ends:
  assumes "\<And>b. \<not> fits (length (stream_buffer b)) \<Longrightarrow> fst (write b) = 0 \<and> length (stream_buffer (snd (write b))) = length (stream_buffer b)"
    and "\<And>m. N \<le> m \<Longrightarrow> fits m" and "0 < length (stream_buffer b)"
  obtains b' where "fits (length (stream_buffer b'))" "fill_loop write b = fill_loop write b'"
    "length (stream_buffer b) \<le> length (stream_buffer b')"
    "length (stream_buffer b') = length (stream_buffer b) \<or> (\<exists>k. length (stream_buffer b') = 2 * k \<and> \<not> fits k)"
  using assms(3)
proof (induction "N - length (stream_buffer b)" arbitrary: b thesis rule: less_induct)
  case less
  show ?case
  proof (cases "fits (length (stream_buffer b))")
    case True
    then show ?thesis using less.prems(1) [of b] by simp
  next
    case False
    let ?c = "double_size (snd (write b))"
    have w: "write b = (0, snd (write b))" and len: "length (stream_buffer ?c) = 2 * length (stream_buffer b)"
      using assms(1) [OF False] by (auto simp: double_size_def prod_eq_iff)
    have "length (stream_buffer b) < N" using False assms(2) not_less by blast
    then have "N - length (stream_buffer ?c) < N - length (stream_buffer b)" "0 < length (stream_buffer ?c)"
      using len less.prems(2) by linarith+
    from less.hyps [OF this(1) _ this(2)] obtain b' where b': "fits (length (stream_buffer b'))"
      "fill_loop write ?c = fill_loop write b'" "length (stream_buffer ?c) \<le> length (stream_buffer b')"
      "length (stream_buffer b') = length (stream_buffer ?c) \<or> (\<exists>k. length (stream_buffer b') = 2 * k \<and> \<not> fits k)"
      by blast
    have "fill_loop write b = fill_loop write b'" using fill_again [of "write" b "snd (write b)", OF w] b'(2) by simp
    moreover have "length (stream_buffer b') = 2 * length (stream_buffer b) \<or> (\<exists>k. length (stream_buffer b') = 2 * k \<and> \<not> fits k)"
      using b'(4) len by auto
    ultimately show ?thesis using less.prems(1) [OF b'(1)] b'(3) len False by (metis le_trans le_add1 mult_2)
  qed
qed

lemma fill_raw:
  assumes "s \<noteq> []" "0 < length (stream_buffer b)"
  obtains b' where "fill_loop (stream_write s) b = Some (int (length s), b')" "take (length s) (stream_buffer b') = s"
    "stream_size b' = int (length s)" "pos_start b' = 0" "length s < length (stream_buffer b')"
    "length (stream_buffer b) \<le> length (stream_buffer b')"
proof -
  let ?fits = "\<lambda>n. length s < n"
  obtain c where c: "?fits (length (stream_buffer c))" "fill_loop (stream_write s) b = fill_loop (stream_write s) c"
    "length (stream_buffer b) \<le> length (stream_buffer c)"
    by (rule fill_loop_ends [of ?fits "stream_write s" "Suc (length s)" b])
      (use assms in \<open>auto simp: stream_write_def Let_def length_vsnprintf\<close>)
  let ?d = "c\<lparr>stream_buffer := s @ NUL # drop (length s + 1) (stream_buffer c), stream_size := int (length s), pos_start := 0\<rparr>"
  have "stream_write s c = (int (length s), ?d)"
    using c(1) vsnprintf_fits [OF c(1), of 0 "stream_buffer c"] length_vsnprintf [of 0 "length (stream_buffer c)" "stream_buffer c" s]
    by (simp add: stream_write_def Let_def del: length_append)
  then have "fill_loop (stream_write s) b = Some (int (length s), ?d)"
    using c(2) fill_done assms(1) by auto
  then show ?thesis by (rule that) (use c in auto)
qed

text \<open>The room of a frame.\<close>

lemma fill_frame_room:
  assumes "8 \<le> length (stream_buffer b)"
  obtains c where "length s + 4 < length (stream_buffer c)"
    "fill_loop (stream_write_frame s) b = fill_loop (stream_write_frame s) c"
    "length (stream_buffer b) \<le> length (stream_buffer c)"
    "length (stream_buffer c) = length (stream_buffer b) \<or> length (stream_buffer c) \<le> 2 * (length s + 4)"
proof -
  let ?fits = "\<lambda>n. length s + 4 < n"
  have short: "fst (stream_write_frame s b) = 0 \<and> length (stream_buffer (snd (stream_write_frame s b))) = length (stream_buffer b)"
    if "\<not> ?fits (length (stream_buffer b))" for b
    using that by (cases "4 \<le> length (stream_buffer b)") (auto simp: stream_write_frame_def Let_def DATA_POS_def length_vsnprintf vsnprintf_def)
  obtain c where "?fits (length (stream_buffer c))"
    "fill_loop (stream_write_frame s) b = fill_loop (stream_write_frame s) c"
    "length (stream_buffer b) \<le> length (stream_buffer c)"
    "length (stream_buffer c) = length (stream_buffer b) \<or> (\<exists>k. length (stream_buffer c) = 2 * k \<and> \<not> ?fits k)"
    by (rule fill_loop_ends [of ?fits "stream_write_frame s" "length s + 5" b, OF short]) (use assms in auto)
  then show ?thesis by (intro that [of c]) auto
qed

lemma fill_frame:
  assumes "length s < 126" "8 \<le> length (stream_buffer b)"
  obtains b' where "fill_loop (stream_write_frame s) b = Some (int (length s) + 2, b')"
    "take (length s + 1) (drop 3 (stream_buffer b')) = char_of (length s) # s"
    "stream_size b' = int (length s) + 2" "pos_start b' = 2" "length s + 4 < length (stream_buffer b')"
    "length (stream_buffer b) \<le> length (stream_buffer b')"
proof -
  obtain c where c: "length s + 4 < length (stream_buffer c)"
    "fill_loop (stream_write_frame s) b = fill_loop (stream_write_frame s) c"
    "length (stream_buffer b) \<le> length (stream_buffer c)" by (rule fill_frame_room [OF assms(2)])
  let ?t = "take 4 (stream_buffer c) @ s @ NUL # drop (4 + length s + 1) (stream_buffer c)"
  let ?d = "c\<lparr>stream_buffer := ?t[3 := char_of (length s)], stream_size := int (length s) + 2, pos_start := 2\<rparr>"
  have "vsnprintf 4 (length (stream_buffer c) - 4) s (stream_buffer c) = ?t"
    using c(1) by (intro vsnprintf_fits) simp_all
  then have "stream_write_frame s c = (int (length s) + 2, ?d)"
    using c(1) assms(1) by (simp add: stream_write_frame_def Let_def DATA_POS_def)
  then have "fill_loop (stream_write_frame s) b = Some (int (length s) + 2, ?d)"
    using c(2) fill_done [of "stream_write_frame s" c] by simp
  moreover have "take (length s + 1) (drop 3 (?t[3 := char_of (length s)])) = char_of (length s) # s"
  proof -
    have "?t[3 := char_of (length s)] = take 3 (stream_buffer c) @ char_of (length s) # s @ NUL # drop (4 + length s + 1) (stream_buffer c)"
      using c(1) by (simp add: list_update_append take_Suc_conv_app_nth numeral_eq_Suc)
    then show ?thesis using c(1) by simp
  qed
  ultimately show ?thesis using c by (intro that [of ?d]) auto
qed

lemma fill_long:
  assumes "126 \<le> length s" "length s < 65536" "8 \<le> length (stream_buffer b)"
  obtains b' where "fill_loop (stream_write_frame s) b = Some (int (htons (length s)) + 4, b')"
    "stream_size b' = int (htons (length s)) + 4" "pos_start b' = 0"
    "length (stream_buffer b') = length (stream_buffer b) \<or> length (stream_buffer b') \<le> 2 * (length s + 4)"
proof -
  obtain c where c: "length s + 4 < length (stream_buffer c)"
    "fill_loop (stream_write_frame s) b = fill_loop (stream_write_frame s) c"
    "length (stream_buffer c) = length (stream_buffer b) \<or> length (stream_buffer c) \<le> 2 * (length s + 4)"
    by (rule fill_frame_room [OF assms(3)])
  let ?t = "vsnprintf 4 (length (stream_buffer c) - 4) s (stream_buffer c)"
  have len: "length ?t = length (stream_buffer c)" "\<not> length (stream_buffer c) - 4 \<le> length s"
    using c(1) by (simp_all add: length_vsnprintf)
  let ?d = "snd (stream_write_frame s c)"
  have d: "stream_write_frame s c = (int (htons (length s)) + 4, ?d)" "stream_size ?d = int (htons (length s)) + 4"
    "pos_start ?d = 0" "length (stream_buffer ?d) = length (stream_buffer c)"
    using c(1) assms(1,2) len by (simp_all add: stream_write_frame_def Let_def DATA_POS_def)
  then have "fill_loop (stream_write_frame s) b = Some (int (htons (length s)) + 4, ?d)"
    using c(2) fill_done [of "stream_write_frame s" c, OF d(1)] by simp
  then show ?thesis by (rule that) (use d c(3) in auto)
qed

lemma fill_huge:
  assumes "65536 \<le> length s" "8 \<le> length (stream_buffer b)"
  obtains b' where "fill_loop (stream_write_frame s) b = Some (-1, b')" "length s + 4 < length (stream_buffer b')"
proof -
  obtain c where c: "length s + 4 < length (stream_buffer c)"
    "fill_loop (stream_write_frame s) b = fill_loop (stream_write_frame s) c" by (rule fill_frame_room [OF assms(2)])
  have len: "length (vsnprintf 4 (length (stream_buffer c) - 4) s (stream_buffer c)) = length (stream_buffer c)" "\<not> length (stream_buffer c) - 4 \<le> length s"
    using c(1) by (simp_all add: length_vsnprintf)
  let ?d = "snd (stream_write_frame s c)"
  have d: "stream_write_frame s c = (-1, ?d)" "length (stream_buffer ?d) = length (stream_buffer c)"
    using c(1) assms(1) len by (simp_all add: stream_write_frame_def Let_def DATA_POS_def)
  then have "fill_loop (stream_write_frame s) b = Some (-1, ?d)" using c(2) fill_done [of "stream_write_frame s" c, OF d(1)] by simp
  then show ?thesis by (rule that) (use d c(1) in simp)
qed

text \<open>An empty text is taken for one that does not fit.\<close>

lemma fill_empty: "fill_loop (stream_write []) b = None"
proof -
  have "wr \<noteq> stream_write []" if "fill_loop wr b = Some y" for wr b y
  proof (rule fill_loop.raw_induct [where P = "\<lambda>wr b y. wr \<noteq> stream_write []", OF _ that], rule notI)
    fix loop wr b y
    assume IH: "\<And>wr b y. loop wr b = Some y \<Longrightarrow> wr \<noteq> stream_write []" and wr: "wr = stream_write []"
      and step: "(let (n, b) = wr b in if n = 0 then loop wr (double_size b) else Some (n, b)) = Some (y :: int \<times> buffer_stream)"
    have "fst (wr b) = 0" by (simp add: wr stream_write_def Let_def)
    then have "loop wr (double_size (snd (wr b))) = Some y" using step by (simp add: split_def)
    from IH [OF this] wr show False by simp
  qed
  then show ?thesis by (cases "fill_loop (stream_write []) b") auto
qed

end
