(* ===== verification/SendRefine.thy ===== *)
theory SendRefine
  imports SendFacts
begin

text \<open>
  The sending half of a connection is a first-in first-out queue: every accepted message is handed to the
  socket once, in order, the next one when the one before is done. What the queue promises is a small
  machine over lists of messages; that the vector of buffers with its two positions refines it is proved
  over an interface, which the functions of the code fill.
\<close>

section \<open>What a queue of messages promises\<close>

text \<open>
  How many messages were accepted since the queue was last empty, those not yet done (the first one is
  on the wire), and everything handed to the socket so far.
\<close>

record mail =
  accepted :: nat
  pending :: "string list"
  outgoing :: "string list"

definition mail_post :: "string \<Rightarrow> mail \<Rightarrow> mail" where
  "mail_post m q =
     (if accepted q \<ge> 32 then q
      else q\<lparr>accepted := accepted q + 1, pending := pending q @ [m],
             outgoing := (if pending q = [] then outgoing q @ [m] else outgoing q)\<rparr>)"

definition mail_finish :: "bool \<Rightarrow> mail \<Rightarrow> mail" where
  "mail_finish error q =
     (if error \<or> tl (pending q) = [] then q\<lparr>accepted := 0, pending := []\<rparr>
      else q\<lparr>pending := tl (pending q), outgoing := outgoing q @ [hd (tl (pending q))]\<rparr>)"

datatype 'm send_event = Post 'm | Finish bool

fun mail_run :: "('m \<Rightarrow> string) \<Rightarrow> 'm send_event list \<Rightarrow> mail \<Rightarrow> mail" where
  "mail_run bytes [] q = q"
| "mail_run bytes (Post m # es) q = mail_run bytes es (mail_post (bytes m) q)"
| "mail_run bytes (Finish e # es) q = mail_run bytes es (mail_finish e q)"

fun send_run :: "('m \<Rightarrow> 's \<Rightarrow> 's result option) \<Rightarrow> (bool \<Rightarrow> 's \<Rightarrow> 's result) \<Rightarrow> 'm send_event list \<Rightarrow> 's \<Rightarrow> 's result option" where
  "send_run post finish [] s = Some (Inr s)"
| "send_run post finish (Post m # es) s =
     (case post m s of
        None \<Rightarrow> None
      | Some (Inl e) \<Rightarrow> Some (Inl e)
      | Some (Inr s) \<Rightarrow> send_run post finish es s)"
| "send_run post finish (Finish e # es) s =
     (case finish e s of Inl e \<Rightarrow> Some (Inl e) | Inr s \<Rightarrow> send_run post finish es s)"

definition event_ok :: "('m \<Rightarrow> bool) \<Rightarrow> 'm send_event \<Rightarrow> bool" where
  "event_ok ok e = (case e of Post m \<Rightarrow> ok m | Finish _ \<Rightarrow> True)"

locale sends_mail =
  fixes inv :: "'s \<Rightarrow> bool" and abs :: "'s \<Rightarrow> mail" and ok :: "'m \<Rightarrow> bool" and bytes :: "'m \<Rightarrow> string"
    and post :: "'m \<Rightarrow> 's \<Rightarrow> 's result option" and finish :: "bool \<Rightarrow> 's \<Rightarrow> 's result"
  assumes post_refines: "inv s \<Longrightarrow> ok m \<Longrightarrow> \<exists>s'. post m s = Some (Inr s') \<and> inv s' \<and> abs s' = mail_post (bytes m) (abs s)"
    and finish_refines: "inv s \<Longrightarrow> \<exists>s'. finish e s = Inr s' \<and> inv s' \<and> abs s' = mail_finish e (abs s)"
begin

lemma run_refines:
  assumes "inv s" "list_all (event_ok ok) es"
  shows "\<exists>s'. send_run post finish es s = Some (Inr s') \<and> inv s' \<and> abs s' = mail_run bytes es (abs s)"
  using assms
proof (induction es arbitrary: s)
  case (Cons e es)
  show ?case
  proof (cases e)
    case (Post m)
    then obtain s' where "post m s = Some (Inr s')" "inv s'" "abs s' = mail_post (bytes m) (abs s)"
      using post_refines [of s m] Cons.prems by (auto simp: event_ok_def)
    then show ?thesis using Cons.IH [of s'] Cons.prems(2) Post by simp
  next
    case (Finish b)
    obtain s' where "finish b s = Inr s'" "inv s'" "abs s' = mail_finish b (abs s)"
      using finish_refines [OF Cons.prems(1)] by blast
    then show ?thesis using Cons.IH [of s'] Cons.prems(2) Finish by simp
  qed
qed simp

end

section \<open>The code as such a queue\<close>

datatype message = Raw string | Framed bool nat string

definition message_ok :: "message \<Rightarrow> bool" where
  "message_ok m = (case m of Raw t \<Rightarrow> t \<noteq> [] | Framed f op t \<Rightarrow> length t < 126)"

definition message_bytes :: "message \<Rightarrow> string" where
  "message_bytes m =
     (case m of
        Raw t \<Rightarrow> t
      | Framed f op t \<Rightarrow> char_of (128 * of_bool f + op) # char_of (length t) # t)"

definition post_message :: "message \<Rightarrow> sender \<Rightarrow> sender result option" where
  "post_message m = (case m of Raw t \<Rightarrow> client_write t | Framed f op t \<Rightarrow> client_write_frame f op t)"

definition stream_bytes :: "buffer_stream \<Rightarrow> string" where
  "stream_bytes b = take (nat (stream_size b)) (drop (pos_start b) (stream_buffer b))"

definition stream_ok :: "buffer_stream \<Rightarrow> bool" where
  "stream_ok b \<longleftrightarrow> int (pos_start b) + stream_size b \<le> int (length (stream_buffer b))"

definition in_use :: "sender \<Rightarrow> buffer_stream list" where
  "in_use s = drop (nat (read_pos s)) (take (nat (write_pos s)) (send_buffer_sequence s))"

definition sender_inv :: "sender \<Rightarrow> bool" where
  "sender_inv s \<longleftrightarrow> length (send_buffer_sequence s) \<le> MAX_BUFFER_SEQUENCE_SIZE \<and>
     (\<forall>b \<in> set (send_buffer_sequence s). 8 \<le> length (stream_buffer b)) \<and>
     (read_pos s = -1 \<and> write_pos s = 0 \<or>
      0 \<le> read_pos s \<and> read_pos s < write_pos s \<and> write_pos s \<le> int (length (send_buffer_sequence s)) \<and>
      (\<forall>b \<in> set (in_use s). stream_ok b))"

definition sender_mail :: "sender \<Rightarrow> mail" where
  "sender_mail s = \<lparr>accepted = nat (write_pos s), pending = (if read_pos s = -1 then [] else map stream_bytes (in_use s)),
     outgoing = wire s\<rparr>"

lemma alloc_cases:
  assumes "sender_inv s"
  obtains (full) "alloc_available_buffer s = (None, s)" "write_pos s = 32"
  | (slot) i bs where "alloc_available_buffer s = (Some i, s\<lparr>send_buffer_sequence := bs, write_pos := write_pos s + 1\<rparr>)"
      "int i = write_pos s" "i < length bs" "length bs \<le> 32" "take i bs = take i (send_buffer_sequence s)"
      "\<forall>b \<in> set bs. 8 \<le> length (stream_buffer b)" "set bs \<subseteq> insert (new_buffer MAX_BUFFER_SIZE) (set (send_buffer_sequence s))"
proof -
  have w: "0 \<le> write_pos s" "write_pos s \<le> int (length (send_buffer_sequence s))" "length (send_buffer_sequence s) \<le> 32"
    using assms by (auto simp: sender_inv_def MAX_BUFFER_SEQUENCE_SIZE_def)
  consider (room) "write_pos s < int (length (send_buffer_sequence s))"
    | (grow) "write_pos s = int (length (send_buffer_sequence s))" "length (send_buffer_sequence s) < 32"
    | (full) "write_pos s = 32" "length (send_buffer_sequence s) = 32"
    using w by linarith
  then show ?thesis
  proof cases
    case room
    then show ?thesis
      using assms w by (intro slot [of "nat (write_pos s)" "send_buffer_sequence s"])
        (auto simp: alloc_available_buffer_def sender_inv_def)
  next
    case grow
    then show ?thesis
      using assms by (intro slot [of "nat (write_pos s)" "send_buffer_sequence s @ [new_buffer MAX_BUFFER_SIZE]"])
        (auto simp: alloc_available_buffer_def MAX_BUFFER_SEQUENCE_SIZE_def sender_inv_def new_buffer_def MAX_BUFFER_SIZE_def)
  next
    case full
    then show ?thesis
      by (intro that(1)) (simp_all add: alloc_available_buffer_def MAX_BUFFER_SEQUENCE_SIZE_def)
  qed
qed

text \<open>A filled buffer put in the slot that was allocated.\<close>

lemma posted:
  assumes inv: "sender_inv s" and slot: "int i = write_pos s" "i < length bs" "length bs \<le> 32" "take i bs = take i (send_buffer_sequence s)"
      "\<forall>b \<in> set bs. 8 \<le> length (stream_buffer b)"
    and b: "stream_ok b" "stream_bytes b = m" "8 \<le> length (stream_buffer b)"
  shows "\<exists>s'. start_sending b (put_buffer i b (s\<lparr>send_buffer_sequence := bs, write_pos := write_pos s + 1\<rparr>)) = Inr s' \<and>
    sender_inv s' \<and> sender_mail s' = mail_post m (sender_mail s)"
proof -
  let ?t = "put_buffer i b (s\<lparr>send_buffer_sequence := bs, write_pos := write_pos s + 1\<rparr>)"
  have i: "nat (write_pos s) = i" "i < 32" using slot by linarith+
  have all: "\<forall>b \<in> set (bs[i := b]). 8 \<le> length (stream_buffer b)"
    using slot(5) b(3) by (auto dest!: set_update_subset_insert [THEN subsetD])
  have used: "take (Suc i) (bs[i := b]) = take i (send_buffer_sequence s) @ [b]"
    using slot(2,4) by (simp add: take_Suc_conv_app_nth)
  consider (idle) "read_pos s = -1" "write_pos s = 0" "i = 0" | (busy) "0 \<le> read_pos s" "read_pos s < write_pos s" "nat (read_pos s) \<le> i"
    using inv slot(1) by (auto simp: sender_inv_def)
  then show ?thesis
  proof cases
    case idle
    let ?u = "?t\<lparr>read_pos := 0, wire := wire s @ [m], is_data_sending := True\<rparr>"
    have "start_sending b ?t = Inr ?u"
      using idle b by (simp add: start_sending_def async_write_def put_buffer_def stream_ok_def stream_bytes_def)
    moreover have "in_use ?u = [b]" using used idle by (simp add: in_use_def put_buffer_def)
    ultimately show ?thesis
      using idle b all slot(2,3) inv
      by (auto simp: sender_inv_def sender_mail_def mail_post_def put_buffer_def MAX_BUFFER_SEQUENCE_SIZE_def
          Suc_le_eq intro!: exI [of _ ?u])
  next
    case busy
    have "take (nat (write_pos ?t)) (send_buffer_sequence ?t) = take i (send_buffer_sequence s) @ [b]"
      using used slot(1) by (simp add: put_buffer_def nat_add_distrib flip: slot(1))
    then have use: "in_use ?t = in_use s @ [b]"
      using busy i slot inv by (auto simp: in_use_def put_buffer_def sender_inv_def)
    have some: "in_use s \<noteq> []" using busy inv by (auto simp: in_use_def sender_inv_def)
    have "start_sending b ?t = Inr ?t" using busy by (simp add: start_sending_def put_buffer_def)
    moreover have "sender_inv ?t"
      using busy b(1) all slot(1-3) inv use by (auto simp: sender_inv_def put_buffer_def MAX_BUFFER_SEQUENCE_SIZE_def)
    moreover have "sender_mail ?t = mail_post m (sender_mail s)"
      using busy b(2) i use some by (simp add: sender_mail_def mail_post_def put_buffer_def flip: slot(1))
    ultimately show ?thesis by blast
  qed
qed

lemma mail_full: "write_pos s = 32 \<Longrightarrow> mail_post m (sender_mail s) = sender_mail s"
  by (simp add: mail_post_def sender_mail_def)

lemma raw_refines:
  assumes inv: "sender_inv s" and t: "t \<noteq> []"
  shows "\<exists>s'. client_write t s = Some (Inr s') \<and> sender_inv s' \<and> sender_mail s' = mail_post t (sender_mail s)"
proof (cases rule: alloc_cases [OF inv])
  case 1
  then show ?thesis using inv by (simp add: client_write_def mail_full)
next
  case (2 i bs)
  have "8 \<le> length (stream_buffer (bs ! i))" using 2 by simp
  moreover from this have "0 < length (stream_buffer (bs ! i))" by linarith
  ultimately obtain b where b: "fill_loop (stream_write t) (bs ! i) = Some (int (length t), b)"
    "take (length t) (stream_buffer b) = t" "stream_size b = int (length t)" "pos_start b = 0"
    "length t < length (stream_buffer b)" "length (stream_buffer (bs ! i)) \<le> length (stream_buffer b)"
    using fill_raw [OF t, of "bs ! i"] by blast
  have size: "8 \<le> length (stream_buffer b)" using \<open>8 \<le> length (stream_buffer (bs ! i))\<close> b(6) by linarith
  have "stream_ok b" "stream_bytes b = t" using b by (simp_all add: stream_ok_def stream_bytes_def)
  from posted [OF inv 2(2-6) this size] show ?thesis
    using b(1) 2(1) by (simp add: client_write_def Let_def)
qed

text \<open>A short frame in a buffer, with its first byte filled in.\<close>

lemma frame_buffer:
  assumes "length t < 126" "8 \<le> length (stream_buffer c)"
  obtains b where "fill_loop (stream_write_frame t) c = Some (int (length t) + 2, b)"
    "stream_ok (b\<lparr>stream_buffer := (stream_buffer b)[pos_start b := char_of (128 * of_bool f + op)]\<rparr>)"
    "stream_bytes (b\<lparr>stream_buffer := (stream_buffer b)[pos_start b := char_of (128 * of_bool f + op)]\<rparr>) = message_bytes (Framed f op t)"
    "8 \<le> length (stream_buffer b)"
proof -
  obtain b where b: "fill_loop (stream_write_frame t) c = Some (int (length t) + 2, b)"
    "take (length t + 1) (drop 3 (stream_buffer b)) = char_of (length t) # t"
    "stream_size b = int (length t) + 2" "pos_start b = 2" "length t + 4 < length (stream_buffer b)"
    "length (stream_buffer c) \<le> length (stream_buffer b)"
    by (rule fill_frame [OF assms])
  let ?h = "char_of (128 * of_bool f + op) :: char"
  let ?b = "b\<lparr>stream_buffer := (stream_buffer b)[pos_start b := ?h]\<rparr>"
  have "drop 2 ((stream_buffer b)[2 := ?h]) = ?h # drop 3 (stream_buffer b)"
    using Cons_nth_drop_Suc [of 2 "(stream_buffer b)[2 := ?h]"] b(5) by simp
  then have "stream_ok ?b" "stream_bytes ?b = message_bytes (Framed f op t)"
    using b(2-5) by (simp_all add: stream_ok_def stream_bytes_def message_bytes_def nat_add_distrib)
  then show ?thesis using that [OF b(1)] b(6) assms(2) by simp
qed

lemma frame_refines:
  assumes inv: "sender_inv s" and t: "length t < 126"
  shows "\<exists>s'. client_write_frame f op t s = Some (Inr s') \<and> sender_inv s' \<and>
    sender_mail s' = mail_post (message_bytes (Framed f op t)) (sender_mail s)"
proof (cases rule: alloc_cases [OF inv])
  case 1
  then show ?thesis using inv by (simp add: client_write_frame_def mail_full)
next
  case (2 i bs)
  have "8 \<le> length (stream_buffer (bs ! i))" using 2 by simp
  from frame_buffer [OF t this, of f op] obtain b where b: "fill_loop (stream_write_frame t) (bs ! i) = Some (int (length t) + 2, b)"
    "stream_ok (b\<lparr>stream_buffer := (stream_buffer b)[pos_start b := char_of (128 * of_bool f + op)]\<rparr>)"
    "stream_bytes (b\<lparr>stream_buffer := (stream_buffer b)[pos_start b := char_of (128 * of_bool f + op)]\<rparr>) = message_bytes (Framed f op t)"
    "8 \<le> length (stream_buffer b)" by blast
  from posted [OF inv 2(2-6) b(2,3)] b(4) show ?thesis
    using b(1) 2(1) by (simp add: client_write_frame_def Let_def)
qed

lemma finish_mail:
  assumes inv: "sender_inv s"
  shows "\<exists>s'. send_handle e s = Inr s' \<and> sender_inv s' \<and> sender_mail s' = mail_finish e (sender_mail s)"
proof (cases "e \<or> read_pos s + 1 \<ge> write_pos s")
  case True
  have "length (in_use s) \<le> 1 \<or> e" using True inv by (auto simp: in_use_def sender_inv_def)
  then have "tl (pending (sender_mail s)) = [] \<or> e"
    by (cases "in_use s") (auto simp: sender_mail_def)
  then show ?thesis
    using True inv by (auto simp: send_handle_def sender_inv_def sender_mail_def mail_finish_def)
next
  case False
  let ?b = "send_buffer_sequence s ! nat (read_pos s + 1)"
  let ?s = "s\<lparr>read_pos := read_pos s + 1, wire := wire s @ [stream_bytes ?b]\<rparr>"
  have pos: "0 \<le> read_pos s" "write_pos s \<le> int (length (send_buffer_sequence s))" "read_pos s + 1 < write_pos s"
    using False inv by (auto simp: sender_inv_def)
  let ?r = "nat (read_pos s)"
  have lt: "Suc ?r < nat (write_pos s)" "nat (write_pos s) \<le> length (send_buffer_sequence s)" "nat (read_pos s + 1) = Suc ?r"
    using pos by linarith+
  have use: "in_use s = send_buffer_sequence s ! ?r # in_use ?s" "in_use ?s = ?b # drop (Suc (Suc ?r)) (take (nat (write_pos s)) (send_buffer_sequence s))"
    using lt pos Cons_nth_drop_Suc [of ?r "take (nat (write_pos s)) (send_buffer_sequence s)"]
      Cons_nth_drop_Suc [of "Suc ?r" "take (nat (write_pos s)) (send_buffer_sequence s)"]
    by (simp_all add: in_use_def)
  have ok: "stream_ok ?b" "\<forall>b \<in> set (in_use ?s). stream_ok b" using inv pos use by (auto simp: sender_inv_def)
  then have "send_handle e s = Inr ?s"
    using False lt by (simp add: send_handle_def async_write_def stream_ok_def stream_bytes_def)
  moreover have "sender_inv ?s" using inv pos ok(2) by (auto simp: sender_inv_def)
  moreover have "sender_mail ?s = mail_finish e (sender_mail s)"
    using False pos use by (simp add: sender_mail_def mail_finish_def)
  ultimately show ?thesis by blast
qed

interpretation sender_queue: sends_mail sender_inv sender_mail message_ok message_bytes post_message send_handle
proof
  fix s m assume s: "sender_inv s" "message_ok m"
  show "\<exists>s'. post_message m s = Some (Inr s') \<and> sender_inv s' \<and> sender_mail s' = mail_post (message_bytes m) (sender_mail s)"
  proof (cases m)
    case (Raw t)
    then show ?thesis using raw_refines [OF s(1), of t] s(2) by (simp add: message_ok_def post_message_def message_bytes_def)
  next
    case (Framed f op t)
    then show ?thesis using frame_refines [OF s(1), of t f op] s(2) by (simp add: message_ok_def post_message_def)
  qed
next
  fix s e assume "sender_inv s"
  then show "\<exists>s'. send_handle e s = Inr s' \<and> sender_inv s' \<and> sender_mail s' = mail_finish e (sender_mail s)"
    by (rule finish_mail)
qed

section \<open>Properties\<close>

lemma new_sender_inv: "sender_inv new_sender" "sender_mail new_sender = \<lparr>accepted = 0, pending = [], outgoing = []\<rparr>"
  by (auto simp: sender_inv_def sender_mail_def new_sender_def new_buffer_def MAX_BUFFER_SIZE_def MAX_BUFFER_SEQUENCE_SIZE_def)

text \<open>
  C30. The sending half refines a queue of messages: for texts that are not empty and frames under 126 bytes every
  write and every completion returns without a fault, and buffers and positions stay an image of the
  queue, with at most 32 messages accepted between two moments at which it is empty.
\<close>
theorem sending_refines_queue:
  assumes "list_all (event_ok message_ok) es"
  shows "\<exists>s'. send_run post_message send_handle es new_sender = Some (Inr s') \<and> sender_inv s' \<and>
    sender_mail s' = mail_run message_bytes es \<lparr>accepted = 0, pending = [], outgoing = []\<rparr>"
  using sender_queue.run_refines [OF new_sender_inv(1) assms] new_sender_inv(2) by simp

lemma sending_refines_queue_witness:
  "\<exists>s'. send_run post_message send_handle [Post (Framed True 1 ''NTF 1''), Post (Raw ''x''), Finish False] new_sender = Some (Inr s') \<and>
    outgoing (sender_mail s') = [CHR 0x81 # CHR 0x05 # ''NTF 1'', ''x'']"
proof -
  have "mail_run message_bytes [Post (Framed True 1 ''NTF 1''), Post (Raw ''x''), Finish False] \<lparr>accepted = 0, pending = [], outgoing = []\<rparr>
      = \<lparr>accepted = 2, pending = [''x''], outgoing = [CHR 0x81 # CHR 0x05 # ''NTF 1'', ''x'']\<rparr>" by code_simp
  then show ?thesis
    using sending_refines_queue [of "[Post (Framed True 1 ''NTF 1''), Post (Raw ''x''), Finish False]"]
    by (auto simp: event_ok_def message_ok_def)
qed

text \<open>The messages posted in a run.\<close>

fun posts :: "('m \<Rightarrow> string) \<Rightarrow> 'm send_event list \<Rightarrow> string list" where
  "posts bytes [] = []"
| "posts bytes (Post m # es) = bytes m # posts bytes es"
| "posts bytes (Finish e # es) = posts bytes es"

lemma mail_order:
  assumes "accepted q + length (posts bytes es) \<le> 32" "Finish True \<notin> set es"
  shows "outgoing (mail_run bytes es q) @ tl (pending (mail_run bytes es q)) = outgoing q @ tl (pending q) @ posts bytes es"
  using assms
proof (induction es arbitrary: q rule: posts.induct)
  case (2 bytes m es)
  then show ?case by (cases "pending q") (simp_all add: mail_post_def)
next
  case (3 bytes e es)
  have "outgoing (mail_finish e q) @ tl (pending (mail_finish e q)) = outgoing q @ tl (pending q)"
    using 3(3) by (cases "tl (pending q)") (auto simp: mail_finish_def)
  moreover have "accepted (mail_finish e q) \<le> accepted q" by (simp add: mail_finish_def)
  ultimately show ?case using 3 by simp
qed simp

text \<open>
  No message is lost, doubled or overtaken: with at most 32 messages and no error of the network, what was handed to
  the socket, followed by what still waits, is what was written, in order.
\<close>
lemma sent_in_order:
  assumes "list_all (event_ok message_ok) es" "Finish True \<notin> set es" "length (posts message_bytes es) \<le> 32"
  shows "\<exists>s'. send_run post_message send_handle es new_sender = Some (Inr s') \<and>
    wire s' @ tl (pending (sender_mail s')) = posts message_bytes es"
proof -
  obtain s' where s': "send_run post_message send_handle es new_sender = Some (Inr s')"
    "sender_mail s' = mail_run message_bytes es \<lparr>accepted = 0, pending = [], outgoing = []\<rparr>"
    using sender_queue.run_refines [OF new_sender_inv(1) assms(1)] new_sender_inv(2) by auto
  moreover have "wire s' = outgoing (sender_mail s')" by (simp add: sender_mail_def)
  ultimately show ?thesis
    using mail_order [of "\<lparr>accepted = 0, pending = [], outgoing = []\<rparr>" message_bytes es] assms(2,3) by simp
qed

lemma sent_in_order_witness:
  "\<exists>s'. send_run post_message send_handle [Post (Raw ''a''), Post (Raw ''b''), Post (Raw ''c''), Finish False] new_sender = Some (Inr s') \<and>
    wire s' @ tl (pending (sender_mail s')) = [''a'', ''b'', ''c'']"
  using sent_in_order [of "[Post (Raw ''a''), Post (Raw ''b''), Post (Raw ''c''), Finish False]"]
  by (simp add: event_ok_def message_ok_def message_bytes_def)

text \<open>
  C31. When writing returns: a frame always; a text unless it is empty, which is taken for a text that does not fit, so that
  the buffer is doubled for ever.
\<close>
theorem when_writing_returns:
  assumes "sender_inv s"
  shows "((\<exists>r. client_write t s = Some r) \<longleftrightarrow> t \<noteq> [] \<or> write_pos s = 32) \<and> (\<exists>r. client_write_frame f op u s = Some r)"
proof (cases rule: alloc_cases [OF assms])
  case 1
  then show ?thesis by (simp add: client_write_def client_write_frame_def)
next
  case (2 i bs)
  have big: "8 \<le> length (stream_buffer (bs ! i))" using 2 by simp
  then have pos: "0 < length (stream_buffer (bs ! i))" by linarith
  have "\<exists>n b. fill_loop (stream_write_frame u) (bs ! i) = Some (n, b)"
  proof -
    consider "length u < 126" | "126 \<le> length u" "length u < 65536" | "65536 \<le> length u" by linarith
    then show ?thesis
      by cases (meson fill_frame [OF _ big] fill_long [OF _ _ big] fill_huge [OF _ big])+
  qed
  moreover have "(\<exists>n b. fill_loop (stream_write t) (bs ! i) = Some (n, b)) \<longleftrightarrow> t \<noteq> []"
    using fill_empty [of "bs ! i"] fill_raw [OF _ pos, of t] by fastforce
  moreover have "write_pos s \<noteq> 32" using 2(2-4) by linarith
  ultimately show ?thesis using 2(1) by (auto simp: client_write_def client_write_frame_def)
qed

lemma when_writing_returns_witness:
  "client_write [] new_sender = None \<and> (\<exists>r. client_write ''x'' new_sender = Some r)"
proof -
  have "write_pos new_sender \<noteq> 32" by (simp add: new_sender_def)
  then show ?thesis
    using when_writing_returns [OF new_sender_inv(1), of "[]" True 1 "[]"] when_writing_returns [OF new_sender_inv(1), of "''x''" True 1 "[]"]
    by (cases "client_write [] new_sender") auto
qed

lemma new_sender_slots: "send_buffer_sequence new_sender ! 0 = new_buffer 128" "send_buffer_sequence new_sender ! 1 = new_buffer 128"
  "alloc_available_buffer new_sender = (Some 0, new_sender\<lparr>write_pos := 1\<rparr>)"
  by (simp_all add: new_sender_def MAX_BUFFER_SIZE_def alloc_available_buffer_def)

text \<open>A frame of 126 to 255 bytes leaves a size that its buffer does not have: its length is stored with its two bytes swapped.\<close>

lemma long_frame_buffer:
  assumes "126 \<le> length t" "length t < 256" "8 \<le> length (stream_buffer c)" "length (stream_buffer c) < 32000"
  obtains b where "fill_loop (stream_write_frame t) c = Some (int (htons (length t)) + 4, b)"
    "\<not> stream_ok (b\<lparr>stream_buffer := (stream_buffer b)[pos_start b := h]\<rparr>)"
proof -
  have short: "length t < 65536" using assms(2) by simp
  obtain b where b: "fill_loop (stream_write_frame t) c = Some (int (htons (length t)) + 4, b)"
    "stream_size b = int (htons (length t)) + 4" "pos_start b = 0"
    "length (stream_buffer b) = length (stream_buffer c) \<or> length (stream_buffer b) \<le> 2 * (length t + 4)"
    by (rule fill_long [OF assms(1) short assms(3)])
  have "length (stream_buffer b) < htons (length t)" using b(4) assms by (auto simp: htons_def)
  then show thesis using that [OF b(1)] b(2,3) by (simp add: stream_ok_def)
qed

text \<open>A buffer that is too short waits in slot \<open>j\<close>.\<close>

definition short_at :: "nat \<Rightarrow> sender \<Rightarrow> bool" where
  "short_at j s \<longleftrightarrow> 0 \<le> read_pos s \<and> read_pos s < int j \<and> int j < write_pos s \<and> j < length (send_buffer_sequence s) \<and>
     (\<forall>k < j. nat (read_pos s) < k \<longrightarrow> stream_ok (send_buffer_sequence s ! k)) \<and> \<not> stream_ok (send_buffer_sequence s ! j)"

lemma short_buffer_overread:
  assumes "short_at j s" "j - nat (read_pos s) = k"
  shows "send_run post_message send_handle (replicate k (Finish False)) s = Some (Inl Out_of_bounds)"
  using assms
proof (induction k arbitrary: s)
  case 0
  then show ?case by (auto simp: short_at_def)
next
  case (Suc k)
  let ?s = "s\<lparr>read_pos := read_pos s + 1\<rparr>" and ?r = "nat (read_pos s + 1)"
  have r: "read_pos s + 1 < write_pos s" "?r < length (send_buffer_sequence s)" "?r \<le> j" using Suc.prems(1) by (auto simp: short_at_def)
  have handle: "send_handle False s = async_write (send_buffer_sequence s ! ?r) ?s"
    using r(1,2) by (simp add: send_handle_def)
  show ?case
  proof (cases "?r = j")
    case True
    then have "\<not> stream_ok (send_buffer_sequence s ! ?r)" using Suc.prems(1) by (simp add: short_at_def)
    then have "send_handle False s = Inl Out_of_bounds" by (simp add: handle async_write_def stream_ok_def)
    then show ?thesis by simp
  next
    case False
    then have "stream_ok (send_buffer_sequence s ! ?r)" using Suc.prems(1) r(3) by (simp add: short_at_def)
    then obtain bytes where run: "send_handle False s = Inr (?s\<lparr>wire := bytes\<rparr>)" by (simp add: handle async_write_def stream_ok_def)
    have "short_at j (?s\<lparr>wire := bytes\<rparr>)" using Suc.prems(1) r(3) False by (auto simp: short_at_def)
    moreover have "j - nat (read_pos (?s\<lparr>wire := bytes\<rparr>)) = k" using Suc.prems by (auto simp: short_at_def)
    ultimately show ?thesis using Suc.IH run by simp
  qed
qed

text \<open>
  C32. A frame of 126 to 255 bytes, given to any sender with room in its queue whose buffers no earlier message has made longer than 32000 bytes,
  is sent with a length whose bytes are swapped, and so past the end of its buffer: at once when nothing is on the wire,
  and otherwise when the messages before it have been sent.
\<close>
theorem long_frame_overreads:
  assumes "126 \<le> length t" "length t < 256" "sender_inv s" "write_pos s < int MAX_BUFFER_SEQUENCE_SIZE"
    and "\<forall>b \<in> set (send_buffer_sequence s). length (stream_buffer b) < 32000"
  shows "send_run post_message send_handle (Post (Framed f op t) # replicate (length (pending (sender_mail s))) (Finish False)) s =
    Some (Inl Out_of_bounds)"
proof (cases rule: alloc_cases [OF assms(3)])
  case 1
  then show ?thesis using assms(4) by (simp add: MAX_BUFFER_SEQUENCE_SIZE_def)
next
  case (2 i bs)
  let ?t = "s\<lparr>send_buffer_sequence := bs, write_pos := write_pos s + 1\<rparr>"
  have "bs ! i \<in> set bs" using 2(3) by simp
  then have "bs ! i \<in> insert (new_buffer MAX_BUFFER_SIZE) (set (send_buffer_sequence s))" using 2(7) by blast
  then have small: "length (stream_buffer (bs ! i)) < 32000" using assms(5) by (auto simp: new_buffer_def MAX_BUFFER_SIZE_def)
  let ?h = "char_of (128 * of_bool f + op) :: char"
  have room: "8 \<le> length (stream_buffer (bs ! i))" using 2(3,6) by simp
  obtain b where b: "fill_loop (stream_write_frame t) (bs ! i) = Some (int (htons (length t)) + 4, b)"
    "\<not> stream_ok (b\<lparr>stream_buffer := (stream_buffer b)[pos_start b := ?h]\<rparr>)"
    by (rule long_frame_buffer [OF assms(1,2) room small])
  define d where "d = b\<lparr>stream_buffer := (stream_buffer b)[pos_start b := ?h]\<rparr>"
  have post: "client_write_frame f op t s = Some (start_sending d (put_buffer i d ?t))"
    using b(1) 2(1) by (simp add: client_write_frame_def Let_def d_def put_buffer_def)
  consider (idle) "read_pos s = -1" "write_pos s = 0" | (busy) "0 \<le> read_pos s" "read_pos s < write_pos s"
    using assms(3) by (auto simp: sender_inv_def)
  then show ?thesis
  proof cases
    case idle
    then have "start_sending d (put_buffer i d ?t) = Inl Out_of_bounds"
      using b(2) by (simp add: start_sending_def async_write_def put_buffer_def stream_ok_def flip: d_def)
    then show ?thesis using post by (simp add: post_message_def)
  next
    case busy
    let ?u = "put_buffer i d ?t"
    have sent: "start_sending d ?u = Inr ?u" using busy by (simp add: start_sending_def put_buffer_def)
    have len: "length (in_use s) = i - nat (read_pos s)"
      using assms(3) 2(2) busy by (auto simp: in_use_def sender_inv_def min_def)
    have ok: "stream_ok (bs ! k)" if "nat (read_pos s) < k" "k < i" for k
    proof -
      have "bs ! k = send_buffer_sequence s ! k" using 2(5) that(2) by (metis nth_take)
      also have "\<dots> = in_use s ! (k - nat (read_pos s))"
        using assms(3) 2(2) busy that by (auto simp: in_use_def sender_inv_def)
      finally have "bs ! k \<in> set (in_use s)" using that len by simp
      then show ?thesis using assms(3) busy by (auto simp: sender_inv_def)
    qed
    have "short_at i ?u"
      using busy 2(2,3) ok b(2) by (auto simp: short_at_def put_buffer_def simp flip: d_def)
    moreover have "i - nat (read_pos ?u) = length (pending (sender_mail s))"
      using busy len by (simp add: sender_mail_def put_buffer_def)
    ultimately have "send_run post_message send_handle (replicate (length (pending (sender_mail s))) (Finish False)) ?u = Some (Inl Out_of_bounds)"
      by (rule short_buffer_overread)
    then show ?thesis using post sent by (simp add: post_message_def)
  qed
qed

text \<open>A message goes out first, as the answer to the handshake does.\<close>

lemma long_frame_overreads_witness:
  "send_run post_message send_handle [Post (Raw ''HTTP/1.1 101''), Post (Framed True 1 (replicate 200 CHR ''x'')), Finish False] new_sender =
     Some (Inl Out_of_bounds)"
proof -
  let ?t = "''HTTP/1.1 101''"
  define b where "b = snd (stream_write ?t (new_buffer 128))"
  have b: "stream_write ?t (new_buffer 128) = (12, b)" "length (stream_buffer b) = 128" "stream_size b = 12" "pos_start b = 0"
    by (simp_all add: b_def stream_write_def Let_def new_buffer_def vsnprintf_def)
  let ?s = "new_sender\<lparr>write_pos := 1, read_pos := 0, is_data_sending := True, wire := [take 12 (stream_buffer b)],
    send_buffer_sequence := (send_buffer_sequence new_sender)[0 := b]\<rparr>"
  have "wire new_sender = []" "read_pos new_sender = -1" by (simp_all add: new_sender_def)
  then have first: "client_write ?t new_sender = Some (Inr ?s)"
    using fill_done [of "stream_write ?t" "new_buffer 128", OF b(1)] b
    by (simp add: client_write_def new_sender_slots put_buffer_def start_sending_def async_write_def)
  obtain s' where "client_write ?t new_sender = Some (Inr s')" "sender_inv s'" "sender_mail s' = mail_post ?t (sender_mail new_sender)"
    using raw_refines [OF new_sender_inv(1), of ?t] by auto
  with first have s: "sender_inv ?s" "length (pending (sender_mail ?s)) = 1"
    by (simp_all add: new_sender_inv(2) mail_post_def)
  have "\<forall>c \<in> set (send_buffer_sequence ?s). length (stream_buffer c) < 32000"
    using b(2) by (auto simp: new_sender_def new_buffer_def MAX_BUFFER_SIZE_def dest!: set_update_subset_insert [THEN subsetD])
  from long_frame_overreads [OF _ _ s(1) _ this, of "replicate 200 CHR ''x''" True 1] s(2)
  have "send_run post_message send_handle [Post (Framed True 1 (replicate 200 CHR ''x'')), Finish False] ?s = Some (Inl Out_of_bounds)"
    by (simp add: MAX_BUFFER_SEQUENCE_SIZE_def)
  then show ?thesis using first by (simp add: post_message_def)
qed

text \<open>
  A frame of more than 65535 bytes is refused, but its slot of the queue stays taken: the next frame is sent twice.
\<close>
theorem refused_frame_doubles_the_next:
  assumes "65536 \<le> length t" "length u < 126"
  shows "\<exists>s'. send_run post_message send_handle [Post (Framed f op t), Post (Framed g oq u), Finish False] new_sender = Some (Inr s') \<and>
    wire s' = [message_bytes (Framed g oq u), message_bytes (Framed g oq u)]"
proof -
  let ?m = "message_bytes (Framed g oq u)" and ?bs = "send_buffer_sequence new_sender"
  have big: "8 \<le> length (stream_buffer (new_buffer 128))" by (simp add: new_buffer_def)
  obtain b where b: "fill_loop (stream_write_frame t) (new_buffer 128) = Some (-1, b)" by (rule fill_huge [OF assms(1) big])
  let ?s1 = "new_sender\<lparr>write_pos := 1, send_buffer_sequence := ?bs[0 := b]\<rparr>"
  have one: "client_write_frame f op t new_sender = Some (Inr ?s1)"
    using b by (simp add: client_write_frame_def new_sender_slots put_buffer_def)
  obtain c where c: "fill_loop (stream_write_frame u) (new_buffer 128) = Some (int (length u) + 2, c)"
    "stream_ok (c\<lparr>stream_buffer := (stream_buffer c)[pos_start c := char_of (128 * of_bool g + oq)]\<rparr>)"
    "stream_bytes (c\<lparr>stream_buffer := (stream_buffer c)[pos_start c := char_of (128 * of_bool g + oq)]\<rparr>) = ?m"
    by (rule frame_buffer [OF assms(2) big])
  define d where "d = c\<lparr>stream_buffer := (stream_buffer c)[pos_start c := char_of (128 * of_bool g + oq)]\<rparr>"
  have d: "async_write d s = Inr (s\<lparr>wire := wire s @ [?m]\<rparr>)" for s
    using c(2,3) by (simp add: async_write_def stream_ok_def stream_bytes_def flip: d_def)
  let ?s2 = "new_sender\<lparr>write_pos := 2, send_buffer_sequence := ?bs[0 := b, 1 := d], read_pos := 0, wire := [?m], is_data_sending := True\<rparr>"
  have "alloc_available_buffer ?s1 = (Some 1, ?s1\<lparr>write_pos := 2\<rparr>)"
    by (simp add: alloc_available_buffer_def new_sender_def)
  moreover have "start_sending d (put_buffer 1 d (?s1\<lparr>write_pos := 2\<rparr>)) = Inr ?s2"
    by (simp add: start_sending_def d put_buffer_def) (simp add: new_sender_def)
  moreover have "?bs ! Suc 0 = new_buffer 128" using new_sender_slots(2) by simp
  ultimately have two: "client_write_frame g oq u ?s1 = Some (Inr ?s2)"
    unfolding client_write_frame_def
    by (simp add: c(1) Let_def d_def [symmetric] del: of_bool_eq_iff split del: if_split)
  have "length ?bs = 8" by (simp add: new_sender_def)
  then have "send_handle False ?s2 = Inr (?s2\<lparr>read_pos := 1, wire := [?m, ?m]\<rparr>)"
    by (simp add: send_handle_def d)
  then show ?thesis using one two by (simp add: post_message_def)
qed

lemma refused_frame_doubles_the_next_witness:
  "\<exists>s'. send_run post_message send_handle [Post (Framed True 1 (replicate 65536 CHR ''x'')), Post (Framed True 1 ''y''), Finish False] new_sender = Some (Inr s') \<and>
    wire s' = [message_bytes (Framed True 1 ''y''), message_bytes (Framed True 1 ''y'')]"
  by (rule refused_frame_doubles_the_next) simp_all

end
