(* ===== verification/Handshake.thy ===== *)
theory Handshake
  imports HttpGrammar AcceptSpec SendRefine
begin

text \<open>
  The opening of a connection (\<^verbatim>\<open>ws_handshake_read_handle\<close> and \<^verbatim>\<open>confirm_ws_handshake_and_response\<close> in
  \<^verbatim>\<open>src/src/net/ws_client.cpp\<close>): the request is parsed as it arrives, and answered with the
  key it asks for. The handler that a subclass may put in front of the answer is a parameter.
\<close>

section \<open>The answer\<close>

definition ascii_lower :: "char \<Rightarrow> char" where
  "ascii_lower c = (if 65 \<le> cchar c \<and> cchar c \<le> 90 then char_of (of_char c + 32 :: nat) else c)"

definition stricmp_eq :: "string \<Rightarrow> string \<Rightarrow> bool" where
  "stricmp_eq a b \<longleftrightarrow> map ascii_lower (c_str a 0) = map ascii_lower (c_str b 0)"

definition is_key_header :: "header \<Rightarrow> bool" where
  "is_key_header h \<longleftrightarrow> stricmp_eq (header_name h) ''Sec-WebSocket-Key''"

text \<open>
  One header: what is known of the key, \<^verbatim>\<open>Upgrade\<close> and \<^verbatim>\<open>Connection\<close>; \<^verbatim>\<open>key1\<close> and \<^verbatim>\<open>key2\<close> are
  never set, so the only jump is the one with a key.
\<close>

definition confirm_step :: "header \<Rightarrow> string option \<times> bool \<times> bool \<Rightarrow> (string, string option \<times> bool \<times> bool) flow" where
  "confirm_step h = (\<lambda>(key, upgrade_header, connect_header).
     let key = (if is_key_header h then Some (header_value h) else key);
         upgrade_header = (upgrade_header \<or> stricmp_eq (header_name h) ''Upgrade'' \<and> stricmp_eq (header_value h) ''websocket'');
         connect_header = (connect_header \<or> stricmp_eq (header_name h) ''Connection'' \<and> stricmp_eq (header_value h) ''Upgrade'')
     in case key of
          Some k \<Rightarrow> if connect_header \<and> upgrade_header then Ret k else Next (key, upgrade_header, connect_header)
        | None \<Rightarrow> Next (key, upgrade_header, connect_header))"

definition confirm_key :: "header list \<Rightarrow> string option" where
  "confirm_key hs =
     (case for_loop confirm_step hs (None, False, False) of Ret k \<Rightarrow> Some k | Next (key, _, _) \<Rightarrow> key)"

definition switching_protocols :: "string \<Rightarrow> string" where
  "switching_protocols accept_key =
     ''HTTP/1.1 101 Switching Protocols'' @ [CR, LF] @ ''Upgrade: websocket'' @ [CR, LF] @ ''Connection: Upgrade'' @ [CR, LF] @
     ''Sec-WebSocket-Accept: '' @ accept_key @ [CR, LF, CR, LF]"

text \<open>
  Both ends of the loop run into \<^verbatim>\<open>_label_mode_1\<close>. A key that was not found is a null pointer;
  \<^verbatim>\<open>key_data\<close> has 128 bytes for the key, 36 characters and the terminator, and \<^verbatim>\<open>generate\<close> reads
  24 characters of the key.
\<close>

definition confirm_handshake :: "(ws_request \<Rightarrow> int) \<Rightarrow> ws_request \<Rightarrow> sender \<Rightarrow> (bool \<times> sender) result option" where
  "confirm_handshake on_ws_handshake req s =
     (let key = confirm_key (headers req) in
      if on_ws_handshake req \<noteq> 0 then Some (Inr (False, s))
      else case key of
          None \<Rightarrow> Some (Inl Null_pointer)
        | Some key \<Rightarrow>
            if length key + 37 > 128 then Some (Inl Out_of_bounds)
            else if length key + 1 < 24 then Some (Inl Out_of_bounds)
            else map_option (\<lambda>r. ebind r (\<lambda>s. Inr (True, s)))
                   (client_write (switching_protocols (generate (key @ [NUL]))) s))"

section \<open>Reading the request\<close>

datatype handshake = Reading | Discarding | Established | Refused

text \<open>
  A read of the handshake: with bytes still waiting in the socket after the request, the connection
  reads whole buffers until they are gone. A refused client is answered and dropped.
\<close>

definition handshake_read ::
    "(ws_request \<Rightarrow> int) \<Rightarrow> bool \<Rightarrow> string \<Rightarrow> nat \<Rightarrow> parser \<Rightarrow> sender \<Rightarrow> (handshake \<times> parser \<times> sender) result option" where
  "handshake_read on_ws_handshake error bytes bytes_to_read = (\<lambda>(st, req) s.
     if error then Some (Inr (Refused, (st, req), s))
     else let req = req\<lparr>content_size := content_size req + of_nat (length bytes)\<rparr> in
       case parse_request bytes (st, req) of
         Inl e \<Rightarrow> Some (Inl e)
       | Inr (ret, _, p) \<Rightarrow>
           (case ret of
              Parse_ok \<Rightarrow>
                if bytes_to_read > 0 then Some (Inr (Discarding, p, s))
                else map_option (\<lambda>r. ebind r (\<lambda>(ok, s). Inr (if ok then Established else Refused, p, s)))
                       (confirm_handshake on_ws_handshake (snd p) s)
            | Parse_indeterminate \<Rightarrow>
                Some (Inr (if content_size (snd p) \<le> 8 * 1024 then Reading else Refused, p, s))
            | Parse_error \<Rightarrow> Some (Inr (Refused, p, s))))"

fun handshake_reads :: "(ws_request \<Rightarrow> int) \<Rightarrow> string list \<Rightarrow> parser \<Rightarrow> sender \<Rightarrow> (handshake \<times> parser \<times> sender) result option" where
  "handshake_reads hook [] p s = Some (Inr (Reading, p, s))"
| "handshake_reads hook (bs # bss) p s =
     (case handshake_read hook False bs 0 p s of
        Some (Inr (Reading, p, s)) \<Rightarrow> handshake_reads hook bss p s
      | r \<Rightarrow> r)"

section \<open>The count of bytes does not matter to the parser\<close>

abbreviation sized :: "32 word \<Rightarrow> ws_request \<Rightarrow> ws_request" where
  "sized n req \<equiv> req\<lparr>content_size := n\<rparr>"

lemma consume_sized:
  "consume c (st, sized n req) = ebind (consume c (st, req)) (\<lambda>(ret, st, req). Inr (ret, st, sized n req))"
  by (cases st)
    (auto simp: push_method_def push_uri_def push_major_def push_minor_def push_name_def push_value_def on_back_def ebind_assoc
      intro!: ebind_cong)

lemma parse_sized:
  "parse_request s (st, sized n req) = ebind (parse_request s (st, req)) (\<lambda>(ret, rest, st, req). Inr (ret, rest, st, sized n req))"
proof (induction s arbitrary: st req)
  case (Cons c s)
  show ?case
    unfolding parse_request.simps consume_sized
    by (cases "consume c (st, req)") (auto simp: Cons)
qed simp

lemma content_size_kept: "parse_request s (st, req) = Inr (ret, rest, st', req') \<Longrightarrow> content_size req' = content_size req"
proof -
  assume "parse_request s (st, req) = Inr (ret, rest, st', req')"
  with parse_sized [of s st "content_size req" req] have "req' = sized (content_size req) req'" by simp
  then have "content_size req' = content_size (sized (content_size req) req')" by (rule arg_cong)
  then show ?thesis by simp
qed

section \<open>Confirming\<close>

lemma confirm_step_eq:
  "confirm_step h (key, upgrade_header, connect_header) =
     (let key = (if is_key_header h then Some (header_value h) else key);
          up = (upgrade_header \<or> stricmp_eq (header_name h) ''Upgrade'' \<and> stricmp_eq (header_value h) ''websocket'');
          co = (connect_header \<or> stricmp_eq (header_name h) ''Connection'' \<and> stricmp_eq (header_value h) ''Upgrade'')
      in if key \<noteq> None \<and> co \<and> up then Ret (the key) else Next (key, up, co))"
  by (cases key; cases "is_key_header h") (simp_all add: confirm_step_def Let_def)

lemma confirm_loop_key:
  "(case for_loop confirm_step hs (key, up, co) of Ret k \<Rightarrow> Some k | Next (key, _, _) \<Rightarrow> key) = key"
  if "\<forall>h \<in> set hs. \<not> is_key_header h"
  using that by (induction hs arbitrary: up co) (auto simp: confirm_step_eq Let_def split: option.splits)

lemma confirm_loop_unique:
  assumes "filter is_key_header hs = [h]"
  shows "(case for_loop confirm_step hs (None, up, co) of Ret k \<Rightarrow> Some k | Next (key, _, _) \<Rightarrow> key) = Some (header_value h)"
  using assms
proof (induction hs arbitrary: up co)
  case (Cons g hs)
  show ?case
  proof (cases "is_key_header g")
    case True
    then have "g = h" "\<forall>h \<in> set hs. \<not> is_key_header h" using Cons.prems by (auto simp: filter_empty_conv)
    with True show ?thesis by (auto simp: confirm_step_eq Let_def confirm_loop_key)
  next
    case False
    then show ?thesis using Cons by (simp add: confirm_step_eq Let_def)
  qed
qed simp

lemma confirm_key_cases:
  "filter is_key_header hs = [] \<Longrightarrow> confirm_key hs = None"
  "filter is_key_header hs = [h] \<Longrightarrow> confirm_key hs = Some (header_value h)"
  using confirm_loop_key [of hs] confirm_loop_unique [of hs h] by (auto simp: confirm_key_def filter_empty_conv)

lemma generate_reads_24: "24 \<le> length key \<Longrightarrow> generate key = generate (take 24 key)"
proof -
  assume "24 \<le> length key"
  then have "input_word key i = input_word (take 24 key) i" if "i < 6" for i
    using that by (simp add: input_word_def input_byte_def)
  then have "map (input_word key) [0..<6] = map (input_word (take 24 key)) [0..<6]" by simp
  then show ?thesis unfolding generate_def by (simp only:)
qed

definition accept_of :: "string \<Rightarrow> string" where
  "accept_of key = encode64 (sha1_bytes (bytes_of key @ bytes_of GUID))"

lemma new_sender_raw:
  assumes "t \<noteq> []"
  obtains s' where "client_write t new_sender = Some (Inr s')" "wire s' = [t]"
proof -
  obtain s' where s': "client_write t new_sender = Some (Inr s')" "sender_mail s' = mail_post t (sender_mail new_sender)"
    using raw_refines [OF new_sender_inv(1) assms] by blast
  have "outgoing (sender_mail s') = [t]" using s'(2) by (simp add: new_sender_inv(2) mail_post_def)
  then show ?thesis using that [OF s'(1)] by (simp add: sender_mail_def)
qed

lemma confirm_answers:
  assumes "on_ws_handshake req = 0" "filter is_key_header (headers req) = [h]" "length (header_value h) = 24"
  obtains s' where "confirm_handshake on_ws_handshake req new_sender = Some (Inr (True, s'))"
    "wire s' = [switching_protocols (accept_of (header_value h))]"
proof -
  have gen: "generate (header_value h @ [NUL]) = accept_of (header_value h)"
    using generate_reads_24 [of "header_value h @ [NUL]"] generate_standard [of "header_value h"] assms(3)
    by (simp add: accept_of_def)
  have "switching_protocols (accept_of (header_value h)) \<noteq> []" by (simp add: switching_protocols_def)
  from new_sender_raw [OF this] obtain s' where "client_write (switching_protocols (accept_of (header_value h))) new_sender = Some (Inr s')"
    "wire s' = [switching_protocols (accept_of (header_value h))]" by blast
  then show ?thesis
    using assms confirm_key_cases(2) [OF assms(2)]
    by (intro that [of s']) (simp_all add: confirm_handshake_def gen)
qed

section \<open>Reading in pieces\<close>

lemma handshake_reads_whole:
  assumes "parse_request (concat ss) (st, req) = Inr (Parse_ok, [], st', req')" "\<forall>s \<in> set ss. s \<noteq> []"
    and "unat (content_size req) + length (concat ss) \<le> 8192"
  shows "\<exists>n. handshake_reads hook ss (st, req) s =
    map_option (\<lambda>r. ebind r (\<lambda>(ok, s). Inr (if ok then Established else Refused, (st', sized n req'), s)))
      (confirm_handshake hook (sized n req') s)"
  using assms
proof (induction ss arbitrary: st req req')
  case (Cons bs ss)
  let ?n = "content_size req + of_nat (length bs)"
  have n: "unat ?n = unat (content_size req) + length bs"
    using Cons.prems(3) by (simp add: unat_word_ariths unat_of_nat)
  obtain ret rest st1 req1 where one: "parse_request bs (st, req) = Inr (ret, rest, st1, req1)"
    using Cons.prems(1) by (auto simp: parse_append ebind_eq_Inr)
  have one': "parse_request bs (st, sized ?n req) = Inr (ret, rest, st1, sized ?n req1)"
    using one by (simp add: parse_sized)
  show ?case
  proof (cases "ret = Parse_indeterminate")
    case True
    have rest1: "parse_request (concat ss) (st1, req1) = Inr (Parse_ok, [], st', req')"
      using Cons.prems(1) one True by (simp add: parse_append)
    then have "parse_request (concat ss) (st1, sized ?n req1) = Inr (Parse_ok, [], st', sized ?n req')"
      by (simp add: parse_sized)
    moreover have "unat (content_size (sized ?n req1)) + length (concat ss) \<le> 8192"
      using Cons.prems(3) n by simp
    ultimately obtain k where "handshake_reads hook ss (st1, sized ?n req1) s =
      map_option (\<lambda>r. ebind r (\<lambda>(ok, s). Inr (if ok then Established else Refused, (st', sized k req'), s)))
        (confirm_handshake hook (sized k req') s)"
      using Cons.IH [of st1 "sized ?n req1" "sized ?n req'"] Cons.prems(2) by auto
    moreover have "?n \<le> 8 * 1024" using n Cons.prems(3) by (simp add: word_le_nat_alt)
    ultimately show ?thesis using one' True by (auto simp: handshake_read_def Let_def)
  next
    case False
    then have "ret = Parse_ok" "rest @ concat ss = []" "st1 = st'" "req1 = req'"
      using Cons.prems(1) one by (auto simp: parse_append)
    then show ?thesis
      using one'
      by (intro exI [of _ ?n]) (cases "confirm_handshake hook (sized ?n req') s";
        auto simp: handshake_read_def Let_def ebind_def split: sum.splits)
  qed
qed simp

section \<open>Properties\<close>

text \<open>
  C26. A well-formed request of at most 8192 bytes with one key of twenty-four characters, in whatever
  non-empty pieces it arrives, opens the connection, and what goes on the wire is the answer with the hash the
  protocol asks for. Neither \<^verbatim>\<open>Upgrade\<close> nor \<^verbatim>\<open>Connection\<close> is needed.
\<close>
theorem handshake_completes:
  assumes "request_ok t" "request_of t = Inr req" "concat ss = text_of t" "\<forall>s \<in> set ss. s \<noteq> []" "length (text_of t) \<le> 8192"
    and "filter is_key_header (headers req) = [h]" "length (header_value h) = 24" "\<forall>r. hook r = 0"
  shows "\<exists>p s'. handshake_reads hook ss parser_start new_sender = Some (Inr (Established, p, s')) \<and>
    wire s' = [switching_protocols (encode64 (sha1_bytes (bytes_of (header_value h) @ bytes_of GUID)))]"
proof -
  have "accepts Method_start new_ws_request (text_of t @ []) [] req"
    using grammar_complete [OF assms(1,2), of "[]"] by simp
  then have "parse_request (concat ss) (Method_start, new_ws_request) = Inr (Parse_ok, [], Expecting_newline_3, req)"
    by (simp add: accepts_def assms(3))
  moreover have "unat (content_size new_ws_request) + length (concat ss) \<le> 8192"
    using assms(3,5) by (simp add: new_ws_request_def)
  ultimately obtain n where n: "handshake_reads hook ss (Method_start, new_ws_request) new_sender =
    map_option (\<lambda>r. ebind r (\<lambda>(ok, s). Inr (if ok then Established else Refused, (Expecting_newline_3, sized n req), s)))
      (confirm_handshake hook (sized n req) new_sender)"
    using handshake_reads_whole [OF _ assms(4), of Method_start new_ws_request Expecting_newline_3 req hook new_sender] by blast
  obtain s' where "confirm_handshake hook (sized n req) new_sender = Some (Inr (True, s'))"
    "wire s' = [switching_protocols (accept_of (header_value h))]"
    using confirm_answers [of hook "sized n req" h] assms(6-8) by auto
  then show ?thesis using n by (auto simp: parser_start_def accept_of_def)
qed

definition sample_request :: request_text where
  "sample_request = \<lparr>t_method = ''GET'', t_uri = ''/'', t_major = ''1'', t_minor = ''1'',
     t_lines = [Field ''Sec-WebSocket-Key'' ''dGhlIHNhbXBsZSBub25jZQ==''] \<rparr>"

lemma handshake_completes_witness:
  "\<exists>p s'. handshake_reads (\<lambda>_. 0) [''GET / HTTP'', drop 10 (text_of sample_request)] parser_start new_sender = Some (Inr (Established, p, s')) \<and>
    wire s' = [switching_protocols (encode64 (sha1_bytes (bytes_of ''dGhlIHNhbXBsZSBub25jZQ=='' @ bytes_of GUID)))]"
proof -
  let ?h = "\<lparr>header_name = ''Sec-WebSocket-Key'', header_value = ''dGhlIHNhbXBsZSBub25jZQ==''\<rparr>"
  have ok: "request_ok sample_request" by code_simp
  obtain req where req: "request_of sample_request = Inr req" "headers req = [?h]"
  proof -
    have "(case request_of sample_request of Inr req \<Rightarrow> headers req = [?h] | Inl _ \<Rightarrow> False)" by code_simp
    then show ?thesis using that by (auto split: sum.splits)
  qed
  have key: "filter is_key_header [?h] = [?h]" by code_simp
  have cuts: "concat [''GET / HTTP'', drop 10 (text_of sample_request)] = text_of sample_request"
    "length (text_of sample_request) = 63" by code_simp+
  have "\<exists>p s'. handshake_reads (\<lambda>_. 0) [''GET / HTTP'', drop 10 (text_of sample_request)] parser_start new_sender = Some (Inr (Established, p, s')) \<and>
    wire s' = [switching_protocols (encode64 (sha1_bytes (bytes_of (header_value ?h) @ bytes_of GUID)))]"
    by (rule handshake_completes [OF ok req(1) cuts(1)]) (use cuts req(2) key in simp_all)
  then show ?thesis by simp
qed

text \<open>
  Which requests take the server down: with at most one key, the confirmation faults exactly when there
  is none, or one with fewer than 23 or more than 91 characters.
\<close>
theorem handshake_faults:
  assumes "length (filter is_key_header (headers req)) \<le> 1" "on_ws_handshake req = 0"
  shows "(\<exists>e. confirm_handshake on_ws_handshake req new_sender = Some (Inl e)) \<longleftrightarrow>
    (case filter is_key_header (headers req) of
       [] \<Rightarrow> True
     | h # _ \<Rightarrow> length (header_value h) < 23 \<or> length (header_value h) > 91)"
proof (cases "filter is_key_header (headers req)")
  case Nil
  then show ?thesis using assms(2) by (simp add: confirm_handshake_def confirm_key_cases(1))
next
  case (Cons h hs)
  then have one: "filter is_key_header (headers req) = [h]" using assms(1) by simp
  have "switching_protocols k \<noteq> []" for k by (simp add: switching_protocols_def)
  then have "\<exists>s'. client_write (switching_protocols k) new_sender = Some (Inr s')" for k
    using new_sender_raw [of "switching_protocols k"] by blast
  then obtain f where "client_write (switching_protocols k) new_sender = Some (Inr (f k))" for k by metis
  then show ?thesis using assms(2) one by (auto simp: confirm_handshake_def confirm_key_cases(2) Let_def)
qed

lemma handshake_faults_witness:
  "\<exists>e. confirm_handshake (\<lambda>_. 0) (new_ws_request\<lparr>headers := []\<rparr>) new_sender = Some (Inl e)"
  using handshake_faults [of "new_ws_request\<lparr>headers := []\<rparr>" "\<lambda>_. 0"] by simp

end
