(* ===== verification/PostMonitor.thy ===== *)
theory PostMonitor
  imports Prelude
begin

text \<open>
  The rate limits of a client (\<^verbatim>\<open>src/src/service/post_monitor.h\<close>, \<^verbatim>\<open>src/src/util/tick_count.h\<close>): how many
  commands and chat messages it may send. Time is the clock of the system in milliseconds, read once
  per call; the counters are unsigned 32-bit numbers.
\<close>

section \<open>Clocks\<close>

record tick_count =
  start_time :: int

definition tick_restart :: "int \<Rightarrow> tick_count" where
  "tick_restart now = \<lparr>start_time = now\<rparr>"

definition tick_restart_in :: "int \<Rightarrow> int \<Rightarrow> tick_count" where
  "tick_restart_in millisecs now = \<lparr>start_time = now + millisecs\<rparr>"

definition elapsed :: "int \<Rightarrow> tick_count \<Rightarrow> int" where
  "elapsed now t = now - start_time t"

section \<open>The monitor\<close>

record post_monitor =
  last_actived :: tick_count
  max_actived_count :: "32 word"
  curr_actived_count :: "32 word"
  duration :: "32 word"
  forbid_duration :: "32 word"

definition new_post_monitor :: "int \<Rightarrow> post_monitor" where
  "new_post_monitor now = \<lparr>last_actived = tick_restart now, max_actived_count = 65535,
     curr_actived_count = 0, duration = 65535, forbid_duration = 0\<rparr>"

definition post_monitor_init :: "32 word \<Rightarrow> 32 word \<Rightarrow> post_monitor \<Rightarrow> post_monitor" where
  "post_monitor_init max_count check_duration m =
     m\<lparr>max_actived_count := max_count, curr_actived_count := 0, duration := check_duration,
       forbid_duration := 5000\<rparr>"

definition can_active :: "int \<Rightarrow> post_monitor \<Rightarrow> bool \<times> post_monitor" where
  "can_active now m =
     (let duration_millis = elapsed now (last_actived m) in
      if duration_millis > uint (duration m)
      then (True, m\<lparr>last_actived := tick_restart now, curr_actived_count := 1\<rparr>)
      else let m = m\<lparr>curr_actived_count := curr_actived_count m + 1\<rparr> in
           if curr_actived_count m > max_actived_count m
           then (False, m\<lparr>last_actived := tick_restart_in (uint (forbid_duration m)) now\<rparr>)
           else (True, m))"

text \<open>The answers to a series of requests.\<close>

fun answers :: "int list \<Rightarrow> post_monitor \<Rightarrow> bool list" where
  "answers [] m = []"
| "answers (now # ts) m = (let (ok, m') = can_active now m in ok # answers ts m')"

fun monitor_after :: "int list \<Rightarrow> post_monitor \<Rightarrow> post_monitor" where
  "monitor_after [] m = m"
| "monitor_after (now # ts) m = monitor_after ts (snd (can_active now m))"

section \<open>How many requests pass\<close>

abbreviation limit :: "post_monitor \<Rightarrow> nat" where
  "limit m \<equiv> unat (max_actived_count m)"

definition windows :: "int \<Rightarrow> post_monitor \<Rightarrow> nat" where
  "windows end m = nat ((end - start_time (last_actived m)) div (uint (duration m) + 1))"

definition allowance :: "int \<Rightarrow> post_monitor \<Rightarrow> nat" where
  "allowance end m = (limit m - unat (curr_actived_count m)) + limit m * windows end m"

lemma window_pos: "0 < uint (w :: 32 word) + 1"
  using uint_ge_0 [of w] by linarith

lemma windows_later:
  assumes "start_time (last_actived m) \<le> start_time (last_actived m')" "duration m' = duration m"
  shows "windows end m' \<le> windows end m"
  unfolding windows_def using assms window_pos [of "duration m"] by (intro nat_mono) (simp add: zdiv_mono1)

lemma count_up:
  "unat (curr_actived_count m) + 1 < 2 ^ 32 \<Longrightarrow> unat (curr_actived_count m + 1) = unat (curr_actived_count m) + 1"
  by (simp add: unat_plus_simple [THEN iffD1] word_le_nat_alt unat_word_ariths)

lemma can_active_frame:
  assumes "can_active now m = (ok, m')"
  shows "max_actived_count m' = max_actived_count m \<and> duration m' = duration m \<and> forbid_duration m' = forbid_duration m"
  using assms by (auto simp: can_active_def Let_def split: if_splits)

lemma can_active_allowance:
  assumes step: "can_active now m = (ok, m')" and m: "0 < limit m" "unat (curr_actived_count m) + 1 < 2 ^ 32"
    and time: "now \<le> end" "start_time (last_actived m) \<le> now + uint (forbid_duration m)"
  shows "of_bool ok + allowance end m' \<le> allowance end m"
    and "unat (curr_actived_count m') \<le> unat (curr_actived_count m) + 1"
    and "start_time (last_actived m') \<le> now + uint (forbid_duration m)"
proof -
  let ?k = "unat (curr_actived_count m)"
  have up: "unat (curr_actived_count m + 1) = ?k + 1" by (rule count_up [OF m(2)])
  consider (window) "elapsed now (last_actived m) > uint (duration m)"
    | (refused) "\<not> elapsed now (last_actived m) > uint (duration m)" "limit m < ?k + 1"
    | (passed) "\<not> elapsed now (last_actived m) > uint (duration m)" "\<not> limit m < ?k + 1" by blast
  then have "of_bool ok + allowance end m' \<le> allowance end m \<and> unat (curr_actived_count m') \<le> ?k + 1 \<and>
      start_time (last_actived m') \<le> now + uint (forbid_duration m)"
  proof cases
    case window
    have m': "ok" "m' = m\<lparr>last_actived := tick_restart now, curr_actived_count := 1\<rparr>"
      using step window by (simp_all add: can_active_def Let_def)
    let ?d = "uint (duration m) + 1"
    have "(end - now) div ?d + 1 = (end - now + ?d) div ?d"
      using window_pos [of "duration m"] by (subst div_add_self2) linarith+
    also have "\<dots> \<le> (end - start_time (last_actived m)) div ?d"
      using window window_pos [of "duration m"] by (intro zdiv_mono1) (auto simp: elapsed_def)
    finally have more: "(end - now) div ?d + 1 \<le> (end - start_time (last_actived m)) div ?d" .
    have "0 \<le> (end - now) div ?d" using time(1) window_pos [of "duration m"] by (simp add: pos_imp_zdiv_nonneg_iff)
    with more have "windows end m' + 1 \<le> windows end m"
      by (simp add: windows_def m' tick_restart_def)
    then have "limit m * (windows end m' + 1) \<le> limit m * windows end m" by (rule mult_le_mono2)
    then show ?thesis
      using m(1) by (simp add: m' allowance_def tick_restart_def windows_def)
  next
    case refused
    have m': "\<not> ok" "m' = m\<lparr>curr_actived_count := curr_actived_count m + 1,
        last_actived := tick_restart_in (uint (forbid_duration m)) now\<rparr>"
      using step refused up by (auto simp: can_active_def Let_def word_less_nat_alt)
    have "windows end m' \<le> windows end m"
      using time(2) by (intro windows_later) (simp_all add: m' tick_restart_in_def)
    then show ?thesis using refused(2) up by (simp add: m' allowance_def tick_restart_in_def)
  next
    case passed
    have m': "ok" "m' = m\<lparr>curr_actived_count := curr_actived_count m + 1\<rparr>"
      using step passed up by (auto simp: can_active_def Let_def word_less_nat_alt)
    have "windows end m' = windows end m" by (simp add: m' windows_def)
    then show ?thesis using passed(2) up time(2) by (simp add: m' allowance_def)
  qed
  then show "of_bool ok + allowance end m' \<le> allowance end m"
    "unat (curr_actived_count m') \<le> unat (curr_actived_count m) + 1"
    "start_time (last_actived m') \<le> now + uint (forbid_duration m)" by simp_all
qed


lemma answers_allowance:
  assumes "sorted ts" "\<forall>t \<in> set ts. t \<le> end" "0 < limit m"
    and "unat (curr_actived_count m) + length ts < 2 ^ 32"
    and "\<forall>t \<in> set ts. start_time (last_actived m) \<le> t + uint (forbid_duration m)"
  shows "length (filter (\<lambda>ok. ok) (answers ts m)) \<le> allowance end m"
  using assms
proof (induction ts arbitrary: m)
  case (Cons t ts)
  obtain ok m' where step: "can_active t m = (ok, m')" by fastforce
  note frame = can_active_frame [OF step]
  have one: "of_bool ok + allowance end m' \<le> allowance end m"
    "unat (curr_actived_count m') \<le> unat (curr_actived_count m) + 1"
    "start_time (last_actived m') \<le> t + uint (forbid_duration m)"
    using can_active_allowance [OF step, of "end"] Cons.prems by auto
  have "length (filter (\<lambda>ok. ok) (answers ts m')) \<le> allowance end m'"
    using Cons.prems one frame by (intro Cons.IH) auto
  then show ?case using one(1) step by (cases ok) simp_all
qed simp

text \<open>
  C21. A monitor set to \<^verbatim>\<open>c\<close> requests per \<^verbatim>\<open>d\<close> milliseconds lets at most \<^verbatim>\<open>c\<close> requests pass for every
  started period of \<^verbatim>\<open>d + 1\<close> milliseconds since it was built, for as long as its counter does not run
  over.
\<close>
theorem requests_bounded:
  assumes "sorted ts" "\<forall>t \<in> set ts. start \<le> t \<and> t \<le> end" "0 < c" "length ts < 2 ^ 32"
  shows "length (filter (\<lambda>ok. ok) (answers ts (post_monitor_init c d (new_post_monitor start)))) \<le>
    unat c * (1 + nat ((end - start) div (uint d + 1)))"
proof -
  let ?m = "post_monitor_init c d (new_post_monitor start)"
  have m: "max_actived_count ?m = c" "curr_actived_count ?m = 0" "duration ?m = d" "forbid_duration ?m = 5000"
    "start_time (last_actived ?m) = start"
    by (simp_all add: post_monitor_init_def new_post_monitor_def tick_restart_def)
  have "length (filter (\<lambda>ok. ok) (answers ts ?m)) \<le> allowance end ?m"
    using assms by (intro answers_allowance) (auto simp: m word_less_nat_alt)
  then show ?thesis by (simp add: allowance_def windows_def m)
qed

lemma requests_bounded_witness:
  "length (filter (\<lambda>ok. ok) (answers [1, 2, 3, 4, 5, 6, 7] (post_monitor_init 5 4000 (new_post_monitor 0)))) \<le> 5"
  using requests_bounded [of "[1, 2, 3, 4, 5, 6, 7]" 0 7 5 4000] by simp

text \<open>Requests that come no further apart than \<^verbatim>\<open>gap\<close>, the first one so soon after \<^verbatim>\<open>now\<close>.\<close>

fun close_by :: "int \<Rightarrow> int \<Rightarrow> int list \<Rightarrow> bool" where
  "close_by gap now [] = True"
| "close_by gap now (t # ts) = (t \<le> now + gap \<and> close_by gap t ts)"

lemma refused_state:
  assumes "can_active now m = (False, m')"
  shows "m' = m\<lparr>curr_actived_count := curr_actived_count m + 1,
      last_actived := tick_restart_in (uint (forbid_duration m)) now\<rparr>" "max_actived_count m < curr_actived_count m'"
  using assms by (auto simp: can_active_def Let_def split: if_splits)

lemma banned:
  assumes "max_actived_count m < curr_actived_count m" "unat (curr_actived_count m) + 1 < 2 ^ 32"
    and "t \<le> start_time (last_actived m) + uint (duration m)"
  shows "can_active t m = (False, m\<lparr>curr_actived_count := curr_actived_count m + 1,
      last_actived := tick_restart_in (uint (forbid_duration m)) t\<rparr>)"
  using assms count_up [OF assms(2)] by (auto simp: can_active_def Let_def elapsed_def word_less_nat_alt)

lemma banned_run:
  assumes "max_actived_count m < curr_actived_count m" "unat (curr_actived_count m) + length ts < 2 ^ 32"
    and "start_time (last_actived m) = now + uint (forbid_duration m)"
    and "close_by (uint (forbid_duration m) + uint (duration m)) now ts"
  shows "\<not> (\<exists>ok \<in> set (answers ts m). ok)"
  using assms
proof (induction ts arbitrary: m now)
  case (Cons t ts)
  let ?m = "m\<lparr>curr_actived_count := curr_actived_count m + 1, last_actived := tick_restart_in (uint (forbid_duration m)) t\<rparr>"
  have step: "can_active t m = (False, ?m)" using Cons.prems by (intro banned) auto
  have up: "unat (curr_actived_count m + 1) = unat (curr_actived_count m) + 1" using Cons.prems by (intro count_up) simp
  have "\<not> (\<exists>ok \<in> set (answers ts ?m). ok)"
    using Cons.prems up by (intro Cons.IH [of _ t]) (auto simp: word_less_nat_alt tick_restart_in_def)
  then show ?case using step by simp
qed simp

text \<open>
  A refusal starts a ban that lasts as long as the client keeps sending: every later request that
  comes within the forbidden time plus one period of the one before is refused too.
\<close>
theorem ban_lasts:
  assumes "can_active now m = (False, m')" "unat (curr_actived_count m) + 1 + length ts < 2 ^ 32"
    and "close_by (uint (forbid_duration m) + uint (duration m)) now ts"
  shows "answers ts m' = replicate (length ts) False"
proof -
  note m' = refused_state [OF assms(1)]
  have "unat (curr_actived_count m + 1) = unat (curr_actived_count m) + 1" using assms(2) by (intro count_up) simp
  then have "\<not> (\<exists>ok \<in> set (answers ts m'). ok)"
    using m'(2) assms(2,3) by (intro banned_run [of _ _ now]) (auto simp: m'(1) tick_restart_in_def)
  moreover have "length (answers ts m') = length ts"
    by (induction ts arbitrary: m') (simp_all add: split_def Let_def)
  ultimately show ?thesis by (intro replicate_eqI) auto
qed

lemma ban_lasts_witness:
  "answers [8000, 16000] (snd (can_active 3 (monitor_after [0, 1, 2] (post_monitor_init 3 4000 (new_post_monitor 0))))) =
   [False, False]"
proof -
  let ?m = "monitor_after [0, 1, 2] (post_monitor_init 3 4000 (new_post_monitor 0))"
  have refused: "can_active 3 ?m = (False, snd (can_active 3 ?m))" by code_simp
  have three: "curr_actived_count ?m = 3" by code_simp
  have few: "unat (curr_actived_count ?m) + 1 + length [8000, 16000 :: int] < 2 ^ 32" unfolding three by simp
  have close: "close_by (uint (forbid_duration ?m) + uint (duration ?m)) 3 [8000, 16000]" by code_simp
  have "answers [8000, 16000] (snd (can_active 3 ?m)) = replicate (length [8000, 16000 :: int]) False"
    by (rule ban_lasts [OF refused few close])
  also have "\<dots> = [False, False]" by simp
  finally show ?thesis .
qed

end
