(* ===== verification/Dispatch.thy ===== *)
theory Dispatch
  imports Command PostMonitor PluginRules
begin

text \<open>
  From a line to a handler: the table of handlers (\<^verbatim>\<open>src/src/service/command_dispatcher.cpp\<close>), the rate
  limit in front of it (\<^verbatim>\<open>game_plugin::on_client_command\<close>) and the disconnection of a client
  (\<^verbatim>\<open>game_client::disconnect\<close>). The table is a map from names to handlers; a handler gets the client and
  the parameters of the command.
\<close>

section \<open>The table\<close>

type_synonym 'w handler = "cid \<Rightarrow> string list \<Rightarrow> 'w \<Rightarrow> 'w result"
type_synonym 'w handles = "(string \<times> 'w handler) list"

definition regist_handle :: "string \<Rightarrow> 'w handler \<Rightarrow> 'w handles \<Rightarrow> bool \<times> 'w handles" where
  "regist_handle cmd_name handler handles =
     (case map_of handles cmd_name of
        None \<Rightarrow> (True, handles @ [(cmd_name, handler)])
      | Some _ \<Rightarrow> (False, handles))"

definition unregist_handle :: "string \<Rightarrow> 'w handles \<Rightarrow> 'w handles" where
  "unregist_handle cmd_name handles = filter (\<lambda>(n, h). n \<noteq> cmd_name) handles"

definition unregist_all_handles :: "'w handles \<Rightarrow> 'w handles" where
  "unregist_all_handles handles = []"

definition on_client_command :: "'w handles \<Rightarrow> cid \<Rightarrow> command \<Rightarrow> 'w \<Rightarrow> 'w result" where
  "on_client_command handles c cmd w =
     (case command_name cmd of
        None \<Rightarrow> Inl Null_pointer
      | Some name \<Rightarrow>
          (case map_of handles name of
             None \<Rightarrow> Inr w
           | Some handler \<Rightarrow> handler c (param_strings cmd) w))"

section \<open>A client's line\<close>

definition CONSTANT_REQUEST :: int where
  "CONSTANT_REQUEST = 21"

text \<open>What the dispatcher keeps for a client besides the plugin's own state.\<close>

record line_state =
  line_command :: command
  active_monitor :: post_monitor

definition disconnect :: "int \<Rightarrow> cid \<Rightarrow> ddz_plugin \<Rightarrow> ddz_plugin" where
  "disconnect code c w =
     w\<lparr>clients := (clients w)(c := map_option
        (\<lambda>r. if client_available r then r\<lparr>client_error := code, client_available := False\<rparr> else r) (clients w c))\<rparr>"

definition plugin_on_client_command ::
    "bool \<Rightarrow> int \<Rightarrow> ddz_plugin handles \<Rightarrow> cid \<Rightarrow> line_state \<times> ddz_plugin \<Rightarrow> (line_state \<times> ddz_plugin) result" where
  "plugin_on_client_command running now handles c = (\<lambda>(ls, w).
     if \<not> running then Inr (ls, w)
     else let (ok, m) = can_active now (active_monitor ls); ls = ls\<lparr>active_monitor := m\<rparr> in
          if \<not> ok then Inr (ls, disconnect CONSTANT_REQUEST c w)
          else ebind (on_client_command handles c (line_command ls) w) (\<lambda>w. Inr (ls, w)))"

definition on_client_data ::
    "bool \<Rightarrow> int \<Rightarrow> ddz_plugin handles \<Rightarrow> cid \<Rightarrow> string \<Rightarrow> line_state \<times> ddz_plugin \<Rightarrow> (line_state \<times> ddz_plugin) result" where
  "on_client_data running now handles c frame_data = (\<lambda>(ls, w).
     ebind (the_client w c) (\<lambda>r.
       if \<not> client_available r then Inr (ls, w)
       else let ls = ls\<lparr>line_command := command_reset frame_data (line_command ls)\<rparr> in
            if correct (line_command ls)
            then plugin_on_client_command running now handles c (ls, w)
            else Inr (ls, w)))"

section \<open>The table as a map\<close>

text \<open>What the dispatcher relies on.\<close>

locale handler_table =
  fixes reg :: "string \<Rightarrow> 'h \<Rightarrow> 't \<Rightarrow> bool \<times> 't"
    and unreg :: "string \<Rightarrow> 't \<Rightarrow> 't"
    and look :: "'t \<Rightarrow> string \<Rightarrow> 'h option"
  assumes look_reg: "look (snd (reg n h t)) m = (if m = n \<and> look t n = None then Some h else look t m)"
    and reg_fresh: "fst (reg n h t) \<longleftrightarrow> look t n = None"
    and look_unreg: "look (unreg n t) m = (if m = n then None else look t m)"
begin

lemma reg_twice: "look (snd (reg n h' (snd (reg n h t)))) n = look (snd (reg n h t)) n"
  by (simp add: look_reg)

lemma reg_twice_refused: "\<not> fst (reg n h' (snd (reg n h t)))"
  by (auto simp: look_reg reg_fresh)

lemma unreg_reg: "look t n = None \<Longrightarrow> look (unreg n (snd (reg n h t))) = look t"
  by (rule ext) (simp add: look_reg look_unreg)

end

interpretation handler_map: handler_table regist_handle unregist_handle map_of
proof
  fix n m and h :: "'a handler" and t :: "'a handles"
  show "map_of (snd (regist_handle n h t)) m = (if m = n \<and> map_of t n = None then Some h else map_of t m)"
    by (auto simp: regist_handle_def map_add_def split: option.splits)
  show "fst (regist_handle n h t) \<longleftrightarrow> map_of t n = None"
    by (auto simp: regist_handle_def split: option.splits)
  show "map_of (unregist_handle n t) m = (if m = n then None else map_of t m)"
    unfolding unregist_handle_def by (induction t) auto
qed

lemma handlers_distinct: "distinct (map fst (on_load client_exit))"
  by (simp add: on_load_def)


section \<open>Properties\<close>

text \<open>
  C19. What a line of a client does: nothing when the client is going or the service stops or the line
  is blank; otherwise the request is counted, a client over its limit is disconnected, and the handler
  registered under the first word gets the other words. An unknown name does nothing.
\<close>
theorem line_dispatch:
  assumes "the_client w c = Inr r"
  shows "on_client_data running now handles c data (ls, w) =
    (if \<not> client_available r then Inr (ls, w)
     else let ls1 = ls\<lparr>line_command := command_reset data (line_command ls)\<rparr> in
       (case line_words (c_str data 0) of
          [] \<Rightarrow> Inr (ls1, w)
        | name # args \<Rightarrow>
            if \<not> running then Inr (ls1, w)
            else let (ok, m) = can_active now (active_monitor ls); ls2 = ls1\<lparr>active_monitor := m\<rparr> in
              if \<not> ok then Inr (ls2, disconnect CONSTANT_REQUEST c w)
              else (case map_of handles name of
                      None \<Rightarrow> Inr (ls2, w)
                    | Some h \<Rightarrow> ebind (h c args w) (\<lambda>w'. Inr (ls2, w')))))"
  using reset_fields [of data "line_command ls"] assms
  by (auto simp: on_client_data_def plugin_on_client_command_def on_client_command_def Let_def
      split: list.splits option.splits prod.splits)

lemma sample_bob: "the_client sample_game 1 = Inr (sample_client ''bob'')"
  by (simp add: sample_game_def the_client_def)

definition quiet_line :: line_state where
  "quiet_line = \<lparr>line_command = new_command, active_monitor = post_monitor_init 30 60000 (new_post_monitor 0)\<rparr>"

lemma line_dispatch_witness:
  "\<exists>ls. on_client_data True 0 (on_load 0) 1 ''  NOP 1 2 '' (quiet_line, sample_game) = Inr (ls, sample_game)"
proof -
  have "line_words (c_str ''  NOP 1 2 '' 0) = [''NOP'', ''1'', ''2'']" by code_simp
  moreover have "fst (can_active 0 (active_monitor quiet_line))" by code_simp
  ultimately show ?thesis
    using line_dispatch [OF sample_bob, of True 0 "on_load 0" "''  NOP 1 2 ''" quiet_line]
    by (auto simp: sample_client_def on_load_def Let_def split_def)
qed

lemma ok_disconnect:
  assumes "plugin_ok n codes w"
  shows "plugin_ok n codes (disconnect code c w)"
proof -
  have "desk_of (disconnect code c w) x = desk_of w x" for x
    by (cases "clients w c") (auto simp: disconnect_def desk_of_def get_info_def the_client_def)
  then show ?thesis using assms by (simp add: plugin_ok_def disconnect_def desk_at_def)
qed

text \<open>
  No line breaks the card game: whatever bytes a client sends and whenever, every desk stays well
  formed and every hand sound, as long as the handler returns.
\<close>
lemma line_keeps_ok:
  assumes "plugin_ok n codes w"
    and "on_client_data running now (on_load client_exit) c data (ls, w) = Inr (ls', w')"
  shows "plugin_ok n codes w'"
proof -
  obtain r where r: "the_client w c = Inr r" using assms(2) by (auto simp: on_client_data_def ebind_eq_Inr)
  have "plugin_ok n codes v" if "map_of (on_load client_exit) name = Some h" "h c args w = Inr v" for name h args v
    using handlers_ok [OF map_of_SomeD [OF that(1)] assms(1) that(2)] .
  then show ?thesis
    using assms(2) r assms(1) ok_disconnect [OF assms(1)]
    by (auto simp: on_client_data_def plugin_on_client_command_def on_client_command_def Let_def ebind_eq_Inr
        split: if_splits option.splits prod.splits)
qed

lemma words_of_split:
  assumes "ws \<noteq> []" "\<forall>w \<in> set ws. w \<noteq> [] \<and> CHR '' '' \<notin> set w"
  shows "line_words (words_of ws) = ws"
  using assms
proof (induction "'' ''" ws rule: join.induct)
  case (3 s t ss)
  then have "split_words [] (words_of (t # ss)) = t # ss" by (simp add: line_words_def)
  moreover have "split_words [] (s @ CHR '' '' # words_of (t # ss)) = s # split_words [] (words_of (t # ss))"
    using 3 split_words_word [of s "[]"] by simp
  ultimately show ?case by (simp add: line_words_def)
qed (auto simp: line_words_def split_words_last)

lemma set_words_of: "set (words_of ws) \<subseteq> {CHR '' ''} \<union> \<Union> (set ` set ws)"
  by (induction "'' ''" ws rule: join.induct) auto

text \<open>
  A command written out as its words with single blanks between them is read back word by word.
\<close>
theorem line_roundtrip:
  assumes "ws \<noteq> []" "\<forall>w \<in> set ws. w \<noteq> [] \<and> CHR '' '' \<notin> set w \<and> NUL \<notin> set w"
  shows "correct (command_reset (words_of ws) cmd) \<and>
    command_name (command_reset (words_of ws) cmd) = Some (hd ws) \<and>
    param_strings (command_reset (words_of ws) cmd) = tl ws"
proof -
  have "NUL \<notin> set (words_of ws)" using set_words_of [of ws] assms(2) by (auto simp: NUL_def)
  then have "c_str (words_of ws) 0 = words_of ws" by (auto simp: c_str_def takeWhile_eq_all_conv)
  moreover have "line_words (words_of ws) = ws" using assms by (intro words_of_split) auto
  ultimately show ?thesis using reset_fields [of "words_of ws" cmd] assms(1) by (cases ws) simp_all
qed

lemma line_roundtrip_witness:
  "param_strings (command_reset ''CAD A1 A2'' new_command) = [''A1'', ''A2'']"
  using line_roundtrip [of "[''CAD'', ''A1'', ''A2'']" new_command] by (simp add: NUL_def)

end
