(* ===== verification/Frames.thy ===== *)
theory Frames
  imports Prelude
begin

text \<open>
  Frames of the protocol (\<^verbatim>\<open>src/src/net/ws_framedata_parser.h\<close>): a parser that decodes one frame in
  place in the receive buffer of a connection, and that can stop and go on when more bytes are there.
  The buffer is an array of 1024 bytes; every access is checked against its size. The counters are 64
  bits wide and stay far below that, so they are natural numbers.
\<close>

unbundle bit_operations_syntax

section \<open>The frame\<close>

definition BUFFER_SIZE :: nat where
  "BUFFER_SIZE = 1024"

datatype framedata_result = Frame_ok | Frame_error | Frame_indeterminate

datatype frame_state = Ready | Fin_and_rsv_ok | Mask_and_payload_len_ok | Mask_key_ok | Payload_data_ok

record ws_framedata =
  frame_state :: frame_state
  fin :: "8 word"
  rsv1 :: "8 word"
  rsv2 :: "8 word"
  rsv3 :: "8 word"
  opcode :: "8 word"
  mask_flag :: "8 word"
  masking_key :: "8 word list"
  payload_length :: nat
  data_pos :: nat
  pos :: nat
  data_length :: nat
  start_pos :: nat
  close_status :: nat
  data :: "8 word list"

definition OP_TEXT :: "8 word" where "OP_TEXT = 1"
definition OP_CLOSE :: "8 word" where "OP_CLOSE = 8"

text \<open>Neither the buffer nor the key is cleared.\<close>

definition frame_reset :: "ws_framedata \<Rightarrow> ws_framedata" where
  "frame_reset f = f\<lparr>fin := 0, rsv1 := 0, rsv2 := 0, rsv3 := 0, opcode := 0, mask_flag := 0, payload_length := 0,
     data_pos := 0, pos := 0, data_length := 0, start_pos := 0, frame_state := Ready, close_status := 0\<rparr>"

section \<open>Fetching\<close>

definition byte_at :: "ws_framedata \<Rightarrow> nat \<Rightarrow> 8 word result" where
  "byte_at f i = (if i < length (data f) then Inr (data f ! i) else Inl Out_of_bounds)"

definition fetch_fin :: "ws_framedata \<Rightarrow> ws_framedata result" where
  "fetch_fin f = ebind (byte_at f (pos f)) (\<lambda>b.
     Inr (f\<lparr>fin := drop_bit 7 b, rsv1 := b AND 64, rsv2 := b AND 32, rsv3 := b AND 16\<rparr>))"

definition fetch_opcode :: "ws_framedata \<Rightarrow> ws_framedata result" where
  "fetch_opcode f = ebind (byte_at f (pos f)) (\<lambda>b. Inr (f\<lparr>opcode := b AND 0x0f\<rparr>))"

definition fetch_mask :: "ws_framedata \<Rightarrow> ws_framedata result" where
  "fetch_mask f = ebind (byte_at f (pos f)) (\<lambda>b. Inr (f\<lparr>mask_flag := drop_bit 7 b\<rparr>))"

definition fetch_masking_key :: "ws_framedata \<Rightarrow> ws_framedata result" where
  "fetch_masking_key f =
     efold (\<lambda>i f. ebind (byte_at f (pos f + i)) (\<lambda>b. Inr (f\<lparr>masking_key := (masking_key f)[i := b]\<rparr>))) [0..<4] f"

text \<open>Bytes of a number in network order.\<close>

definition ntohs :: "8 word \<Rightarrow> 8 word \<Rightarrow> nat" where
  "ntohs b0 b1 = 256 * unat b0 + unat b1"

definition ntohl :: "8 word \<Rightarrow> 8 word \<Rightarrow> 8 word \<Rightarrow> 8 word \<Rightarrow> nat" where
  "ntohl b0 b1 b2 b3 = 65536 * ntohs b0 b1 + ntohs b2 b3"

definition fetch_payload_length :: "ws_framedata \<Rightarrow> ws_framedata result" where
  "fetch_payload_length f =
     ebind (byte_at f (pos f)) (\<lambda>b.
       let f = f\<lparr>payload_length := unat (b AND 0x7f), pos := pos f + 1\<rparr> in
       if payload_length f = 126
       then ebind (byte_at f (pos f)) (\<lambda>b0. ebind (byte_at f (pos f + 1)) (\<lambda>b1.
              Inr (f\<lparr>payload_length := ntohs b0 b1, pos := pos f + 2\<rparr>)))
       else if payload_length f = 127
       then ebind (byte_at f (pos f)) (\<lambda>b0. ebind (byte_at f (pos f + 1)) (\<lambda>b1.
            ebind (byte_at f (pos f + 2)) (\<lambda>b2. ebind (byte_at f (pos f + 3)) (\<lambda>b3.
              Inr (f\<lparr>payload_length := ntohl b0 b1 b2 b3, pos := pos f + 4\<rparr>)))))
       else Inr f)"

definition unmask_byte :: "nat \<Rightarrow> ws_framedata \<Rightarrow> ws_framedata result" where
  "unmask_byte i f =
     ebind (byte_at f (pos f + i)) (\<lambda>b.
       Inr (f\<lparr>data := (data f)[pos f + i := b XOR masking_key f ! (i mod 4)]\<rparr>))"

definition fetch_payload :: "ws_framedata \<Rightarrow> ws_framedata result" where
  "fetch_payload f =
     ebind (if mask_flag f \<noteq> 0 then efold unmask_byte [0..<payload_length f] f else Inr f) (\<lambda>f.
       if opcode f = OP_CLOSE
       then let f = f\<lparr>close_status := 1005\<rparr> in
            if payload_length f \<ge> 2
            then ebind (byte_at f (pos f)) (\<lambda>b0. ebind (byte_at f (pos f + 1)) (\<lambda>b1.
                   Inr (f\<lparr>close_status := ntohs b0 b1\<rparr>)))
            else Inr f
       else Inr f)"

section \<open>The cases of the parser, which fall through\<close>

type_synonym frame_answer = "(framedata_result \<times> ws_framedata) result"

definition parse_payload :: "nat \<Rightarrow> ws_framedata \<Rightarrow> frame_answer" where
  "parse_payload data_len f =
     (if pos f + payload_length f > data_len then Inr (Frame_indeterminate, f)
      else ebind (fetch_payload f) (\<lambda>f.
        let f = f\<lparr>pos := pos f + payload_length f\<rparr>
        in Inr (Frame_ok, f\<lparr>start_pos := pos f, frame_state := Payload_data_ok\<rparr>)))"

definition parse_key :: "nat \<Rightarrow> ws_framedata \<Rightarrow> frame_answer" where
  "parse_key data_len f =
     (if mask_flag f \<noteq> 1 then Inr (Frame_error, f)
      else if pos f + 4 > data_len then Inr (Frame_indeterminate, f)
      else ebind (fetch_masking_key f) (\<lambda>f.
        let f = f\<lparr>pos := pos f + 4\<rparr>
        in parse_payload data_len (f\<lparr>data_pos := pos f, frame_state := Mask_key_ok\<rparr>)))"

definition parse_length :: "nat \<Rightarrow> ws_framedata \<Rightarrow> frame_answer" where
  "parse_length data_len f =
     (if pos f \<ge> data_len then Inr (Frame_indeterminate, f)
      else ebind (fetch_mask f) (\<lambda>f. ebind (fetch_payload_length f) (\<lambda>f.
        parse_key data_len (f\<lparr>frame_state := Mask_and_payload_len_ok\<rparr>))))"

definition parse_head :: "nat \<Rightarrow> ws_framedata \<Rightarrow> frame_answer" where
  "parse_head data_len f =
     ebind (fetch_fin f) (\<lambda>f. ebind (fetch_opcode f) (\<lambda>f.
       parse_length data_len (f\<lparr>pos := pos f + 1, frame_state := Fin_and_rsv_ok\<rparr>)))"

definition parse_frame :: "ws_framedata \<Rightarrow> nat \<Rightarrow> frame_answer" where
  "parse_frame f data_len =
     (let f = f\<lparr>data_length := data_length f + data_len\<rparr> in
      case frame_state f of
        Ready \<Rightarrow> parse_head data_len f
      | Fin_and_rsv_ok \<Rightarrow> parse_length data_len f
      | Mask_and_payload_len_ok \<Rightarrow> parse_key data_len f
      | Mask_key_ok \<Rightarrow> parse_payload data_len f
      | Payload_data_ok \<Rightarrow> Inr (Frame_error, f))"

section \<open>Receiving\<close>

text \<open>
  What happens when bytes have arrived (\<^verbatim>\<open>ws_client::on_data_received\<close>): complete frames go to the client
  object, which may become unavailable, and the next read appends to the buffer. The client is any
  state \<^verbatim>\<open>w\<close> with a handler of frames; the handler works in place, so it also gives the buffer it leaves.
\<close>

datatype 'w received = Read_more ws_framedata 'w | Closing int 'w | Out_of_fuel

definition DATA_OUT_OF_BUFFER :: int where
  "DATA_OUT_OF_BUFFER = 2"

fun on_data_received ::
    "nat \<Rightarrow> (ws_framedata \<Rightarrow> 'w \<Rightarrow> (8 word list \<times> 'w) result) \<Rightarrow> ('w \<Rightarrow> bool) \<Rightarrow> ('w \<Rightarrow> int) \<Rightarrow> nat \<Rightarrow> ws_framedata \<Rightarrow> 'w \<Rightarrow> 'w received result" where
  "on_data_received 0 handle available error_code bytes f w = Inr Out_of_fuel"
| "on_data_received (Suc fuel) handle available error_code bytes f w =
     ebind (parse_frame f bytes) (\<lambda>(ret, f).
       case ret of
         Frame_ok \<Rightarrow> ebind (handle f w) (\<lambda>(bytes_left, w). let f = f\<lparr>data := bytes_left\<rparr> in
           if \<not> available w then Inr (Closing (error_code w) w)
           else if pos f < data_length f
           then on_data_received fuel handle available error_code bytes f w
           else Inr (Read_more (frame_reset f) w))
       | Frame_indeterminate \<Rightarrow>
           if start_pos f = 0
           then (if bytes = BUFFER_SIZE then Inr (Closing DATA_OUT_OF_BUFFER w) else Inr (Read_more f w))
           else Inr (Read_more (f\<lparr>data_length := data_length f - start_pos f,
                  data := take (data_length f - start_pos f) (drop (start_pos f) (data f)) @ drop (data_length f - start_pos f) (data f),
                  pos := pos f - start_pos f, data_pos := data_pos f - start_pos f, start_pos := 0\<rparr>) w)
       | Frame_error \<Rightarrow> Inr (Read_more (frame_reset f) w))"

text \<open>The next read writes behind what is in the buffer already.\<close>

definition arrive :: "8 word list \<Rightarrow> ws_framedata \<Rightarrow> ws_framedata result" where
  "arrive bs f =
     (if data_length f + length bs \<le> length (data f)
      then Inr (f\<lparr>data := take (data_length f) (data f) @ bs @ drop (data_length f + length bs) (data f)\<rparr>)
      else Inl Out_of_bounds)"

text \<open>
  One call of the receiver: the network hands over at most \<^verbatim>\<open>k\<close> bytes of what the peer still sends, and
  no more than the room left in the buffer. \<^verbatim>\<open>receive_all\<close> is the chain of these calls.
\<close>

definition receive_some ::
    "(ws_framedata \<Rightarrow> 'w \<Rightarrow> (8 word list \<times> 'w) result) \<Rightarrow> ('w \<Rightarrow> bool) \<Rightarrow> ('w \<Rightarrow> int) \<Rightarrow> 8 word list \<Rightarrow> ws_framedata \<Rightarrow> 'w \<Rightarrow> 'w received result" where
  "receive_some handle available error_code bs f w =
     ebind (arrive bs f) (\<lambda>f. on_data_received 2 handle available error_code (length bs) f w)"

fun receive_all ::
    "(ws_framedata \<Rightarrow> 'w \<Rightarrow> (8 word list \<times> 'w) result) \<Rightarrow> ('w \<Rightarrow> bool) \<Rightarrow> ('w \<Rightarrow> int) \<Rightarrow> nat list \<Rightarrow> 8 word list \<Rightarrow> ws_framedata \<Rightarrow> 'w \<Rightarrow> 'w received result" where
  "receive_all handle available error_code [] stream f w = Inr (Read_more f w)"
| "receive_all handle available error_code (k # ks) stream f w =
     (let m = min k (BUFFER_SIZE - data_length f) in
      ebind (receive_some handle available error_code (take m stream) f w) (\<lambda>r.
        case r of
          Read_more f w \<Rightarrow> receive_all handle available error_code ks (drop m stream) f w
        | _ \<Rightarrow> Inr r))"

section \<open>The format\<close>

text \<open>A masked frame as a client writes it.\<close>

definition apply_mask :: "8 word list \<Rightarrow> 8 word list \<Rightarrow> 8 word list" where
  "apply_mask key bs = map (\<lambda>i. bs ! i XOR key ! (i mod 4)) [0..<length bs]"

definition first_byte :: "bool \<Rightarrow> 8 word \<Rightarrow> 8 word" where
  "first_byte final op = (if final then 0x80 else 0) OR op"

definition short_byte :: "nat \<Rightarrow> 8 word" where
  "short_byte n = 0x80 OR of_nat n"

definition length_bytes :: "nat \<Rightarrow> 8 word list" where
  "length_bytes n = (if n < 126 then [short_byte n] else [0xfe, of_nat (n div 256), of_nat (n mod 256)])"

definition client_frame :: "bool \<Rightarrow> 8 word \<Rightarrow> 8 word list \<Rightarrow> 8 word list \<Rightarrow> 8 word list" where
  "client_frame final op key payload =
     [first_byte final op] @ length_bytes (length payload) @ key @ apply_mask key payload"

lemma length_apply_mask [simp]: "length (apply_mask key bs) = length bs"
  by (simp add: apply_mask_def)

lemma apply_mask_twice: "apply_mask key (apply_mask key bs) = bs"
  by (rule nth_equalityI) (simp_all add: apply_mask_def xor.assoc)

end
