(* ===== verification/FramesOk.thy ===== *)
theory FramesOk
  imports Frames
begin

text \<open>
  What the parser of frames and the receiver do: they stay inside the buffer, deliver a frame that
  arrives in one read, drop what came behind it, and never complete a frame that came in two reads.
\<close>

unbundle bit_operations_syntax

section \<open>The steps in closed form\<close>

lemma efold_append: "efold f (is @ js) s = ebind (efold f is s) (efold f js)"
  by (induction "is" arbitrary: s) (auto simp: ebind_assoc intro: ebind_cong)

lemma byte_at_in [simp]: "i < length (data f) \<Longrightarrow> byte_at f i = Inr (data f ! i)"
  by (simp add: byte_at_def)

lemma four_bytes: "i + 4 \<le> length xs \<Longrightarrow> take 4 (drop i xs) = [xs ! i, xs ! (i + 1), xs ! (i + 2), xs ! (i + 3)]"
  by (simp add: take_Suc_conv_app_nth eval_nat_numeral)

lemma fetch_masking_key_eq:
  assumes "length (masking_key f) = 4" "pos f + 4 \<le> length (data f)"
  shows "fetch_masking_key f = Inr (f\<lparr>masking_key := take 4 (drop (pos f) (data f))\<rparr>)"
proof -
  obtain a b c d where "masking_key f = [a, b, c, d]"
    using assms(1) by (auto simp: eval_nat_numeral length_Suc_conv)
  moreover have "[0..<4] = [0::nat, 1, 2, 3]" by (simp add: upt_rec)
  ultimately show ?thesis
    using assms(2) by (simp add: fetch_masking_key_def four_bytes)
qed

definition unmasked :: "nat \<Rightarrow> ws_framedata \<Rightarrow> 8 word list" where
  "unmasked n f = take (pos f) (data f) @ apply_mask (masking_key f) (take n (drop (pos f) (data f))) @
     drop (pos f + n) (data f)"

lemma apply_mask_snoc:
  "apply_mask key (bs @ [b]) = apply_mask key bs @ [b XOR key ! (length bs mod 4)]"
  by (simp add: apply_mask_def nth_append)

lemma length_unmasked [simp]: "pos f + n \<le> length (data f) \<Longrightarrow> length (unmasked n f) = length (data f)"
  by (simp add: unmasked_def)

lemma unmasked_Suc:
  assumes "pos f + n < length (data f)"
  shows "unmasked (Suc n) f = (unmasked n f)[pos f + n := data f ! (pos f + n) XOR masking_key f ! (n mod 4)]"
    and "unmasked n f ! (pos f + n) = data f ! (pos f + n)"
proof -
  have here: "drop (pos f + n) (data f) = data f ! (pos f + n) # drop (Suc (pos f + n)) (data f)"
    using assms by (simp add: Cons_nth_drop_Suc)
  have "take (Suc n) (drop (pos f) (data f)) = take n (drop (pos f) (data f)) @ [data f ! (pos f + n)]"
    using assms by (simp add: take_Suc_conv_app_nth)
  then show "unmasked (Suc n) f = (unmasked n f)[pos f + n := data f ! (pos f + n) XOR masking_key f ! (n mod 4)]"
    using assms by (simp add: unmasked_def apply_mask_snoc list_update_append here)
  show "unmasked n f ! (pos f + n) = data f ! (pos f + n)"
    using assms by (simp add: unmasked_def nth_append here)
qed

lemma unmask_loop:
  assumes "pos f + n \<le> length (data f)"
  shows "efold unmask_byte [0..<n] f = Inr (f\<lparr>data := unmasked n f\<rparr>)"
  using assms
proof (induction n)
  case 0
  then show ?case by (simp add: unmasked_def apply_mask_def)
next
  case (Suc n)
  then show ?case
    using unmasked_Suc [of f n] by (simp add: efold_append unmask_byte_def)
qed

lemma unmasked_0 [simp]: "unmasked 0 f = data f"
  by (simp add: unmasked_def apply_mask_def)

text \<open>The status of a closing frame.\<close>

definition status_of :: "ws_framedata \<Rightarrow> nat" where
  "status_of f = (if opcode f \<noteq> OP_CLOSE then close_status f else if payload_length f < 2 then 1005
     else ntohs (data f ! pos f) (data f ! (pos f + 1)))"

lemma fetch_payload_eq:
  assumes "pos f + payload_length f \<le> length (data f)" "mask_flag f \<noteq> 0"
  shows "fetch_payload f = (let f = f\<lparr>data := unmasked (payload_length f) f\<rparr> in Inr (f\<lparr>close_status := status_of f\<rparr>))"
  using assms by (auto simp: fetch_payload_def unmask_loop status_of_def Let_def)

section \<open>One frame in one read\<close>

lemma length_bits:
  assumes "n < 126"
  shows "drop_bit 7 (short_byte n) = 1" "unat (short_byte n AND 0x7f) = n"
proof -
  have "list_all (\<lambda>n. drop_bit 7 (0x80 OR of_nat n :: 8 word) = 1 \<and> unat ((0x80 OR of_nat n :: 8 word) AND 0x7f) = n) [0..<126]"
    by code_simp
  with assms show "drop_bit 7 (short_byte n) = 1" "unat (short_byte n AND 0x7f) = n"
    by (simp_all add: list_all_iff short_byte_def)
qed

lemma head_bits:
  assumes "op < 16"
  shows "drop_bit 7 (first_byte final op) = (if final then 1 else 0)" "first_byte final op AND 0x0f = op"
proof -
  have all: "list_all (\<lambda>n. drop_bit 7 (0x80 OR of_nat n :: 8 word) = 1 \<and> drop_bit 7 (of_nat n :: 8 word) = 0 \<and>
      (0x80 OR of_nat n :: 8 word) AND 0x0f = of_nat n \<and> (of_nat n :: 8 word) AND 0x0f = of_nat n) [0..<16]"
    by code_simp
  have "unat op < 16" using assms by (simp add: word_less_nat_alt)
  with all have "drop_bit 7 (0x80 OR op) = 1" "drop_bit 7 op = 0" "(0x80 OR op) AND 0x0f = op" "op AND 0x0f = op"
    by (auto simp: list_all_iff dest!: bspec [of _ _ "unat op"])
  then show "drop_bit 7 (first_byte final op) = (if final then 1 else 0)" "first_byte final op AND 0x0f = op"
    by (simp_all add: first_byte_def)
qed

lemma long_length: "n < 65536 \<Longrightarrow> ntohs (of_nat (n div 256)) (of_nat (n mod 256)) = n"
  by (simp add: ntohs_def unat_of_nat)

definition header_size :: "nat \<Rightarrow> nat" where
  "header_size n = (if n < 126 then 6 else 8)"

lemma length_client_frame: "length key = 4 \<Longrightarrow> length (client_frame final op key payload) = header_size (length payload) + length payload"
  by (simp add: client_frame_def length_bytes_def header_size_def)

text \<open>The parser up to the payload, from a buffer that starts with a frame.\<close>

definition header_read :: "bool \<Rightarrow> 8 word \<Rightarrow> 8 word list \<Rightarrow> 8 word list \<Rightarrow> ws_framedata \<Rightarrow> bool" where
  "header_read final op key payload g \<longleftrightarrow>
     frame_state g = Mask_key_ok \<and> mask_flag g = 1 \<and> fin g = (if final then 1 else 0) \<and> opcode g = op \<and>
     masking_key g = key \<and> payload_length g = length payload \<and> pos g = header_size (length payload) \<and>
     data_pos g = header_size (length payload)"

lemma head_eq:
  "pos f < length (data f) \<Longrightarrow> parse_head n f =
     (let b = data f ! pos f in
      parse_length n (f\<lparr>fin := drop_bit 7 b, rsv1 := b AND 64, rsv2 := b AND 32, rsv3 := b AND 16, opcode := b AND 0x0f,
        pos := pos f + 1, frame_state := Fin_and_rsv_ok\<rparr>))"
  by (simp add: parse_head_def fetch_fin_def fetch_opcode_def Let_def)

lemma short_length_eq:
  "pos f < n \<Longrightarrow> pos f < length (data f) \<Longrightarrow> data f ! pos f = short_byte m \<Longrightarrow> m < 126 \<Longrightarrow> parse_length n f =
     parse_key n (f\<lparr>mask_flag := 1, payload_length := m, pos := pos f + 1, frame_state := Mask_and_payload_len_ok\<rparr>)"
  by (simp add: parse_length_def fetch_mask_def fetch_payload_length_def Let_def length_bits)

lemma long_length_eq:
  "pos f < n \<Longrightarrow> pos f + 2 < length (data f) \<Longrightarrow> data f ! pos f = 0xfe \<Longrightarrow>
   data f ! (pos f + 1) = of_nat (m div 256) \<Longrightarrow> data f ! (pos f + 2) = of_nat (m mod 256) \<Longrightarrow> m < 65536 \<Longrightarrow> parse_length n f =
     parse_key n (f\<lparr>mask_flag := 1, payload_length := m, pos := pos f + 3, frame_state := Mask_and_payload_len_ok\<rparr>)"
  by (simp add: numeral_3_eq_3 parse_length_def fetch_mask_def fetch_payload_length_def Let_def long_length)

lemma key_eq:
  "mask_flag f = 1 \<Longrightarrow> length (masking_key f) = 4 \<Longrightarrow> pos f + 4 \<le> n \<Longrightarrow> pos f + 4 \<le> length (data f) \<Longrightarrow> parse_key n f =
     parse_payload n (f\<lparr>masking_key := take 4 (drop (pos f) (data f)), pos := pos f + 4, data_pos := pos f + 4,
       frame_state := Mask_key_ok\<rparr>)"
  by (simp add: parse_key_def fetch_masking_key_eq Let_def)

lemma parse_start:
  assumes f: "frame_state f = Ready" "pos f = 0" "length (masking_key f) = 4"
    and key: "length key = 4" and op: "op < 16" and short: "length payload < 65536"
    and data: "data f = client_frame final op key payload @ rest"
    and n: "header_size (length payload) \<le> n"
  obtains g where "parse_frame f n = parse_payload n g" "header_read final op key payload g"
    "data_length g = data_length f + n" "data g = data f" "start_pos g = start_pos f"
proof -
  let ?h = "first_byte final op"
  let ?g = "f\<lparr>data_length := data_length f + n, fin := drop_bit 7 ?h, rsv1 := ?h AND 64, rsv2 := ?h AND 32,
    rsv3 := ?h AND 16, opcode := ?h AND 0x0f, mask_flag := 1, payload_length := length payload, masking_key := key,
    pos := header_size (length payload), data_pos := header_size (length payload), frame_state := Mask_key_ok\<rparr>"
  have "parse_frame f n = parse_payload n ?g"
  proof (cases "length payload < 126")
    case True
    then show ?thesis
      using assms
      by (simp add: parse_frame_def head_eq Let_def client_frame_def length_bytes_def short_length_eq key_eq header_size_def)
  next
    case False
    then show ?thesis
      using assms
      by (simp add: parse_frame_def head_eq Let_def client_frame_def length_bytes_def long_length_eq [where m = "length payload"] key_eq header_size_def)
  qed
  then show ?thesis by (rule that) (simp_all add: header_read_def head_bits op)
qed

section \<open>The parser stays in its buffer\<close>

definition frame_inv :: "ws_framedata \<Rightarrow> bool" where
  "frame_inv f \<longleftrightarrow> length (data f) = BUFFER_SIZE \<and> length (masking_key f) = 4 \<and> start_pos f = 0 \<and>
     data_length f \<le> BUFFER_SIZE \<and>
     (case frame_state f of
        Ready \<Rightarrow> pos f = 0
      | Fin_and_rsv_ok \<Rightarrow> pos f = 1
      | Mask_and_payload_len_ok \<Rightarrow> pos f \<le> 6
      | Mask_key_ok \<Rightarrow> pos f \<le> 10 \<and> mask_flag f = 1 \<and> data_pos f = pos f
      | Payload_data_ok \<Rightarrow> False)"

text \<open>What an answer leaves behind, with \<^verbatim>\<open>d\<close> the bytes counted so far.\<close>

definition outcome :: "nat \<Rightarrow> nat \<Rightarrow> framedata_result \<Rightarrow> ws_framedata \<Rightarrow> bool" where
  "outcome n d r g \<longleftrightarrow> length (data g) = BUFFER_SIZE \<and> length (masking_key g) = 4 \<and> data_length g = d \<and>
     (r = Frame_indeterminate \<longrightarrow> frame_inv g) \<and>
     (r = Frame_ok \<longrightarrow> frame_state g = Payload_data_ok \<and> data_pos g + payload_length g = pos g \<and> pos g \<le> n)"

definition inside :: "nat \<Rightarrow> nat \<Rightarrow> frame_answer \<Rightarrow> bool" where
  "inside n d a \<longleftrightarrow> (\<exists>r g. a = Inr (r, g) \<and> outcome n d r g)"

definition room :: "nat \<Rightarrow> ws_framedata \<Rightarrow> bool" where
  "room d f \<longleftrightarrow> length (data f) = BUFFER_SIZE \<and> length (masking_key f) = 4 \<and> start_pos f = 0 \<and> data_length f = d \<and> d \<le> BUFFER_SIZE"

lemma parse_payload_inside:
  assumes "room d f" "frame_state f = Mask_key_ok" "pos f \<le> 10" "mask_flag f = 1" "data_pos f = pos f" "n \<le> BUFFER_SIZE"
  shows "inside n d (parse_payload n f)"
  using assms
  by (auto simp: inside_def parse_payload_def room_def outcome_def frame_inv_def fetch_payload_eq Let_def)

lemma parse_key_inside:
  assumes "room d f" "frame_state f = Mask_and_payload_len_ok" "pos f \<le> 6" "n \<le> BUFFER_SIZE"
  shows "inside n d (parse_key n f)"
proof (cases "mask_flag f = 1 \<and> pos f + 4 \<le> n")
  case True
  have "inside n d (parse_payload n (f\<lparr>masking_key := take 4 (drop (pos f) (data f)), pos := pos f + 4, data_pos := pos f + 4,
       frame_state := Mask_key_ok\<rparr>))"
    using assms True by (intro parse_payload_inside) (auto simp: room_def)
  then show ?thesis using assms True by (simp add: key_eq room_def)
next
  case False
  then show ?thesis
    using assms by (auto simp: inside_def parse_key_def room_def outcome_def frame_inv_def)
qed

lemma fetch_length_inside:
  assumes "room d f" "pos f = 1"
  shows "\<exists>g. fetch_payload_length f = Inr g \<and> room d g \<and> pos g \<le> 6"
  using assms by (simp add: fetch_payload_length_def Let_def room_def BUFFER_SIZE_def)

lemma parse_length_inside:
  assumes "room d f" "frame_state f = Fin_and_rsv_ok" "pos f = 1" "n \<le> BUFFER_SIZE"
  shows "inside n d (parse_length n f)"
proof (cases "1 < n")
  case True
  let ?f = "f\<lparr>mask_flag := drop_bit 7 (data f ! 1)\<rparr>"
  obtain g where g: "fetch_payload_length ?f = Inr g" "room d g" "pos g \<le> 6"
    using fetch_length_inside [of d ?f] assms by (auto simp: room_def)
  have "inside n d (parse_key n (g\<lparr>frame_state := Mask_and_payload_len_ok\<rparr>))"
    using g assms(4) by (intro parse_key_inside) (auto simp: room_def)
  then show ?thesis
    using True g(1) assms by (simp add: parse_length_def fetch_mask_def room_def BUFFER_SIZE_def)
next
  case False
  then show ?thesis
    using assms by (auto simp: inside_def parse_length_def room_def outcome_def frame_inv_def)
qed

lemma parse_head_inside:
  assumes "room d f" "frame_state f = Ready" "pos f = 0" "n \<le> BUFFER_SIZE"
  shows "inside n d (parse_head n f)"
proof -
  have "pos f < length (data f)" using assms by (simp add: room_def BUFFER_SIZE_def)
  then show ?thesis
    unfolding head_eq [OF \<open>pos f < length (data f)\<close>] Let_def
    using assms by (intro parse_length_inside) (simp_all add: room_def)
qed

lemma parse_frame_inside:
  assumes "frame_inv f" "data_length f + n \<le> BUFFER_SIZE"
  shows "inside n (data_length f + n) (parse_frame f n)"
proof -
  let ?f = "f\<lparr>data_length := data_length f + n\<rparr>"
  have "room (data_length f + n) ?f" "n \<le> BUFFER_SIZE" using assms by (auto simp: room_def frame_inv_def)
  then show ?thesis
    using assms(1)
    by (cases "frame_state f")
      (auto simp: parse_frame_def Let_def frame_inv_def
        intro!: parse_head_inside parse_length_inside parse_key_inside parse_payload_inside)
qed

section \<open>Properties\<close>

lemma receive_end:
  assumes "frame_state f = Payload_data_ok"
  shows "on_data_received (Suc 0) handle available error_code n f w =
    Inr (Read_more (frame_reset (f\<lparr>data_length := data_length f + n\<rparr>)) w)"
  using assms by (simp add: parse_frame_def Let_def)

lemma frame_reset_twice [simp]: "frame_reset (frame_reset f) = frame_reset f"
  "frame_reset (f\<lparr>data_length := d\<rparr>) = frame_reset f"
  by (simp_all add: frame_reset_def)

text \<open>With a frame delivered, the receiver is done, whatever else is in the buffer.\<close>

lemma received_cases:
  assumes "inside n d (parse_frame f n)"
  obtains (frame) g where "parse_frame f n = Inr (Frame_ok, g)" "outcome n d Frame_ok g"
      "on_data_received 2 handle available error_code n f w =
       ebind (handle g w) (\<lambda>(d, w). Inr (if available w then Read_more (frame_reset (g\<lparr>data := d\<rparr>)) w else Closing (error_code w) w))"
  | (none) g where "on_data_received 2 handle available error_code n f w = Inr (Read_more g w)"
      "frame_inv g \<and> data_length g = d \<or> (\<exists>g'. outcome n d Frame_error g' \<and> g = frame_reset g')"
  | (full) "on_data_received 2 handle available error_code n f w = Inr (Closing DATA_OUT_OF_BUFFER w)" "n = BUFFER_SIZE"
proof -
  obtain r g where g: "parse_frame f n = Inr (r, g)" "outcome n d r g" using assms by (auto simp: inside_def)
  have two: "2 = Suc (Suc 0)" by simp
  show ?thesis
  proof (cases r)
    case Frame_ok
    have "frame_state (g\<lparr>data := d\<rparr>) = Payload_data_ok" for d using g(2) Frame_ok by (simp add: outcome_def)
    from receive_end [OF this, of handle available error_code n] show ?thesis
      using Frame_ok g by (intro frame [of g]) (auto simp: two Let_def intro!: ebind_cong)
  next
    case Frame_error
    then show ?thesis using g by (intro none [of "frame_reset g"]) (auto simp: two)
  next
    case Frame_indeterminate
    then have inv: "frame_inv g" "data_length g = d" using g(2) by (simp_all add: outcome_def)
    then have "start_pos g = 0" by (simp add: frame_inv_def)
    then show ?thesis
      using g(1) Frame_indeterminate inv
      by (cases "n = BUFFER_SIZE") (simp_all add: full none [of g] two)
  qed
qed

lemma reset_inv:
  "length (data g) = BUFFER_SIZE \<Longrightarrow> length (masking_key g) = 4 \<Longrightarrow> frame_inv (frame_reset g)"
  by (simp add: frame_inv_def frame_reset_def)

text \<open>Faults come from the handler only; the receiver returns, and with a well-formed frame if it reads on.\<close>

fun within :: "(ws_framedata \<Rightarrow> 'w \<Rightarrow> (8 word list \<times> 'w) result) \<Rightarrow> 'w received result \<Rightarrow> bool" where
  "within handle (Inl e) \<longleftrightarrow> (\<exists>g w. handle g w = Inl e)"
| "within handle (Inr (Read_more g w)) \<longleftrightarrow> frame_inv g"
| "within handle (Inr (Closing code w)) \<longleftrightarrow> True"
| "within handle (Inr Out_of_fuel) \<longleftrightarrow> False"

definition keeps_size :: "(ws_framedata \<Rightarrow> 'w \<Rightarrow> (8 word list \<times> 'w) result) \<Rightarrow> bool" where
  "keeps_size handle \<longleftrightarrow> (\<forall>g w d w'. handle g w = Inr (d, w') \<longrightarrow> length d = length (data g))"

text \<open>
  The same with an invariant of the client: a fault is the handler's, on a frame that lies in the buffer and in a state
  that satisfies the invariant.
\<close>

definition whole_frame :: "ws_framedata \<Rightarrow> bool" where
  "whole_frame g \<longleftrightarrow> length (data g) = BUFFER_SIZE \<and> data_pos g + payload_length g \<le> BUFFER_SIZE"

fun goes_well :: "(ws_framedata \<Rightarrow> 'w \<Rightarrow> (8 word list \<times> 'w) result) \<Rightarrow> ('w \<Rightarrow> bool) \<Rightarrow> 'w received result \<Rightarrow> bool" where
  "goes_well handle I (Inl e) \<longleftrightarrow> (\<exists>g w. whole_frame g \<and> I w \<and> handle g w = Inl e)"
| "goes_well handle I (Inr (Read_more g w)) \<longleftrightarrow> frame_inv g \<and> I w"
| "goes_well handle I (Inr (Closing code w)) \<longleftrightarrow> I w"
| "goes_well handle I (Inr Out_of_fuel) \<longleftrightarrow> False"

lemma receive_some_well:
  assumes "frame_inv f" "length bs \<le> BUFFER_SIZE - data_length f" "keeps_size handle" "I w"
    and keep: "\<And>g w d w'. I w \<Longrightarrow> handle g w = Inr (d, w') \<Longrightarrow> I w'"
  shows "goes_well handle I (receive_some handle available error_code bs f w)"
proof -
  have fits: "data_length f + length bs \<le> BUFFER_SIZE" using assms by (auto simp: frame_inv_def)
  obtain f' where f': "arrive bs f = Inr f'" "frame_inv f'" "data_length f' = data_length f"
    using assms(1) fits by (auto simp: arrive_def frame_inv_def split: frame_state.splits)
  have "inside (length bs) (data_length f + length bs) (parse_frame f' (length bs))"
    using parse_frame_inside [of f' "length bs"] f' fits by simp
  then show ?thesis
  proof (cases rule: received_cases [where handle = handle and available = available and error_code = error_code and w = w])
    case (frame g)
    have g: "whole_frame g" using frame(2) fits by (simp add: outcome_def whole_frame_def)
    show ?thesis
    proof (cases "handle g w")
      case (Inl e)
      then show ?thesis using f'(1) frame g assms(4) by (auto simp: receive_some_def)
    next
      case (Inr r)
      obtain d w' where r: "r = (d, w')" by (cases r)
      have "length d = length (data g)" using Inr r assms(3) unfolding keeps_size_def by blast
      then have "length d = BUFFER_SIZE" using frame(2) by (simp add: outcome_def)
      moreover have "I w'" using keep [OF assms(4)] Inr r by simp
      ultimately show ?thesis
        using Inr r f'(1) frame reset_inv [of "g\<lparr>data := d\<rparr>"] by (simp add: receive_some_def outcome_def)
    qed
  next
    case (none g)
    then show ?thesis using f'(1) reset_inv assms(4) by (auto simp: receive_some_def outcome_def)
  next
    case full
    then show ?thesis using f'(1) assms(4) by (simp add: receive_some_def)
  qed
qed

lemma receive_all_well:
  assumes "frame_inv f" "keeps_size handle" "I w"
    and keep: "\<And>g w d w'. I w \<Longrightarrow> handle g w = Inr (d, w') \<Longrightarrow> I w'"
  shows "goes_well handle I (receive_all handle available error_code ks stream f w)"
  using assms(1,3)
proof (induction ks arbitrary: stream f w)
  case (Cons k ks)
  let ?m = "min k (BUFFER_SIZE - data_length f)"
  have "goes_well handle I (receive_some handle available error_code (take ?m stream) f w)"
    by (rule receive_some_well [where I = I, OF Cons.prems(1) _ assms(2) Cons.prems(2)]) (simp, rule keep)
  then show ?case
    using Cons.IH by (auto simp: Let_def elim!: goes_well.elims) blast
qed simp

lemma well_within: "goes_well handle I r \<Longrightarrow> within handle r"
  by (auto elim!: goes_well.elims) blast

lemma all_reads_within:
  assumes "frame_inv f" "keeps_size handle"
  shows "within handle (receive_all handle available error_code ks stream f w)"
  by (rule well_within [OF receive_all_well [OF assms, of "\<lambda>_. True"]]) simp_all

text \<open>
  C27. Whatever bytes a peer sends, and however the network cuts them into reads, the receiver never
  leaves its buffer: as long as the handler of frames keeps the buffer's size, the only faults are those of the handler, two passes are enough for every
  read, and the frame is well formed before the next read.
\<close>
theorem reads_stay_inside:
  assumes "frame_inv f" "keeps_size handle"
  shows "within handle (receive_all handle available error_code ks stream f w)"
  by (rule all_reads_within [OF assms])

definition some_buffer :: ws_framedata where
  "some_buffer = \<lparr>frame_state = Ready, fin = 0, rsv1 = 0, rsv2 = 0, rsv3 = 0, opcode = 0, mask_flag = 0,
     masking_key = replicate 4 0, payload_length = 0, data_pos = 0, pos = 0, data_length = 0, start_pos = 0, close_status = 0,
     data = replicate BUFFER_SIZE 7\<rparr>"

lemma reads_stay_inside_witness:
  "within (\<lambda>f w. Inr (data f, w + 1)) (receive_all (\<lambda>f w. Inr (data f, w + 1)) (\<lambda>_. True) (\<lambda>_. 0) [3, 1000, 24, 5]
     [0x81, 0x82, 1, 2, 3] some_buffer (0::nat))"
proof -
  have "frame_inv some_buffer" by (simp add: frame_inv_def some_buffer_def)
  then show ?thesis by (rule reads_stay_inside) (simp add: keeps_size_def)
qed

lemma frame_split:
  assumes "length key = 4"
  obtains hdr where "client_frame final op key payload = hdr @ apply_mask key payload" "length hdr = header_size (length payload)"
  using assms by (intro that [of "[first_byte final op] @ length_bytes (length payload) @ key"])
    (simp_all add: client_frame_def length_bytes_def header_size_def)

lemma frame_reset_eq: "frame_reset g = frame_reset f\<lparr>masking_key := masking_key g, data := data g\<rparr>"
  by (cases f; cases g) (simp add: frame_reset_def)

lemma frame_parsed:
  assumes "frame_state f = Ready" "pos f = 0" "length (masking_key f) = 4" "length key = 4" "op < 16" "length payload < 65536"
    and data: "data f = client_frame final op key payload @ rest" and n: "header_size (length payload) + length payload \<le> n"
  obtains g where "parse_frame f n = Inr (Frame_ok, g)" "frame_state g = Payload_data_ok"
    "fin g = (if final then 1 else 0)" "opcode g = op" "masking_key g = key" "payload_length g = length payload"
    "drop (data_pos g) (data g) = payload @ rest"
proof -
  have "header_size (length payload) \<le> n" using n by simp
  then obtain g where g: "parse_frame f n = parse_payload n g" "header_read final op key payload g"
    "data_length g = data_length f + n" "data g = data f"
    by (rule parse_start [OF assms(1-7)])
  obtain hdr where hdr: "data f = hdr @ apply_mask key payload @ rest" "length hdr = header_size (length payload)"
    using frame_split [OF assms(4), of final op payload] data by auto
  let ?h = "header_size (length payload)" and ?d = "hdr @ payload @ rest"
  let ?g = "g\<lparr>data := ?d, close_status := status_of (g\<lparr>data := ?d\<rparr>), pos := ?h + length payload, start_pos := ?h + length payload,
     frame_state := Payload_data_ok\<rparr>"
  have "unmasked (length payload) g = ?d"
    using g(2,4) hdr by (simp add: unmasked_def header_read_def apply_mask_twice)
  then have "parse_frame f n = Inr (Frame_ok, ?g)"
    using g(1,2,4) hdr n by (simp add: parse_payload_def header_read_def fetch_payload_eq Let_def)
  then show ?thesis
    by (rule that) (use g(2) hdr(2) in \<open>simp_all add: header_read_def\<close>)
qed

lemma first_frame_delivered:
  fixes final :: bool and op :: "8 word" and key payload behind :: "8 word list"
  defines "bs \<equiv> client_frame final op key payload"
  assumes "length (data f) = BUFFER_SIZE" "length (masking_key f) = 4"
    and "length key = 4" "op < 16" "length bs + length behind \<le> BUFFER_SIZE"
  shows "\<exists>g. receive_some handle available error_code (bs @ behind) (frame_reset f) w =
      ebind (handle g w) (\<lambda>(d, w). Inr (if available w then Read_more (frame_reset f\<lparr>masking_key := key, data := d\<rparr>) w
        else Closing (error_code w) w)) \<and>
    fin g = (if final then 1 else 0) \<and> opcode g = op \<and> payload_length g = length payload \<and>
    drop (data_pos g) (data g) = payload @ behind @ drop (length bs + length behind) (data f)"
proof -
  let ?rest = "behind @ drop (length bs + length behind) (data f)"
  let ?f = "frame_reset f\<lparr>data := bs @ ?rest\<rparr>" and ?n = "length (bs @ behind)"
  have size: "length bs = header_size (length payload) + length payload" using assms by (simp add: length_client_frame)
  have arrive: "arrive (bs @ behind) (frame_reset f) = Inr ?f"
    using assms by (simp add: arrive_def frame_reset_def)
  have short: "length payload < 65536" using assms(6) size by (simp add: BUFFER_SIZE_def)
  have ready: "frame_state ?f = Ready" "pos ?f = 0" "length (masking_key ?f) = 4"
    using assms(3) by (simp_all add: frame_reset_def)
  have start: "data ?f = client_frame final op key payload @ ?rest" "header_size (length payload) + length payload \<le> ?n"
    using size by (simp_all add: assms(1))
  obtain g where g: "parse_frame ?f ?n = Inr (Frame_ok, g)" "frame_state g = Payload_data_ok"
    "fin g = (if final then 1 else 0)" "opcode g = op" "masking_key g = key" "payload_length g = length payload"
    "drop (data_pos g) (data g) = payload @ ?rest"
    by (rule frame_parsed [OF ready assms(4,5) short start])
  have two: "2 = Suc (Suc 0)" by simp
  have reset: "frame_reset f\<lparr>masking_key := key, data := d\<rparr> = frame_reset (g\<lparr>data := d\<rparr>)" for d
    using frame_reset_eq [of "g\<lparr>data := d\<rparr>" f] g(5) by simp
  have done_state: "frame_state (g\<lparr>data := d\<rparr>) = Payload_data_ok" for d using g(2) by simp
  have "receive_some handle available error_code (bs @ behind) (frame_reset f) w =
      ebind (handle g w) (\<lambda>(d, w). Inr (if available w then Read_more (frame_reset (g\<lparr>data := d\<rparr>)) w else Closing (error_code w) w))"
    unfolding receive_some_def arrive ebind_simps using g(1) receive_end [OF done_state, of handle available error_code ?n]
    by (auto simp: two Let_def intro!: ebind_cong)
  then show ?thesis using g(3,4,6,7) unfolding reset [symmetric] by (intro exI [of _ g] conjI)
qed

text \<open>
  C28. A whole frame of a client that arrives in one read is delivered once, with its final flag and its code,
  its payload unmasked in place and the bytes behind the payload as they were. Whatever came behind it in the same read
  is thrown away with the reset: a second frame in the same read is never delivered.
\<close>
theorem first_frame_of_a_read:
  fixes final :: bool and op :: "8 word" and key payload behind :: "8 word list"
  defines "bs \<equiv> client_frame final op key payload"
  assumes "length (data f) = BUFFER_SIZE" "length (masking_key f) = 4"
    and "length key = 4" "op < 16" "length bs + length behind \<le> BUFFER_SIZE"
  shows "\<exists>g. receive_some handle available error_code (bs @ behind) (frame_reset f) w =
      ebind (handle g w) (\<lambda>(d, w). Inr (if available w then Read_more (frame_reset f\<lparr>masking_key := key, data := d\<rparr>) w
        else Closing (error_code w) w)) \<and>
    fin g = (if final then 1 else 0) \<and> opcode g = op \<and> payload_length g = length payload \<and>
    drop (data_pos g) (data g) = payload @ behind @ drop (length bs + length behind) (data f)"
  using first_frame_delivered assms(2-) unfolding bs_def .

lemma first_frame_of_a_read_witness:
  "\<exists>g. receive_some (\<lambda>f w. Inr (data f, w + payload_length f)) (\<lambda>_. True) (\<lambda>_. 0)
      (client_frame True OP_TEXT [1, 2, 3, 4] [65, 66] @ client_frame True OP_TEXT [1, 2, 3, 4] [67]) (frame_reset some_buffer) (0 :: nat) =
    Inr (Read_more g 2)"
  using first_frame_of_a_read [of some_buffer "[1, 2, 3, 4]" OP_TEXT True "[65, 66]" "client_frame True OP_TEXT [1, 2, 3, 4] [67]"
      "\<lambda>f w. Inr (data f, w + payload_length f)" "\<lambda>_. True" "\<lambda>_. 0" 0]
  by (auto simp: some_buffer_def OP_TEXT_def length_client_frame header_size_def BUFFER_SIZE_def)

section \<open>A frame in two reads\<close>

text \<open>The states of the parser before the payload of a short frame.\<close>

definition awaiting :: "nat \<Rightarrow> ws_framedata \<Rightarrow> bool" where
  "awaiting m g \<longleftrightarrow> length (masking_key g) = 4 \<and>
     (frame_state g = Ready \<and> pos g = 0 \<or>
      frame_state g = Fin_and_rsv_ok \<and> pos g = 1 \<or>
      frame_state g = Mask_and_payload_len_ok \<and> pos g = 2 \<and> mask_flag g = 1 \<and> payload_length g = m \<or>
      frame_state g = Mask_key_ok \<and> pos g = 6 \<and> payload_length g = m)"

definition waits :: "nat \<Rightarrow> nat \<Rightarrow> ws_framedata \<Rightarrow> frame_answer \<Rightarrow> bool" where
  "waits m d g a \<longleftrightarrow> (\<exists>g'. a = Inr (Frame_indeterminate, g') \<and> awaiting m g' \<and> data g' = data g \<and>
     start_pos g' = start_pos g \<and> data_length g' = d)"

lemma payload_waits:
  "awaiting m g \<Longrightarrow> frame_state g = Mask_key_ok \<Longrightarrow> n < 6 + m \<Longrightarrow> waits m (data_length g) g (parse_payload n g)"
  by (auto simp: waits_def parse_payload_def awaiting_def)

lemma key_waits:
  assumes "awaiting m g" "frame_state g = Mask_and_payload_len_ok" "n < 6 + m" "n \<le> length (data g)"
  shows "waits m (data_length g) g (parse_key n g)"
proof (cases "6 \<le> n")
  case True
  let ?g = "g\<lparr>masking_key := take 4 (drop 2 (data g)), pos := 6, data_pos := 6, frame_state := Mask_key_ok\<rparr>"
  have "parse_key n g = parse_payload n ?g"
    using assms True by (simp add: key_eq awaiting_def)
  moreover have "waits m (data_length g) g (parse_payload n ?g)"
    using assms True by (auto simp: waits_def parse_payload_def awaiting_def)
  ultimately show ?thesis by simp
next
  case False
  then show ?thesis using assms by (auto simp: waits_def parse_key_def awaiting_def)
qed

lemma length_waits:
  assumes "awaiting m g" "frame_state g = Fin_and_rsv_ok" "n < 6 + m" "n \<le> length (data g)"
    and "1 < n \<longrightarrow> data g ! 1 = short_byte m" "m < 126"
  shows "waits m (data_length g) g (parse_length n g)"
proof (cases "1 < n")
  case True
  let ?g = "g\<lparr>mask_flag := 1, payload_length := m, pos := 2, frame_state := Mask_and_payload_len_ok\<rparr>"
  have "parse_length n g = parse_key n ?g"
    using assms True by (simp add: short_length_eq [of g n m] awaiting_def numeral_2_eq_2)
  moreover have "waits m (data_length ?g) ?g (parse_key n ?g)"
    using assms by (intro key_waits) (simp_all add: awaiting_def)
  ultimately show ?thesis by (simp add: waits_def)
next
  case False
  then show ?thesis using assms by (auto simp: waits_def parse_length_def awaiting_def)
qed

lemma frame_waits:
  assumes "awaiting m g" "0 < n" "n < 6 + m" "n \<le> length (data g)" "1 < n \<longrightarrow> data g ! 1 = short_byte m" "m < 126"
  shows "waits m (data_length g + n) g (parse_frame g n)"
proof -
  let ?g = "g\<lparr>data_length := data_length g + n\<rparr>"
  have aw: "awaiting m ?g" using assms(1) by (simp add: awaiting_def)
  consider (ready) "frame_state g = Ready" "pos g = 0" | (fin) "frame_state g = Fin_and_rsv_ok"
    | (len) "frame_state g = Mask_and_payload_len_ok" | (key) "frame_state g = Mask_key_ok"
    using assms(1) by (auto simp: awaiting_def)
  then show ?thesis
  proof cases
    case ready
    let ?b = "data g ! 0"
    let ?h = "?g\<lparr>fin := drop_bit 7 ?b, rsv1 := ?b AND 64, rsv2 := ?b AND 32, rsv3 := ?b AND 16, opcode := ?b AND 0x0f,
      pos := 1, frame_state := Fin_and_rsv_ok\<rparr>"
    have "waits m (data_length ?h) ?h (parse_length n ?h)"
      using assms by (intro length_waits) (auto simp: awaiting_def)
    moreover have "0 < length (data g)" using assms(2,4) by linarith
    ultimately show ?thesis using ready by (simp add: parse_frame_def head_eq Let_def waits_def)
  next
    case fin
    then show ?thesis using length_waits [of m ?g n] aw assms by (simp add: parse_frame_def waits_def)
  next
    case len
    then show ?thesis using key_waits [of m ?g n] aw assms by (simp add: parse_frame_def waits_def)
  next
    case key
    then show ?thesis using payload_waits [of m ?g n] aw assms by (simp add: parse_frame_def waits_def)
  qed
qed

lemma receive_waits:
  assumes "arrive bs f = Inr f'" "waits m d f' (parse_frame f' (length bs))" "start_pos f' = 0" "length bs < BUFFER_SIZE"
  shows "\<exists>g. receive_some handle available error_code bs f w = Inr (Read_more g w) \<and> awaiting m g \<and> data g = data f' \<and>
    data_length g = d \<and> start_pos g = 0"
proof -
  obtain g where "parse_frame f' (length bs) = Inr (Frame_indeterminate, g)" "awaiting m g" "data g = data f'" "start_pos g = 0"
    "data_length g = d"
    using assms(2,3) by (auto simp: waits_def)
  moreover have two: "2 = Suc (Suc 0)" by simp
  ultimately show ?thesis using assms(1,4) by (simp add: receive_some_def two)
qed

text \<open>
  C29. A frame with a payload of less than 126 bytes that the network cuts in two is never completed by its second part: the parser
  compares the position in the buffer with the length of the last read only, and that is shorter than the frame. Wherever the
  cut is, the receiver reads on and nothing is delivered. (The length of a longer payload takes two more bytes, and a cut
  right before them lets the parser read a length that was left in the buffer: see \<open>cut_long_frame\<close>.)
\<close>
theorem cut_frame_waits:
  fixes final :: bool and op :: "8 word" and key payload :: "8 word list"
  defines "bs \<equiv> client_frame final op key payload"
  assumes "length (data f) = BUFFER_SIZE" "length (masking_key f) = 4"
    and "length key = 4" "length payload < 126" "0 < k" "k < length bs"
  shows "\<exists>g. receive_all handle available error_code [k, length bs - k] bs (frame_reset f) w = Inr (Read_more g w) \<and>
    data_length g = length bs \<and> take (length bs) (data g) = bs"
proof -
  let ?m = "length payload" and ?f = "frame_reset f" and ?n = "length bs"
  have size: "?n = 6 + ?m" "?n < BUFFER_SIZE"
    using assms(4,5) by (simp_all add: length_client_frame header_size_def BUFFER_SIZE_def bs_def)
  have nth1: "bs ! 1 = short_byte ?m" using assms(5) by (simp add: bs_def client_frame_def length_bytes_def)
  have f: "awaiting ?m ?f" "data_length ?f = 0" "start_pos ?f = 0" "length (data ?f) = BUFFER_SIZE"
    using assms(2,3) by (simp_all add: awaiting_def frame_reset_def)
  let ?f1 = "?f\<lparr>data := take k bs @ drop k (data f)\<rparr>"
  have a1: "arrive (take k bs) ?f = Inr ?f1"
    using assms(2,7) f size by (simp add: arrive_def frame_reset_def)
  have "waits ?m (data_length ?f1 + k) ?f1 (parse_frame ?f1 k)"
    using assms f size nth1 by (intro frame_waits) (auto simp: awaiting_def nth_append)
  then have w1: "waits ?m k ?f1 (parse_frame ?f1 (length (take k bs)))" using f assms(7) by simp
  obtain g where g: "receive_some handle available error_code (take k bs) ?f w = Inr (Read_more g w)" "awaiting ?m g"
    "data g = take k bs @ drop k (data f)" "data_length g = k" "start_pos g = 0"
    using receive_waits [OF a1 w1, of handle available error_code w] f size assms(7) by auto
  let ?g1 = "g\<lparr>data := bs @ drop ?n (data f)\<rparr>"
  have a2: "arrive (drop k bs) g = Inr ?g1"
    using assms(2,7) g size by (simp add: arrive_def)
  have "waits ?m (data_length ?g1 + (?n - k)) ?g1 (parse_frame ?g1 (?n - k))"
    using assms g size nth1 by (intro frame_waits) (auto simp: awaiting_def nth_append)
  then have w2: "waits ?m ?n ?g1 (parse_frame ?g1 (length (drop k bs)))" using g assms(7) by simp
  have lt: "length (drop k bs) < BUFFER_SIZE" using size by simp
  obtain h where h: "receive_some handle available error_code (drop k bs) g w = Inr (Read_more h w)"
    "data h = bs @ drop ?n (data f)" "data_length h = ?n"
    using receive_waits [OF a2 w2 _ lt, of handle available error_code w] g(5) by auto
  have "min k (BUFFER_SIZE - data_length ?f) = k" "min (?n - k) (BUFFER_SIZE - data_length g) = ?n - k"
    using f g size assms(7) by auto
  then show ?thesis using g(1) h by (simp add: Let_def)
qed

definition empty_frames :: "nat list received result \<Rightarrow> nat list" where
  "empty_frames r = (case r of Inr (Read_more f w) \<Rightarrow> w | _ \<Rightarrow> [])"

lemma cut_long_frame:
  "empty_frames (receive_all (\<lambda>f w. Inr (data f, w @ [payload_length f])) (\<lambda>_. True) (\<lambda>_. 0) [2, 206]
     (client_frame True OP_TEXT [1, 2, 3, 4] (replicate 200 65)) (frame_reset (some_buffer\<lparr>data := replicate BUFFER_SIZE 0\<rparr>)) []) = [0]"
  by code_simp

lemma cut_frame_waits_witness:
  "\<exists>g. receive_all (\<lambda>f w. Inr (data f, w + 1)) (\<lambda>_. True) (\<lambda>_. 0) [6, 2] (client_frame True OP_TEXT [1, 2, 3, 4] [65, 66])
      (frame_reset some_buffer) (0 :: nat) = Inr (Read_more g 0)"
proof -
  let ?bs = "client_frame True OP_TEXT [1, 2, 3, 4] [65, 66]"
  have "length ?bs = 8" by (simp add: length_client_frame header_size_def)
  then have "\<exists>g. receive_all (\<lambda>f w. Inr (data f, w + 1)) (\<lambda>_. True) (\<lambda>_. 0) [6, length ?bs - 6] ?bs (frame_reset some_buffer) (0 :: nat) =
      Inr (Read_more g 0) \<and> data_length g = length ?bs \<and> take (length ?bs) (data g) = ?bs"
    by (intro cut_frame_waits) (simp_all add: some_buffer_def)
  then show ?thesis unfolding \<open>length ?bs = 8\<close> by (auto simp del: receive_all.simps)
qed

end
