(* ===== verification/Connection.thy ===== *)
theory Connection
  imports Dispatch FramesOk SendRefine
begin

text \<open>
  From the bytes of a peer to a command handler (\<^verbatim>\<open>game_client::on_frame_data\<close>,
  \<^verbatim>\<open>command_dispatcher::on_client_framedata\<close>): a data frame is a line of the client, taken as a C string
  from the receive buffer; a closing frame is answered with one. The receiver, the dispatcher and the card
  game are put together here. Messages to be written are recorded.
\<close>

section \<open>A frame of a client\<close>

record session =
  session_line :: line_state
  session_plugin :: ddz_plugin
  posted :: "message list"

definition char_of_byte :: "8 word \<Rightarrow> char" where
  "char_of_byte b = char_of (unat b)"

definition byte_of_char :: "char \<Rightarrow> 8 word" where
  "byte_of_char c = of_nat (of_char c)"

text \<open>
  \<^verbatim>\<open>&framedata->data[framedata->data_pos_]\<close> as a C string: without a terminator before the end of the
  buffer, \<^verbatim>\<open>strlen\<close> runs out of it. The tokenizer writes its terminators into the buffer.
\<close>

definition on_client_framedata ::
    "bool \<Rightarrow> int \<Rightarrow> ddz_plugin handles \<Rightarrow> cid \<Rightarrow> ws_framedata \<Rightarrow> session \<Rightarrow> (8 word list \<times> session) result" where
  "on_client_framedata running now handles c f st =
     (if opcode f = 0 \<or> opcode f = OP_TEXT \<or> opcode f = 2 then
        let bytes = drop (data_pos f) (data f) in
        if 0 \<notin> set bytes then Inl Out_of_bounds
        else ebind (on_client_data running now handles c (map char_of_byte bytes) (session_line st, session_plugin st)) (\<lambda>(ls, w).
          Inr (take (data_pos f) (data f) @ map byte_of_char (command_data (line_command ls)),
               st\<lparr>session_line := ls, session_plugin := w\<rparr>))
      else if opcode f = OP_CLOSE then Inr (data f, st\<lparr>posted := posted st @ [Framed True 8 []]\<rparr>)
      else Inr (data f, st))"

definition session_available :: "cid \<Rightarrow> session \<Rightarrow> bool" where
  "session_available c st = (case clients (session_plugin st) c of None \<Rightarrow> False | Some r \<Rightarrow> client_available r)"

definition session_error :: "cid \<Rightarrow> session \<Rightarrow> int" where
  "session_error c st = (case clients (session_plugin st) c of None \<Rightarrow> 0 | Some r \<Rightarrow> client_error r)"

definition on_frame_data ::
    "bool \<Rightarrow> int \<Rightarrow> ddz_plugin handles \<Rightarrow> cid \<Rightarrow> ws_framedata \<Rightarrow> session \<Rightarrow> (8 word list \<times> session) result" where
  "on_frame_data running now handles c f st =
     (if session_available c st then on_client_framedata running now handles c f st else Inr (data f, st))"

section \<open>Facts\<close>

lemma byte_of_char_of_byte [simp]: "byte_of_char (char_of_byte b) = b"
proof -
  have "unat b < 2 ^ LENGTH(8)" by (rule unsigned_less)
  then show ?thesis by (simp add: byte_of_char_def char_of_byte_def)
qed

lemma char_of_byte_of_char [simp]: "char_of_byte (byte_of_char c) = c"
  by (simp add: byte_of_char_def char_of_byte_def unat_of_nat)

lemma on_client_data_line:
  assumes "the_client w c = Inr r" "client_available r" "on_client_data running now handles c s (ls, w) = Inr (ls', w')"
  shows "line_command ls' = command_reset s (line_command ls)"
  using assms
  by (auto simp: on_client_data_def plugin_on_client_command_def Let_def ebind_eq_Inr split: if_splits prod.splits)

lemma available_client:
  "session_available c st \<Longrightarrow> \<exists>r. the_client (session_plugin st) c = Inr r \<and> client_available r"
  by (auto simp: session_available_def the_client_def split: option.splits)

lemma frame_data_keeps_size: "keeps_size (on_frame_data running now handles c)"
proof -
  have "length d = length (data g)"
    if av: "session_available c st" and ev: "on_client_framedata running now handles c g st = Inr (d, st')" for g st d st'
  proof -
    obtain r where "the_client (session_plugin st) c = Inr r" "client_available r" using available_client [OF av] by blast
    then show ?thesis
      using ev on_client_data_line [of "session_plugin st" c r running now handles _ "session_line st"] reset_fields(4)
      by (fastforce simp: on_client_framedata_def Let_def ebind_eq_Inr split: if_splits)
  qed
  then show ?thesis by (auto simp: keeps_size_def on_frame_data_def split: if_splits)
qed

lemma c_str_append:
  "NUL \<notin> set t \<Longrightarrow> c_str (t @ s) 0 = t @ c_str s 0"
  unfolding c_str_def by (simp add: takeWhile_append2) (subst takeWhile_append2; auto)

section \<open>Properties\<close>

text \<open>
  A text frame that arrives in one read reaches the dispatcher as a line: its text, and, because no terminator is
  written behind it, whatever an earlier read left in the buffer up to the next zero byte.
\<close>
lemma frame_is_a_line:
  fixes t :: string and key :: "8 word list" and final :: bool
  defines "bs \<equiv> client_frame final OP_TEXT key (map byte_of_char t)"
  assumes "length (data f) = BUFFER_SIZE" "length (masking_key f) = 4" "length key = 4" "length bs \<le> BUFFER_SIZE"
    and "session_available c st" "0 \<in> set (drop (length bs) (data f))"
  shows "\<exists>F. receive_some (on_frame_data running now handles c) (session_available c) (session_error c) bs (frame_reset f) st =
    ebind (on_client_data running now handles c (t @ map char_of_byte (drop (length bs) (data f))) (session_line st, session_plugin st))
      (\<lambda>(ls, w). let st' = st\<lparr>session_line := ls, session_plugin := w\<rparr> in
         Inr (if session_available c st' then Read_more (F ls) st' else Closing (session_error c st') st'))"
proof -
  let ?handle = "on_frame_data running now handles c" and ?avail = "session_available c" and ?code = "session_error c"
  let ?line = "t @ map char_of_byte (drop (length bs) (data f))"
  have size: "length bs + length ([] :: 8 word list) \<le> BUFFER_SIZE" using assms(5) by simp
  obtain g where g: "receive_some ?handle ?avail ?code bs (frame_reset f) st =
      ebind (?handle g st) (\<lambda>(d, w). Inr (if ?avail w then Read_more (frame_reset f\<lparr>masking_key := key, data := d\<rparr>) w
        else Closing (?code w) w))"
    "opcode g = OP_TEXT" "drop (data_pos g) (data g) = map byte_of_char t @ drop (length bs) (data f)"
    using first_frame_delivered [OF assms(2-4) _ size [unfolded bs_def], of ?handle ?avail ?code st]
    by (auto simp: bs_def OP_TEXT_def)
  have bytes: "0 \<in> set (drop (data_pos g) (data g))" "map char_of_byte (drop (data_pos g) (data g)) = ?line"
    using assms(7) by (simp_all add: g(3) comp_def)
  let ?F = "\<lambda>ls. frame_reset f\<lparr>masking_key := key,
    data := take (data_pos g) (data g) @ map byte_of_char (command_data (line_command ls))\<rparr>"
  have "?handle g st = ebind (on_client_data running now handles c ?line (session_line st, session_plugin st)) (\<lambda>(ls, w).
      Inr (take (data_pos g) (data g) @ map byte_of_char (command_data (line_command ls)), st\<lparr>session_line := ls, session_plugin := w\<rparr>))"
    using assms(6) g(2) bytes by (simp add: on_frame_data_def on_client_framedata_def Let_def)
  then show ?thesis
    unfolding g(1) Let_def
    by (intro exI [of _ ?F]) (cases "on_client_data running now handles c ?line (session_line st, session_plugin st)"; force)
qed

lemma frame_is_a_line_witness:
  "\<exists>f ls. receive_some (on_frame_data True 0 (on_load 0) 1) (session_available 1) (session_error 1)
      (client_frame True OP_TEXT [1, 2, 3, 4] (map byte_of_char ''ZZZ'')) (frame_reset (some_buffer\<lparr>data := replicate BUFFER_SIZE 0\<rparr>))
      \<lparr>session_line = quiet_line, session_plugin = sample_game, posted = []\<rparr> =
    Inr (Read_more f \<lparr>session_line = ls, session_plugin = sample_game, posted = []\<rparr>)"
proof -
  let ?bs = "client_frame True OP_TEXT [1, 2, 3, 4] (map byte_of_char ''ZZZ'')"
    and ?f = "some_buffer\<lparr>data := replicate BUFFER_SIZE 0\<rparr>" and ?st = "\<lparr>session_line = quiet_line, session_plugin = sample_game, posted = []\<rparr>"
  have len: "length ?bs = 9" by (simp add: length_client_frame header_size_def)
  note len' = len [simplified]
  have zero: "char_of_byte 0 = NUL" by code_simp
  have up: "session_available 1 ?st" using sample_bob by (auto simp: session_available_def the_client_def sample_client_def split: option.splits)
  have "\<exists>F. receive_some (on_frame_data True 0 (on_load 0) 1) (session_available 1) (session_error 1) ?bs (frame_reset ?f) ?st =
    ebind (on_client_data True 0 (on_load 0) 1 (''ZZZ'' @ map char_of_byte (drop (length ?bs) (data ?f))) (session_line ?st, session_plugin ?st))
      (\<lambda>(ls, w). let st' = ?st\<lparr>session_line := ls, session_plugin := w\<rparr> in
         Inr (if session_available 1 st' then Read_more (F ls) st' else Closing (session_error 1 st') st'))"
    by (rule frame_is_a_line [OF _ _ _ _ up]) (simp_all add: some_buffer_def len' BUFFER_SIZE_def)
  then obtain F where F: "receive_some (on_frame_data True 0 (on_load 0) 1) (session_available 1) (session_error 1) ?bs (frame_reset ?f) ?st =
    ebind (on_client_data True 0 (on_load 0) 1 (''ZZZ'' @ replicate 1015 NUL) (quiet_line, sample_game))
      (\<lambda>(ls, w). let st' = ?st\<lparr>session_line := ls, session_plugin := w\<rparr> in
         Inr (if session_available 1 st' then Read_more (F ls) st' else Closing (session_error 1 st') st'))"
    by (auto simp: len' BUFFER_SIZE_def zero)
  have "c_str (''ZZZ'' @ replicate 1015 NUL) 0 = ''ZZZ''"
    using c_str_append [of "''ZZZ''" "replicate 1015 NUL"] by (simp add: c_str_def NUL_def)
  moreover have "line_words ''ZZZ'' = [''ZZZ'']" by code_simp
  moreover have "fst (can_active 0 (active_monitor quiet_line))" by code_simp
  ultimately have "\<exists>ls. on_client_data True 0 (on_load 0) 1 (''ZZZ'' @ replicate 1015 NUL) (quiet_line, sample_game) = Inr (ls, sample_game)"
    using sample_bob reset_fields [of "''ZZZ'' @ replicate 1015 NUL" "line_command quiet_line"]
    by (auto simp: on_client_data_def plugin_on_client_command_def on_client_command_def on_load_def sample_client_def Let_def split_def)
  then show ?thesis using F up by (auto simp: Let_def session_available_def)
qed

lemma frame_data_ok:
  assumes "plugin_ok n codes (session_plugin u)" "on_frame_data running now (on_load client_exit) c g u = Inr (d, v)"
  shows "plugin_ok n codes (session_plugin v)"
  using assms line_keeps_ok [of n codes "session_plugin u" running now client_exit c _ "session_line u"]
  by (fastforce simp: on_frame_data_def on_client_framedata_def Let_def ebind_eq_Inr split: if_splits)

text \<open>A data frame whose line has no end in the buffer, or on whose line the dispatcher or a command handler faults.\<close>

definition faulty_line :: "bool \<Rightarrow> int \<Rightarrow> ddz_plugin handles \<Rightarrow> cid \<Rightarrow> ws_framedata \<Rightarrow> session \<Rightarrow> fault \<Rightarrow> bool" where
  "faulty_line running now handles c g u e \<longleftrightarrow> session_available c u \<and> opcode g \<in> {0, 1, 2} \<and>
     (let bytes = drop (data_pos g) (data g) in
      if 0 \<notin> set bytes then e = Out_of_bounds
      else on_client_data running now handles c (map char_of_byte bytes) (session_line u, session_plugin u) = Inl e)"

lemma frame_data_fault:
  "on_frame_data running now handles c g u = Inl e \<longleftrightarrow> faulty_line running now handles c g u e"
  by (auto simp: on_frame_data_def on_client_framedata_def faulty_line_def Let_def ebind_eq_Inl OP_TEXT_def split: if_splits)

text \<open>
  C25. Whatever bytes a peer sends, in whatever portions: as long as no fault occurs the receiver returns, its frame and its buffer are
  well formed, and so is every desk and hand of the card game. A fault has one of two causes: a data frame was delivered while no zero byte stood in
  the buffer from its payload on, so that reading its line runs out of the buffer (a peer can bring that about, as the
  next theorem shows), or the dispatcher or a command handler itself faulted on a line, in a state in which the game was still well formed.
\<close>
theorem any_bytes_keep_order:
  assumes "plugin_ok n codes (session_plugin st)" "frame_inv f"
  shows "case receive_all (on_frame_data running now (on_load client_exit) c) (session_available c) (session_error c) ks stream f st of
      Inl e \<Rightarrow> \<exists>g u. whole_frame g \<and> plugin_ok n codes (session_plugin u) \<and> faulty_line running now (on_load client_exit) c g u e
    | Inr (Read_more f' st') \<Rightarrow> frame_inv f' \<and> plugin_ok n codes (session_plugin st')
    | Inr (Closing code st') \<Rightarrow> plugin_ok n codes (session_plugin st')
    | Inr Out_of_fuel \<Rightarrow> False"
proof -
  let ?r = "receive_all (on_frame_data running now (on_load client_exit) c) (session_available c) (session_error c) ks stream f st"
  have "goes_well (on_frame_data running now (on_load client_exit) c) (\<lambda>u. plugin_ok n codes (session_plugin u)) ?r"
    by (rule receive_all_well [where I = "\<lambda>u. plugin_ok n codes (session_plugin u)", OF assms(2) frame_data_keeps_size])
      (rule assms(1), rule frame_data_ok)
  then show ?thesis
    by (cases rule: goes_well.cases [of "(on_frame_data running now (on_load client_exit) c,
        \<lambda>u. plugin_ok n codes (session_plugin u), ?r)"]) (auto simp: frame_data_fault)
qed

lemma any_bytes_keep_order_witness:
  "\<exists>f ls. receive_all (on_frame_data True 0 (on_load 0) 1) (session_available 1) (session_error 1) [9]
      (client_frame True OP_TEXT [1, 2, 3, 4] (map byte_of_char ''ZZZ'')) (frame_reset (some_buffer\<lparr>data := replicate BUFFER_SIZE 0\<rparr>))
      \<lparr>session_line = quiet_line, session_plugin = sample_game, posted = []\<rparr> =
    Inr (Read_more f \<lparr>session_line = ls, session_plugin = sample_game, posted = []\<rparr>) \<and> frame_inv f"
proof -
  let ?bs = "client_frame True OP_TEXT [1, 2, 3, 4] (map byte_of_char ''ZZZ'')"
    and ?f = "frame_reset (some_buffer\<lparr>data := replicate BUFFER_SIZE 0\<rparr>)"
    and ?st = "\<lparr>session_line = quiet_line, session_plugin = sample_game, posted = []\<rparr>"
  let ?run = "receive_all (on_frame_data True 0 (on_load 0) 1) (session_available 1) (session_error 1) [9] ?bs ?f ?st"
  obtain f ls where r: "receive_some (on_frame_data True 0 (on_load 0) 1) (session_available 1) (session_error 1) ?bs ?f ?st =
      Inr (Read_more f \<lparr>session_line = ls, session_plugin = sample_game, posted = []\<rparr>)"
    using frame_is_a_line_witness by blast
  have m: "min 9 (BUFFER_SIZE - data_length ?f) = 9" "take 9 ?bs = ?bs"
    by (simp_all add: frame_reset_def BUFFER_SIZE_def length_client_frame header_size_def)
  have run: "?run = Inr (Read_more f \<lparr>session_line = ls, session_plugin = sample_game, posted = []\<rparr>)"
    unfolding receive_all.simps m Let_def r by simp
  have "frame_inv ?f" by (simp add: frame_inv_def some_buffer_def frame_reset_def)
  from any_bytes_keep_order [of 1 "\<lambda>_. 0" ?st, OF _ this, of True 0 0 1 "[9]" ?bs] run have "frame_inv f"
    using sample_game_ok by simp
  with run show ?thesis by blast
qed

text \<open>
  C22. A text frame without a zero byte that leaves none behind it in the buffer, in particular one that fills the buffer, is read as a line without
  an end: the reading runs out of the buffer.
\<close>
theorem unterminated_line_overruns:
  fixes t :: string and key :: "8 word list" and final :: bool
  defines "bs \<equiv> client_frame final OP_TEXT key (map byte_of_char t)"
  assumes "length (data f) = BUFFER_SIZE" "length (masking_key f) = 4" "length key = 4" "length bs \<le> BUFFER_SIZE"
    and "session_available c st" "0 \<notin> set (drop (length bs) (data f))" "NUL \<notin> set t"
  shows "receive_some (on_frame_data running now handles c) (session_available c) (session_error c) bs (frame_reset f) st = Inl Out_of_bounds"
proof -
  have size: "length bs + length ([] :: 8 word list) \<le> BUFFER_SIZE" using assms(5) by simp
  obtain g where g: "receive_some (on_frame_data running now handles c) (session_available c) (session_error c) bs (frame_reset f) st =
      ebind (on_frame_data running now handles c g st) (\<lambda>(d, w). Inr (if session_available c w then Read_more (frame_reset f\<lparr>masking_key := key, data := d\<rparr>) w
        else Closing (session_error c w) w))"
    "opcode g = OP_TEXT" "drop (data_pos g) (data g) = map byte_of_char t @ drop (length bs) (data f)"
    using first_frame_delivered [OF assms(2-4) _ size [unfolded bs_def], of "on_frame_data running now handles c" "session_available c" "session_error c" st]
    by (auto simp: bs_def OP_TEXT_def)
  have "byte_of_char x \<noteq> 0" if "x \<in> set t" for x
  proof
    assume "byte_of_char x = 0"
    then have "x = char_of_byte 0" by (metis char_of_byte_of_char)
    moreover have "char_of_byte 0 = NUL" by code_simp
    ultimately show False using that assms(8) by simp
  qed
  then have "0 \<notin> set (drop (data_pos g) (data g))" using assms(7) by (auto simp: g(3) image_iff)
  then have "on_frame_data running now handles c g st = Inl Out_of_bounds"
    using assms(6) g(2) by (simp add: frame_data_fault faulty_line_def OP_TEXT_def)
  then show ?thesis by (simp add: g(1))
qed

lemma unterminated_line_overruns_witness:
  "receive_some (on_frame_data True 0 (on_load 0) 1) (session_available 1) (session_error 1)
     (client_frame True OP_TEXT [1, 2, 3, 4] (map byte_of_char (replicate 1016 CHR ''A'')))
     (frame_reset (some_buffer\<lparr>data := replicate BUFFER_SIZE 0\<rparr>))
     \<lparr>session_line = quiet_line, session_plugin = sample_game, posted = []\<rparr> = Inl Out_of_bounds"
proof (rule unterminated_line_overruns)
  have "length (client_frame True OP_TEXT [1, 2, 3, 4] (map byte_of_char (replicate 1016 CHR ''A''))) = 1024"
    by (simp add: length_client_frame header_size_def)
  then show "length (client_frame True OP_TEXT [1, 2, 3, 4] (map byte_of_char (replicate 1016 CHR ''A''))) \<le> BUFFER_SIZE"
    "0 \<notin> set (drop (length (client_frame True OP_TEXT [1, 2, 3, 4] (map byte_of_char (replicate 1016 CHR ''A''))))
        (data (some_buffer\<lparr>data := replicate BUFFER_SIZE 0\<rparr>)))"
    by (simp_all add: BUFFER_SIZE_def)
  show "session_available 1 \<lparr>session_line = quiet_line, session_plugin = sample_game, posted = []\<rparr>"
    using sample_bob by (auto simp: session_available_def the_client_def sample_client_def split: option.splits)
qed (simp_all add: some_buffer_def NUL_def)

end
