(* ===== verification/Timers.thy ===== *)
theory Timers
  imports PostMonitor
begin

text \<open>
  Delayed tasks (\<^verbatim>\<open>src/src/service/async_task.h\<close>, \<^verbatim>\<open>async_task.cpp\<close>): a timer is taken from a pool of
  free ones or created, armed and registered; when its wait completes it goes back to the front of the
  pool, unless it can be cancelled, and the task runs.

  A timer is an address; \<^verbatim>\<open>timer_heap\<close> holds the live ones, so that a pointer kept too long is a
  \<^verbatim>\<open>Dangling\<close> fault. The waits and the posted tasks are the calls the code has made on the timers and the
  \<^verbatim>\<open>io_service\<close> of the library and that were not answered yet. What the library decides is an argument of
  the operations: the address of new memory (\<^verbatim>\<open>None\<close> is \<^verbatim>\<open>NULL\<close>), which wait completes when and with what
  error, how many waits a cancellation hits.
\<close>

section \<open>Timers\<close>

type_synonym timer_addr = nat

record task_timer =
  cancel_enabled :: bool
  disposed :: bool
  last_actived_time :: tick_count

definition new_task_timer :: "int \<Rightarrow> bool \<Rightarrow> task_timer" where
  "new_task_timer now ce = \<lparr>cancel_enabled = ce, disposed = False, last_actived_time = tick_restart now\<rparr>"

record 'c async_task =
  timer_heap :: "timer_addr \<rightharpoonup> task_timer"
  free_timers :: "timer_addr list"
  working_timers :: "timer_addr set"
  waits :: "(timer_addr \<times> int \<times> 'c) list"
  posted_tasks :: "'c list"
  cancels :: "timer_addr list"

definition MIN_ACTIVED_TIMER :: nat where "MIN_ACTIVED_TIMER = 100"
definition MAX_TIMER_FREE_TICK :: int where "MAX_TIMER_FREE_TICK = 1 * 60 * 1000"

definition new_async_task :: "'c async_task" where
  "new_async_task = \<lparr>timer_heap = Map.empty, free_timers = [], working_timers = {}, waits = [], posted_tasks = [],
     cancels = []\<rparr>"

definition timer_create :: "timer_addr option \<Rightarrow> int \<Rightarrow> bool \<Rightarrow> ('c, 'z) async_task_scheme \<Rightarrow> timer_addr option \<times> ('c, 'z) async_task_scheme" where
  "timer_create chunk now ce s = (case chunk of None \<Rightarrow> (None, s)
     | Some t \<Rightarrow> (Some t, s\<lparr>timer_heap := (timer_heap s)(t \<mapsto> new_task_timer now ce)\<rparr>))"

definition timer_destroy :: "timer_addr \<Rightarrow> ('c, 'z) async_task_scheme \<Rightarrow> ('c, 'z) async_task_scheme" where
  "timer_destroy t s = s\<lparr>timer_heap := (timer_heap s)(t := None)\<rparr>"

section \<open>Starting a task\<close>

text \<open>
  \<^verbatim>\<open>queue_task\<close> arms the timer and registers it under two different locks, or under none: other threads
  can run between the two halves.
\<close>

definition take_timer :: "timer_addr option \<Rightarrow> int \<Rightarrow> bool \<Rightarrow> ('c, 'z) async_task_scheme \<Rightarrow> timer_addr option \<times> ('c, 'z) async_task_scheme" where
  "take_timer chunk now ce s =
     (case (if \<not> ce \<and> length (free_timers s) > 0 then Some (hd (free_timers s)) else None) of
        Some t \<Rightarrow> (Some t, s\<lparr>free_timers := tl (free_timers s)\<rparr>)
      | None \<Rightarrow> timer_create chunk now ce s)"

definition arm_timer :: "timer_addr option \<Rightarrow> int \<Rightarrow> 'c \<Rightarrow> int \<Rightarrow> bool \<Rightarrow> ('c, 'z) async_task_scheme \<Rightarrow> (timer_addr \<times> ('c, 'z) async_task_scheme) result" where
  "arm_timer chunk now callback sleep_duration ce s =
     (case take_timer chunk now ce s of
        (None, s) \<Rightarrow> Inl Assert_failed
      | (Some t, s) \<Rightarrow> if timer_heap s t = None then Inl Dangling
          else Inr (t, s\<lparr>waits := waits s @ [(t, sleep_duration, callback)]\<rparr>))"

definition register_timer :: "timer_addr \<Rightarrow> ('c, 'z) async_task_scheme \<Rightarrow> ('c, 'z) async_task_scheme" where
  "register_timer t s = s\<lparr>working_timers := insert t (working_timers s)\<rparr>"

definition queue_task :: "timer_addr option \<Rightarrow> int \<Rightarrow> 'c \<Rightarrow> int \<Rightarrow> bool \<Rightarrow> ('c, 'z) async_task_scheme \<Rightarrow> (timer_addr option \<times> ('c, 'z) async_task_scheme) result" where
  "queue_task chunk now callback sleep_duration ce s =
     (if sleep_duration \<le> 0 then Inr (None, s\<lparr>posted_tasks := posted_tasks s @ [callback]\<rparr>)
      else ebind (arm_timer chunk now callback sleep_duration ce s) (\<lambda>(t, s). Inr (Some t, register_timer t s)))"

section \<open>Cancelling tasks\<close>

text \<open>\<open>hit\<close> is the number of waits the library says it has cancelled.\<close>

definition cancel_task :: "nat \<Rightarrow> timer_addr option \<Rightarrow> ('c, 'z) async_task_scheme \<Rightarrow> (bool \<times> ('c, 'z) async_task_scheme) result" where
  "cancel_task hit timer s = (case timer of None \<Rightarrow> Inr (False, s)
     | Some t \<Rightarrow> (case timer_heap s t of None \<Rightarrow> Inl Dangling
         | Some tm \<Rightarrow> if \<not> cancel_enabled tm then Inr (False, s)
             else Inr (hit > 0, s\<lparr>cancels := cancels s @ [t]\<rparr>)))"

definition cancel_all_task :: "('c, 'z) async_task_scheme \<Rightarrow> ('c, 'z) async_task_scheme result" where
  "cancel_all_task s = efold (\<lambda>t s. if timer_heap s t = None then Inl Dangling else Inr (s\<lparr>cancels := cancels s @ [t]\<rparr>))
     (sorted_list_of_set (working_timers s)) s"

section \<open>The end of a wait\<close>

text \<open>The timer goes to the front of the pool; the one at the back is destroyed when it has been free for long.\<close>

definition free_timer :: "int \<Rightarrow> timer_addr \<Rightarrow> task_timer \<Rightarrow> ('c, 'z) async_task_scheme \<Rightarrow> ('c, 'z) async_task_scheme result" where
  "free_timer now t tm s =
     (let s = s\<lparr>timer_heap := (timer_heap s)(t \<mapsto> tm\<lparr>last_actived_time := tick_restart now\<rparr>),
                free_timers := t # free_timers s\<rparr> in
      if length (free_timers s) > MIN_ACTIVED_TIMER then
        (let back = last (free_timers s) in
         case timer_heap s back of None \<Rightarrow> Inl Dangling
         | Some b \<Rightarrow> Inr (if elapsed now (last_actived_time b) > MAX_TIMER_FREE_TICK
             then timer_destroy back (s\<lparr>free_timers := butlast (free_timers s)\<rparr>) else s))
      else Inr s)"

text \<open>The result is the task to run last in the handler, if the wait ended without an error.\<close>

definition task_handle :: "int \<Rightarrow> bool \<Rightarrow> timer_addr \<Rightarrow> 'c \<Rightarrow> ('c, 'z) async_task_scheme \<Rightarrow> ('c option \<times> ('c, 'z) async_task_scheme) result" where
  "task_handle now error t callback s =
     (let s = s\<lparr>working_timers := working_timers s - {t}\<rparr> in
      case timer_heap s t of None \<Rightarrow> Inl Dangling
      | Some tm \<Rightarrow> ebind (if \<not> cancel_enabled tm then free_timer now t tm s else Inr (timer_destroy t s)) (\<lambda>s.
          Inr (if \<not> error then Some callback else None, s)))"

text \<open>The library calls the handler of the \<open>i\<close>-th outstanding wait.\<close>

definition wait_ends :: "int \<Rightarrow> bool \<Rightarrow> nat \<Rightarrow> ('c, 'z) async_task_scheme \<Rightarrow> ('c option \<times> ('c, 'z) async_task_scheme) result" where
  "wait_ends now error i s = (case waits s ! i of (t, delay, callback) \<Rightarrow>
     task_handle now error t callback (s\<lparr>waits := take i (waits s) @ drop (Suc i) (waits s)\<rparr>))"

end
