(* ===== verification/Requests.thy ===== *)
theory Requests
  imports Timers
begin

text \<open>
  The outgoing requests of the service (\<^verbatim>\<open>game_service::start_http_request\<close>, \<^verbatim>\<open>queue_http_request\<close>,
  \<^verbatim>\<open>malloc_http_request\<close>, \<^verbatim>\<open>free_http_request\<close> and the handlers of their answers in
  \<^verbatim>\<open>src/src/service/game_service.cpp\<close>; the request line in \<^verbatim>\<open>http_request.h\<close>). Two pools of fifty blocks:
  a request of the first pool is refused when the pool is empty, one of the second waits in a queue.

  \<^verbatim>\<open>on_start\<close> allocates memory for both pools and then fills them with addresses that do not lie in it, but in the service
  itself and behind it. The model keeps these addresses and has no bytes: constructing a request there succeeds, whatever it lies over
  (\<open>first_requests_overlap\<close> in \<open>ServiceSafety\<close>). What is shown of pools and queue holds as far as no harm comes of that.

  \<^verbatim>\<open>requests_active\<close> holds the requests constructed and not yet destroyed; the exchange with the server is the
  environment's. The records extend each other the way \<^verbatim>\<open>game_service\<close> extends \<^verbatim>\<open>async_task\<close>; the operations work on
  every extension, so that a callback of a request can change the whole service.
\<close>

section \<open>Requests\<close>

type_synonym block = nat

record 'c http_request =
  request_text :: string
  callback_func :: 'c

definition CRLF :: string where "CRLF = [char_of (13 :: nat), char_of (10 :: nat)]"

definition new_http_request :: "string \<Rightarrow> string \<Rightarrow> 'c \<Rightarrow> 'c http_request" where
  "new_http_request server path callback = \<lparr>request_text =
       ''GET '' @ path @ '' HTTP/1.0'' @ CRLF @ ''Host: '' @ server @ CRLF @ ''Accept: */*'' @ CRLF @ ''Connection: close'' @ CRLF @ CRLF,
     callback_func = callback\<rparr>"

record 'c http_request_task =
  request_host :: string
  request_path :: string
  request_callback :: 'c

record ('t, 'c) requests = "'t async_task" +
  request_pool :: "nat \<Rightarrow> block list"
  requests_active :: "(nat \<times> block \<times> 'c http_request) list"
  task_queue :: "'c http_request_task list"

definition MAX_AUTH_SESSION_COUNT :: nat where "MAX_AUTH_SESSION_COUNT = 50"

text \<open>
  The addresses \<^verbatim>\<open>on_start\<close> puts into the pools: \<^verbatim>\<open>(void*)(&request_block_[i] + (j * obj_size))\<close>, for the array member
  \<^verbatim>\<open>request_block_\<close> at \<open>array\<close> whose elements are pointers of eight bytes.
\<close>

definition block_address :: "nat \<Rightarrow> nat \<Rightarrow> nat \<Rightarrow> nat \<Rightarrow> block" where
  "block_address array obj_size i j = array + 8 * (i + j * obj_size)"

definition fill_pools :: "nat \<Rightarrow> nat \<Rightarrow> ('t, 'c, 'z) requests_scheme \<Rightarrow> ('t, 'c, 'z) requests_scheme" where
  "fill_pools array obj_size s = s\<lparr>request_pool := \<lambda>i. request_pool s i @
     (if i < 2 then map (block_address array obj_size i) [0..<MAX_AUTH_SESSION_COUNT] else [])\<rparr>"

section \<open>The pools\<close>

definition malloc_http_request :: "nat \<Rightarrow> ('t, 'c, 'z) requests_scheme \<Rightarrow> block option \<times> ('t, 'c, 'z) requests_scheme" where
  "malloc_http_request i s = (case request_pool s i of [] \<Rightarrow> (None, s)
     | b # bs \<Rightarrow> (Some b, s\<lparr>request_pool := (request_pool s)(i := bs)\<rparr>))"

definition free_http_request :: "nat \<Rightarrow> block \<Rightarrow> ('t, 'c, 'z) requests_scheme \<Rightarrow> ('t, 'c, 'z) requests_scheme" where
  "free_http_request i b s = s\<lparr>request_pool := (request_pool s)(i := request_pool s i @ [b])\<rparr>"

definition construct_request :: "nat \<Rightarrow> block \<Rightarrow> 'c http_request \<Rightarrow> ('t, 'c, 'z) requests_scheme \<Rightarrow> ('t, 'c, 'z) requests_scheme" where
  "construct_request i b r s = s\<lparr>requests_active := requests_active s @ [(i, b, r)]\<rparr>"

definition destruct_request :: "nat \<Rightarrow> block \<Rightarrow> ('t, 'c, 'z) requests_scheme \<Rightarrow> ('t, 'c, 'z) requests_scheme" where
  "destruct_request i b s = s\<lparr>requests_active := filter (\<lambda>x. (fst x, fst (snd x)) \<noteq> (i, b)) (requests_active s)\<rparr>"

section \<open>Requests that are refused when the pool is empty\<close>

definition start_http_request :: "string \<Rightarrow> string \<Rightarrow> 'c \<Rightarrow> ('t, 'c, 'z) requests_scheme \<Rightarrow> bool \<times> ('t, 'c, 'z) requests_scheme" where
  "start_http_request host path callback s = (case malloc_http_request 0 s of
       (None, s) \<Rightarrow> (False, s)
     | (Some b, s) \<Rightarrow> (True, construct_request 0 b (new_http_request host path callback) s))"

text \<open>The callback runs while the request still lives. \<open>call\<close> runs a callback on the answer.\<close>

definition http_request_handle ::
    "('c \<Rightarrow> ('t, 'c, 'z) requests_scheme \<Rightarrow> ('t, 'c, 'z) requests_scheme result) \<Rightarrow> block \<Rightarrow> 'c \<Rightarrow>
     ('t, 'c, 'z) requests_scheme \<Rightarrow> ('t, 'c, 'z) requests_scheme result" where
  "http_request_handle call b callback s = ebind (call callback s) (\<lambda>s.
     Inr (free_http_request 0 b (destruct_request 0 b s)))"

section \<open>Requests that wait\<close>

text \<open>
  \<^verbatim>\<open>queue_http_request\<close> tries the pool and joins the queue under different locks; an answer that comes in between is a
  step between \<open>try_http_request\<close> and \<open>push_task\<close>. \<open>queue_http_request\<close> is the case that nothing comes in between.
\<close>

definition try_http_request :: "string \<Rightarrow> string \<Rightarrow> 'c \<Rightarrow> ('t, 'c, 'z) requests_scheme \<Rightarrow> bool \<times> ('t, 'c, 'z) requests_scheme" where
  "try_http_request host path callback s = (case malloc_http_request 1 s of
       (Some b, s) \<Rightarrow> (True, construct_request 1 b (new_http_request host path callback) s)
     | (None, s) \<Rightarrow> (False, s))"

definition push_task :: "string \<Rightarrow> string \<Rightarrow> 'c \<Rightarrow> ('t, 'c, 'z) requests_scheme \<Rightarrow> ('t, 'c, 'z) requests_scheme" where
  "push_task host path callback s = s\<lparr>task_queue := task_queue s @
     [\<lparr>request_host = host, request_path = path, request_callback = callback\<rparr>]\<rparr>"

definition queue_http_request :: "string \<Rightarrow> string \<Rightarrow> 'c \<Rightarrow> ('t, 'c, 'z) requests_scheme \<Rightarrow> bool \<times> ('t, 'c, 'z) requests_scheme" where
  "queue_http_request host path callback s = (case try_http_request host path callback s of
       (True, s) \<Rightarrow> (True, s)
     | (False, s) \<Rightarrow> (False, push_task host path callback s))"

fun drain_queue :: "'c http_request_task list \<Rightarrow> ('t, 'c, 'z) requests_scheme \<Rightarrow> ('t, 'c, 'z) requests_scheme" where
  "drain_queue [] s = s\<lparr>task_queue := []\<rparr>"
| "drain_queue (t # ts) s = (case malloc_http_request 1 s of
       (Some b, s) \<Rightarrow> drain_queue ts
          (construct_request 1 b (new_http_request (request_host t) (request_path t) (request_callback t)) s)
     | (None, s) \<Rightarrow> s\<lparr>task_queue := t # ts\<rparr>)"

definition queue_http_request_handle ::
    "('c \<Rightarrow> ('t, 'c, 'z) requests_scheme \<Rightarrow> ('t, 'c, 'z) requests_scheme result) \<Rightarrow> block \<Rightarrow> 'c \<Rightarrow>
     ('t, 'c, 'z) requests_scheme \<Rightarrow> ('t, 'c, 'z) requests_scheme result" where
  "queue_http_request_handle call b callback s = ebind (call callback s) (\<lambda>s.
     let s = free_http_request 1 b (destruct_request 1 b s) in Inr (drain_queue (task_queue s) s))"

text \<open>The answer of the \<open>k\<close>-th active request.\<close>

definition request_answered ::
    "('c \<Rightarrow> ('t, 'c, 'z) requests_scheme \<Rightarrow> ('t, 'c, 'z) requests_scheme result) \<Rightarrow> nat \<Rightarrow>
     ('t, 'c, 'z) requests_scheme \<Rightarrow> ('t, 'c, 'z) requests_scheme result" where
  "request_answered call k s = (case requests_active s ! k of (i, b, r) \<Rightarrow>
     if i = 0 then http_request_handle call b (callback_func r) s
     else queue_http_request_handle call b (callback_func r) s)"

end
