(* ===== verification/RequestsOk.thy ===== *)
theory RequestsOk
  imports Requests
begin

text \<open>
  No block of a pool is lost or used twice, and the queue of the second pool behaves as a server with fifty places:
  a request waits only while all places are taken, and the answers start the waiting ones in order. The last part shows what
  goes wrong: the blocks themselves overlap, and a request can join the queue too late.
\<close>

section \<open>A pool of blocks\<close>

locale block_pool =
  fixes grab :: "'s \<Rightarrow> 'b option \<times> 's"
    and give :: "'b \<Rightarrow> 's \<Rightarrow> 's"
    and held :: "'s \<Rightarrow> 'b list"
  assumes grab_block: "held s = b # bs \<Longrightarrow> fst (grab s) = Some b \<and> held (snd (grab s)) = bs"
    and grab_empty: "held s = [] \<Longrightarrow> grab s = (None, s)"
    and held_give: "held (give b s) = held s @ [b]"
begin

lemma grab_None: "fst (grab s) = None \<longleftrightarrow> held s = []"
  using grab_block grab_empty by (cases "held s") fastforce+

lemma held_grab: "grab s = (Some b, s') \<Longrightarrow> held s = b # held s'"
  using grab_block [of s] grab_empty [of s] by (cases "held s") auto

lemma grab_held: "grab s = (Some b, s') \<Longrightarrow> mset (held s) = add_mset b (mset (held s'))"
  using held_grab by fastforce

lemma give_grab: "held s = [] \<Longrightarrow> grab (give b s) = (Some b, s') \<Longrightarrow> held s' = []"
  using held_grab [of "give b s" b s'] by (simp add: held_give)

end

interpretation http_pool: block_pool "malloc_http_request i" "free_http_request i" "\<lambda>s. request_pool s i" for i
  by unfold_locales (auto simp: malloc_http_request_def free_http_request_def)

lemma malloc_cases:
  obtains (none) "request_pool s i = []" "malloc_http_request i s = (None, s)"
  | (some) b bs where "request_pool s i = b # bs"
      "malloc_http_request i s = (Some b, s\<lparr>request_pool := (request_pool s)(i := bs)\<rparr>)"
  by (cases "request_pool s i") (auto simp: malloc_http_request_def)

section \<open>The invariant\<close>

definition active_in :: "nat \<Rightarrow> ('t, 'c, 'z) requests_scheme \<Rightarrow> (nat \<times> block \<times> 'c http_request) list" where
  "active_in i s = filter (\<lambda>x. fst x = i) (requests_active s)"

definition pool_blocks :: "nat \<Rightarrow> ('t, 'c, 'z) requests_scheme \<Rightarrow> block list" where
  "pool_blocks i s = request_pool s i @ map (fst \<circ> snd) (active_in i s)"

definition requests_ok :: "(nat \<Rightarrow> block list) \<Rightarrow> ('t, 'c, 'z) requests_scheme \<Rightarrow> bool" where
  "requests_ok all s \<longleftrightarrow> (\<forall>i. distinct (all i) \<and> mset (pool_blocks i s) = mset (all i) \<and> (2 \<le> i \<longrightarrow> all i = [])) \<and>
     (task_queue s \<noteq> [] \<longrightarrow> request_pool s 1 = [])"

lemma requests_okD:
  assumes "requests_ok all s"
  shows "distinct (all i)" "mset (pool_blocks i s) = mset (all i)" "distinct (pool_blocks i s)"
    "task_queue s \<noteq> [] \<Longrightarrow> request_pool s 1 = []"
proof -
  show d: "distinct (all i)" "mset (pool_blocks i s) = mset (all i)" using assms by (simp_all add: requests_ok_def)
  show "distinct (pool_blocks i s)" using d mset_eq_imp_distinct_iff by blast
  show "task_queue s \<noteq> [] \<Longrightarrow> request_pool s 1 = []" using assms by (simp add: requests_ok_def)
qed

definition same_requests :: "('t, 'c, 'z) requests_scheme \<Rightarrow> ('t, 'c, 'z) requests_scheme \<Rightarrow> bool" where
  "same_requests s s' \<longleftrightarrow> request_pool s' = request_pool s \<and> requests_active s' = requests_active s \<and> task_queue s' = task_queue s"

lemma same_requests_ok: "same_requests s s' \<Longrightarrow> requests_ok all s \<Longrightarrow> requests_ok all s'"
  by (simp add: same_requests_def requests_ok_def pool_blocks_def active_in_def)

section \<open>Starting requests\<close>

lemma construct_ok:
  assumes "requests_ok all s" "malloc_http_request i s = (Some b, s')"
  shows "requests_ok all (construct_request i b r s')"
proof (cases rule: malloc_cases [of s i])
  case none
  with assms(2) show ?thesis by simp
next
  case (some c bs)
  have "mset (pool_blocks j (construct_request i b r s')) = mset (all j)" for j
    using requests_okD(2) [OF assms(1), of j] assms(2) some
    by (auto simp: construct_request_def pool_blocks_def active_in_def)
  moreover have "task_queue s = []" if "i = 1"
    using requests_okD(4) [OF assms(1)] some that by auto
  ultimately show ?thesis
    using assms some by (auto simp: requests_ok_def construct_request_def)
qed

lemma start_request_ok: "requests_ok all s \<Longrightarrow> requests_ok all (snd (start_http_request host path c s))"
  by (cases rule: malloc_cases [of s 0]) (auto simp: start_http_request_def dest: construct_ok)

lemma push_ok: "requests_ok all s \<Longrightarrow> request_pool s 1 = [] \<Longrightarrow> requests_ok all (push_task host path c s)"
  by (simp add: requests_ok_def push_task_def pool_blocks_def active_in_def)

lemma queue_ok: "requests_ok all s \<Longrightarrow> requests_ok all (snd (queue_http_request host path c s))"
  by (cases rule: malloc_cases [of s 1])
    (use push_ok [of all s] construct_ok [of all s 1] in \<open>auto simp: queue_http_request_def try_http_request_def\<close>)

section \<open>Answers\<close>

lemma keys_distinct:
  assumes "\<And>i. distinct (map (fst \<circ> snd) (filter (\<lambda>x. fst x = i) xs))"
  shows "distinct (map (\<lambda>x. (fst x, fst (snd x))) xs)"
  using assms
proof (induction xs)
  case (Cons x xs)
  obtain k b r where x: "x = (k, b, r)" by (cases x)
  have "distinct (map (fst \<circ> snd) (filter (\<lambda>x. fst x = i) xs))" for i
    using Cons.prems [of i] by (cases "fst x = i") (simp_all add: comp_def)
  then have "distinct (map (\<lambda>x. (fst x, fst (snd x))) xs)" by (rule Cons.IH)
  moreover have "(k, b) \<notin> set (map (\<lambda>x. (fst x, fst (snd x))) xs)"
    using Cons.prems [of k] by (force simp: x)
  ultimately show ?case by (simp add: x)
qed simp

lemma destruct_at:
  assumes "\<And>j. distinct (pool_blocks j s)" "requests_active s = xs @ (i, b, r) # ys"
  shows "destruct_request i b s = s\<lparr>requests_active := xs @ ys\<rparr>"
proof -
  have "distinct (map (fst \<circ> snd) (filter (\<lambda>x. fst x = j) (requests_active s)))" for j
    using assms(1) [of j] by (simp add: pool_blocks_def active_in_def)
  then have "distinct (map (\<lambda>x. (fst x, fst (snd x))) (requests_active s))" by (rule keys_distinct)
  then have "(i, b) \<notin> (\<lambda>x. (fst x, fst (snd x))) ` set (xs @ ys)" by (auto simp: assms(2))
  then have "filter (\<lambda>x. (fst x, fst (snd x)) \<noteq> (i, b)) (xs @ ys) = xs @ ys"
    by (intro filter_True) (metis (no_types, lifting) image_eqI)
  then show ?thesis by (simp add: destruct_request_def assms(2))
qed

text \<open>All but the coupling of queue and pool.\<close>

definition blocks_ok :: "(nat \<Rightarrow> block list) \<Rightarrow> ('t, 'c, 'z) requests_scheme \<Rightarrow> bool" where
  "blocks_ok all s \<longleftrightarrow> (\<forall>i. distinct (all i) \<and> mset (pool_blocks i s) = mset (all i) \<and> (2 \<le> i \<longrightarrow> all i = []))"

lemma blocks_okD: "blocks_ok all s \<Longrightarrow> distinct (pool_blocks i s)"
  unfolding blocks_ok_def by (metis mset_eq_imp_distinct_iff)

lemma requests_ok_iff: "requests_ok all s \<longleftrightarrow> blocks_ok all s \<and> (task_queue s \<noteq> [] \<longrightarrow> request_pool s 1 = [])"
  by (auto simp: requests_ok_def blocks_ok_def)

lemma free_blocks_ok:
  assumes "blocks_ok all s" "requests_active s = xs @ (i, b, r) # ys"
  shows "blocks_ok all (free_http_request i b (destruct_request i b s))"
proof -
  have "mset (pool_blocks j (free_http_request i b (s\<lparr>requests_active := xs @ ys\<rparr>))) = mset (pool_blocks j s)" for j
    by (simp add: pool_blocks_def active_in_def free_http_request_def assms(2))
  then show ?thesis
    using assms(1) destruct_at [OF blocks_okD [OF assms(1)] assms(2)] by (simp add: blocks_ok_def)
qed

lemma drain_ok:
  assumes "blocks_ok all s"
  shows "requests_ok all (drain_queue ts s)"
  using assms
proof (induction ts arbitrary: s)
  case Nil
  then show ?case by (simp add: requests_ok_iff blocks_ok_def pool_blocks_def active_in_def)
next
  case (Cons t ts)
  show ?case
  proof (cases rule: malloc_cases [of s 1])
    case none
    with Cons.prems show ?thesis by (simp add: requests_ok_iff blocks_ok_def pool_blocks_def active_in_def)
  next
    case (some b bs)
    have "mset (pool_blocks j (construct_request 1 b r (s\<lparr>request_pool := (request_pool s)(1 := bs)\<rparr>))) = mset (pool_blocks j s)" for r j
      using some by (auto simp: construct_request_def pool_blocks_def active_in_def)
    then have "blocks_ok all (construct_request 1 b r (s\<lparr>request_pool := (request_pool s)(1 := bs)\<rparr>))" for r
      using Cons.prems by (simp add: blocks_ok_def)
    with some show ?thesis by (simp add: Cons.IH)
  qed
qed

section \<open>A server with fifty places\<close>

text \<open>The abstract server: requests running, at most \<open>n\<close>, and requests waiting.\<close>

type_synonym 'r farm = "'r list \<times> 'r list"

definition farm_submit :: "nat \<Rightarrow> 'r \<Rightarrow> 'r farm \<Rightarrow> 'r farm" where
  "farm_submit n r f = (if length (fst f) < n then (fst f @ [r], snd f) else (fst f, snd f @ [r]))"

definition farm_finish :: "nat \<Rightarrow> 'r farm \<Rightarrow> 'r farm" where
  "farm_finish j f = (let run = take j (fst f) @ drop (Suc j) (fst f) in
     case snd f of [] \<Rightarrow> (run, []) | r # rs \<Rightarrow> (run @ [r], rs))"

definition task_request :: "'c http_request_task \<Rightarrow> 'c http_request" where
  "task_request t = new_http_request (request_host t) (request_path t) (request_callback t)"

definition farm_view :: "('t, 'c, 'z) requests_scheme \<Rightarrow> 'c http_request farm" where
  "farm_view s = (map (snd \<circ> snd) (active_in 1 s), map task_request (task_queue s))"

lemma places:
  assumes "requests_ok all s"
  shows "length (request_pool s i) + length (active_in i s) = length (all i)"
  using arg_cong [OF requests_okD(2) [OF assms, of i], of size] by (simp add: pool_blocks_def)

lemma queue_view:
  assumes "requests_ok all s"
  shows "farm_view (snd (queue_http_request host path c s)) =
      farm_submit (length (all 1)) (new_http_request host path c) (farm_view s)"
    and "fst (queue_http_request host path c s) \<longleftrightarrow> length (fst (farm_view s)) < length (all 1)"
  using places [OF assms, of 1]
  by (cases rule: malloc_cases [of s 1];
      simp add: queue_http_request_def try_http_request_def push_task_def farm_view_def farm_submit_def active_in_def
        construct_request_def task_request_def)+

lemma start_view: "farm_view (snd (start_http_request host path c s)) = farm_view s"
  by (cases rule: malloc_cases [of s 0])
    (simp_all add: start_http_request_def farm_view_def active_in_def construct_request_def)

section \<open>What a callback keeps\<close>

text \<open>The callbacks of the service do not start requests themselves.\<close>

locale quiet_callbacks =
  fixes call :: "'c \<Rightarrow> ('t, 'c, 'z) requests_scheme \<Rightarrow> ('t, 'c, 'z) requests_scheme result"
  assumes call_same: "call c s = Inr s' \<Longrightarrow> same_requests s s'"
begin

lemma answered_cases:
  assumes "requests_ok all s" "requests_active s = xs @ (i, b, r) # ys" "request_answered call (length xs) s = Inr s'"
  obtains u where "call (callback_func r) s = Inr u"
    "s' = (let v = u\<lparr>requests_active := xs @ ys, request_pool := (request_pool s)(i := request_pool s i @ [b])\<rparr> in
       if i = 0 then v else drain_queue (task_queue s) v)"
    "requests_ok all s'"
proof -
  note ok = assms(1) [unfolded requests_ok_iff]
  have "b \<in># mset (all i)"
    unfolding requests_okD(2) [OF assms(1), of i, symmetric] by (simp add: pool_blocks_def active_in_def assms(2))
  then have i: "i = 0 \<or> i = 1" using ok unfolding blocks_ok_def by (metis One_nat_def empty_iff less_2_cases list.set(1) not_less set_mset_mset)
  then obtain u where u: "call (callback_func r) s = Inr u"
    "s' = (let v = free_http_request i b (destruct_request i b u) in if i = 0 then v else drain_queue (task_queue v) v)"
    using assms(2,3)
    by (auto simp: request_answered_def http_request_handle_def queue_http_request_handle_def Let_def ebind_eq_Inr split: if_splits)
  note same = call_same [OF u(1), unfolded same_requests_def]
  have bl: "blocks_ok all u" using same_requests_ok [OF call_same [OF u(1)] assms(1)] by (simp add: requests_ok_iff)
  have act: "requests_active u = xs @ (i, b, r) # ys" using same assms(2) by simp
  have free: "free_http_request i b (destruct_request i b u) =
      u\<lparr>requests_active := xs @ ys, request_pool := (request_pool s)(i := request_pool s i @ [b])\<rparr>"
    using destruct_at [OF blocks_okD [OF bl] act] same by (simp add: free_http_request_def)
  have s': "s' = (let v = u\<lparr>requests_active := xs @ ys, request_pool := (request_pool s)(i := request_pool s i @ [b])\<rparr> in
       if i = 0 then v else drain_queue (task_queue s) v)"
    using u(2) same by (simp add: free Let_def)
  have "requests_ok all s'"
  proof (cases "i = 0")
    case True
    then show ?thesis using free_blocks_ok [OF bl act] ok same u(2) by (simp add: requests_ok_iff free [unfolded True])
  next
    case False
    then show ?thesis using drain_ok [OF free_blocks_ok [OF bl act]] u(2) by (simp add: Let_def)
  qed
  with u(1) s' show thesis by (rule that)
qed

text \<open>The running requests of the second pool, and the waiting ones.\<close>

lemma answered_view:
  assumes "requests_ok all s" "requests_active s = xs @ (1, b, r) # ys" "request_answered call (length xs) s = Inr s'"
  shows "farm_view s' = farm_finish (length (filter (\<lambda>x. fst x = 1) xs)) (farm_view s)"
proof -
  obtain u where u: "call (callback_func r) s = Inr u"
    "s' = drain_queue (task_queue s) (u\<lparr>requests_active := xs @ ys, request_pool := (request_pool s)(1 := request_pool s 1 @ [b])\<rparr>)"
    using answered_cases [OF assms] by (auto simp: Let_def)
  note same = call_same [OF u(1), unfolded same_requests_def]
  show ?thesis
  proof (cases "task_queue s")
    case Nil
    then show ?thesis
      by (simp add: u(2) farm_view_def farm_finish_def active_in_def assms(2))
  next
    case (Cons t ts)
    then have "request_pool s 1 = []" using requests_okD(4) [OF assms(1)] by simp
    then have "s' = (u\<lparr>requests_active := xs @ ys @ [(1, b, new_http_request (request_host t) (request_path t) (request_callback t))],
        request_pool := (request_pool s)(1 := []), task_queue := ts\<rparr>)"
      using Cons by (cases ts) (simp_all add: u(2) malloc_http_request_def construct_request_def)
    then show ?thesis
      by (simp add: farm_view_def farm_finish_def active_in_def assms(2) Cons task_request_def)
  qed
qed

end

section \<open>Where it goes wrong\<close>

text \<open>
  The fifty blocks of a pool are not apart: the address of a block is computed on the array of pointers, not on the memory
  that was allocated, so block \<^verbatim>\<open>j\<close> of the second pool starts eight bytes behind block \<^verbatim>\<open>j\<close> of the first one,
  inside it, and the first block covers the array itself.
\<close>
lemma blocks_overlap:
  fixes s :: "('t, 'c, 'z) requests_scheme" and array :: nat
  assumes "obj_size > 8" "j < MAX_AUTH_SESSION_COUNT"
  defines "pools \<equiv> request_pool (fill_pools array obj_size (s\<lparr>request_pool := \<lambda>_. []\<rparr>))"
  shows "pools 0 ! j < pools 1 ! j \<and> pools 1 ! j < pools 0 ! j + obj_size \<and> pools 0 ! 0 = array \<and>
    length (pools 0) = MAX_AUTH_SESSION_COUNT \<and> length (pools 1) = MAX_AUTH_SESSION_COUNT"
  using assms(1,2) by (simp add: pools_def fill_pools_def block_address_def MAX_AUTH_SESSION_COUNT_def)

definition no_requests :: "(nat, nat) requests" where
  "no_requests = \<lparr>timer_heap = Map.empty, free_timers = [], working_timers = {}, waits = [], posted_tasks = [], cancels = [],
     request_pool = \<lambda>_. [], requests_active = [], task_queue = []\<rparr>"

lemma blocks_overlap_witness:
  "let pools = request_pool (fill_pools 1000 8500 (no_requests\<lparr>request_pool := \<lambda>_. []\<rparr>)) in
     pools 0 ! 3 < pools 1 ! 3 \<and> pools 1 ! 3 < pools 0 ! 3 + 8500"
  using blocks_overlap [of 8500 3 1000 no_requests] by (simp add: Let_def MAX_AUTH_SESSION_COUNT_def)

text \<open>
  A request can wait although a block is free: when the last running request is answered between the two halves of
  \<^verbatim>\<open>queue_http_request\<close>, the request joins the queue after the answer has emptied it, and the next one overtakes it.
\<close>
lemma request_left_waiting:
  assumes "requests_ok all s" "request_pool s 1 = []" "task_queue s = []"
    and "requests_active s = xs @ (1, b, r) # ys" "call (callback_func r) s = Inr u" "same_requests s u"
  shows "\<exists>s'. try_http_request host path c s = (False, s) \<and> request_answered call (length xs) s = Inr s' \<and>
    (let t = push_task host path c s' in request_pool t 1 = [b] \<and> length (task_queue t) = 1 \<and>
       (\<exists>v. queue_http_request host' path' c' t = (True, v) \<and> task_queue v = task_queue t))"
proof -
  have u: "requests_ok all u" "requests_active u = xs @ (1, b, r) # ys" "request_pool u 1 = []" "task_queue u = []"
    using same_requests_ok [OF assms(6,1)] assms(2-4,6) by (simp_all add: same_requests_def)
  let ?s' = "u\<lparr>requests_active := xs @ ys, request_pool := (request_pool u)(1 := [b]), task_queue := []\<rparr>"
  have "request_answered call (length xs) s = Inr ?s'"
    using assms(4,5) u destruct_at [OF requests_okD(3) [OF u(1)] u(2)]
    by (simp add: request_answered_def queue_http_request_handle_def free_http_request_def Let_def)
  then show ?thesis using assms(2)
    by (simp add: try_http_request_def malloc_http_request_def push_task_def queue_http_request_def construct_request_def)
qed

lemma request_left_waiting_witness:
  defines "q \<equiv> new_http_request ''db'' ''/'' 1"
  shows "\<exists>s'. request_answered (\<lambda>c s. Inr s) 0 (no_requests\<lparr>requests_active := [(1, 5, q)]\<rparr>) = Inr s' \<and>
    request_pool (push_task ''db'' ''/'' 2 s') 1 = [5] \<and> length (task_queue (push_task ''db'' ''/'' 2 s')) = 1"
proof -
  let ?s = "no_requests\<lparr>requests_active := [(1, 5, q)]\<rparr>"
  let ?all = "\<lambda>i. if i = Suc 0 then [5] else []"
  have ok: "requests_ok ?all ?s" by (simp add: requests_ok_def no_requests_def pool_blocks_def active_in_def)
  show ?thesis
    using request_left_waiting [OF ok, where xs = "[]" and ys = "[]" and b = 5 and r = q and call = "\<lambda>c s. Inr s" and u = ?s
        and host = "''db''" and path = "''/''" and c = 2 and host' = "[]" and path' = "[]" and c' = 0]
    by (auto simp: no_requests_def same_requests_def Let_def)
qed

end
