(* ===== verification/Service.thy ===== *)
theory Service
  imports RequestsOk Dispatch
begin

text \<open>
  The life of a client: \<^verbatim>\<open>src/src/service/game_service.cpp\<close>, the base class of the plugins
  (\<^verbatim>\<open>game_plugin.cpp\<close>), \<^verbatim>\<open>game_client.cpp\<close> and the zones (\<^verbatim>\<open>game_zone.cpp\<close>). Clients are objects on a heap that
  the service creates and destroys; the asynchronous calls in flight (posted handlers, delayed tasks, requests) are part of the
  state, so an object used after its destruction is a \<^verbatim>\<open>Dangling\<close> fault. The handlers run one after the other: each
  holds the locks of what it changes. The sets and maps keep the order they are walked in.

  What a plugin class overrides is an argument (\<^verbatim>\<open>hooks\<close>); its command handlers are not among them: a line that reaches a
  plugin passes the limit of the base class here, and what the card game and the question game then do with it is modelled in
  their own theories, on their own state. Texts printed on the console are left out. The requests to other servers are those of
  \<open>Requests\<close>, whose memory is left aside, and \<^verbatim>\<open>queue_http_request\<close> is one step.
\<close>

section \<open>Error codes\<close>

definition NO_ERROR :: int where "NO_ERROR = 0"
definition CLIENT_NET_ERROR :: int where "CLIENT_NET_ERROR = 1"
definition CLIENT_HAS_LOGINED :: int where "CLIENT_HAS_LOGINED = 11"
definition GAME_IS_FULL :: int where "GAME_IS_FULL = 12"
definition GAME_NOT_EXISTED :: int where "GAME_NOT_EXISTED = 15"
definition TIME_OUT :: int where "TIME_OUT = 16"
definition ARGUMENT_ERROR :: int where "ARGUMENT_ERROR = 18"
definition LOGIN_SERVICE_ERROR :: int where "LOGIN_SERVICE_ERROR = 19"
definition LOGIN_CONCURENCY_LIMIT :: int where "LOGIN_CONCURENCY_LIMIT = 20"
definition COMMAND_ERROR :: int where "COMMAND_ERROR = 22"

section \<open>Objects\<close>

type_synonym plugin_ptr = nat

datatype dispatcher = By_service | By_plugin plugin_ptr

text \<open>The handlers given to the \<^verbatim>\<open>io_service\<close> and to timers, and the callbacks of requests.\<close>

datatype service_task =
    Dispatch_bye dispatcher cid
  | Disconnect cid int
  | Remove_client plugin_ptr cid

datatype reply =
    End_auth string cid
  | End_update plugin_ptr cid

record service_client =
  gc_id :: string
  gc_name :: string
  gc_dispatcher :: "dispatcher option"
  gc_plugin_addr :: nat
  gc_available :: bool
  gc_is_error :: bool
  gc_error_code :: int
  gc_sending :: bool
  gc_actived_time :: tick_count
  gc_active_monitor :: post_monitor
  gc_message_monitor :: post_monitor
  gc_retry_update_times :: int
  gc_command :: command

definition ID_LEN :: nat where "ID_LEN = 16"
definition NAME_LEN :: nat where "NAME_LEN = 32"
definition UP_RE_TIMES :: int where "UP_RE_TIMES = 3"

text \<open>\<^verbatim>\<open>gc_sending\<close> is \<^verbatim>\<open>read_pos_ != -1\<close>; \<^verbatim>\<open>gc_plugin_addr\<close> is 0 for no plugin.\<close>

definition new_service_client :: "int \<Rightarrow> service_client" where
  "new_service_client now = \<lparr>gc_id = [], gc_name = [], gc_dispatcher = None, gc_plugin_addr = 0, gc_available = False,
     gc_is_error = False, gc_error_code = CLIENT_NET_ERROR, gc_sending = False, gc_actived_time = tick_restart now,
     gc_active_monitor = post_monitor_init 30 60000 (new_post_monitor now),
     gc_message_monitor = post_monitor_init 5 4000 (new_post_monitor now),
     gc_retry_update_times = UP_RE_TIMES, gc_command = new_command\<rparr>"

record game_plugin =
  gp_game_id :: string
  gp_title :: string
  gp_capacity :: int
  gp_onlined :: bool
  gp_zone :: "string option"
  gp_clients :: "(string \<times> cid) list"

definition new_game_plugin :: "string \<Rightarrow> string \<Rightarrow> int \<Rightarrow> game_plugin" where
  "new_game_plugin gameid title cap = \<lparr>gp_game_id = gameid, gp_title = title, gp_capacity = cap, gp_onlined = False,
     gp_zone = None, gp_clients = []\<rparr>"

record game_zone =
  gz_id :: string
  gz_onlined :: bool

record service = "(service_task, reply) requests" +
  service_running :: bool
  service_handles :: "string list"
  plugins :: "(string \<times> plugin_ptr) list"
  plugin_list :: "plugin_ptr list"
  plugin_heap :: "plugin_ptr \<rightharpoonup> game_plugin"
  service_zones :: "(string \<times> game_zone) list"
  service_clients :: "cid set"
  client_heap :: "cid \<rightharpoonup> service_client"
  destroy_list :: "cid list"
  timeout_count :: "tick_count option"

text \<open>
  What a plugin class may override: \<^verbatim>\<open>on_auth_client\<close>, the checks in front of \<^verbatim>\<open>on_befor_client_join\<close> and
  \<^verbatim>\<open>need_update_offline_client\<close>. The base class accepts everyone and updates nothing.
\<close>

record hooks =
  on_auth_client :: "plugin_ptr \<Rightarrow> service_client \<Rightarrow> string \<Rightarrow> int"
  join_check :: "plugin_ptr \<Rightarrow> service_client \<Rightarrow> int"
  need_update_offline_client :: "plugin_ptr \<Rightarrow> service_client \<Rightarrow> (string \<times> string) option"

definition base_hooks :: hooks where
  "base_hooks = \<lparr>on_auth_client = \<lambda>p c r. NO_ERROR, join_check = \<lambda>p c. NO_ERROR, need_update_offline_client = \<lambda>p c. None\<rparr>"

section \<open>Maps with text keys\<close>

text \<open>A \<^verbatim>\<open>std::map\<close> whose keys are compared by \<^verbatim>\<open>strcmp\<close>: its pairs in key order.\<close>

fun map_set :: "string \<Rightarrow> 'v \<Rightarrow> (string \<times> 'v) list \<Rightarrow> (string \<times> 'v) list" where
  "map_set k v [] = [(k, v)]"
| "map_set k v ((k', v') # m) = (if k = k' then (k', v) # m else if k < k' then (k, v) # (k', v') # m else (k', v') # map_set k v m)"

definition map_erase :: "string \<Rightarrow> (string \<times> 'v) list \<Rightarrow> (string \<times> 'v) list" where
  "map_erase k m = filter (\<lambda>x. fst x \<noteq> k) m"

section \<open>Access to objects\<close>

definition client_at :: "cid \<Rightarrow> service \<Rightarrow> service_client result" where
  "client_at a s = (case client_heap s a of None \<Rightarrow> Inl Dangling | Some c \<Rightarrow> Inr c)"

definition put_client :: "cid \<Rightarrow> service_client \<Rightarrow> service \<Rightarrow> service" where
  "put_client a c s = s\<lparr>client_heap := (client_heap s)(a \<mapsto> c)\<rparr>"

definition plugin_at :: "plugin_ptr \<Rightarrow> service \<Rightarrow> game_plugin result" where
  "plugin_at p s = (case plugin_heap s p of None \<Rightarrow> Inl Dangling | Some g \<Rightarrow> Inr g)"

definition put_plugin :: "plugin_ptr \<Rightarrow> game_plugin \<Rightarrow> service \<Rightarrow> service" where
  "put_plugin p g s = s\<lparr>plugin_heap := (plugin_heap s)(p \<mapsto> g)\<rparr>"

definition post_task :: "service_task \<Rightarrow> service \<Rightarrow> service" where
  "post_task t s = s\<lparr>posted_tasks := posted_tasks s @ [t]\<rparr>"

section \<open>The client\<close>

text \<open>\<^verbatim>\<open>game_client::disconnect(int)\<close>: the socket is shut down, the rest follows when its read ends.\<close>

definition client_disconnect :: "cid \<Rightarrow> int \<Rightarrow> service \<Rightarrow> service result" where
  "client_disconnect a code s = ebind (client_at a s) (\<lambda>c.
     Inr (if gc_available c then put_client a (c\<lparr>gc_error_code := code, gc_available := False\<rparr>) s else s))"

definition client_on_error :: "cid \<Rightarrow> int \<Rightarrow> service \<Rightarrow> service result" where
  "client_on_error a error s = ebind (client_at a s) (\<lambda>c.
     if gc_is_error c then Inr s
     else case gc_dispatcher c of None \<Rightarrow> Inl Assert_failed
       | Some d \<Rightarrow> Inr (post_task (Dispatch_bye d a) (put_client a (c\<lparr>gc_is_error := True,
           gc_error_code := (if gc_error_code c = NO_ERROR then error else gc_error_code c)\<rparr>) s)))"

definition client_fill :: "string \<Rightarrow> string \<Rightarrow> service_client \<Rightarrow> service_client" where
  "client_fill ident name c = c\<lparr>gc_id := take (min (ID_LEN - 1) (length ident)) ident, gc_name := take (min (NAME_LEN - 1) (length name)) name\<rparr>"

definition set_command_dispatcher :: "cid \<Rightarrow> dispatcher option \<Rightarrow> service \<Rightarrow> service result" where
  "set_command_dispatcher a d s = ebind (client_at a s) (\<lambda>c. Inr (put_client a (c\<lparr>gc_dispatcher := d\<rparr>) s))"

section \<open>The plugin\<close>

text \<open>
  The keys of \<^verbatim>\<open>clients_\<close> are pointers to the identifiers in the clients themselves: a look-up in a map that holds
  a destroyed client reads freed memory.
\<close>

definition find_client :: "string \<Rightarrow> game_plugin \<Rightarrow> service \<Rightarrow> cid option result" where
  "find_client k g s = (if \<forall>x \<in> set (gp_clients g). client_heap s (snd x) \<noteq> None then Inr (map_of (gp_clients g) k) else Inl Dangling)"

definition for_each_client :: "(cid \<Rightarrow> service_client \<Rightarrow> service \<Rightarrow> service) \<Rightarrow> plugin_ptr \<Rightarrow> service \<Rightarrow> service result" where
  "for_each_client f p s = ebind (plugin_at p s) (\<lambda>g.
     efold (\<lambda>x s. ebind (client_at (snd x) s) (\<lambda>c. Inr (f (snd x) c s))) (gp_clients g) s)"

definition base_befor_client_join :: "hooks \<Rightarrow> plugin_ptr \<Rightarrow> cid \<Rightarrow> service \<Rightarrow> int result" where
  "base_befor_client_join h p a s = ebind (plugin_at p s) (\<lambda>g. ebind (client_at a s) (\<lambda>c.
     if join_check h p c \<noteq> NO_ERROR then Inr (join_check h p c)
     else if \<not> size_less (length (gp_clients g)) (gp_capacity g) then Inr GAME_IS_FULL
     else if length (gc_id c) > 32 \<or> length (gc_name c) > 32 then Inr ARGUMENT_ERROR
     else ebind (find_client (gc_id c) g s) (\<lambda>found. Inr (if found \<noteq> None then CLIENT_HAS_LOGINED else NO_ERROR))))"

definition join_client :: "hooks \<Rightarrow> plugin_ptr \<Rightarrow> cid \<Rightarrow> service \<Rightarrow> (int \<times> service) result" where
  "join_client h p a s = ebind (base_befor_client_join h p a s) (\<lambda>ret. ebind (client_at a s) (\<lambda>c.
     if \<not> gc_available c then Inr (gc_error_code c, s)
     else if ret = NO_ERROR then
       ebind (set_command_dispatcher a (Some (By_plugin p)) s) (\<lambda>s. ebind (plugin_at p s) (\<lambda>g.
         Inr (ret, put_plugin p (g\<lparr>gp_clients := map_set (gc_id c) a (gp_clients g)\<rparr>) s)))
     else Inr (ret, s)))"

definition auth_client :: "hooks \<Rightarrow> plugin_ptr \<Rightarrow> cid \<Rightarrow> string \<Rightarrow> service \<Rightarrow> (int \<times> service) result" where
  "auth_client h p a response s = ebind (client_at a s) (\<lambda>c.
     let ret = on_auth_client h p c response in
     if ret = NO_ERROR then join_client h p a s else Inr (ret, s))"

section \<open>A client leaves\<close>

text \<open>\<^verbatim>\<open>game_service::on_client_leave\<close> puts the client on the list of those to be destroyed.\<close>

definition service_on_client_leave :: "cid \<Rightarrow> service \<Rightarrow> service result" where
  "service_on_client_leave a s = ebind (set_command_dispatcher a None s) (\<lambda>s.
     Inr (s\<lparr>service_clients := service_clients s - {a}, destroy_list := destroy_list s @ [a]\<rparr>))"

definition service_dispatch_bye :: "cid \<Rightarrow> service \<Rightarrow> service result" where
  "service_dispatch_bye a s = ebind (client_at a s) (\<lambda>c. service_on_client_leave a s)"

definition remove_client_from_plugin :: "plugin_ptr \<Rightarrow> cid \<Rightarrow> service \<Rightarrow> service result" where
  "remove_client_from_plugin p a s = ebind (plugin_at p s) (\<lambda>g. ebind (client_at a s) (\<lambda>c.
     ebind (find_client (gc_id c) g s) (\<lambda>_.
       service_dispatch_bye a (put_plugin p (g\<lparr>gp_clients := map_erase (gc_id c) (gp_clients g)\<rparr>) s))))"

definition begin_update_client :: "plugin_ptr \<Rightarrow> cid \<Rightarrow> string \<Rightarrow> string \<Rightarrow> service \<Rightarrow> service" where
  "begin_update_client p a server_url path_url s = snd (queue_http_request server_url path_url (End_update p a) s)"

definition remove_client :: "hooks \<Rightarrow> plugin_ptr \<Rightarrow> cid \<Rightarrow> service \<Rightarrow> service result" where
  "remove_client h p a s = ebind (set_command_dispatcher a None s) (\<lambda>s. ebind (client_at a s) (\<lambda>c.
     case need_update_offline_client h p c of
       Some (server_url, path_url) \<Rightarrow> Inr (begin_update_client p a server_url path_url s)
     | None \<Rightarrow> remove_client_from_plugin p a s))"

definition dispatch_bye :: "hooks \<Rightarrow> dispatcher \<Rightarrow> cid \<Rightarrow> service \<Rightarrow> service result" where
  "dispatch_bye h d a s = (case d of By_service \<Rightarrow> service_dispatch_bye a s | By_plugin p \<Rightarrow> remove_client h p a s)"

text \<open>
  The answer to the update of a client that has left: after an error it is tried again three seconds later, as often as
  \<^verbatim>\<open>retry_update_times_\<close> allows. The virtual \<^verbatim>\<open>on_update_client\<close>, called when it succeeds, is empty in
  \<^verbatim>\<open>game_plugin\<close>, and neither game overrides it.
\<close>

definition end_update_client :: "timer_addr option \<Rightarrow> int \<Rightarrow> bool \<Rightarrow> int \<Rightarrow> plugin_ptr \<Rightarrow> cid \<Rightarrow> service \<Rightarrow> service result" where
  "end_update_client chunk now err status_code p a s =
     (if \<not> err \<and> status_code = 200 then remove_client_from_plugin p a s
      else ebind (client_at a s) (\<lambda>c.
        let c = c\<lparr>gc_retry_update_times := gc_retry_update_times c - 1\<rparr>; s = put_client a c s in
        if gc_retry_update_times c > 0
        then ebind (queue_task chunk now (Remove_client p a) 3000 False s) (\<lambda>(t, s). Inr s)
        else remove_client_from_plugin p a s))"

section \<open>Logging in\<close>

definition begin_auth :: "plugin_ptr \<Rightarrow> cid \<Rightarrow> service \<Rightarrow> service result" where
  "begin_auth p a s = ebind (plugin_at p s) (\<lambda>g.
     let (ret, s) = start_http_request ''127.0.0.1'' ''/'' (End_auth (gp_game_id g) a) s in
     if ret then Inr s else client_disconnect a LOGIN_CONCURENCY_LIMIT s)"

definition client_login_handle :: "cid \<Rightarrow> string list \<Rightarrow> service \<Rightarrow> service result" where
  "client_login_handle a params s =
     (if length params \<noteq> 2 then client_disconnect a COMMAND_ERROR s
      else ebind (client_at a s) (\<lambda>c.
        if gc_plugin_addr c \<noteq> 0 then client_disconnect a CLIENT_HAS_LOGINED s
        else case map_of (plugins s) (params ! 0) of
            Some p \<Rightarrow> begin_auth p a (put_client a ((client_fill (params ! 1) (params ! 1) c)\<lparr>gc_plugin_addr := p\<rparr>) s)
          | None \<Rightarrow> client_disconnect a GAME_NOT_EXISTED s))"

definition robot_login_handle :: "cid \<Rightarrow> string list \<Rightarrow> service \<Rightarrow> service result" where
  "robot_login_handle a params s = Inr s"

definition end_auth :: "hooks \<Rightarrow> bool \<Rightarrow> int \<Rightarrow> string \<Rightarrow> string \<Rightarrow> cid \<Rightarrow> service \<Rightarrow> service result" where
  "end_auth h err status_code response plugin_id a s =
     (if \<not> service_running s then Inr s
      else if a \<notin> service_clients s then Inr s
      else let s = s\<lparr>service_clients := service_clients s - {a}\<rparr>;
               finish = (\<lambda>(ret, s). if ret \<noteq> NO_ERROR then client_disconnect a ret s else Inr s) in
        if \<not> err \<and> status_code = 200 then
          ebind (client_at a s) (\<lambda>c.
            if \<not> gc_available c then Inr s
            else case map_of (plugins s) plugin_id of
                Some p \<Rightarrow> ebind (auth_client h p a response s) finish
              | None \<Rightarrow> finish (GAME_NOT_EXISTED, s))
        else finish (LOGIN_SERVICE_ERROR, s))"

section \<open>Commands\<close>

definition client_can_active :: "int \<Rightarrow> cid \<Rightarrow> service \<Rightarrow> (bool \<times> service) result" where
  "client_can_active now a s = ebind (client_at a s) (\<lambda>c.
     let (ok, m) = can_active now (gc_active_monitor c) in Inr (ok, put_client a (c\<lparr>gc_active_monitor := m\<rparr>) s))"

definition handler_table :: "service handles" where
  "handler_table = snd (regist_handle ''RLG'' robot_login_handle (snd (regist_handle ''LOG'' client_login_handle [])))"

definition service_on_client_command :: "int \<Rightarrow> cid \<Rightarrow> command \<Rightarrow> service \<Rightarrow> service result" where
  "service_on_client_command now a cmd s =
     (if \<not> service_running s then Inr s
      else ebind (client_can_active now a s) (\<lambda>(ok, s).
        if \<not> ok then client_disconnect a CONSTANT_REQUEST s
        else on_client_command (filter (\<lambda>x. fst x \<in> set (service_handles s)) handler_table) a cmd s))"

text \<open>
  \<^verbatim>\<open>game_plugin::on_client_command\<close> up to the call of the handler that the plugin registered for the command: the handlers are
  those of \<open>DdzPlugin\<close> and \<open>AskPlugin\<close>; they change the state of their game, write to clients and start delayed tasks.
\<close>

definition plugin_base_on_client_command :: "int \<Rightarrow> cid \<Rightarrow> service \<Rightarrow> service result" where
  "plugin_base_on_client_command now a s =
     (if \<not> service_running s then Inr s
      else ebind (client_can_active now a s) (\<lambda>(ok, s).
        if \<not> ok then client_disconnect a CONSTANT_REQUEST s else Inr s))"

text \<open>A line that a client sends, through \<^verbatim>\<open>on_frame_data\<close> and \<^verbatim>\<open>on_client_data\<close>.\<close>

definition service_client_data :: "int \<Rightarrow> cid \<Rightarrow> string \<Rightarrow> service \<Rightarrow> service result" where
  "service_client_data now a frame_data s = ebind (client_at a s) (\<lambda>c.
     case gc_dispatcher c of None \<Rightarrow> Inr s
     | Some d \<Rightarrow>
         if \<not> gc_available c then Inr s
         else let cmd = command_reset frame_data (gc_command c); s = put_client a (c\<lparr>gc_command := cmd\<rparr>) s in
              if \<not> correct cmd then Inr s
              else (case d of By_service \<Rightarrow> service_on_client_command now a cmd s
                    | By_plugin p \<Rightarrow> plugin_base_on_client_command now a s))"

section \<open>Connections\<close>

text \<open>A new client at the address \<open>a\<close>; its handshake and its reads are started.\<close>

definition on_client_connected :: "int \<Rightarrow> cid \<Rightarrow> service \<Rightarrow> service" where
  "on_client_connected now a s = (let c = new_service_client now in
     put_client a (c\<lparr>gc_available := True, gc_dispatcher := Some By_service, gc_actived_time := tick_restart now\<rparr>)
       (s\<lparr>service_clients := insert a (service_clients s)\<rparr>))"

definition on_destroy_client :: "cid \<Rightarrow> service \<Rightarrow> service result" where
  "on_destroy_client a s = ebind (client_at a s) (\<lambda>c. Inr (s\<lparr>client_heap := (client_heap s)(a := None)\<rparr>))"

fun destroy_clients :: "bool \<Rightarrow> cid list \<Rightarrow> service \<Rightarrow> (cid list \<times> service) result" where
  "destroy_clients force [] s = Inr ([], s)"
| "destroy_clients force (a # as) s = ebind (client_at a s) (\<lambda>c.
     if force \<or> \<not> gc_sending c then ebind (on_destroy_client a s) (destroy_clients force as)
     else ebind (destroy_clients force as s) (\<lambda>(kept, s). Inr (a # kept, s)))"

definition on_destroy_clients_in_destroy_list :: "bool \<Rightarrow> service \<Rightarrow> service result" where
  "on_destroy_clients_in_destroy_list force s =
     ebind (destroy_clients force (destroy_list s) s) (\<lambda>(kept, s). Inr (s\<lparr>destroy_list := kept\<rparr>))"

section \<open>The clock of the service\<close>

definition on_update_timeout_clients :: "int \<Rightarrow> plugin_ptr \<Rightarrow> service \<Rightarrow> service result" where
  "on_update_timeout_clients now p s = for_each_client (\<lambda>a c s.
     if elapsed now (gc_actived_time c) > 60 * 1000 then post_task (Disconnect a TIME_OUT) s else s) p s"

text \<open>Every five seconds. The loop over the clients that have not logged in reads them and does nothing.\<close>

definition on_check_timeout_clients :: "int \<Rightarrow> bool \<Rightarrow> service \<Rightarrow> service result" where
  "on_check_timeout_clients now error s =
     (if error \<or> \<not> service_running s then Inr s
      else ebind (efold (\<lambda>a s. ebind (client_at a s) (\<lambda>c. Inr s)) (sorted_list_of_set (service_clients s)) s) (\<lambda>s.
        let count = (case timeout_count s of None \<Rightarrow> tick_restart now | Some t \<Rightarrow> t); s = s\<lparr>timeout_count := Some count\<rparr> in
        ebind (if elapsed now count > 60 * 1000
               then ebind (efold (on_update_timeout_clients now) (plugin_list s) s) (\<lambda>s. Inr (s\<lparr>timeout_count := Some (tick_restart now)\<rparr>))
               else Inr s)
          (on_destroy_clients_in_destroy_list False)))"

section \<open>Loading and unloading\<close>

definition plugin_load :: "plugin_ptr \<Rightarrow> service \<Rightarrow> service result" where
  "plugin_load p s = ebind (plugin_at p s) (\<lambda>g. Inr (if \<not> gp_onlined g then put_plugin p (g\<lparr>gp_onlined := True\<rparr>) s else s))"

text \<open>\<^verbatim>\<open>unload\<close> then waits until the last client is gone: \<^verbatim>\<open>plugin_empty\<close> is the condition of its loop.\<close>

definition plugin_unload :: "plugin_ptr \<Rightarrow> service \<Rightarrow> service result" where
  "plugin_unload p s = ebind (plugin_at p s) (\<lambda>g.
     if \<not> gp_onlined g then Inr s
     else for_each_client (\<lambda>a c. post_task (Disconnect a SERVER_CLOSEING)) p (put_plugin p (g\<lparr>gp_onlined := False\<rparr>) s))"

definition plugin_empty :: "plugin_ptr \<Rightarrow> service \<Rightarrow> bool" where
  "plugin_empty p s = (case plugin_heap s p of None \<Rightarrow> True | Some g \<Rightarrow> gp_clients g = [])"

definition zone_load :: "game_zone \<Rightarrow> game_zone" where
  "zone_load z = (if \<not> gz_onlined z then z\<lparr>gz_onlined := True\<rparr> else z)"

definition zone_unload :: "game_zone \<Rightarrow> game_zone" where
  "zone_unload z = (if gz_onlined z then z\<lparr>gz_onlined := False\<rparr> else z)"

definition attach_zone :: "string \<Rightarrow> service \<Rightarrow> service" where
  "attach_zone zone_id s = (case map_of (service_zones s) zone_id of
       Some z \<Rightarrow> s
     | None \<Rightarrow> let z = \<lparr>gz_id = zone_id, gz_onlined = False\<rparr>; z = (if service_running s then zone_load z else z) in
         s\<lparr>service_zones := map_set (gz_id z) z (service_zones s)\<rparr>)"

definition load_plugin :: "plugin_ptr option \<Rightarrow> string option \<Rightarrow> service \<Rightarrow> (int \<times> service) result" where
  "load_plugin plugin zone_id s = (case plugin of None \<Rightarrow> Inr (-1, s)
     | Some p \<Rightarrow> ebind (plugin_at p s) (\<lambda>g.
         if gp_onlined g \<or> length (gp_clients g) > 0 then Inr (-2, s)
         else if map_of (plugins s) (gp_game_id g) \<noteq> None then Inr (-2, s)
         else let s = s\<lparr>plugins := map_set (gp_game_id g) p (plugins s), plugin_list := plugin_list s @ [p]\<rparr>;
                  s = (case zone_id of None \<Rightarrow> s | Some z \<Rightarrow> put_plugin p (g\<lparr>gp_zone := Some z\<rparr>) (attach_zone z s)) in
              ebind (if service_running s then plugin_load p s else Inr s) (\<lambda>s. Inr (1, s))))"

text \<open>\<^verbatim>\<open>unload_plugin\<close> up to its waiting loop; \<^verbatim>\<open>False\<close> means that it returns \<^verbatim>\<open>false\<close> at once.\<close>

definition unload_plugin :: "plugin_ptr option \<Rightarrow> service \<Rightarrow> (bool \<times> service) result" where
  "unload_plugin plugin s = (case plugin of None \<Rightarrow> Inr (False, s)
     | Some p \<Rightarrow> ebind (plugin_at p s) (\<lambda>g.
         if map_of (plugins s) (gp_game_id g) = None then Inr (False, s)
         else let s = s\<lparr>plugins := map_erase (gp_game_id g) (plugins s), plugin_list := filter (\<lambda>q. q \<noteq> p) (plugin_list s)\<rparr> in
              ebind (if gp_onlined g then plugin_unload p s else Inr s) (\<lambda>s. Inr (True, s))))"

definition service_on_start :: "nat \<Rightarrow> nat \<Rightarrow> service \<Rightarrow> service result" where
  "service_on_start array obj_size s =
     (let s = s\<lparr>service_handles := [''LOG'', ''RLG''], service_zones := map (map_prod id zone_load) (service_zones s)\<rparr> in
      ebind (efold plugin_load (plugin_list s) s) (\<lambda>s. Inr (fill_pools array obj_size s)))"

text \<open>\<^verbatim>\<open>on_stop\<close> without its pauses, and \<^verbatim>\<open>on_stoped\<close>.\<close>

definition service_on_stop :: "service \<Rightarrow> service result" where
  "service_on_stop s =
     ebind (efold (\<lambda>a. client_disconnect a SERVER_CLOSEING) (sorted_list_of_set (service_clients s)) s) (\<lambda>s.
     ebind (efold plugin_unload (plugin_list s) s) (\<lambda>s.
       Inr (s\<lparr>service_zones := map (map_prod id zone_unload) (service_zones s)\<rparr>)))"

definition service_on_stoped :: "service \<Rightarrow> service result" where
  "service_on_stoped s = on_destroy_clients_in_destroy_list True s"

section \<open>Calls in flight\<close>

definition run_service_task :: "hooks \<Rightarrow> service_task \<Rightarrow> service \<Rightarrow> service result" where
  "run_service_task h t s = (case t of Dispatch_bye d a \<Rightarrow> dispatch_bye h d a s
     | Disconnect a code \<Rightarrow> client_disconnect a code s
     | Remove_client p a \<Rightarrow> remove_client h p a s)"

text \<open>The answer a request got: an error of the connection, the status and the text.\<close>

record answer =
  ans_err :: bool
  ans_status :: int
  ans_text :: string

definition run_reply :: "hooks \<Rightarrow> timer_addr option \<Rightarrow> int \<Rightarrow> answer \<Rightarrow> reply \<Rightarrow> service \<Rightarrow> service result" where
  "run_reply h chunk now ans r s = (case r of
       End_auth plugin_id a \<Rightarrow> end_auth h (ans_err ans) (ans_status ans) (ans_text ans) plugin_id a s
     | End_update p a \<Rightarrow> end_update_client chunk now (ans_err ans) (ans_status ans) p a s)"

section \<open>What happens to the service\<close>

text \<open>
  One event at a time: a connection, a line, the end of the reads of a client (\<^verbatim>\<open>on_error\<close>), a write begun or
  ended, the run of a posted handler, the end of a wait, the answer to a request, the clock, the loading and unloading of a
  plugin. Positions choose among the calls in flight; several threads run them, so any of them can be next.
\<close>

datatype service_event =
    Connect cid
  | Data cid string
  | Read_ends cid int
  | Sending cid bool
  | Run_posted nat
  | Wait_ends nat
  | Answered nat "timer_addr option" answer
  | Clock
  | Load "plugin_ptr option" "string option"
  | Unload "plugin_ptr option"

definition set_sending :: "cid \<Rightarrow> bool \<Rightarrow> service \<Rightarrow> service result" where
  "set_sending a b s = ebind (client_at a s) (\<lambda>c. Inr (put_client a (c\<lparr>gc_sending := b\<rparr>) s))"

definition service_step :: "hooks \<Rightarrow> int \<Rightarrow> service_event \<Rightarrow> service \<Rightarrow> service result" where
  "service_step h now e s = (case e of
       Connect a \<Rightarrow> Inr (on_client_connected now a s)
     | Data a line \<Rightarrow> service_client_data now a line s
     | Read_ends a error \<Rightarrow> client_on_error a error s
     | Sending a b \<Rightarrow> set_sending a b s
     | Run_posted i \<Rightarrow> run_service_task h (posted_tasks s ! i) (s\<lparr>posted_tasks := take i (posted_tasks s) @ drop (Suc i) (posted_tasks s)\<rparr>)
     | Wait_ends i \<Rightarrow> ebind (wait_ends now False i s) (\<lambda>(run, s). case run of None \<Rightarrow> Inr s | Some t \<Rightarrow> run_service_task h t s)
     | Answered k chunk ans \<Rightarrow> request_answered (run_reply h chunk now ans) k s
     | Clock \<Rightarrow> on_check_timeout_clients now False s
     | Load p z \<Rightarrow> ebind (load_plugin p z s) (\<lambda>(ret, s). Inr s)
     | Unload p \<Rightarrow> ebind (unload_plugin p s) (\<lambda>(ret, s). Inr s))"

text \<open>
  What the environment keeps to: new memory is not in use, only a connected client sends, the reads of a client end once, and a
  call must be in flight to be run.
\<close>

definition possible :: "service_event \<Rightarrow> service \<Rightarrow> bool" where
  "possible e s = (case e of
       Connect a \<Rightarrow> client_heap s a = None
     | Data a line \<Rightarrow> (case client_heap s a of None \<Rightarrow> False | Some c \<Rightarrow> \<not> gc_is_error c)
     | Read_ends a error \<Rightarrow> (case client_heap s a of None \<Rightarrow> False | Some c \<Rightarrow> \<not> gc_is_error c)
     | Sending a b \<Rightarrow> client_heap s a \<noteq> None
     | Run_posted i \<Rightarrow> i < length (posted_tasks s)
     | Wait_ends i \<Rightarrow> i < length (waits s)
     | Answered k chunk ans \<Rightarrow> k < length (requests_active s) \<and> (case chunk of None \<Rightarrow> False | Some t \<Rightarrow> timer_heap s t = None)
     | Clock \<Rightarrow> True
     | Load p z \<Rightarrow> (case p of None \<Rightarrow> True | Some q \<Rightarrow> plugin_heap s q \<noteq> None)
     | Unload p \<Rightarrow> (case p of None \<Rightarrow> True | Some q \<Rightarrow> plugin_heap s q \<noteq> None))"

end
