(* ===== verification/TimersOk.thy ===== *)
theory TimersOk
  imports Timers
begin

text \<open>
  What the timer pool keeps: every live timer is either free or armed with one wait, only timers that cannot be
  cancelled are pooled, and the pool is ordered by the time its timers were last used. Every task started runs once,
  unless its wait ends with an error. The last part shows the race between the two halves of \<^verbatim>\<open>queue_task\<close>.
\<close>

section \<open>The invariant\<close>

definition stamp :: "('c, 'z) async_task_scheme \<Rightarrow> timer_addr \<Rightarrow> int" where
  "stamp s t = (case timer_heap s t of None \<Rightarrow> 0 | Some tm \<Rightarrow> start_time (last_actived_time tm))"

definition poolable :: "int \<Rightarrow> ('c, 'z) async_task_scheme \<Rightarrow> timer_addr \<Rightarrow> bool" where
  "poolable now s t = (case timer_heap s t of None \<Rightarrow> False
     | Some tm \<Rightarrow> \<not> cancel_enabled tm \<and> start_time (last_actived_time tm) \<le> now)"

definition newest_first :: "('c, 'z) async_task_scheme \<Rightarrow> bool" where
  "newest_first s = sorted_wrt (\<lambda>a b. stamp s b \<le> stamp s a) (free_timers s)"

definition timers_ok :: "int \<Rightarrow> ('c, 'z) async_task_scheme \<Rightarrow> bool" where
  "timers_ok now s \<longleftrightarrow> distinct (free_timers s) \<and> distinct (map fst (waits s)) \<and>
     set (map fst (waits s)) = working_timers s \<and> set (free_timers s) \<inter> working_timers s = {} \<and>
     dom (timer_heap s) = set (free_timers s) \<union> working_timers s \<and>
     (\<forall>t \<in> set (free_timers s). poolable now s t) \<and> newest_first s"

lemma timers_okD:
  assumes "timers_ok now s"
  shows "distinct (free_timers s)" "distinct (map fst (waits s))" "set (map fst (waits s)) = working_timers s"
    "set (free_timers s) \<inter> working_timers s = {}" "dom (timer_heap s) = set (free_timers s) \<union> working_timers s"
    "\<And>t. t \<in> set (free_timers s) \<Longrightarrow> poolable now s t" "newest_first s"
  using assms by (simp_all add: timers_ok_def)

lemma new_timers_ok: "timers_ok now new_async_task"
  by (simp add: timers_ok_def new_async_task_def newest_first_def)

lemma timers_ok_later: "timers_ok now s \<Longrightarrow> now \<le> later \<Longrightarrow> timers_ok later s"
  by (fastforce simp: timers_ok_def poolable_def split: option.splits)

lemma live_timer:
  assumes "timers_ok now s" "t \<in> working_timers s"
  obtains tm where "timer_heap s t = Some tm"
  using timers_okD(5) [OF assms(1)] assms(2) by blast

text \<open>Only the pool, the armed timers and the heap matter.\<close>

lemma stamp_cong: "timer_heap s t = timer_heap s' t \<Longrightarrow> stamp s t = stamp s' t"
  by (simp add: stamp_def)

lemma newest_first_cong:
  assumes "free_timers s' = free_timers s" "\<And>t. t \<in> set (free_timers s) \<Longrightarrow> timer_heap s' t = timer_heap s t"
  shows "newest_first s' = newest_first s"
proof -
  have "stamp s' t = stamp s t" if "t \<in> set (free_timers s)" for t
    using assms(2) [OF that] by (rule stamp_cong)
  then have "sorted_wrt (\<lambda>a b. stamp s' b \<le> stamp s' a) xs = sorted_wrt (\<lambda>a b. stamp s b \<le> stamp s a) xs"
    if "set xs \<subseteq> set (free_timers s)" for xs
    using that
  proof (induction xs)
    case (Cons a xs)
    then have "\<forall>x \<in> set xs. stamp s' x = stamp s x" using \<open>\<And>t. _ \<Longrightarrow> stamp s' t = stamp s t\<close> by auto
    with Cons show ?case using \<open>\<And>t. _ \<Longrightarrow> stamp s' t = stamp s t\<close> by auto
  qed simp
  then show ?thesis by (simp add: newest_first_def assms(1))
qed

section \<open>Starting tasks\<close>

lemma queue_task_ok:
  assumes ok: "timers_ok now s" and fresh: "chunk \<notin> dom (timer_heap s)"
  shows "\<exists>t s'. queue_task (Some chunk) now callback delay ce s = Inr (t, s') \<and> timers_ok now s' \<and>
    mset (posted_tasks s') + mset (map (snd \<circ> snd) (waits s')) =
      add_mset callback (mset (posted_tasks s) + mset (map (snd \<circ> snd) (waits s)))"
proof -
  note okD = timers_okD [OF ok]
  consider (now) "delay \<le> 0" | (pool) t ts where "\<not> delay \<le> 0" "\<not> ce" "free_timers s = t # ts"
    | (fresh) "\<not> delay \<le> 0" "ce \<or> free_timers s = []"
    by (cases "free_timers s") auto
  then show ?thesis
  proof cases
    case now
    with ok show ?thesis
      by (auto simp: queue_task_def timers_ok_def poolable_def newest_first_def stamp_def cong: option.case_cong)
  next
    case pool
    let ?s = "s\<lparr>free_timers := ts, waits := waits s @ [(t, delay, callback)], working_timers := insert t (working_timers s)\<rparr>"
    have "timer_heap s t \<noteq> None" using okD(6) [of t] pool(3) by (auto simp: poolable_def split: option.splits)
    then have run: "queue_task (Some chunk) now callback delay ce s = Inr (Some t, ?s)"
      using pool by (simp add: queue_task_def arm_timer_def take_timer_def register_timer_def)
    have "newest_first ?s" using okD(7) by (simp add: newest_first_def pool(3) stamp_def)
    then have "timers_ok now ?s"
      using okD pool(3) by (auto simp: timers_ok_def poolable_def)
    with run show ?thesis by simp
  next
    case fresh
    let ?tm = "new_task_timer now ce"
    let ?s = "s\<lparr>timer_heap := (timer_heap s)(chunk \<mapsto> ?tm), waits := waits s @ [(chunk, delay, callback)],
      working_timers := insert chunk (working_timers s)\<rparr>"
    have run: "queue_task (Some chunk) now callback delay ce s = Inr (Some chunk, ?s)"
      using fresh by (auto simp: queue_task_def arm_timer_def take_timer_def timer_create_def register_timer_def)
    have new: "chunk \<notin> set (free_timers s)" "chunk \<notin> working_timers s" using assms(2) okD(5) by auto
    then have "newest_first ?s \<longleftrightarrow> newest_first s" by (intro newest_first_cong) auto
    then have "timers_ok now ?s"
      using okD new by (auto simp: timers_ok_def poolable_def)
    with run show ?thesis by simp
  qed
qed

section \<open>The end of a wait\<close>

lemma drop_back:
  assumes ok: "timers_ok now s" and b: "free_timers s = xs @ [b]"
  shows "timers_ok now (timer_destroy b (s\<lparr>free_timers := xs\<rparr>))"
proof -
  note okD = timers_okD [OF ok]
  let ?s = "timer_destroy b (s\<lparr>free_timers := xs\<rparr>)"
  have "b \<notin> set xs" "b \<notin> working_timers s" using okD(1,4) b by auto
  moreover have "newest_first (s\<lparr>free_timers := xs\<rparr>)"
    using okD(7) by (simp add: newest_first_def b sorted_wrt_append stamp_def)
  moreover from calculation have "newest_first ?s"
    by (subst newest_first_cong [of _ "s\<lparr>free_timers := xs\<rparr>"]) (auto simp: timer_destroy_def)
  ultimately show ?thesis
    using okD b by (auto simp: timers_ok_def poolable_def timer_destroy_def)
qed

lemma free_timer_ok:
  assumes "distinct (free_timers s)" "t \<notin> set (free_timers s)" "t \<notin> working_timers s" "\<not> cancel_enabled tm"
    and "distinct (map fst (waits s))" "set (map fst (waits s)) = working_timers s" "set (free_timers s) \<inter> working_timers s = {}"
    and "dom (timer_heap s) = insert t (set (free_timers s) \<union> working_timers s)"
    and "\<And>u. u \<in> set (free_timers s) \<Longrightarrow> poolable now s u" "newest_first s"
  shows "\<exists>s'. free_timer now t tm s = Inr s' \<and> timers_ok now s' \<and> waits s' = waits s \<and> posted_tasks s' = posted_tasks s"
proof -
  let ?tm = "tm\<lparr>last_actived_time := tick_restart now\<rparr>"
  let ?s = "s\<lparr>timer_heap := (timer_heap s)(t \<mapsto> ?tm), free_timers := t # free_timers s\<rparr>"
  have stamps: "stamp ?s t = now" "\<And>u. u \<in> set (free_timers s) \<Longrightarrow> stamp ?s u = stamp s u"
    using assms(2) by (auto simp: stamp_def tick_restart_def)
  have "\<And>u. u \<in> set (free_timers s) \<Longrightarrow> stamp s u \<le> now"
    using assms(9) by (fastforce simp: stamp_def poolable_def split: option.splits)
  moreover have "newest_first (s\<lparr>timer_heap := (timer_heap s)(t \<mapsto> ?tm)\<rparr>)"
    using assms(2,10) by (subst newest_first_cong [of _ s]) auto
  ultimately have newest: "newest_first ?s" using stamps by (simp add: newest_first_def stamp_def)
  have ok: "timers_ok now ?s"
    using assms newest by (auto simp: timers_ok_def poolable_def tick_restart_def)
  show ?thesis
  proof (cases "length (free_timers ?s) > MIN_ACTIVED_TIMER")
    case False
    then show ?thesis using ok by (simp add: free_timer_def)
  next
    case True
    obtain xs b where b: "free_timers ?s = xs @ [b]" by (cases "free_timers ?s" rule: rev_cases) auto
    then obtain tm' where tm': "timer_heap ?s b = Some tm'"
      using timers_okD(6) [OF ok, of b] by (auto simp: poolable_def split: option.splits)
    have run: "free_timer now t tm s = Inr (if elapsed now (last_actived_time tm') > MAX_TIMER_FREE_TICK
        then timer_destroy b (?s\<lparr>free_timers := xs\<rparr>) else ?s)"
      using True b tm' by (simp add: free_timer_def Let_def)
    show ?thesis using ok drop_back [OF ok b] unfolding run by (simp add: timer_destroy_def)
  qed
qed

lemma task_handle_ok:
  assumes ok: "timers_ok now s" and i: "i < length (waits s)" "waits s ! i = (t, delay, callback)"
  shows "\<exists>s'. wait_ends now error i s = Inr (if error then None else Some callback, s') \<and> timers_ok now s' \<and>
    add_mset callback (mset (posted_tasks s') + mset (map (snd \<circ> snd) (waits s'))) =
      mset (posted_tasks s) + mset (map (snd \<circ> snd) (waits s))"
proof -
  note okD = timers_okD [OF ok]
  obtain xs ys where w: "waits s = xs @ (t, delay, callback) # ys" "length xs = i"
    using i by (metis id_take_nth_drop length_take min.absorb4)
  let ?s = "s\<lparr>waits := xs @ ys, working_timers := working_timers s - {t}\<rparr>"
  have t: "t \<in> working_timers s" "t \<notin> set (free_timers s)" using okD(3,4) by (auto simp: w(1))
  then obtain tm where tm: "timer_heap s t = Some tm" using live_timer [OF ok] by blast
  have rest: "distinct (map fst (xs @ ys))" "set (map fst (xs @ ys)) = working_timers s - {t}"
    using okD(2) unfolding okD(3) [symmetric] by (auto simp: w(1))
  have "\<exists>s'. (if \<not> cancel_enabled tm then free_timer now t tm ?s else Inr (timer_destroy t ?s)) = Inr s' \<and>
    timers_ok now s' \<and> waits s' = xs @ ys \<and> posted_tasks s' = posted_tasks s"
  proof (cases "cancel_enabled tm")
    case False
    have "\<exists>s'. free_timer now t tm ?s = Inr s' \<and> timers_ok now s' \<and> waits s' = waits ?s \<and> posted_tasks s' = posted_tasks ?s"
    proof (rule free_timer_ok)
      show "newest_first ?s" using okD(7) by (simp add: newest_first_def stamp_def)
    qed (use okD t rest False in \<open>auto simp: poolable_def\<close>)
    with False show ?thesis by simp
  next
    case True
    have "newest_first (timer_destroy t ?s)"
      using okD(7) t by (subst newest_first_cong [of _ s]) (auto simp: timer_destroy_def)
    moreover have "poolable now (timer_destroy t ?s) u" if "u \<in> set (free_timers s)" for u
      using okD(6) [OF that] that t by (auto simp: poolable_def timer_destroy_def)
    ultimately have "timers_ok now (timer_destroy t ?s)"
      using okD(1,4,5) t rest by (auto simp: timers_ok_def timer_destroy_def)
    with True show ?thesis by (simp add: timer_destroy_def)
  qed
  then obtain s' where s': "(if \<not> cancel_enabled tm then free_timer now t tm ?s else Inr (timer_destroy t ?s)) = Inr s'"
    "timers_ok now s'" "waits s' = xs @ ys" "posted_tasks s' = posted_tasks s" by blast
  have "wait_ends now error i s = Inr (if error then None else Some callback, s')"
    unfolding wait_ends_def i(2) using w tm s'(1) by (simp add: task_handle_def)
  with s' show ?thesis by (simp add: w(1))
qed

section \<open>Cancelling\<close>

lemma timers_ok_cancels [simp]: "timers_ok now (s\<lparr>cancels := cs\<rparr>) = timers_ok now s"
  by (simp add: timers_ok_def poolable_def newest_first_def stamp_def)

lemma cancel_loop:
  assumes "\<And>t. t \<in> set ts \<Longrightarrow> timer_heap s t \<noteq> None"
  shows "efold (\<lambda>t s. if timer_heap s t = None then Inl Dangling else Inr (s\<lparr>cancels := cancels s @ [t]\<rparr>)) ts s =
    Inr (s\<lparr>cancels := cancels s @ ts\<rparr>)"
  using assms by (induction ts arbitrary: s) simp_all

lemma cancel_all_ok:
  assumes ok: "timers_ok now s"
  shows "cancel_all_task s = Inr (s\<lparr>cancels := cancels s @ sorted_list_of_set (working_timers s)\<rparr>)"
proof -
  have "finite (working_timers s)" unfolding timers_okD(3) [OF ok, symmetric] by simp
  then have "timer_heap s t \<noteq> None" if "t \<in> set (sorted_list_of_set (working_timers s))" for t
    using live_timer [OF ok, of t] that by auto
  then show ?thesis unfolding cancel_all_task_def by (rule cancel_loop)
qed

lemma cancel_live:
  "timer_heap s t = Some tm \<Longrightarrow> cancel_task hit (Some t) s =
     Inr (cancel_enabled tm \<and> hit > 0, if cancel_enabled tm then s\<lparr>cancels := cancels s @ [t]\<rparr> else s)"
  by (simp add: cancel_task_def)

section \<open>Runs\<close>

text \<open>
  The operations in any order, with the tasks queued so far, those that ran and those dropped because their wait ended
  with an error. A posted task is run by the service.
\<close>

inductive timers_run :: "int \<Rightarrow> 'c async_task \<Rightarrow> 'c multiset \<Rightarrow> 'c multiset \<Rightarrow> 'c multiset \<Rightarrow> bool" where
  start: "timers_run now new_async_task {#} {#} {#}"
| time: "timers_run now s q r d \<Longrightarrow> now \<le> later \<Longrightarrow> timers_run later s q r d"
| queue: "timers_run now s q r d \<Longrightarrow> chunk \<notin> dom (timer_heap s) \<Longrightarrow>
    queue_task (Some chunk) now c delay ce s = Inr (t, s') \<Longrightarrow> timers_run now s' (add_mset c q) r d"
| ends: "timers_run now s q r d \<Longrightarrow> i < length (waits s) \<Longrightarrow> waits s ! i = (t, delay, c) \<Longrightarrow>
    wait_ends now error i s = Inr (run, s') \<Longrightarrow>
    timers_run now s' q (if error then r else add_mset c r) (if error then add_mset c d else d)"
| posted: "timers_run now s q r d \<Longrightarrow> posted_tasks s = xs @ c # ys \<Longrightarrow>
    timers_run now (s\<lparr>posted_tasks := xs @ ys\<rparr>) q (add_mset c r) d"
| cancel: "timers_run now s q r d \<Longrightarrow> cancel_task hit t s = Inr (b, s') \<Longrightarrow> timers_run now s' q r d"
| cancel_all: "timers_run now s q r d \<Longrightarrow> cancel_all_task s = Inr s' \<Longrightarrow> timers_run now s' q r d"

definition unfinished :: "('c, 'z) async_task_scheme \<Rightarrow> 'c multiset" where
  "unfinished s = mset (posted_tasks s) + mset (map (snd \<circ> snd) (waits s))"

lemma run_keeps_order:
  assumes "timers_run now s q r d"
  shows "timers_ok now s \<and> q = r + d + unfinished s"
  using assms
proof induction
  case start
  have "unfinished new_async_task = {#}" by (simp add: unfinished_def new_async_task_def)
  then show ?case by (simp add: new_timers_ok)
next
  case time
  then show ?case using timers_ok_later by blast
next
  case (queue now s q r d chunk c delay ce t s')
  then show ?case using queue_task_ok [of now s chunk c delay ce] by (auto simp: unfinished_def)
next
  case (ends now s q r d i t delay c error run s')
  then show ?case using task_handle_ok [of now s i t delay c error] by (auto simp: unfinished_def ac_simps)
next
  case (posted now s q r d xs c ys)
  then show ?case by (simp add: unfinished_def timers_ok_def poolable_def newest_first_def stamp_def)
next
  case (cancel now s q r d hit t b s')
  then show ?case by (auto simp: cancel_task_def unfinished_def split: option.splits if_splits)
next
  case (cancel_all now s q r d s')
  then show ?case by (auto simp: cancel_all_ok unfinished_def)
qed

section \<open>Properties\<close>

lemma ended_timer_gone:
  assumes "timers_ok now s" "i < length (waits s)" "waits s ! i = (t, delay, c)" "timer_heap s t = Some tm" "cancel_enabled tm"
  shows "\<exists>s'. wait_ends now error i s = Inr (if error then None else Some c, s') \<and> timer_heap s' t = None"
  using assms(3-5) by (simp add: wait_ends_def task_handle_def timer_destroy_def)

text \<open>
  C17. While timers are armed and registered in one go (\<open>queue_task\<close> as one step of a run; \<open>freed_timer_is_used\<close> is about the other
  case): every live timer is either in the pool or armed with exactly one wait, only timers that cannot be cancelled are pooled, the pool is
  ordered by last use, and cancelling all tasks faults nowhere. Cancelling one task by its timer is safe exactly for the timers that are
  armed or pooled; and a timer that can be cancelled is gone with the end of its wait, so that the pointer
  \<^verbatim>\<open>queue_task\<close> has returned must not be cancelled from then on.
\<close>
theorem timers_keep_order:
  assumes "timers_run now s q r d"
  shows "timers_ok now s \<and> cancel_all_task s = Inr (s\<lparr>cancels := cancels s @ sorted_list_of_set (working_timers s)\<rparr>) \<and>
    (\<forall>t. if t \<in> working_timers s \<union> set (free_timers s)
      then \<exists>tm. timer_heap s t = Some tm \<and> cancel_task hit (Some t) s =
        Inr (cancel_enabled tm \<and> hit > 0, if cancel_enabled tm then s\<lparr>cancels := cancels s @ [t]\<rparr> else s)
      else cancel_task hit (Some t) s = Inl Dangling) \<and>
    (\<forall>i < length (waits s). \<forall>tm. timer_heap s (fst (waits s ! i)) = Some tm \<and> cancel_enabled tm \<longrightarrow>
      (\<exists>run s'. wait_ends now error i s = Inr (run, s') \<and> cancel_task hit (Some (fst (waits s ! i))) s' = Inl Dangling))"
proof (intro conjI allI impI)
  show ok: "timers_ok now s" using run_keeps_order [OF assms] by blast
  show "cancel_all_task s = Inr (s\<lparr>cancels := cancels s @ sorted_list_of_set (working_timers s)\<rparr>)"
    by (rule cancel_all_ok [OF ok])
  fix t
  have live: "(\<exists>tm. timer_heap s t = Some tm) \<longleftrightarrow> t \<in> working_timers s \<union> set (free_timers s)"
    using timers_okD(5) [OF ok] by auto
  show "if t \<in> working_timers s \<union> set (free_timers s)
      then \<exists>tm. timer_heap s t = Some tm \<and> cancel_task hit (Some t) s =
        Inr (cancel_enabled tm \<and> hit > 0, if cancel_enabled tm then s\<lparr>cancels := cancels s @ [t]\<rparr> else s)
      else cancel_task hit (Some t) s = Inl Dangling"
    using cancel_live [of s t] live by (cases "timer_heap s t") (auto simp: cancel_task_def)
next
  fix i tm
  assume i: "i < length (waits s)" and tm: "timer_heap s (fst (waits s ! i)) = Some tm \<and> cancel_enabled tm"
  obtain t delay c where w: "waits s ! i = (t, delay, c)" by (cases "waits s ! i")
  have ok: "timers_ok now s" using run_keeps_order [OF assms] by blast
  show "\<exists>run s'. wait_ends now error i s = Inr (run, s') \<and> cancel_task hit (Some (fst (waits s ! i))) s' = Inl Dangling"
    using ended_timer_gone [OF ok i w, of tm error] tm by (auto simp: w cancel_task_def)
qed

text \<open>
  C16. No task is lost and none runs twice: a task that was started has run, or was dropped because its wait ended with an error, or is
  still to come; and the wait of a task that is still to come can end at any time, runs it and faults nowhere.
\<close>
theorem every_task_once:
  assumes "timers_run now s q r d"
  shows "q = r + d + unfinished s \<and>
    (\<forall>i < length (waits s). \<exists>s'. wait_ends now False i s = Inr (Some (snd (snd (waits s ! i))), s') \<and>
       add_mset (snd (snd (waits s ! i))) (unfinished s') = unfinished s)"
proof (intro conjI allI impI)
  show "q = r + d + unfinished s" using run_keeps_order [OF assms] by blast
next
  fix i assume i: "i < length (waits s)"
  obtain t delay c where w: "waits s ! i = (t, delay, c)" by (cases "waits s ! i")
  show "\<exists>s'. wait_ends now False i s = Inr (Some (snd (snd (waits s ! i))), s') \<and>
      add_mset (snd (snd (waits s ! i))) (unfinished s') = unfinished s"
    using task_handle_ok [OF run_keeps_order [OF assms, THEN conjunct1] i w, of False] by (auto simp: w unfinished_def)
qed

text \<open>
  Two ways to a freed timer. \<^verbatim>\<open>queue_task\<close> registers a timer after arming it: when the wait of a task that
  can be cancelled ends in between, the destroyed timer is registered, and cancelling all tasks uses it. And the pointer that
  \<^verbatim>\<open>queue_task\<close> returns is of no use once the task has run: cancelling it then uses the destroyed timer as well.
\<close>
lemma freed_timer_is_used:
  assumes "timers_ok now s" "chunk \<notin> dom (timer_heap s)" "delay > 0"
  shows "\<exists>s1 s2. arm_timer (Some chunk) now c delay True s = Inr (chunk, s1) \<and>
    wait_ends later error (length (waits s)) s1 = Inr (if error then None else Some c, s2) \<and>
    cancel_all_task (register_timer chunk s2) = Inl Dangling \<and> cancel_task hit (Some chunk) s2 = Inl Dangling"
proof -
  let ?s1 = "s\<lparr>timer_heap := (timer_heap s)(chunk \<mapsto> new_task_timer now True), waits := waits s @ [(chunk, delay, c)]\<rparr>"
  let ?s2 = "s\<lparr>timer_heap := (timer_heap s)(chunk := None)\<rparr>"
  note okD = timers_okD [OF assms(1)]
  have new: "chunk \<notin> working_timers s" using assms(2) okD(5) by auto
  have arm: "arm_timer (Some chunk) now c delay True s = Inr (chunk, ?s1)"
    by (simp add: arm_timer_def take_timer_def timer_create_def)
  have ends: "wait_ends later error (length (waits s)) ?s1 = Inr (if error then None else Some c, ?s2)"
    using new by (simp add: wait_ends_def task_handle_def new_task_timer_def timer_destroy_def)
  let ?cancel = "\<lambda>t s. if timer_heap s t = None then Inl Dangling else Inr (s\<lparr>cancels := cancels s @ [t]\<rparr>)"
  have stops: "efold ?cancel ts u = Inl Dangling" if "chunk \<in> set ts" "timer_heap u chunk = None" for ts and u :: "('a, 'z) async_task_scheme"
    using that by (induction ts arbitrary: u) auto
  have "finite (working_timers s)" unfolding okD(3) [symmetric] by simp
  then have "cancel_all_task (register_timer chunk ?s2) = Inl Dangling"
    unfolding cancel_all_task_def by (intro stops) (simp_all add: register_timer_def del: sorted_list_of_set_insert_remove)
  then show ?thesis using arm ends by (intro exI [of _ ?s1] exI [of _ ?s2]) (simp add: cancel_task_def)
qed

section \<open>Witnesses\<close>

definition sample_run :: "string async_task" where
  "sample_run = new_async_task\<lparr>timer_heap := [7 \<mapsto> new_task_timer 0 False], free_timers := [], working_timers := {7},
     waits := [(7, 500, ''start'')]\<rparr>"

lemma sample_timers_run: "timers_run 0 sample_run {#''start''#} {#} {#}"
proof -
  have "timers_run 0 sample_run (add_mset ''start'' {#}) {#} {#}"
    by (rule timers_run.queue [OF timers_run.start, where chunk = 7 and delay = 500 and ce = False and t = "Some 7"])
      (simp_all add: new_async_task_def queue_task_def arm_timer_def take_timer_def timer_create_def register_timer_def sample_run_def)
  then show ?thesis by simp
qed

definition cancellable_run :: "string async_task" where
  "cancellable_run = new_async_task\<lparr>timer_heap := [7 \<mapsto> new_task_timer 0 True], working_timers := {7}, waits := [(7, 500, ''bye'')]\<rparr>"

lemma timers_keep_order_witness:
  "timers_ok 0 cancellable_run \<and> cancel_task 1 (Some 7) cancellable_run = Inr (True, cancellable_run\<lparr>cancels := [7]\<rparr>) \<and>
   (\<exists>run s'. wait_ends 0 False 0 cancellable_run = Inr (run, s') \<and> cancel_task 1 (Some 7) s' = Inl Dangling)"
proof -
  have "timers_run 0 cancellable_run (add_mset ''bye'' {#}) {#} {#}"
    by (rule timers_run.queue [OF timers_run.start, where chunk = 7 and delay = 500 and ce = True and t = "Some 7"])
      (simp_all add: new_async_task_def queue_task_def arm_timer_def take_timer_def timer_create_def register_timer_def cancellable_run_def)
  note order = timers_keep_order [OF this, of 1 False]
  have "timer_heap cancellable_run 7 = Some (new_task_timer 0 True)" "waits cancellable_run = [(7, 500, ''bye'')]"
    "working_timers cancellable_run = {7}" "free_timers cancellable_run = []" "cancels cancellable_run = []"
    by (simp_all add: cancellable_run_def new_async_task_def)
  then show ?thesis using order by (auto simp: new_task_timer_def dest!: spec [of _ 7])
qed

lemma every_task_once_witness:
  "\<exists>s'. wait_ends 0 False 0 sample_run = Inr (Some ''start'', s') \<and> unfinished s' = {#}"
  using every_task_once [OF sample_timers_run] by (auto simp: sample_run_def unfinished_def)

lemma freed_timer_is_used_witness:
  "\<exists>s2. cancel_all_task (register_timer 7 s2) = Inl Dangling \<and> cancel_task 0 (Some 7) (s2 :: string async_task) = Inl Dangling"
  using freed_timer_is_used [OF new_timers_ok, where chunk = 7 and delay = 500 and c = "''start''" and now = 0 and later = 0 and error = False and hit = 0]
  by (auto simp: new_async_task_def)

end
