(* ===== verification/ServiceOk.thy ===== *)
theory ServiceOk
  imports Service TimersOk
begin

text \<open>
  Where a client is in its life, and that every object used is alive: a client is served by the service or by one plugin, or is
  leaving, and each of these places comes with exactly the calls in flight that will take it to the next one.
\<close>

section \<open>The calls in flight that name a client\<close>

fun task_client :: "service_task \<Rightarrow> cid" where
  "task_client (Dispatch_bye d a) = a"
| "task_client (Disconnect a code) = a"
| "task_client (Remove_client p a) = a"

fun reply_client :: "reply \<Rightarrow> cid" where
  "reply_client (End_auth i a) = a"
| "reply_client (End_update p a) = a"

fun is_login :: "reply \<Rightarrow> bool" where
  "is_login (End_auth i a) = True"
| "is_login (End_update p a) = False"

fun is_drop :: "service_task \<Rightarrow> bool" where
  "is_drop (Disconnect a code) = True"
| "is_drop _ = False"

definition replies :: "service \<Rightarrow> reply multiset" where
  "replies s = mset (map (callback_func \<circ> snd \<circ> snd) (requests_active s)) + mset (map request_callback (task_queue s))"

record place =
  pl_client :: "service_client option"
  pl_listed :: bool
  pl_dying :: nat
  pl_tasks :: "service_task multiset"
  pl_drops :: bool
  pl_logins :: nat
  pl_updates :: "reply multiset"
  pl_plugins :: "(plugin_ptr \<times> string) set"

definition in_plugins :: "cid \<Rightarrow> (plugin_ptr \<rightharpoonup> game_plugin) \<Rightarrow> (plugin_ptr \<times> string) set" where
  "in_plugins a heap = {(p, k). \<exists>g. heap p = Some g \<and> (k, a) \<in> set (gp_clients g)}"

definition place_of :: "service \<Rightarrow> cid \<Rightarrow> place" where
  "place_of s a = \<lparr>pl_client = client_heap s a, pl_listed = (a \<in> service_clients s), pl_dying = count (mset (destroy_list s)) a,
     pl_tasks = {#t \<in># unfinished s. task_client t = a \<and> \<not> is_drop t#},
     pl_drops = (\<exists>t \<in># unfinished s. task_client t = a \<and> is_drop t),
     pl_logins = size {#r \<in># replies s. reply_client r = a \<and> is_login r#},
     pl_updates = {#r \<in># replies s. reply_client r = a \<and> \<not> is_login r#},
     pl_plugins = in_plugins a (plugin_heap s)\<rparr>"

section \<open>The places a client can be in\<close>

definition served_ok :: "cid \<Rightarrow> place \<Rightarrow> service_client \<Rightarrow> bool" where
  "served_ok a l c \<longleftrightarrow> pl_dying l = 0 \<and> pl_updates l = {#} \<and> pl_plugins l = {} \<and>
     pl_tasks l = (if gc_is_error c then {#Dispatch_bye By_service a#} else {#}) \<and>
     pl_logins l \<le> (if pl_listed l \<and> gc_plugin_addr c \<noteq> 0 then 1 else 0) \<and>
     (gc_plugin_addr c = 0 \<longrightarrow> pl_listed l)"

definition playing_ok :: "cid \<Rightarrow> plugin_ptr \<Rightarrow> place \<Rightarrow> service_client \<Rightarrow> bool" where
  "playing_ok a p l c \<longleftrightarrow> pl_dying l = 0 \<and> pl_updates l = {#} \<and> pl_plugins l = {(p, gc_id c)} \<and> \<not> pl_listed l \<and>
     pl_tasks l = (if gc_is_error c then {#Dispatch_bye (By_plugin p) a#} else {#}) \<and> pl_logins l = 0"

definition leaving_ok :: "cid \<Rightarrow> place \<Rightarrow> service_client \<Rightarrow> bool" where
  "leaving_ok a l c \<longleftrightarrow> gc_is_error c \<and> \<not> pl_listed l \<and> pl_dying l = 0 \<and>
     (\<exists>p. pl_plugins l = {(p, gc_id c)} \<and>
        (pl_tasks l = {#Remove_client p a#} \<and> pl_updates l = {#} \<or> pl_tasks l = {#} \<and> pl_updates l = {#End_update p a#}))"

definition gone_ok :: "place \<Rightarrow> service_client \<Rightarrow> bool" where
  "gone_ok l c \<longleftrightarrow> gc_is_error c \<and> \<not> pl_listed l \<and> pl_dying l = 1 \<and> pl_tasks l = {#} \<and> pl_updates l = {#} \<and> pl_plugins l = {}"

definition absent_ok :: "place \<Rightarrow> bool" where
  "absent_ok l \<longleftrightarrow> \<not> pl_listed l \<and> pl_dying l = 0 \<and> pl_tasks l = {#} \<and> \<not> pl_drops l \<and> pl_updates l = {#} \<and> pl_plugins l = {}"

definition place_ok :: "cid \<Rightarrow> place \<Rightarrow> bool" where
  "place_ok a l = (case pl_client l of
       None \<Rightarrow> absent_ok l
     | Some c \<Rightarrow> (case gc_dispatcher c of
           Some By_service \<Rightarrow> served_ok a l c
         | Some (By_plugin p) \<Rightarrow> playing_ok a p l c
         | None \<Rightarrow> leaving_ok a l c \<or> gone_ok l c))"

text \<open>The identifiers in a plugin differ, and there is room for everyone; a negative capacity is read as a huge one.\<close>

definition members_ok :: "game_plugin \<Rightarrow> bool" where
  "members_ok g \<longleftrightarrow> distinct (map fst (gp_clients g)) \<and> (0 \<le> gp_capacity g \<longrightarrow> int (length (gp_clients g)) \<le> gp_capacity g)"

definition plugins_ok :: "service \<Rightarrow> bool" where
  "plugins_ok s \<longleftrightarrow> (\<forall>(i, p) \<in> set (plugins s). p \<noteq> 0 \<and> (\<exists>g. plugin_heap s p = Some g)) \<and>
     (\<forall>p \<in> set (plugin_list s). plugin_heap s p \<noteq> None) \<and> plugin_heap s 0 = None \<and>
     (\<forall>p g. plugin_heap s p = Some g \<longrightarrow> members_ok g)"

definition service_ok :: "(nat \<Rightarrow> block list) \<Rightarrow> int \<Rightarrow> service \<Rightarrow> bool" where
  "service_ok all now s \<longleftrightarrow> (\<forall>a. place_ok a (place_of s a)) \<and> plugins_ok s \<and> finite (service_clients s) \<and>
     timers_ok now s \<and> requests_ok all s"

section \<open>How the operations move clients\<close>

lemma place_of_sel [simp]:
  "pl_client (place_of s a) = client_heap s a"
  "pl_listed (place_of s a) = (a \<in> service_clients s)"
  "pl_dying (place_of s a) = count (mset (destroy_list s)) a"
  "pl_tasks (place_of s a) = {#t \<in># unfinished s. task_client t = a \<and> \<not> is_drop t#}"
  "pl_drops (place_of s a) = (\<exists>t \<in># unfinished s. task_client t = a \<and> is_drop t)"
  "pl_logins (place_of s a) = size {#r \<in># replies s. reply_client r = a \<and> is_login r#}"
  "pl_updates (place_of s a) = {#r \<in># replies s. reply_client r = a \<and> \<not> is_login r#}"
  "pl_plugins (place_of s a) = in_plugins a (plugin_heap s)"
  by (simp_all add: place_of_def)


lemma in_plugins_other: "p' \<noteq> p \<Longrightarrow> (p', k) \<in> in_plugins a (heap(p \<mapsto> g)) \<longleftrightarrow> (p', k) \<in> in_plugins a heap"
  by (simp add: in_plugins_def)

lemma in_plugins_upd:
  "in_plugins a (heap(p \<mapsto> g)) = {x \<in> in_plugins a heap. fst x \<noteq> p} \<union> {(p, k) |k. (k, a) \<in> set (gp_clients g)}"
  by (auto simp: in_plugins_def split: if_splits)

lemma place_put_client [simp]:
  "place_of (put_client a c s) a = (place_of s a)\<lparr>pl_client := Some c\<rparr>"
  "b \<noteq> a \<Longrightarrow> place_of (put_client a c s) b = place_of s b"
  by (simp_all add: place_of_def put_client_def unfinished_def replies_def)

lemma place_post [simp]:
  "task_client t = a \<Longrightarrow> place_of (post_task t s) a = (place_of s a)
     \<lparr>pl_tasks := (if is_drop t then pl_tasks (place_of s a) else add_mset t (pl_tasks (place_of s a))),
      pl_drops := (pl_drops (place_of s a) \<or> is_drop t)\<rparr>"
  "task_client t \<noteq> b \<Longrightarrow> place_of (post_task t s) b = place_of s b"
  by (auto simp: place_of_def post_task_def unfinished_def replies_def)

lemma heap_sel [simp]:
  "client_heap (put_client a c s) = (client_heap s)(a \<mapsto> c)" "plugin_heap (put_client a c s) = plugin_heap s"
  "client_heap (post_task t s) = client_heap s" "plugin_heap (post_task t s) = plugin_heap s"
  "client_heap (put_plugin p g s) = client_heap s" "plugin_heap (put_plugin p g s) = (plugin_heap s)(p \<mapsto> g)"
  by (simp_all add: put_client_def post_task_def put_plugin_def)

lemma place_put_plugin [simp]:
  "place_of (put_plugin p g s) b = (place_of s b)\<lparr>pl_plugins := in_plugins b ((plugin_heap s)(p \<mapsto> g))\<rparr>"
  by (simp add: place_of_def put_plugin_def unfinished_def replies_def)

section \<open>What else is kept\<close>

definition core_ok :: "(nat \<Rightarrow> block list) \<Rightarrow> int \<Rightarrow> service \<Rightarrow> bool" where
  "core_ok all now s \<longleftrightarrow> plugins_ok s \<and> finite (service_clients s) \<and> timers_ok now s \<and> requests_ok all s"

definition rest_ok :: "cid \<Rightarrow> (nat \<Rightarrow> block list) \<Rightarrow> int \<Rightarrow> service \<Rightarrow> bool" where
  "rest_ok a all now s \<longleftrightarrow> (\<forall>b. b \<noteq> a \<longrightarrow> place_ok b (place_of s b)) \<and> core_ok all now s"

lemma service_ok_iff: "service_ok all now s \<longleftrightarrow> rest_ok a all now s \<and> place_ok a (place_of s a)"
  by (auto simp: service_ok_def rest_ok_def core_ok_def)

lemma service_okI: "rest_ok a all now s \<Longrightarrow> place_ok a (place_of s a) \<Longrightarrow> service_ok all now s"
  by (simp add: service_ok_iff [of all now s a])

lemma service_okD:
  assumes "service_ok all now s"
  shows "place_ok a (place_of s a)" "rest_ok a all now s" "core_ok all now s"
  using assms by (simp_all add: service_ok_def rest_ok_def core_ok_def)

lemma core_okD:
  assumes "core_ok all now s"
  shows "plugins_ok s" "finite (service_clients s)" "timers_ok now s" "requests_ok all s"
  using assms by (simp_all add: core_ok_def)

text \<open>Timers, requests and plugins see only their own part of the state.\<close>

lemma timers_ok_cong:
  "timer_heap s = timer_heap s' \<Longrightarrow> free_timers s = free_timers s' \<Longrightarrow> working_timers s = working_timers s' \<Longrightarrow> waits s = waits s' \<Longrightarrow>
    timers_ok now s = timers_ok now s'"
  by (simp add: timers_ok_def poolable_def newest_first_def stamp_def)

lemma requests_ok_cong:
  "request_pool s = request_pool s' \<Longrightarrow> requests_active s = requests_active s' \<Longrightarrow> task_queue s = task_queue s' \<Longrightarrow>
    requests_ok all s = requests_ok all s'"
  by (simp add: requests_ok_def pool_blocks_def active_in_def)

lemma plugins_ok_cong:
  "plugins s = plugins s' \<Longrightarrow> plugin_list s = plugin_list s' \<Longrightarrow> plugin_heap s = plugin_heap s' \<Longrightarrow> plugins_ok s = plugins_ok s'"
  by (simp add: plugins_ok_def)

lemma core_ok_cong:
  assumes "timer_heap s = timer_heap s'" "free_timers s = free_timers s'" "working_timers s = working_timers s'" "waits s = waits s'"
    "request_pool s = request_pool s'" "requests_active s = requests_active s'" "task_queue s = task_queue s'"
    "plugins s = plugins s'" "plugin_list s = plugin_list s'" "plugin_heap s = plugin_heap s'"
    "finite (service_clients s) = finite (service_clients s')"
  shows "core_ok all now s = core_ok all now s'"
  using assms timers_ok_cong [of s s' now] requests_ok_cong [of s s' all] plugins_ok_cong [of s s'] by (simp add: core_ok_def)

lemma core_put_client [simp]: "core_ok all now (put_client a c s) = core_ok all now s"
  by (rule core_ok_cong) (simp_all add: put_client_def)

lemma core_post [simp]: "core_ok all now (post_task t s) = core_ok all now s"
  by (rule core_ok_cong) (simp_all add: post_task_def)

lemma core_put_plugin:
  assumes "core_ok all now s" "p \<noteq> 0" "members_ok g"
  shows "core_ok all now (put_plugin p g s)"
proof -
  have "timers_ok now (put_plugin p g s) = timers_ok now s" by (rule timers_ok_cong) (simp_all add: put_plugin_def)
  moreover have "requests_ok all (put_plugin p g s) = requests_ok all s" by (rule requests_ok_cong) (simp_all add: put_plugin_def)
  moreover have "plugins_ok (put_plugin p g s)"
    using core_okD(1) [OF assms(1)] assms(2,3) by (fastforce simp: plugins_ok_def put_plugin_def)
  ultimately show ?thesis using assms(1) by (simp add: core_ok_def) (simp add: put_plugin_def)
qed

section \<open>Small changes of a client\<close>

definition same_role :: "service_client \<Rightarrow> service_client \<Rightarrow> bool" where
  "same_role c c' \<longleftrightarrow> gc_dispatcher c' = gc_dispatcher c \<and> gc_is_error c' = gc_is_error c \<and> gc_id c' = gc_id c \<and>
     gc_plugin_addr c' = gc_plugin_addr c"

lemma place_ok_same:
  assumes "pl_client l = Some c" "same_role c c'"
  shows "place_ok a (l\<lparr>pl_client := Some c'\<rparr>) = place_ok a l"
proof -
  have "served_ok a (l\<lparr>pl_client := Some c'\<rparr>) c' = served_ok a l c" "gone_ok (l\<lparr>pl_client := Some c'\<rparr>) c' = gone_ok l c"
    "leaving_ok a (l\<lparr>pl_client := Some c'\<rparr>) c' = leaving_ok a l c"
    "\<And>p. playing_ok a p (l\<lparr>pl_client := Some c'\<rparr>) c' = playing_ok a p l c"
    using assms(2) by (simp_all add: same_role_def served_ok_def playing_ok_def leaving_ok_def gone_ok_def)
  then show ?thesis using assms by (simp add: place_ok_def same_role_def split: option.split dispatcher.split)
qed

lemma place_put_same:
  assumes "client_heap s a = Some c" "same_role c c'"
  shows "place_ok b (place_of (put_client a c' s) b) = place_ok b (place_of s b)"
  using place_ok_same [of "place_of s a" c c' a] assms by (cases "b = a") simp_all

lemma put_same_ok:
  assumes "service_ok all now s" "client_heap s a = Some c" "same_role c c'"
  shows "service_ok all now (put_client a c' s)"
  using service_okD(1,3) [OF assms(1)] place_put_same [OF assms(2,3)]
  unfolding service_ok_iff [of all now _ a] rest_ok_def by (metis core_put_client)

lemma rest_put_client: "rest_ok a all now s \<Longrightarrow> rest_ok a all now (put_client a c s)"
  by (simp add: rest_ok_def)

lemma live_place:
  assumes "service_ok all now s" "client_heap s a = Some c"
  shows "case gc_dispatcher c of Some By_service \<Rightarrow> served_ok a (place_of s a) c
    | Some (By_plugin p) \<Rightarrow> playing_ok a p (place_of s a) c | None \<Rightarrow> leaving_ok a (place_of s a) c \<or> gone_ok (place_of s a) c"
  using service_okD(1) [OF assms(1), of a] assms(2) by (simp add: place_ok_def)

lemma absent_place: "service_ok all now s \<Longrightarrow> client_heap s a = None \<Longrightarrow> absent_ok (place_of s a)"
  using service_okD(1) [of all now s a] by (simp add: place_ok_def)

section \<open>Disconnecting and the end of the reads\<close>

lemma disconnect_runs:
  assumes "client_heap s a = Some c"
  shows "\<exists>c'. same_role c c' \<and> (client_disconnect a code s = Inr (put_client a c' s) \<or> client_disconnect a code s = Inr s)"
proof (cases "gc_available c")
  case True
  have "same_role c (c\<lparr>gc_error_code := code, gc_available := False\<rparr>)" by (simp add: same_role_def)
  then show ?thesis using True assms by (auto simp: client_disconnect_def client_at_def)
next
  case False
  have "same_role c c" by (simp add: same_role_def)
  then show ?thesis using False assms by (auto simp: client_disconnect_def client_at_def)
qed

lemma disconnect_ok:
  assumes "service_ok all now s" "client_heap s a = Some c"
  shows "\<exists>s'. client_disconnect a code s = Inr s' \<and> service_ok all now s'"
  using disconnect_runs [OF assms(2), of code] put_same_ok [OF assms] assms(1) by metis

lemma disconnect_rest:
  assumes "rest_ok a all now s" "client_heap s a = Some c"
  obtains s' where "client_disconnect a code s = Inr s'" "rest_ok a all now s'" "place_ok a (place_of s' a) = place_ok a (place_of s a)"
proof -
  obtain c' where c': "same_role c c'" "client_disconnect a code s = Inr (put_client a c' s) \<or> client_disconnect a code s = Inr s"
    using disconnect_runs [OF assms(2)] by blast
  then show thesis
    using that [of "put_client a c' s"] that [of s] rest_put_client [OF assms(1)] assms(1) place_put_same [OF assms(2) c'(1)] by blast
qed

lemma on_error_ok:
  assumes ok: "service_ok all now s" and c: "client_heap s a = Some c" "\<not> gc_is_error c"
  shows "\<exists>s'. client_on_error a error s = Inr s' \<and> service_ok all now s'"
proof -
  obtain d where d: "gc_dispatcher c = Some d"
    using live_place [OF ok c(1)] c(2) by (auto simp: leaving_ok_def gone_ok_def split: option.splits)
  let ?c = "c\<lparr>gc_is_error := True, gc_error_code := (if gc_error_code c = NO_ERROR then error else gc_error_code c)\<rparr>"
  let ?s = "post_task (Dispatch_bye d a) (put_client a ?c s)"
  have run: "client_on_error a error s = Inr ?s" using c d by (simp add: client_on_error_def client_at_def)
  have "place_ok a (place_of ?s a)"
    using live_place [OF ok c(1)] c(2) d
    by (cases d) (auto simp: place_ok_def served_ok_def playing_ok_def)
  then have "service_ok all now ?s"
    using service_okD(1,3) [OF ok] by (intro service_okI [where a = a]) (simp_all add: rest_ok_def)
  with run show ?thesis by simp
qed

section \<open>Leaving\<close>

lemma place_gone [simp]:
  "place_of (s\<lparr>service_clients := service_clients s - {a}, destroy_list := destroy_list s @ [a]\<rparr>) a =
    (place_of s a)\<lparr>pl_listed := False, pl_dying := Suc (pl_dying (place_of s a))\<rparr>"
  "b \<noteq> a \<Longrightarrow> place_of (s\<lparr>service_clients := service_clients s - {a}, destroy_list := destroy_list s @ [a]\<rparr>) b = place_of s b"
  by (simp_all add: place_of_def unfinished_def replies_def)

lemma core_gone [simp]:
  "core_ok all now (s\<lparr>service_clients := service_clients s - {a}, destroy_list := destroy_list s @ [a]\<rparr>) = core_ok all now s"
  by (rule core_ok_cong) simp_all

lemma service_bye_rest:
  assumes "rest_ok a all now s" "client_heap s a = Some c"
  obtains s' where "service_dispatch_bye a s = Inr s'" "rest_ok a all now s'"
    "place_of s' a = (place_of s a)\<lparr>pl_client := Some (c\<lparr>gc_dispatcher := None\<rparr>), pl_listed := False, pl_dying := Suc (pl_dying (place_of s a))\<rparr>"
proof (rule that)
  let ?s = "put_client a (c\<lparr>gc_dispatcher := None\<rparr>) s"
  let ?t = "?s\<lparr>service_clients := service_clients ?s - {a}, destroy_list := destroy_list ?s @ [a]\<rparr>"
  show "service_dispatch_bye a s = Inr ?t"
    using assms(2) by (simp add: service_dispatch_bye_def service_on_client_leave_def set_command_dispatcher_def client_at_def)
  show "rest_ok a all now ?t" using assms(1) unfolding rest_ok_def core_gone core_put_client by simp
  show "place_of ?t a = (place_of s a)\<lparr>pl_client := Some (c\<lparr>gc_dispatcher := None\<rparr>), pl_listed := False, pl_dying := Suc (pl_dying (place_of s a))\<rparr>"
    unfolding place_gone by simp
qed

text \<open>The maps of a plugin hold live clients only.\<close>

lemma members_live:
  assumes "\<And>b. b \<noteq> a \<Longrightarrow> place_ok b (place_of s b)" "client_heap s a \<noteq> None" "plugin_heap s p = Some g" "x \<in> set (gp_clients g)"
  shows "client_heap s (snd x) \<noteq> None"
proof
  assume none: "client_heap s (snd x) = None"
  with assms(2) have "snd x \<noteq> a" by auto
  then have "absent_ok (place_of s (snd x))" using assms(1) [of "snd x"] none by (simp add: place_ok_def)
  then have "in_plugins (snd x) (plugin_heap s) = {}" by (simp add: absent_ok_def)
  moreover have "(p, fst x) \<in> in_plugins (snd x) (plugin_heap s)" using assms(3,4) by (simp add: in_plugins_def)
  ultimately show False by simp
qed

lemma find_client_runs:
  assumes "rest_ok a all now s" "client_heap s a \<noteq> None" "plugin_heap s p = Some g"
  shows "find_client k g s = Inr (map_of (gp_clients g) k)"
  using members_live [OF _ assms(2,3)] assms(1) by (auto simp: find_client_def rest_ok_def)

lemma erase_member:
  assumes "in_plugins a (plugin_heap s) = {(p, k)}" "plugin_heap s p = Some g" "distinct (map fst (gp_clients g))"
  shows "in_plugins a ((plugin_heap s)(p \<mapsto> g\<lparr>gp_clients := map_erase k (gp_clients g)\<rparr>)) = {}"
    and "b \<noteq> a \<Longrightarrow> in_plugins b ((plugin_heap s)(p \<mapsto> g\<lparr>gp_clients := map_erase k (gp_clients g)\<rparr>)) = in_plugins b (plugin_heap s)"
proof -
  have mem: "(k, a) \<in> set (gp_clients g)" "\<And>k'. (k', a) \<in> set (gp_clients g) \<Longrightarrow> k' = k"
  proof -
    have "(p, k') \<in> in_plugins a (plugin_heap s) \<longleftrightarrow> (k', a) \<in> set (gp_clients g)" for k'
      using assms(2) by (simp add: in_plugins_def)
    then show "(k, a) \<in> set (gp_clients g)" "\<And>k'. (k', a) \<in> set (gp_clients g) \<Longrightarrow> k' = k"
      using assms(1) by auto
  qed
  have "{x \<in> in_plugins a (plugin_heap s). fst x \<noteq> p} = {}" unfolding assms(1) by simp
  moreover have "{(p, k') |k'. (k', a) \<in> set (map_erase k (gp_clients g))} = {}"
    using mem(2) by (simp add: map_erase_def)
  ultimately show "in_plugins a ((plugin_heap s)(p \<mapsto> g\<lparr>gp_clients := map_erase k (gp_clients g)\<rparr>)) = {}"
    unfolding in_plugins_upd by simp
  assume "b \<noteq> a"
  then have "k' \<noteq> k" if "(k', b) \<in> set (gp_clients g)" for k'
    using that mem(1) assms(3) by (metis eq_key_imp_eq_value)
  then have "{(p, k') |k'. (k', b) \<in> set (map_erase k (gp_clients g))} = {(p, k') |k'. (k', b) \<in> set (gp_clients g)}"
    by (auto simp: map_erase_def)
  moreover have "{x \<in> in_plugins b (plugin_heap s). fst x \<noteq> p} \<union> {(p, k') |k'. (k', b) \<in> set (gp_clients g)} = in_plugins b (plugin_heap s)"
    using assms(2) by (auto simp: in_plugins_def)
  ultimately show "in_plugins b ((plugin_heap s)(p \<mapsto> g\<lparr>gp_clients := map_erase k (gp_clients g)\<rparr>)) = in_plugins b (plugin_heap s)"
    unfolding in_plugins_upd by simp
qed

lemma members_erase: "members_ok g \<Longrightarrow> members_ok (g\<lparr>gp_clients := map_erase k (gp_clients g)\<rparr>)"
proof -
  assume ok: "members_ok g"
  have "int (length (map_erase k (gp_clients g))) \<le> gp_capacity g" if "0 \<le> gp_capacity g"
  proof (rule order_trans)
    show "int (length (map_erase k (gp_clients g))) \<le> int (length (gp_clients g))" by (simp add: map_erase_def)
    show "int (length (gp_clients g)) \<le> gp_capacity g" using ok that by (simp add: members_ok_def)
  qed
  then show ?thesis using ok by (simp add: members_ok_def) (simp add: map_erase_def distinct_map_filter)
qed

lemma remove_from_plugin_rest:
  assumes rest: "rest_ok a all now s" and c: "client_heap s a = Some c" and pl: "in_plugins a (plugin_heap s) = {(p, gc_id c)}"
  obtains s' where "remove_client_from_plugin p a s = Inr s'" "rest_ok a all now s'"
    "place_of s' a = (place_of s a)\<lparr>pl_client := Some (c\<lparr>gc_dispatcher := None\<rparr>), pl_listed := False,
       pl_dying := Suc (pl_dying (place_of s a)), pl_plugins := {}\<rparr>"
proof -
  obtain g where g: "plugin_heap s p = Some g" using pl by (auto simp: in_plugins_def set_eq_iff)
  let ?g = "g\<lparr>gp_clients := map_erase (gc_id c) (gp_clients g)\<rparr>"
  let ?s = "put_plugin p ?g s"
  have core: "core_ok all now s" "p \<noteq> 0" "members_ok g"
    using rest g by (auto simp: rest_ok_def core_ok_def plugins_ok_def intro!: gr0I)
  note erase = erase_member [OF pl g core(3) [unfolded members_ok_def, THEN conjunct1]]
  have "core_ok all now ?s"
    using core members_erase by (intro core_put_plugin) auto
  moreover have "place_of ?s b = place_of s b" if "b \<noteq> a" for b
    using erase(2) [OF that] by (simp add: place_of_def put_plugin_def unfinished_def replies_def)
  ultimately have "rest_ok a all now ?s" using rest by (simp add: rest_ok_def del: place_put_plugin)
  moreover have "client_heap ?s a = Some c" using c by simp
  ultimately obtain s' where s': "service_dispatch_bye a ?s = Inr s'" "rest_ok a all now s'"
    "place_of s' a = (place_of ?s a)\<lparr>pl_client := Some (c\<lparr>gc_dispatcher := None\<rparr>), pl_listed := False, pl_dying := Suc (pl_dying (place_of ?s a))\<rparr>"
    by (rule service_bye_rest)
  show thesis
  proof (rule that)
    show "remove_client_from_plugin p a s = Inr s'"
      using s'(1) c g find_client_runs [OF rest _ g] by (simp add: remove_client_from_plugin_def plugin_at_def client_at_def)
  qed (use s' erase(1) in simp_all)
qed

section \<open>Requests and tasks of a client\<close>

lemma callback_new [simp]: "callback_func (new_http_request host path r) = r"
  by (simp add: new_http_request_def)

lemma replies_drain: "replies (drain_queue ts s) = mset (map (callback_func \<circ> snd \<circ> snd) (requests_active s)) + mset (map request_callback ts)"
proof (induction ts arbitrary: s)
  case (Cons t ts)
  show ?case
    by (cases rule: malloc_cases [of s 1])
      (simp_all add: Cons.IH construct_request_def, simp_all add: replies_def comp_def)
qed (simp add: replies_def)

text \<open>The fields that the requests do not touch.\<close>

definition same_service :: "service \<Rightarrow> service \<Rightarrow> bool" where
  "same_service s s' \<longleftrightarrow> requests.more s' = requests.more s"

lemma same_service_fields:
  assumes "same_service s s'"
  shows "client_heap s' = client_heap s" "plugin_heap s' = plugin_heap s" "service_clients s' = service_clients s"
    "destroy_list s' = destroy_list s" "plugins s' = plugins s" "plugin_list s' = plugin_list s" "service_running s' = service_running s"
  using assms by (cases s; cases s'; simp add: same_service_def)+

lemma queue_request_place:
  fixes r :: reply and host path :: string
  assumes "core_ok all now s"
  defines "s' \<equiv> snd (queue_http_request host path r s)"
  shows "core_ok all now s'" "replies s' = add_mset r (replies s)" "unfinished s' = unfinished s" "same_service s s'"
proof -
  have fields: "timer_heap s' = timer_heap s" "free_timers s' = free_timers s" "working_timers s' = working_timers s" "waits s' = waits s"
    "posted_tasks s' = posted_tasks s" "requests.more s' = requests.more s" "replies s' = add_mset r (replies s)"
    unfolding s'_def
    by (cases rule: malloc_cases [of s 1];
        simp add: queue_http_request_def try_http_request_def push_task_def construct_request_def replies_def)+
  then have "timers_ok now s' = timers_ok now s \<and> unfinished s' = unfinished s \<and> same_service s s' \<and> replies s' = add_mset r (replies s)"
    using timers_ok_cong [of s' s now] by (simp add: same_service_def unfinished_def)
  moreover have "requests_ok all s'" unfolding s'_def by (rule queue_ok) (rule core_okD(4) [OF assms(1)])
  ultimately show "core_ok all now s'" "replies s' = add_mset r (replies s)" "unfinished s' = unfinished s" "same_service s s'"
    using core_okD [OF assms(1)] same_service_fields [of s s'] by (simp_all add: core_ok_def plugins_ok_def)
qed

lemma place_same_service:
  assumes "same_service s s'" "unfinished s' = unfinished s" "replies s' = add_mset r (replies s)"
  shows "b \<noteq> reply_client r \<Longrightarrow> place_of s' b = place_of s b"
    and "place_of s' (reply_client r) = (place_of s (reply_client r))
      \<lparr>pl_logins := pl_logins (place_of s (reply_client r)) + of_bool (is_login r),
       pl_updates := (if is_login r then pl_updates (place_of s (reply_client r)) else add_mset r (pl_updates (place_of s (reply_client r))))\<rparr>"
  using assms same_service_fields [OF assms(1)] by (auto simp: place_of_def)

section \<open>A client leaves its plugin\<close>

lemma remove_client_ok:
  assumes rest: "rest_ok a all now s" and c: "client_heap s a = Some c" "gc_is_error c" and l: "place_of s a = l"
    and pl: "pl_plugins l = {(p, gc_id c)}" "pl_dying l = 0" "pl_tasks l = {#}" "pl_updates l = {#}" "\<not> pl_listed l"
  shows "\<exists>s'. remove_client h p a s = Inr s' \<and> service_ok all now s'"
proof -
  let ?c = "c\<lparr>gc_dispatcher := None\<rparr>" and ?s = "put_client a (c\<lparr>gc_dispatcher := None\<rparr>) s"
  have rest': "rest_ok a all now ?s" and c': "client_heap ?s a = Some ?c" using rest_put_client [OF rest] by simp_all
  have place: "place_of ?s a = l\<lparr>pl_client := Some ?c\<rparr>" by (simp add: l)
  have ins: "in_plugins a (plugin_heap ?s) = {(p, gc_id ?c)}" using pl(1) l place_of_sel(8) [of s a] by simp
  show ?thesis
  proof (cases "need_update_offline_client h p ?c")
    case None
    obtain s' where s': "remove_client_from_plugin p a ?s = Inr s'" "rest_ok a all now s'"
      "place_of s' a = (place_of ?s a)\<lparr>pl_client := Some (?c\<lparr>gc_dispatcher := None\<rparr>), pl_listed := False,
         pl_dying := Suc (pl_dying (place_of ?s a)), pl_plugins := {}\<rparr>"
      by (rule remove_from_plugin_rest [OF rest' c' ins])
    have "place_ok a (place_of s' a)"
      unfolding s'(3) place using c(2) pl by (simp add: place_ok_def gone_ok_def)
    then have "service_ok all now s'" by (rule service_okI [OF s'(2)])
    then show ?thesis using s'(1) None c(1) by (simp add: remove_client_def set_command_dispatcher_def client_at_def)
  next
    case (Some u)
    obtain host path where u: "u = (host, path)" by (cases u)
    let ?s' = "snd (queue_http_request host path (End_update p a) ?s)"
    have core: "core_ok all now ?s" using rest' by (simp add: rest_ok_def)
    note q = queue_request_place [OF core, of host path "End_update p a"]
    note places = place_same_service [OF q(4,3,2)]
    have "rest_ok a all now ?s'" using rest' q(1) places(1) by (simp add: rest_ok_def)
    moreover have "place_ok a (place_of ?s' a)"
      using places(2) place c(2) pl by (simp add: place_ok_def leaving_ok_def del: place_of_sel place_put_client)
    ultimately have "service_ok all now ?s'" by (rule service_okI)
    then show ?thesis using Some u c(1) by (simp add: remove_client_def begin_update_client_def set_command_dispatcher_def client_at_def)
  qed
qed

end
