(* ===== verification/ServiceSteps.thy ===== *)
theory ServiceSteps
  imports ServiceOk
begin

text \<open>
  Every event of the service keeps every client in its place, under the conditions that are stated with each: one section per
  kind of event.
\<close>

section \<open>Tasks\<close>

text \<open>A state that differs from another one by a task that was taken out.\<close>

definition task_taken :: "service_task \<Rightarrow> service \<Rightarrow> service \<Rightarrow> bool" where
  "task_taken t s s1 \<longleftrightarrow> unfinished s = add_mset t (unfinished s1) \<and> replies s1 = replies s \<and>
     client_heap s1 = client_heap s \<and> plugin_heap s1 = plugin_heap s \<and> service_clients s1 = service_clients s \<and>
     destroy_list s1 = destroy_list s"

lemma task_taken_place:
  assumes "task_taken t s s1"
  shows "b \<noteq> task_client t \<Longrightarrow> place_of s1 b = place_of s b"
    and "place_of s (task_client t) = (place_of s1 (task_client t))
      \<lparr>pl_tasks := (if is_drop t then pl_tasks (place_of s1 (task_client t)) else add_mset t (pl_tasks (place_of s1 (task_client t)))),
       pl_drops := pl_drops (place_of s1 (task_client t)) \<or> is_drop t\<rparr>"
  using assms by (auto simp: task_taken_def place_of_def)

lemma live_drops:
  assumes "pl_client l \<noteq> None"
  shows "place_ok a (l\<lparr>pl_drops := d\<rparr>) = place_ok a l"
proof -
  have "served_ok a (l\<lparr>pl_drops := d\<rparr>) c = served_ok a l c" "gone_ok (l\<lparr>pl_drops := d\<rparr>) c = gone_ok l c"
    "leaving_ok a (l\<lparr>pl_drops := d\<rparr>) c = leaving_ok a l c" "\<And>p. playing_ok a p (l\<lparr>pl_drops := d\<rparr>) c = playing_ok a p l c" for c
    by (simp_all add: served_ok_def playing_ok_def leaving_ok_def gone_ok_def)
  then show ?thesis using assms by (auto simp: place_ok_def split: option.split dispatcher.split)
qed

lemma place_ok_cases:
  assumes "place_ok a l"
  obtains (absent) "pl_client l = None" "absent_ok l"
  | (served) c where "pl_client l = Some c" "gc_dispatcher c = Some By_service" "served_ok a l c"
  | (playing) c p where "pl_client l = Some c" "gc_dispatcher c = Some (By_plugin p)" "playing_ok a p l c"
  | (leaving) c where "pl_client l = Some c" "gc_dispatcher c = None" "leaving_ok a l c"
  | (gone) c where "pl_client l = Some c" "gc_dispatcher c = None" "gone_ok l c"
  using assms by (auto simp: place_ok_def split: option.splits dispatcher.splits)

lemma bye_place:
  assumes "place_ok a l" "pl_tasks l = add_mset (Dispatch_bye d a) T"
  shows "\<exists>c. pl_client l = Some c \<and> gc_is_error c \<and> gc_dispatcher c = Some d \<and> T = {#} \<and> pl_updates l = {#} \<and> pl_dying l = 0 \<and>
    (case d of By_service \<Rightarrow> pl_plugins l = {} | By_plugin p \<Rightarrow> pl_plugins l = {(p, gc_id c)} \<and> \<not> pl_listed l)"
  using assms(1)
proof (cases rule: place_ok_cases)
  case absent
  then show ?thesis using assms(2) by (simp add: absent_ok_def)
next
  case (served c)
  then show ?thesis using assms(2) by (auto simp: served_ok_def split: if_splits)
next
  case (playing c p)
  then show ?thesis using assms(2) by (auto simp: playing_ok_def split: if_splits)
next
  case (leaving c)
  then show ?thesis using assms(2) by (auto simp: leaving_ok_def)
next
  case (gone c)
  then show ?thesis using assms(2) by (simp add: gone_ok_def)
qed

lemma remove_place:
  assumes "place_ok a l" "pl_tasks l = add_mset (Remove_client p a) T"
  shows "\<exists>c. pl_client l = Some c \<and> gc_is_error c \<and> T = {#} \<and> pl_updates l = {#} \<and> pl_dying l = 0 \<and>
    pl_plugins l = {(p, gc_id c)} \<and> \<not> pl_listed l"
  using assms(1)
proof (cases rule: place_ok_cases)
  case absent
  then show ?thesis using assms(2) by (simp add: absent_ok_def)
next
  case (served c)
  then show ?thesis using assms(2) by (auto simp: served_ok_def split: if_splits)
next
  case (playing c p)
  then show ?thesis using assms(2) by (auto simp: playing_ok_def split: if_splits)
next
  case (leaving c)
  then show ?thesis using assms(2) by (auto simp: leaving_ok_def)
next
  case (gone c)
  then show ?thesis using assms(2) by (simp add: gone_ok_def)
qed

lemma drop_place: "place_ok a l \<Longrightarrow> pl_drops l \<Longrightarrow> pl_client l \<noteq> None"
  by (cases "pl_client l") (simp_all add: place_ok_def absent_ok_def)

lemma bye_ok:
  assumes rest: "rest_ok a all now s" and c: "client_heap s a = Some c" "gc_is_error c"
    and l: "place_of s a = l" "pl_tasks l = {#}" "pl_updates l = {#}" "pl_dying l = 0" "pl_plugins l = {}"
  shows "\<exists>s'. service_dispatch_bye a s = Inr s' \<and> service_ok all now s'"
proof -
  obtain s' where s': "service_dispatch_bye a s = Inr s'" "rest_ok a all now s'"
    "place_of s' a = (place_of s a)\<lparr>pl_client := Some (c\<lparr>gc_dispatcher := None\<rparr>), pl_listed := False, pl_dying := Suc (pl_dying (place_of s a))\<rparr>"
    by (rule service_bye_rest [OF rest c(1)])
  have "place_ok a (place_of s' a)" unfolding s'(3) l(1) using c(2) l(2-) by (simp add: place_ok_def gone_ok_def)
  then show ?thesis using s'(1) service_okI [OF s'(2)] by blast
qed

lemma run_service_task_ok:
  assumes ok: "service_ok all now s" and t: "task_taken t s s1" and core: "core_ok all now s1"
  shows "\<exists>s'. run_service_task h t s1 = Inr s' \<and> service_ok all now s'"
proof -
  note places = task_taken_place [OF t]
  define a where "a = task_client t"
  define l where "l = place_of s1 a"
  have rest: "rest_ok a all now s1"
    using service_okD(1) [OF ok] places(1) core by (simp add: rest_ok_def a_def)
  have l_ok: "place_ok a (l\<lparr>pl_tasks := (if is_drop t then pl_tasks l else add_mset t (pl_tasks l)), pl_drops := pl_drops l \<or> is_drop t\<rparr>)"
    using service_okD(1) [OF ok, of a] unfolding places(2) [folded a_def] l_def .
  have heap: "client_heap s1 a = pl_client l" by (simp add: l_def)
  show ?thesis
  proof (cases t)
    case (Dispatch_bye d b)
    then obtain c where c: "pl_client l = Some c" "gc_is_error c" "gc_dispatcher c = Some d" "pl_tasks l = {#}" "pl_updates l = {#}"
      "pl_dying l = 0" "case d of By_service \<Rightarrow> pl_plugins l = {} | By_plugin p \<Rightarrow> pl_plugins l = {(p, gc_id c)} \<and> \<not> pl_listed l"
      using bye_place [OF l_ok, of d "pl_tasks l"] by (cases d) (auto simp: a_def)
    show ?thesis
    proof (cases d)
      case By_service
      then show ?thesis
        using bye_ok [OF rest, of c l] c heap Dispatch_bye by (simp add: run_service_task_def dispatch_bye_def a_def l_def del: place_of_sel)
    next
      case (By_plugin p)
      then show ?thesis
        using remove_client_ok [OF rest, of c l p h] c heap Dispatch_bye by (simp add: run_service_task_def dispatch_bye_def a_def l_def del: place_of_sel)
    qed
  next
    case (Disconnect b code)
    then have live: "pl_client l \<noteq> None" using drop_place [OF l_ok] by simp
    then have "place_ok a l" using l_ok live_drops [of l a True] Disconnect by simp
    then have "service_ok all now s1" using service_okI [OF rest] by (simp add: l_def del: place_of_sel)
    moreover obtain c where "client_heap s1 a = Some c" using live heap by auto
    ultimately show ?thesis using disconnect_ok [of all now s1 a c code] Disconnect by (simp add: run_service_task_def a_def)
  next
    case (Remove_client p b)
    then obtain c where "pl_client l = Some c" "gc_is_error c" "pl_tasks l = {#}" "pl_updates l = {#}" "pl_dying l = 0"
      "pl_plugins l = {(p, gc_id c)}" "\<not> pl_listed l"
      using remove_place [OF l_ok, of p "pl_tasks l"] by (auto simp: a_def)
    then show ?thesis
      using remove_client_ok [OF rest, of c l p h] heap Remove_client by (simp add: run_service_task_def a_def l_def del: place_of_sel)
  qed
qed

lemma posted_taken:
  assumes "core_ok all now s" "i < length (posted_tasks s)"
  defines "s1 \<equiv> s\<lparr>posted_tasks := take i (posted_tasks s) @ drop (Suc i) (posted_tasks s)\<rparr>"
  shows "task_taken (posted_tasks s ! i) s s1" "core_ok all now s1"
proof -
  have "add_mset (posted_tasks s ! i) (mset (take i (posted_tasks s)) + mset (drop (Suc i) (posted_tasks s))) = mset (posted_tasks s)"
    using assms(2) by (metis id_take_nth_drop mset.simps(2) mset_append union_mset_add_mset_right)
  then show "task_taken (posted_tasks s ! i) s s1"
    by (simp add: task_taken_def s1_def unfinished_def replies_def)
  show "core_ok all now s1" using assms(1) by (simp add: s1_def core_ok_cong [of s s1])
qed

text \<open>A timer touches the fields of its own class only.\<close>

lemma task_handle_more:
  assumes "task_handle now error t c s = Inr (run, s')"
  shows "async_task.more s' = async_task.more s"
  using assms
  by (auto simp: task_handle_def free_timer_def timer_destroy_def Let_def ebind_eq_Inr split: option.splits if_splits)

lemma same_more_fields:
  fixes s s' :: service
  assumes "async_task.more s' = async_task.more s"
  shows "same_requests s s'" "same_service s s'"
  using assms by (cases s; cases s'; simp add: same_requests_def same_service_def)+

lemma core_same:
  assumes "core_ok all now s" "same_requests s s'" "same_service s s'" "timers_ok now s'"
  shows "core_ok all now s'"
  using assms same_requests_ok [OF assms(2)] same_service_fields [OF assms(3)] by (simp add: core_ok_def plugins_ok_def)

lemma wait_taken:
  assumes "core_ok all now s" "i < length (waits s)"
  obtains t s1 where "wait_ends now False i s = Inr (Some t, s1)" "task_taken t s s1" "core_ok all now s1"
proof -
  obtain tm delay t where w: "waits s ! i = (tm, delay, t)" by (cases "waits s ! i")
  obtain s1 where s1: "wait_ends now False i s = Inr (Some t, s1)" "timers_ok now s1"
    "add_mset t (mset (posted_tasks s1) + mset (map (snd \<circ> snd) (waits s1))) = mset (posted_tasks s) + mset (map (snd \<circ> snd) (waits s))"
    using task_handle_ok [OF core_okD(3) [OF assms(1)] assms(2) w, of False] by auto
  have "async_task.more s1 = async_task.more s"
    using s1(1) task_handle_more [of now False tm t _ "Some t" s1] by (simp add: wait_ends_def w)
  note same = same_more_fields [OF this]
  show thesis
  proof (rule that [OF s1(1)])
    show "task_taken t s s1"
      using s1(3) same same_service_fields [OF same(2)] by (simp add: task_taken_def unfinished_def replies_def same_requests_def)
    show "core_ok all now s1" by (rule core_same [OF assms(1) same s1(2)])
  qed
qed

section \<open>Callbacks of requests\<close>

lemma same_requests_simps [simp]:
  "same_requests s (put_client a c t) = same_requests s t" "same_requests s (put_plugin p g t) = same_requests s t"
  "same_requests s (post_task k t) = same_requests s t" "same_requests s s"
  "same_requests s (t\<lparr>service_clients := x\<rparr>) = same_requests s t"
  "same_requests s (t\<lparr>service_clients := x, destroy_list := y\<rparr>) = same_requests s t"
  by (simp_all add: same_requests_def put_client_def put_plugin_def post_task_def)

lemma disconnect_same: "client_disconnect a code t = Inr s' \<Longrightarrow> same_requests s s' = same_requests s t"
  by (auto simp: client_disconnect_def ebind_eq_Inr split: if_splits)

lemma bye_same: "service_dispatch_bye a t = Inr s' \<Longrightarrow> same_requests s s' = same_requests s t"
  by (auto simp: service_dispatch_bye_def service_on_client_leave_def set_command_dispatcher_def ebind_eq_Inr)

lemma auth_same: "auth_client h p a response t = Inr (ret, s') \<Longrightarrow> same_requests s s' = same_requests s t"
  by (auto simp: auth_client_def join_client_def set_command_dispatcher_def Let_def ebind_eq_Inr split: if_splits)

lemma remove_from_same: "remove_client_from_plugin p a t = Inr s' \<Longrightarrow> same_requests s s' = same_requests s t"
  using bye_same by (auto simp: remove_client_from_plugin_def ebind_eq_Inr)

lemma queue_task_same:
  fixes t :: service
  assumes "queue_task chunk now c delay ce t = Inr (r, s')"
  shows "async_task.more s' = async_task.more t"
  using assms
  by (auto simp: queue_task_def arm_timer_def take_timer_def timer_create_def register_timer_def ebind_eq_Inr
      split: if_splits option.splits prod.splits)

lemma end_auth_same:
  assumes "end_auth h err status response i a s = Inr s'"
  shows "same_requests s s'"
  using assms
  by (auto simp: end_auth_def Let_def ebind_eq_Inr split: if_splits option.splits
      dest!: disconnect_same [where s = s] auth_same [where s = s])

lemma end_update_same:
  assumes "end_update_client chunk now err status p a s = Inr s'"
  shows "same_requests s s'"
proof (cases "\<not> err \<and> status = 200")
  case True
  then show ?thesis using assms remove_from_same by (simp add: end_update_client_def)
next
  case False
  then obtain c where c: "client_at a s = Inr c"
    "(if gc_retry_update_times c - 1 > 0
      then ebind (queue_task chunk now (Remove_client p a) 3000 False (put_client a (c\<lparr>gc_retry_update_times := gc_retry_update_times c - 1\<rparr>) s)) (\<lambda>(t, s). Inr s)
      else remove_client_from_plugin p a (put_client a (c\<lparr>gc_retry_update_times := gc_retry_update_times c - 1\<rparr>) s)) = Inr s'"
    using assms by (auto simp: end_update_client_def Let_def ebind_eq_Inr)
  show ?thesis
  proof (cases "gc_retry_update_times c - 1 > 0")
    case True
    then obtain t where "queue_task chunk now (Remove_client p a) 3000 False
        (put_client a (c\<lparr>gc_retry_update_times := gc_retry_update_times c - 1\<rparr>) s) = Inr (t, s')"
      using c(2) by (auto simp: ebind_eq_Inr)
    then have "same_requests (put_client a (c\<lparr>gc_retry_update_times := gc_retry_update_times c - 1\<rparr>) s) s'"
      using queue_task_same same_more_fields(1) by blast
    then show ?thesis by (simp add: same_requests_def put_client_def)
  next
    case False
    then show ?thesis using c(2) remove_from_same by simp
  qed
qed

interpretation service_calls: quiet_callbacks "run_reply h chunk now ans"
  by unfold_locales (auto simp: run_reply_def end_auth_same end_update_same split: reply.splits)

definition unreply :: "reply \<Rightarrow> place \<Rightarrow> place" where
  "unreply r l = l\<lparr>pl_logins := pl_logins l - of_bool (is_login r), pl_updates := pl_updates l - (if is_login r then {#} else {#r#})\<rparr>"

lemma place_unreply:
  assumes "same_service u s'" "unfinished s' = unfinished u" "replies u = add_mset r (replies s')"
  shows "b \<noteq> reply_client r \<Longrightarrow> place_of s' b = place_of u b"
    and "place_of s' (reply_client r) = unreply r (place_of u (reply_client r))"
  using assms same_service_fields [OF assms(1)] by (auto simp: place_of_def unreply_def)

lemma drain_fields:
  fixes s :: service
  shows "same_service s (drain_queue ts s)" "unfinished (drain_queue ts s) = unfinished s"
    "timer_heap (drain_queue ts s) = timer_heap s" "free_timers (drain_queue ts s) = free_timers s"
    "working_timers (drain_queue ts s) = working_timers s" "waits (drain_queue ts s) = waits s"
proof -
  have "requests.more (drain_queue ts s) = requests.more s \<and> posted_tasks (drain_queue ts s) = posted_tasks s \<and>
    timer_heap (drain_queue ts s) = timer_heap s \<and> free_timers (drain_queue ts s) = free_timers s \<and>
    working_timers (drain_queue ts s) = working_timers s \<and> waits (drain_queue ts s) = waits s"
  proof (induction ts arbitrary: s)
    case (Cons t ts)
    show ?case by (cases rule: malloc_cases [of s 1]) (simp_all add: Cons.IH construct_request_def)
  qed simp
  then show "same_service s (drain_queue ts s)" "unfinished (drain_queue ts s) = unfinished s"
    "timer_heap (drain_queue ts s) = timer_heap s" "free_timers (drain_queue ts s) = free_timers s"
    "working_timers (drain_queue ts s) = working_timers s" "waits (drain_queue ts s) = waits s"
    by (simp_all add: same_service_def unfinished_def)
qed

lemma answered_ok:
  assumes ok: "service_ok all now s" and q: "requests_active s = xs @ (i, b, q) # ys"
    and u: "run_reply h chunk now ans (callback_func q) s = Inr u" "rest_ok (reply_client (callback_func q)) all now u"
      "place_ok (reply_client (callback_func q)) (unreply (callback_func q) (place_of u (reply_client (callback_func q))))"
  shows "\<exists>s'. request_answered (run_reply h chunk now ans) (length xs) s = Inr s' \<and> service_ok all now s'"
proof -
  let ?r = "callback_func q"
  have reqs: "requests_ok all s" using service_okD(3) [OF ok] by (rule core_okD)
  obtain s' where run: "request_answered (run_reply h chunk now ans) (length xs) s = Inr s'"
    using u(1) by (cases "i = 0") (simp_all add: request_answered_def http_request_handle_def queue_http_request_handle_def q Let_def)
  note same = service_calls.call_same [OF u(1), unfolded same_requests_def]
  let ?v = "u\<lparr>requests_active := xs @ ys, request_pool := (request_pool s)(i := request_pool s i @ [b])\<rparr>"
  have s': "s' = (if i = 0 then ?v else drain_queue (task_queue s) ?v)" "requests_ok all s'"
  proof -
    obtain w where w: "run_reply h chunk now ans (callback_func q) s = Inr w"
      "s' = (let v = w\<lparr>requests_active := xs @ ys, request_pool := (request_pool s)(i := request_pool s i @ [b])\<rparr> in
         if i = 0 then v else drain_queue (task_queue s) v)" "requests_ok all s'"
      by (rule service_calls.answered_cases [OF reqs q run])
    have "w = u" using w(1) u(1) by simp
    with w(2,3) show "s' = (if i = 0 then ?v else drain_queue (task_queue s) ?v)" "requests_ok all s'" by (simp_all only: Let_def)
  qed
  have v: "same_service u ?v" "\<And>x y. unfinished (u\<lparr>requests_active := x, request_pool := y\<rparr>) = unfinished u"
    by (simp_all add: same_service_def unfinished_def)
  have fields: "same_service u s'" "unfinished s' = unfinished u"
    using v drain_fields(1,2) [where s = ?v and ts = "task_queue s"] by (simp_all add: s'(1) same_service_def)
  have "replies u = add_mset ?r (replies s')"
    using same by (cases "i = 0") (simp_all add: s'(1) replies_drain, simp_all add: replies_def q)
  note places = place_unreply [OF fields this]
  have "timers_ok now u" using u(2) by (simp add: rest_ok_def core_ok_def)
  moreover have "timers_ok now s' = timers_ok now u"
    using drain_fields(3-6) [where s = ?v and ts = "task_queue s"] by (intro timers_ok_cong) (simp_all add: s'(1))
  moreover have "plugins_ok s' = plugins_ok u" "service_clients s' = service_clients u"
    using same_service_fields [OF fields(1)] by (simp_all add: plugins_ok_def)
  ultimately have "core_ok all now s'" using u(2) s'(2) by (simp add: core_ok_def rest_ok_def)
  then have "rest_ok (reply_client ?r) all now s'" using u(2) places(1) by (simp add: rest_ok_def)
  then have "service_ok all now s'" using u(3) places(2) by (intro service_okI [where a = "reply_client ?r"]) simp_all
  with run show ?thesis by blast
qed

lemma active_reply:
  "requests_active s = xs @ (i, b, q) # ys \<Longrightarrow> callback_func q \<in># replies s"
  by (simp add: replies_def)

section \<open>The answer to an update\<close>

lemma update_place:
  assumes "place_ok a l" "End_update p a \<in># pl_updates l"
  shows "\<exists>c. pl_client l = Some c \<and> gc_dispatcher c = None \<and> gc_is_error c \<and> pl_tasks l = {#} \<and> pl_updates l = {#End_update p a#} \<and> pl_dying l = 0 \<and>
    pl_plugins l = {(p, gc_id c)} \<and> \<not> pl_listed l"
  using assms(1)
proof (cases rule: place_ok_cases)
  case absent
  then show ?thesis using assms(2) by (simp add: absent_ok_def)
next
  case (served c)
  then show ?thesis using assms(2) by (simp add: served_ok_def)
next
  case (playing c p)
  then show ?thesis using assms(2) by (simp add: playing_ok_def)
next
  case (leaving c)
  then obtain q where q: "pl_plugins l = {(q, gc_id c)}"
    "pl_tasks l = {#Remove_client q a#} \<and> pl_updates l = {#} \<or> pl_tasks l = {#} \<and> pl_updates l = {#End_update q a#}"
    unfolding leaving_ok_def by blast
  with assms(2) have "q = p" "pl_tasks l = {#}" "pl_updates l = {#End_update p a#}" by (elim disjE; simp)+
  with q(1) leaving show ?thesis by (simp add: leaving_ok_def)
next
  case (gone c)
  then show ?thesis using assms(2) by (simp add: gone_ok_def)
qed

lemma end_update_ok:
  assumes ok: "service_ok all now s" and r: "End_update p a \<in># replies s" and chunk: "chunk \<notin> dom (timer_heap s)"
  shows "\<exists>u. end_update_client (Some chunk) now err status p a s = Inr u \<and> rest_ok a all now u \<and>
    place_ok a (unreply (End_update p a) (place_of u a))"
proof -
  have "End_update p a \<in># pl_updates (place_of s a)" using r by simp
  then obtain c where c': "pl_client (place_of s a) = Some c" "gc_dispatcher c = None" "gc_is_error c" "pl_tasks (place_of s a) = {#}"
    "pl_updates (place_of s a) = {#End_update p a#}" "pl_dying (place_of s a) = 0" "pl_plugins (place_of s a) = {(p, gc_id c)}"
    "\<not> pl_listed (place_of s a)"
    using update_place [OF service_okD(1) [OF ok]] by blast
  have "client_heap s a = Some c" using c'(1) by simp
  note c = this c'(2-)
  note rest = service_okD(2) [OF ok, of a]
  have gone: "\<exists>u. remove_client_from_plugin p a t = Inr u \<and> rest_ok a all now u \<and> place_ok a (unreply (End_update p a) (place_of u a))"
    if t: "rest_ok a all now t" "place_of t a = (place_of s a)\<lparr>pl_client := Some d\<rparr>" and d: "gc_id d = gc_id c" "gc_is_error d" for t d
  proof -
    have "client_heap t a = Some d" "in_plugins a (plugin_heap t) = {(p, gc_id d)}"
      using arg_cong [OF t(2), of pl_client] arg_cong [OF t(2), of pl_plugins] c(7) d by simp_all
    then obtain u where u: "remove_client_from_plugin p a t = Inr u" "rest_ok a all now u"
      "place_of u a = (place_of t a)\<lparr>pl_client := Some (d\<lparr>gc_dispatcher := None\<rparr>), pl_listed := False,
         pl_dying := Suc (pl_dying (place_of t a)), pl_plugins := {}\<rparr>"
      using remove_from_plugin_rest [OF t(1)] by metis
    have "place_ok a (unreply (End_update p a) (place_of u a))"
      unfolding u(3) t(2) using c(4-6) d by (simp add: unreply_def place_ok_def gone_ok_def del: place_of_sel)
    with u show ?thesis by blast
  qed
  show ?thesis
  proof (cases "\<not> err \<and> status = 200")
    case True
    have "place_of s a = (place_of s a)\<lparr>pl_client := Some c\<rparr>" using c(1) by (simp add: place_of_def)
    from gone [OF rest this] c(3) True show ?thesis by (simp add: end_update_client_def)
  next
    case False
    then have failed: "(\<not> err \<and> status = 200) = False" by simp
    let ?c = "c\<lparr>gc_retry_update_times := gc_retry_update_times c - 1\<rparr>"
    let ?s = "put_client a ?c s"
    have s: "rest_ok a all now ?s" "place_of ?s a = (place_of s a)\<lparr>pl_client := Some ?c\<rparr>" using rest_put_client [OF rest] by simp_all
    show ?thesis
    proof (cases "gc_retry_update_times c - 1 > 0")
      case more: False
      then show ?thesis using gone [OF s] c(1,3) unfolding end_update_client_def failed by (simp add: client_at_def)
    next
      case more: True
      have core: "core_ok all now ?s" using s(1) by (simp add: rest_ok_def)
      have "chunk \<notin> dom (timer_heap ?s)" using chunk by (simp add: put_client_def)
      then obtain t u where u: "queue_task (Some chunk) now (Remove_client p a) 3000 False ?s = Inr (t, u)" "timers_ok now u"
        "unfinished u = add_mset (Remove_client p a) (unfinished ?s)"
        using queue_task_ok [OF core_okD(3) [OF core], of chunk "Remove_client p a" 3000 False] by (auto simp: unfinished_def)
      note same = same_more_fields [OF queue_task_same [OF u(1)]]
      have "core_ok all now u" by (rule core_same [OF core same u(2)])
      moreover have place: "place_of u b = (if b = a then (place_of ?s a)\<lparr>pl_tasks := add_mset (Remove_client p a) (pl_tasks (place_of ?s a))\<rparr>
          else place_of ?s b)" for b
        using u(3) same same_service_fields [OF same(2)] by (simp add: place_of_def replies_def same_requests_def)
      ultimately have "rest_ok a all now u" using s(1) by (simp add: rest_ok_def)
      moreover have "place_ok a (unreply (End_update p a) (place_of u a))"
        unfolding place s(2) using c by (simp add: unreply_def place_ok_def leaving_ok_def del: place_of_sel)
      ultimately show ?thesis using u(1) more c(1) unfolding end_update_client_def failed by (simp add: client_at_def)
    qed
  qed
qed

section \<open>The answer to a login\<close>

lemma set_map_set: "k \<notin> fst ` set m \<Longrightarrow> set (map_set k v m) = insert (k, v) (set m)"
  by (induction m) (auto split: if_splits)

lemma map_set_distinct: "k \<notin> fst ` set m \<Longrightarrow> distinct (map fst m) \<Longrightarrow> distinct (map fst (map_set k v m))"
proof (induction m)
  case (Cons x m)
  then have "fst ` set (map_set k v m) = insert k (fst ` set m)" by (simp add: set_map_set)
  with Cons show ?case by (cases x) auto
qed simp

lemma length_map_set: "k \<notin> fst ` set m \<Longrightarrow> length (map_set k v m) = Suc (length m)"
  by (induction m) auto

lemma members_join:
  assumes "k \<notin> fst ` set (gp_clients g)" "members_ok g" "size_less (length (gp_clients g)) (gp_capacity g)"
  shows "members_ok (g\<lparr>gp_clients := map_set k a (gp_clients g)\<rparr>)"
  using assms map_set_distinct [OF assms(1)] by (simp add: members_ok_def length_map_set size_less_def split: if_splits)

text \<open>A login was answered while its client is no longer waiting for it.\<close>

lemma late_answer:
  assumes "place_ok a l" "pl_logins l > 0" "\<not> is_login r \<Longrightarrow> False"
  shows "place_ok a (unreply r l)"
  using assms(1)
proof (cases rule: place_ok_cases)
  case absent
  then show ?thesis using assms(3) by (cases "is_login r") (simp_all add: unreply_def place_ok_def absent_ok_def)
next
  case (served c)
  then show ?thesis using assms(3) by (cases "is_login r") (auto simp: unreply_def place_ok_def served_ok_def split: if_splits)
next
  case (playing c p)
  then show ?thesis using assms(2) by (simp add: playing_ok_def)
next
  case (leaving c)
  then show ?thesis using assms(3) by (cases "is_login r") (simp_all add: unreply_def place_ok_def leaving_ok_def)
next
  case (gone c)
  then show ?thesis using assms(3) by (cases "is_login r") (simp_all add: unreply_def place_ok_def gone_ok_def)
qed

lemma listed_place:
  assumes "place_ok a l" "pl_listed l"
  shows "\<exists>c. pl_client l = Some c \<and> gc_dispatcher c = Some By_service \<and> served_ok a l c"
  using assms(1) by (cases rule: place_ok_cases) (use assms(2) in \<open>auto simp: absent_ok_def playing_ok_def leaving_ok_def gone_ok_def\<close>)

lemma join_rest:
  assumes rest: "rest_ok a all now s" and c: "client_heap s a = Some c" "gc_dispatcher c = Some By_service" "\<not> gc_is_error c"
    and g: "plugin_heap s p = Some g" and l: "place_of s a = l" "pl_dying l = 0" "pl_updates l = {#}" "pl_plugins l = {}" "pl_tasks l = {#}"
      "\<not> pl_listed l" "pl_logins l = 1" "gc_plugin_addr c \<noteq> 0"
  shows "\<exists>ret u. auth_client h p a response s = Inr (ret, u) \<and> rest_ok a all now u \<and> client_heap u a \<noteq> None \<and>
    place_ok a (unreply (End_auth i a) (place_of u a))"
proof -
  have stay: "place_ok a (unreply (End_auth i a) (place_of s a))"
  proof -
    have "pl_client l = Some c" using c(1) l(1) by auto
    then show ?thesis unfolding l(1) using c l(2-) by (simp add: unreply_def place_ok_def served_ok_def)
  qed
  define ret where "ret = (if join_check h p c \<noteq> NO_ERROR then join_check h p c
     else if \<not> size_less (length (gp_clients g)) (gp_capacity g) then GAME_IS_FULL
     else if length (gc_id c) > 32 \<or> length (gc_name c) > 32 then ARGUMENT_ERROR
     else if map_of (gp_clients g) (gc_id c) \<noteq> None then CLIENT_HAS_LOGINED else NO_ERROR)"
  have before: "base_befor_client_join h p a s = Inr ret"
    using c(1) g find_client_runs [OF rest _ g, of "gc_id c"]
    by (simp add: base_befor_client_join_def plugin_at_def client_at_def ret_def)
  have new: "map_of (gp_clients g) (gc_id c) = None" if "ret = NO_ERROR"
    using that by (simp add: ret_def NO_ERROR_def GAME_IS_FULL_def ARGUMENT_ERROR_def CLIENT_HAS_LOGINED_def split: if_splits)
  show ?thesis
  proof (cases "on_auth_client h p c response = NO_ERROR \<and> gc_available c \<and> ret = NO_ERROR")
    case False
    then have "\<exists>ret. auth_client h p a response s = Inr (ret, s)"
      using c(1) before by (auto simp: auth_client_def join_client_def client_at_def Let_def)
    then show ?thesis using rest stay c(1) by blast
  next
    case True
    let ?c = "c\<lparr>gc_dispatcher := Some (By_plugin p)\<rparr>"
    let ?g = "g\<lparr>gp_clients := map_set (gc_id c) a (gp_clients g)\<rparr>"
    let ?u = "put_plugin p ?g (put_client a ?c s)"
    have run: "auth_client h p a response s = Inr (NO_ERROR, ?u)"
      using True c(1) g before by (simp add: auth_client_def join_client_def set_command_dispatcher_def client_at_def plugin_at_def)
    have fresh: "gc_id c \<notin> fst ` set (gp_clients g)" using new True by (simp add: map_of_eq_None_iff)
    have room: "size_less (length (gp_clients g)) (gp_capacity g)"
      using True by (auto simp: ret_def NO_ERROR_def GAME_IS_FULL_def split: if_splits)
    have core: "core_ok all now s" using rest by (simp add: rest_ok_def)
    then have g': "p \<noteq> 0" "members_ok g"
      using g by (auto simp: core_ok_def plugins_ok_def intro!: gr0I)
    have ins: "in_plugins b ((plugin_heap s)(p \<mapsto> ?g)) = (if b = a then insert (p, gc_id c) (in_plugins a (plugin_heap s)) else in_plugins b (plugin_heap s))" for b
      using g by (auto simp: in_plugins_upd set_map_set [OF fresh]) (auto simp: in_plugins_def)
    have "core_ok all now ?u"
      using core g' members_join [OF fresh _ room] by (intro core_put_plugin) simp_all
    moreover have place: "place_of ?u b = (if b = a then l\<lparr>pl_client := Some ?c, pl_plugins := {(p, gc_id c)}\<rparr> else place_of s b)" for b
    proof (cases "b = a")
      case True
      moreover have "in_plugins a (plugin_heap s) = {}" using l(1,4) place_of_sel(8) [of s a] by simp
      ultimately show ?thesis using ins [of a] l(1) by simp
    next
      case False
      have "(place_of s b)\<lparr>pl_plugins := in_plugins b (plugin_heap s)\<rparr> = place_of s b" by (simp add: place_of_def)
      then show ?thesis using ins [of b] False by (simp del: place_of_sel)
    qed
    ultimately have "rest_ok a all now ?u" using rest by (simp add: rest_ok_def del: place_put_plugin)
    moreover have "place_ok a (unreply (End_auth i a) (place_of ?u a))"
      unfolding place using l(2-) c by (simp add: unreply_def place_ok_def playing_ok_def)
    ultimately show ?thesis using run by auto
  qed
qed

lemma core_unlisted: "core_ok all now s \<Longrightarrow> core_ok all now (s\<lparr>service_clients := service_clients s - {a}\<rparr>)"
  by (subst core_ok_cong [of _ s]) (simp_all)

lemma end_auth_ok:
  assumes ok: "service_ok all now s" and r: "End_auth i a \<in># replies s"
    and calm: "\<And>d. a \<in> service_clients s \<Longrightarrow> Dispatch_bye d a \<notin># unfinished s"
  shows "\<exists>u. end_auth h err status response i a s = Inr u \<and> rest_ok a all now u \<and>
    place_ok a (unreply (End_auth i a) (place_of u a))"
proof -
  note place = service_okD(1) [OF ok, of a] and rest = service_okD(2) [OF ok, of a]
  have logins: "pl_logins (place_of s a) > 0"
  proof -
    have "End_auth i a \<in># {#r \<in># replies s. reply_client r = a \<and> is_login r#}" using r by simp
    then have "{#r \<in># replies s. reply_client r = a \<and> is_login r#} \<noteq> {#}" by force
    then show ?thesis unfolding place_of_sel using nonempty_has_size by blast
  qed
  show ?thesis
  proof (cases "service_running s \<and> a \<in> service_clients s")
    case False
    then show ?thesis using late_answer [OF place logins, of "End_auth i a"] rest by (auto simp: end_auth_def)
  next
    case True
    then obtain c where c: "pl_client (place_of s a) = Some c" "gc_dispatcher c = Some By_service" "served_ok a (place_of s a) c"
      using listed_place [OF place] by auto
    then have heap: "client_heap s a = Some c" by simp
    have calm': "\<not> gc_is_error c"
    proof
      assume "gc_is_error c"
      then have "Dispatch_bye By_service a \<in># pl_tasks (place_of s a)" using c(3) by (simp add: served_ok_def del: place_of_sel)
      then show False using calm True by simp
    qed
    have l: "pl_dying (place_of s a) = 0" "pl_updates (place_of s a) = {#}" "pl_plugins (place_of s a) = {}"
      "pl_tasks (place_of s a) = {#}" "pl_logins (place_of s a) = 1" "gc_plugin_addr c \<noteq> 0"
      using c(3) calm' logins by (auto simp: served_ok_def simp del: place_of_sel split: if_splits)
    let ?s = "s\<lparr>service_clients := service_clients s - {a}\<rparr>"
    have place': "place_of ?s b = (if b = a then (place_of s a)\<lparr>pl_listed := False\<rparr> else place_of s b)" for b
      by (simp add: place_of_def unfinished_def replies_def)
    have rest': "rest_ok a all now ?s" using rest place' core_unlisted by (simp add: rest_ok_def)
    have heap': "client_heap ?s a = Some c" using heap by simp
    have stay: "place_ok a (unreply (End_auth i a) (place_of ?s a))"
      unfolding place' using c l calm' by (simp add: unreply_def place_ok_def served_ok_def del: place_of_sel)
    have drop: "\<exists>u. client_disconnect a code t = Inr u \<and> rest_ok a all now u \<and> place_ok a (unreply (End_auth i a) (place_of u a))"
      if t: "rest_ok a all now t" "client_heap t a = Some d" "place_ok a (unreply (End_auth i a) (place_of t a))" for t d code
    proof -
      obtain c' where c': "same_role d c'" "client_disconnect a code t = Inr (put_client a c' t) \<or> client_disconnect a code t = Inr t"
        using disconnect_runs [OF t(2)] by blast
      have place: "unreply (End_auth i a) (place_of (put_client a c' t) a) = (unreply (End_auth i a) (place_of t a))\<lparr>pl_client := Some c'\<rparr>"
        by (simp add: unreply_def)
      have "pl_client (unreply (End_auth i a) (place_of t a)) = Some d" using t(2) by (simp add: unreply_def)
      from place_ok_same [OF this c'(1), of a] t(3)
      have "place_ok a (unreply (End_auth i a) (place_of (put_client a c' t) a))" unfolding place by blast
      then show ?thesis using c'(2) t rest_put_client [OF t(1)] by blast
    qed
    let ?finish = "\<lambda>(ret, s). if ret \<noteq> NO_ERROR then client_disconnect a ret s else Inr s"
    have finish: "\<exists>u. ?finish (ret, t) = Inr u \<and> rest_ok a all now u \<and> place_ok a (unreply (End_auth i a) (place_of u a))"
      if "rest_ok a all now t" "client_heap t a \<noteq> None" "place_ok a (unreply (End_auth i a) (place_of t a))" for ret t
      using that drop by auto
    have run: "end_auth h err status response i a s =
        (if \<not> err \<and> status = 200 then
           (if \<not> gc_available c then Inr ?s
            else case map_of (plugins s) i of
                Some p \<Rightarrow> ebind (auth_client h p a response ?s) ?finish
              | None \<Rightarrow> ?finish (GAME_NOT_EXISTED, ?s))
         else ?finish (LOGIN_SERVICE_ERROR, ?s))"
      using True heap' by (simp add: end_auth_def client_at_def Let_def split: option.split)
    show ?thesis
    proof (cases "\<not> err \<and> status = 200 \<and> gc_available c \<and> map_of (plugins s) i \<noteq> None")
      case False
      then show ?thesis
        using finish [OF rest' _ stay] heap' rest' stay unfolding run by (auto split: option.split)
    next
      case in_time: True
      then obtain p where p: "map_of (plugins s) i = Some p" by blast
      then obtain g where g: "plugin_heap ?s p = Some g"
        using rest' by (fastforce simp: rest_ok_def core_ok_def plugins_ok_def dest: map_of_SomeD)
      obtain ret u where u: "auth_client h p a response ?s = Inr (ret, u)" "rest_ok a all now u" "client_heap u a \<noteq> None"
        "place_ok a (unreply (End_auth i a) (place_of u a))"
        using join_rest [OF rest' heap' c(2) calm' g refl, of h response i] l place' by (auto simp del: place_of_sel)
      then show ?thesis using finish [OF u(2-4)] in_time p unfolding run by simp
    qed
  qed
qed

end
