(* ===== verification/ServiceEvents.thy ===== *)
theory ServiceEvents
  imports ServiceSteps
begin

text \<open>
  The other events: lines and logins, connections, the clock and the destruction of clients, the loading and unloading of
  plugins.
\<close>

section \<open>A login begins\<close>

lemma start_request_place:
  fixes r :: reply and host path :: string
  assumes "core_ok all now s" "start_http_request host path r s = (started, s')"
  shows "\<not> started \<Longrightarrow> s' = s"
    and "started \<Longrightarrow> core_ok all now s' \<and> replies s' = add_mset r (replies s) \<and> unfinished s' = unfinished s \<and> same_service s s'"
proof -
  show "\<not> started \<Longrightarrow> s' = s"
    using assms(2) by (cases rule: malloc_cases [of s 0]) (auto simp: start_http_request_def)
  assume started
  then have fields: "timer_heap s' = timer_heap s" "free_timers s' = free_timers s" "working_timers s' = working_timers s" "waits s' = waits s"
    "posted_tasks s' = posted_tasks s" "requests.more s' = requests.more s" "replies s' = add_mset r (replies s)"
    using assms(2)
    by (cases rule: malloc_cases [of s 0]; auto simp: start_http_request_def construct_request_def replies_def)+
  then have "timers_ok now s' = timers_ok now s" "unfinished s' = unfinished s" "same_service s s'"
    using timers_ok_cong [of s' s now] by (simp_all add: same_service_def unfinished_def)
  moreover have "requests_ok all s'"
    using start_request_ok [OF core_okD(4) [OF assms(1)], of host path r] assms(2) by simp
  ultimately show "core_ok all now s' \<and> replies s' = add_mset r (replies s) \<and> unfinished s' = unfinished s \<and> same_service s s'"
    using core_okD [OF assms(1)] same_service_fields [of s s'] fields(7) by (simp add: core_ok_def plugins_ok_def)
qed

lemma login_ok:
  assumes ok: "service_ok all now s" and c: "client_heap s a = Some c" "gc_dispatcher c = Some By_service"
  shows "\<exists>s'. client_login_handle a params s = Inr s' \<and> service_ok all now s'"
proof (cases "length params = 2 \<and> gc_plugin_addr c = 0 \<and> map_of (plugins s) (params ! 0) \<noteq> None")
  case False
  then show ?thesis
    using disconnect_ok [OF ok c(1)] c(1) by (auto simp: client_login_handle_def client_at_def)
next
  case True
  then obtain p where p: "map_of (plugins s) (params ! 0) = Some p" by blast
  note core = service_okD(3) [OF ok]
  obtain g where g: "plugin_heap s p = Some g" "p \<noteq> 0"
    using core map_of_SomeD [OF p] by (fastforce simp: core_ok_def plugins_ok_def)
  let ?c = "(client_fill (params ! 1) (params ! 1) c)\<lparr>gc_plugin_addr := p\<rparr>"
  let ?s = "put_client a ?c s"
  have place: "served_ok a (place_of s a) c" using live_place [OF ok c(1)] c(2) by simp
  then have l: "pl_listed (place_of s a)" "pl_logins (place_of s a) = 0" using True by (simp_all add: served_ok_def del: place_of_sel)
  have served: "served_ok a ((place_of s a)\<lparr>pl_client := Some ?c, pl_logins := n\<rparr>) ?c" if "n \<le> 1" for n
    using place g(2) that l(1) by (simp add: served_ok_def client_fill_def del: place_of_sel)
  have rest: "rest_ok a all now ?s" using service_okD(2) [OF ok] by (rule rest_put_client)
  have heap: "client_heap ?s a = Some ?c" by simp
  have disp: "gc_dispatcher ?c = Some By_service" using c(2) by (simp add: client_fill_def)
  have run: "client_login_handle a params s = (let (ret, s) = start_http_request ''127.0.0.1'' ''/'' (End_auth (gp_game_id g) a) ?s in
      if ret then Inr s else client_disconnect a LOGIN_CONCURENCY_LIMIT s)"
    using True p g c(1) by (simp add: client_login_handle_def begin_auth_def client_at_def plugin_at_def)
  obtain ret s' where start: "start_http_request ''127.0.0.1'' ''/'' (End_auth (gp_game_id g) a) ?s = (ret, s')" by fastforce
  have core': "core_ok all now ?s" using core by simp
  note req = start_request_place [OF core' start]
  show ?thesis
  proof (cases ret)
    case False
    have "(place_of s a)\<lparr>pl_client := Some ?c\<rparr> = (place_of s a)\<lparr>pl_client := Some ?c, pl_logins := 0\<rparr>"
      using l(2) by (simp add: place_of_def)
    then have "place_ok a (place_of ?s a)" using served [of 0] disp by (simp add: place_ok_def del: place_of_sel)
    then have "service_ok all now ?s" by (rule service_okI [OF rest])
    then show ?thesis using disconnect_ok [OF _ heap] run start req(1) False by simp
  next
    case True
    note req = req(2) [OF True]
    have same: "same_service ?s s'" "unfinished s' = unfinished ?s" "replies s' = add_mset (End_auth (gp_game_id g) a) (replies ?s)"
      using req by simp_all
    note places = place_same_service [OF same]
    have "place_of s' a = (place_of s a)\<lparr>pl_client := Some ?c, pl_logins := 1\<rparr>"
      using places(2) l(2) by (cases "place_of s a") (simp del: place_of_sel)
    then have "place_ok a (place_of s' a)" using served [of 1] disp by (simp add: place_ok_def del: place_of_sel)
    moreover have "rest_ok a all now s'" using rest req places(1) by (simp add: rest_ok_def)
    ultimately have "service_ok all now s'" by (intro service_okI)
    then show ?thesis using run start True by simp
  qed
qed

section \<open>Lines\<close>

lemma can_active_ok:
  assumes "service_ok all now s" "client_heap s a = Some c"
  obtains c' ok where "client_can_active t a s = Inr (ok, put_client a c' s)" "same_role c c'" "service_ok all now (put_client a c' s)"
proof -
  obtain b m where m: "can_active t (gc_active_monitor c) = (b, m)" by fastforce
  let ?c = "c\<lparr>gc_active_monitor := m\<rparr>"
  have "same_role c ?c" by (simp add: same_role_def)
  then show thesis
    using that [of b ?c] put_same_ok [OF assms, of ?c] assms(2) m by (simp add: client_can_active_def client_at_def)
qed

lemma same_role_disp: "same_role c c' \<Longrightarrow> gc_dispatcher c' = gc_dispatcher c"
  by (simp add: same_role_def)

lemma handler_table_eq: "handler_table = [(''LOG'', client_login_handle), (''RLG'', robot_login_handle)]"
  by (simp add: handler_table_def regist_handle_def)

lemma service_command_ok:
  assumes ok: "service_ok all now s" and c: "client_heap s a = Some c" "gc_dispatcher c = Some By_service" and "command_name cmd = Some w"
  shows "\<exists>s'. on_client_command (filter (\<lambda>x. fst x \<in> N) handler_table) a cmd s = Inr s' \<and> service_ok all now s'"
  using login_ok [OF ok c] ok assms(4)
  by (auto simp: on_client_command_def handler_table_eq robot_login_handle_def)

lemma data_ok:
  assumes ok: "service_ok all now s" and c: "client_heap s a = Some c"
  shows "\<exists>s'. service_client_data t a line s = Inr s' \<and> service_ok all now s'"
proof -
  let ?cmd = "command_reset line (gc_command c)"
  let ?c = "c\<lparr>gc_command := ?cmd\<rparr>"
  let ?s = "put_client a ?c s"
  have s: "service_ok all now ?s" "client_heap ?s a = Some ?c"
    using put_same_ok [OF ok c, of ?c] by (simp_all add: same_role_def)
  show ?thesis
  proof (cases "gc_available c \<and> correct ?cmd \<and> gc_dispatcher c \<noteq> None \<and> service_running s")
    case False
    then show ?thesis
      using ok s c by (auto simp: service_client_data_def client_at_def Let_def service_on_client_command_def
        plugin_base_on_client_command_def put_client_def split: option.split dispatcher.split)
  next
    case True
    then obtain d where d: "gc_dispatcher c = Some d" by blast
    obtain c' b where active: "client_can_active t a ?s = Inr (b, put_client a c' ?s)" "same_role ?c c'" "service_ok all now (put_client a c' ?s)"
      by (rule can_active_ok [OF s])
    let ?t = "put_client a c' ?s"
    have heap: "client_heap ?t a = Some c'" by simp
    have running: "service_running ?s" using True by (simp add: put_client_def)
    have drop: "\<exists>s'. client_disconnect a code ?t = Inr s' \<and> service_ok all now s'" for code
      by (rule disconnect_ok [OF active(3) heap])
    obtain w where w: "command_name ?cmd = Some w" using True reset_fields(1,2) [of line "gc_command c"] by (auto split: list.splits)
    have disp: "gc_dispatcher c' = Some d" using same_role_disp [OF active(2)] d by simp
    show ?thesis
    proof (cases d)
      case By_service
      then have run: "service_client_data t a line s =
          (if b then on_client_command (filter (\<lambda>x. fst x \<in> set (service_handles ?t)) handler_table) a ?cmd ?t
           else client_disconnect a CONSTANT_REQUEST ?t)"
        using True c d active(1) running by (simp add: service_client_data_def client_at_def service_on_client_command_def Let_def)
      show ?thesis
        using drop service_command_ok [OF active(3) heap _ w] disp By_service unfolding run by (cases b) auto
    next
      case (By_plugin p)
      then have run: "service_client_data t a line s = (if b then Inr ?t else client_disconnect a CONSTANT_REQUEST ?t)"
        using True c d active(1) running by (simp add: service_client_data_def client_at_def plugin_base_on_client_command_def Let_def)
      show ?thesis using drop active(3) unfolding run by (cases b) auto
    qed
  qed
qed

section \<open>Connections\<close>

lemma connect_ok:
  assumes ok: "service_ok all now s" and fresh: "client_heap s a = None" "\<And>i. End_auth i a \<notin># replies s"
  shows "service_ok all now (on_client_connected t a s)"
proof -
  define c where "c = (new_service_client t)\<lparr>gc_available := True, gc_dispatcher := Some By_service, gc_actived_time := tick_restart t\<rparr>"
  let ?s = "s\<lparr>service_clients := insert a (service_clients s)\<rparr>"
  have s': "on_client_connected t a s = put_client a c ?s" by (simp add: on_client_connected_def c_def)
  have absent: "absent_ok (place_of s a)" by (rule absent_place [OF ok fresh(1)])
  have none: "{#r \<in># replies s. reply_client r = a \<and> is_login r#} = {#}"
  proof (rule ccontr)
    assume "{#r \<in># replies s. reply_client r = a \<and> is_login r#} \<noteq> {#}"
    then obtain r where "r \<in># replies s" "reply_client r = a" "is_login r" by (auto dest: multiset_nonemptyE)
    then show False using fresh(2) by (cases r) auto
  qed
  have place: "place_of (put_client a c ?s) b = (if b = a then (place_of s a)\<lparr>pl_client := Some c, pl_listed := True\<rparr> else place_of s b)" for b
    by (simp add: place_of_def put_client_def unfinished_def replies_def)
  have "core_ok all now ?s" using service_okD(3) [OF ok] by (subst core_ok_cong [of _ s]) simp_all
  then have "rest_ok a all now (put_client a c ?s)" using service_okD(1) [OF ok] place by (simp add: rest_ok_def)
  moreover have "pl_logins (place_of s a) = 0" using none by simp
  then have "place_ok a (place_of (put_client a c ?s) a)"
    unfolding place using absent
    by (simp add: place_ok_def served_ok_def absent_ok_def c_def new_service_client_def del: place_of_sel)
  ultimately show ?thesis unfolding s' by (rule service_okI)
qed

lemma sending_ok:
  assumes "service_ok all now s" "client_heap s a \<noteq> None"
  shows "\<exists>s'. set_sending a b s = Inr s' \<and> service_ok all now s'"
proof -
  obtain c where c: "client_heap s a = Some c" using assms(2) by blast
  have "same_role c (c\<lparr>gc_sending := b\<rparr>)" by (simp add: same_role_def)
  from put_same_ok [OF assms(1) c this] c show ?thesis by (simp add: set_sending_def client_at_def)
qed

section \<open>The clock\<close>

text \<open>Only the fields that matter.\<close>

lemma service_ok_cong:
  assumes "core_ok all now s = core_ok all now s'" "\<And>a. place_of s a = place_of s' a"
  shows "service_ok all now s = service_ok all now s'"
  using assms by (simp add: service_ok_def core_ok_def)

lemma service_ok_timeout [simp]: "service_ok all now (s\<lparr>timeout_count := x\<rparr>) = service_ok all now s"
proof (rule service_ok_cong)
  show "core_ok all now (s\<lparr>timeout_count := x\<rparr>) = core_ok all now s" by (rule core_ok_cong) simp_all
qed (simp add: place_of_def unfinished_def replies_def)

definition quiet_leavers :: "service \<Rightarrow> bool" where
  "quiet_leavers s \<longleftrightarrow> (\<forall>a \<in> set (destroy_list s). \<forall>t \<in># unfinished s. task_client t = a \<longrightarrow> \<not> is_drop t)"

lemma post_fields [simp]:
  "unfinished (post_task t s) = add_mset t (unfinished s)" "destroy_list (post_task t s) = destroy_list s"
  "plugin_list (post_task t s) = plugin_list s"
  by (simp_all add: post_task_def unfinished_def)

lemma post_drop_ok:
  assumes "service_ok all now s" "client_heap s a \<noteq> None"
  shows "service_ok all now (post_task (Disconnect a code) s)"
proof (rule service_okI)
  show "rest_ok a all now (post_task (Disconnect a code) s)"
    using service_okD(1,3) [OF assms(1)] by (simp add: rest_ok_def)
  have "place_of (post_task (Disconnect a code) s) a = (place_of s a)\<lparr>pl_drops := True\<rparr>"
    by (cases "place_of s a") simp
  then show "place_ok a (place_of (post_task (Disconnect a code) s) a)"
    using service_okD(1) [OF assms(1), of a] live_drops [of "place_of s a" a True] assms(2)
    by (simp del: place_post)
qed

lemma member_stays:
  assumes "service_ok all now s" "plugin_heap s p = Some g" "x \<in> set (gp_clients g)"
  shows "client_heap s (snd x) \<noteq> None" "snd x \<notin> set (destroy_list s)"
proof -
  have "(p, fst x) \<in> in_plugins (snd x) (plugin_heap s)" using assms(2,3) by (simp add: in_plugins_def)
  then have "pl_plugins (place_of s (snd x)) \<noteq> {}" by auto
  with service_okD(1) [OF assms(1), of "snd x"]
  have "pl_client (place_of s (snd x)) \<noteq> None \<and> pl_dying (place_of s (snd x)) = 0"
    by (cases rule: place_ok_cases) (auto simp: absent_ok_def served_ok_def playing_ok_def leaving_ok_def gone_ok_def simp del: place_of_sel)
  then show "client_heap s (snd x) \<noteq> None" "snd x \<notin> set (destroy_list s)" by (simp_all add: count_eq_zero_iff)
qed

text \<open>A loop over the members of a plugin that disconnects some of them.\<close>

lemma drop_members:
  assumes "service_ok all now s" "plugin_heap s p = Some g" "set xs \<subseteq> set (gp_clients g)"
    and f: "\<And>a c t. f a c t = t \<or> (\<exists>code. f a c t = post_task (Disconnect a code) t)"
  shows "\<exists>s'. efold (\<lambda>x s. ebind (client_at (snd x) s) (\<lambda>c. Inr (f (snd x) c s))) xs s = Inr s' \<and> service_ok all now s' \<and>
    plugin_heap s' = plugin_heap s \<and> plugin_list s' = plugin_list s \<and> (quiet_leavers s \<longrightarrow> quiet_leavers s')"
  using assms(1-3)
proof (induction xs arbitrary: s)
  case (Cons x xs)
  have x: "x \<in> set (gp_clients g)" using Cons.prems(3) by simp
  note member = member_stays [OF Cons.prems(1,2) x]
  obtain c where c: "client_heap s (snd x) = Some c" using member(1) by blast
  let ?t = "f (snd x) c s"
  have t: "service_ok all now ?t" "plugin_heap ?t = plugin_heap s" "plugin_list ?t = plugin_list s" "quiet_leavers s \<longrightarrow> quiet_leavers ?t"
    using f [of "snd x" c s] Cons.prems(1) post_drop_ok [OF Cons.prems(1) member(1)] member(2)
    by (auto simp: quiet_leavers_def)
  have "plugin_heap ?t p = Some g" using t(2) Cons.prems(2) by simp
  from Cons.IH [OF t(1) this] Cons.prems(3) t c show ?case by (auto simp: client_at_def)
qed simp

lemma for_each_drop:
  assumes "service_ok all now s" "plugin_heap s p \<noteq> None"
    and f: "\<And>a c t. f a c t = t \<or> (\<exists>code. f a c t = post_task (Disconnect a code) t)"
  shows "\<exists>s'. for_each_client f p s = Inr s' \<and> service_ok all now s' \<and> plugin_heap s' = plugin_heap s \<and> plugin_list s' = plugin_list s \<and>
    (quiet_leavers s \<longrightarrow> quiet_leavers s')"
proof -
  obtain g where g: "plugin_heap s p = Some g" using assms(2) by blast
  show ?thesis using drop_members [OF assms(1) g subset_refl f] g by (simp add: for_each_client_def plugin_at_def)
qed

lemma timeouts_ok:
  assumes "service_ok all now s" "\<forall>p \<in> set ps. plugin_heap s p \<noteq> None"
  shows "\<exists>s'. efold (on_update_timeout_clients t) ps s = Inr s' \<and> service_ok all now s' \<and> plugin_heap s' = plugin_heap s \<and>
    (quiet_leavers s \<longrightarrow> quiet_leavers s')"
  using assms
proof (induction ps arbitrary: s)
  case (Cons p ps)
  let ?f = "\<lambda>a c s. if elapsed t (gc_actived_time c) > 60 * 1000 then post_task (Disconnect a TIME_OUT) s else s"
  have f: "?f a c v = v \<or> (\<exists>code. ?f a c v = post_task (Disconnect a code) v)" for a c v by auto
  have "plugin_heap s p \<noteq> None" using Cons.prems(2) by simp
  from for_each_drop [OF Cons.prems(1) this, of ?f, OF f]
  obtain u where u: "on_update_timeout_clients t p s = Inr u" "service_ok all now u" "plugin_heap u = plugin_heap s"
    "quiet_leavers s \<longrightarrow> quiet_leavers u"
    unfolding on_update_timeout_clients_def by blast
  have "\<forall>p \<in> set ps. plugin_heap u p \<noteq> None" using u(3) Cons.prems(2) by simp
  from Cons.IH [OF u(2) this] u show ?case by auto
qed simp

text \<open>The clients on the list are destroyed unless they are still sending. \<open>pre\<close> are those kept so far.\<close>

lemma place_destroy:
  assumes "service_ok all now (s\<lparr>destroy_list := pre @ a # as\<rparr>)" "quiet_leavers (s\<lparr>destroy_list := pre @ a # as\<rparr>)"
  shows "\<exists>c. client_heap s a = Some c"
    and "service_ok all now (s\<lparr>client_heap := (client_heap s)(a := None), destroy_list := pre @ as\<rparr>)"
    and "quiet_leavers (s\<lparr>client_heap := (client_heap s)(a := None), destroy_list := pre @ as\<rparr>)"
proof -
  let ?s = "s\<lparr>destroy_list := pre @ a # as\<rparr>" and ?t = "s\<lparr>client_heap := (client_heap s)(a := None), destroy_list := pre @ as\<rparr>"
  have dying: "pl_dying (place_of ?s a) > 0" by simp
  have quiet: "\<not> pl_drops (place_of ?s a)" using assms(2) by (auto simp: quiet_leavers_def)
  obtain c where c: "pl_client (place_of ?s a) = Some c" "gone_ok (place_of ?s a) c"
    using service_okD(1) [OF assms(1), of a] dying
    by (cases rule: place_ok_cases) (auto simp: absent_ok_def served_ok_def playing_ok_def leaving_ok_def simp del: place_of_sel)
  then show "\<exists>c. client_heap s a = Some c" by simp
  have place: "place_of ?t b = (if b = a then (place_of ?s a)\<lparr>pl_client := None, pl_dying := pl_dying (place_of ?s a) - 1\<rparr> else place_of ?s b)" for b
    by (simp add: place_of_def unfinished_def replies_def)
  have "core_ok all now ?t" using service_okD(3) [OF assms(1)] by (subst core_ok_cong [of _ ?s]) simp_all
  then have "rest_ok a all now ?t" using service_okD(1) [OF assms(1)] place by (simp add: rest_ok_def)
  moreover have "place_ok a (place_of ?t a)"
    unfolding place using c(2) quiet by (simp add: place_ok_def gone_ok_def absent_ok_def del: place_of_sel)
  ultimately show "service_ok all now ?t" by (rule service_okI)
  show "quiet_leavers ?t" using assms(2) by (auto simp: quiet_leavers_def unfinished_def)
qed

lemma destroy_ok:
  assumes "service_ok all now (s\<lparr>destroy_list := pre @ as\<rparr>)" "quiet_leavers (s\<lparr>destroy_list := pre @ as\<rparr>)"
  shows "\<exists>kept s'. destroy_clients force as s = Inr (kept, s') \<and> service_ok all now (s'\<lparr>destroy_list := pre @ kept\<rparr>)"
  using assms
proof (induction as arbitrary: s pre)
  case (Cons a as)
  note step = place_destroy [OF Cons.prems]
  obtain c where c: "client_heap s a = Some c" using step(1) by blast
  show ?case
  proof (cases "force \<or> \<not> gc_sending c")
    case True
    have "\<exists>kept s'. destroy_clients force as (s\<lparr>client_heap := (client_heap s)(a := None)\<rparr>) = Inr (kept, s') \<and>
        service_ok all now (s'\<lparr>destroy_list := pre @ kept\<rparr>)"
      using Cons.IH [where s = "s\<lparr>client_heap := (client_heap s)(a := None)\<rparr>" and pre = pre] step(2,3) by simp
    with True c show ?thesis by (simp add: client_at_def on_destroy_client_def)
  next
    case False
    have "service_ok all now (s\<lparr>destroy_list := (pre @ [a]) @ as\<rparr>)" "quiet_leavers (s\<lparr>destroy_list := (pre @ [a]) @ as\<rparr>)"
      using Cons.prems by simp_all
    from Cons.IH [OF this] obtain kept s' where "destroy_clients force as s = Inr (kept, s')"
      "service_ok all now (s'\<lparr>destroy_list := (pre @ [a]) @ kept\<rparr>)" by blast
    with False c show ?thesis by (simp add: client_at_def)
  qed
qed auto

lemma destroy_list_ok:
  assumes "service_ok all now s" "quiet_leavers s"
  shows "\<exists>s'. on_destroy_clients_in_destroy_list force s = Inr s' \<and> service_ok all now s'"
proof -
  have "service_ok all now (s\<lparr>destroy_list := [] @ destroy_list s\<rparr>)" "quiet_leavers (s\<lparr>destroy_list := [] @ destroy_list s\<rparr>)"
    using assms by simp_all
  from destroy_ok [OF this, of force] obtain kept s' where
    "destroy_clients force (destroy_list s) s = Inr (kept, s')" "service_ok all now (s'\<lparr>destroy_list := kept\<rparr>)" by auto
  then show ?thesis by (simp add: on_destroy_clients_in_destroy_list_def)
qed

lemma read_loop: "(\<And>a. a \<in> set xs \<Longrightarrow> client_heap s a \<noteq> None) \<Longrightarrow> efold (\<lambda>a s. ebind (client_at a s) (\<lambda>c. Inr s)) xs s = Inr s"
proof (induction xs)
  case (Cons a xs)
  then obtain c where "client_heap s a = Some c" by fastforce
  with Cons show ?case by (simp add: client_at_def)
qed simp

lemma clock_ok:
  assumes ok: "service_ok all now s" and quiet: "quiet_leavers s"
  shows "\<exists>s'. on_check_timeout_clients t error s = Inr s' \<and> service_ok all now s'"
proof (cases "error \<or> \<not> service_running s")
  case True
  then show ?thesis using ok by (auto simp: on_check_timeout_clients_def)
next
  case False
  note core = service_okD(3) [OF ok]
  have "client_heap s a \<noteq> None" if "a \<in> service_clients s" for a
    using listed_place [OF service_okD(1) [OF ok], of a] that by auto
  then have loop: "efold (\<lambda>a s. ebind (client_at a s) (\<lambda>c. Inr s)) (sorted_list_of_set (service_clients s)) s = Inr s"
    using core by (intro read_loop) (simp add: core_ok_def)
  define count where "count = (case timeout_count s of None \<Rightarrow> tick_restart t | Some c \<Rightarrow> c)"
  let ?s = "s\<lparr>timeout_count := Some count\<rparr>"
  have s: "service_ok all now ?s" using ok by simp
  have quiet': "quiet_leavers (u\<lparr>timeout_count := x\<rparr>) = quiet_leavers u" for u x
    by (simp add: quiet_leavers_def unfinished_def)
  have "\<forall>p \<in> set (plugin_list ?s). plugin_heap ?s p \<noteq> None" using core by (simp add: core_ok_def plugins_ok_def)
  then obtain u where u: "efold (on_update_timeout_clients t) (plugin_list ?s) ?s = Inr u" "service_ok all now u" "quiet_leavers u"
    using timeouts_ok [OF s, of "plugin_list ?s" t] quiet quiet' by auto
  have run: "on_check_timeout_clients t error s =
      ebind (if elapsed t count > 60 * 1000 then Inr (u\<lparr>timeout_count := Some (tick_restart t)\<rparr>) else Inr ?s)
        (on_destroy_clients_in_destroy_list False)"
    using False loop u(1) by (simp add: on_check_timeout_clients_def Let_def count_def)
  show ?thesis
    using destroy_list_ok [of all now ?s False] destroy_list_ok [of all now "u\<lparr>timeout_count := Some (tick_restart t)\<rparr>" False]
      s u(2,3) quiet quiet' unfolding run by simp
qed

section \<open>Loading and unloading\<close>

text \<open>A change of a plugin that leaves its clients alone.\<close>

lemma put_plugin_same:
  assumes "service_ok all now s" "plugin_heap s p = Some g" "gp_clients g' = gp_clients g" "gp_capacity g' = gp_capacity g"
  shows "service_ok all now (put_plugin p g' s)"
proof (rule service_ok_cong [THEN iffD1])
  have p: "p \<noteq> 0" "members_ok g"
    using service_okD(3) [OF assms(1)] assms(2) by (auto simp: core_ok_def plugins_ok_def intro!: gr0I)
  then have "core_ok all now (put_plugin p g' s)"
    using service_okD(3) [OF assms(1)] assms(3,4) by (intro core_put_plugin) (simp_all add: members_ok_def)
  with service_okD(3) [OF assms(1)] show "core_ok all now s = core_ok all now (put_plugin p g' s)" by simp
  show "place_of s a = place_of (put_plugin p g' s) a" for a
  proof -
    have "in_plugins a ((plugin_heap s)(p \<mapsto> g')) = in_plugins a (plugin_heap s)"
      unfolding in_plugins_upd using assms(2,3) by (auto simp: in_plugins_def)
    then show ?thesis by (simp add: place_of_def put_plugin_def unfinished_def replies_def)
  qed
  show "service_ok all now s" by (rule assms(1))
qed

lemma service_ok_fields:
  assumes "service_ok all now s" "plugins_ok (s\<lparr>plugins := x, plugin_list := y\<rparr>)"
  shows "service_ok all now (s\<lparr>plugins := x, plugin_list := y\<rparr>)"
proof -
  let ?s = "s\<lparr>plugins := x, plugin_list := y\<rparr>"
  have "timers_ok now ?s = timers_ok now s" by (rule timers_ok_cong) simp_all
  moreover have "requests_ok all ?s = requests_ok all s" by (rule requests_ok_cong) simp_all
  moreover have "place_of ?s a = place_of s a" for a by (simp add: place_of_def unfinished_def replies_def)
  ultimately show ?thesis using assms by (simp add: service_ok_def)
qed

lemma service_ok_zones [simp]: "service_ok all now (s\<lparr>service_zones := x\<rparr>) = service_ok all now s"
proof (rule service_ok_cong)
  show "core_ok all now (s\<lparr>service_zones := x\<rparr>) = core_ok all now s" by (rule core_ok_cong) simp_all
qed (simp add: place_of_def unfinished_def replies_def)

lemma attach_ok: "service_ok all now s \<Longrightarrow> service_ok all now (attach_zone z s) \<and> plugin_heap (attach_zone z s) = plugin_heap s"
  by (auto simp: attach_zone_def Let_def split: option.split)

lemma plugin_load_ok:
  assumes "service_ok all now s" "plugin_heap s p \<noteq> None"
  shows "\<exists>s'. plugin_load p s = Inr s' \<and> service_ok all now s'"
proof -
  obtain g where g: "plugin_heap s p = Some g" using assms(2) by blast
  then show ?thesis using put_plugin_same [OF assms(1) g, of "g\<lparr>gp_onlined := True\<rparr>"] assms(1) by (simp add: plugin_load_def plugin_at_def)
qed

lemma load_plugin_ok:
  assumes ok: "service_ok all now s" and p: "case plugin of None \<Rightarrow> True | Some q \<Rightarrow> plugin_heap s q \<noteq> None"
  shows "\<exists>r s'. load_plugin plugin zone_id s = Inr (r, s') \<and> service_ok all now s'"
proof (cases plugin)
  case None
  then show ?thesis using ok by (simp add: load_plugin_def)
next
  case (Some q)
  then obtain g where g: "plugin_heap s q = Some g" using p by auto
  let ?s = "s\<lparr>plugins := map_set (gp_game_id g) q (plugins s), plugin_list := plugin_list s @ [q]\<rparr>"
  let ?t = "case zone_id of None \<Rightarrow> ?s | Some z \<Rightarrow> put_plugin q (g\<lparr>gp_zone := Some z\<rparr>) (attach_zone z ?s)"
  show ?thesis
  proof (cases "gp_onlined g \<or> length (gp_clients g) > 0 \<or> map_of (plugins s) (gp_game_id g) \<noteq> None")
    case True
    then show ?thesis using ok Some g by (auto simp: load_plugin_def plugin_at_def)
  next
    case False
    have plug: "plugins_ok s" using service_okD(3) [OF ok] by (rule core_okD)
    have "q \<noteq> 0" using plug g by (auto simp: plugins_ok_def intro!: gr0I)
    moreover have "gp_game_id g \<notin> fst ` set (plugins s)" using False by (simp add: map_of_eq_None_iff)
    ultimately have "plugins_ok ?s" using plug g by (auto simp: plugins_ok_def set_map_set)
    then have s: "service_ok all now ?s" by (rule service_ok_fields [OF ok])
    have t: "service_ok all now ?t \<and> plugin_heap ?t q \<noteq> None"
    proof (cases zone_id)
      case None
      then show ?thesis using s g by simp
    next
      case (Some z)
      note att = attach_ok [OF s, of z]
      then have "plugin_heap (attach_zone z ?s) q = Some g" using g by simp
      then show ?thesis using put_plugin_same [of all now "attach_zone z ?s" q g] att Some by simp
    qed
    obtain s' where s': "(if service_running ?t then plugin_load q ?t else Inr ?t) = Inr s'" "service_ok all now s'"
      using plugin_load_ok [of all now ?t q] t by (cases "service_running ?t") (metis, simp)
    have "load_plugin plugin zone_id s = ebind (if service_running ?t then plugin_load q ?t else Inr ?t) (\<lambda>s. Inr (1, s))"
      using False Some g by (simp add: load_plugin_def plugin_at_def Let_def)
    then show ?thesis using s' by simp
  qed
qed

lemma unload_ok:
  assumes ok: "service_ok all now s" and p: "plugin_heap s p = Some g"
  shows "\<exists>s'. plugin_unload p s = Inr s' \<and> service_ok all now s'"
proof (cases "gp_onlined g")
  case False
  then show ?thesis using ok p by (simp add: plugin_unload_def plugin_at_def)
next
  case True
  let ?s = "put_plugin p (g\<lparr>gp_onlined := False\<rparr>) s"
  let ?f = "\<lambda>a c. post_task (Disconnect a SERVER_CLOSEING)"
  have s: "service_ok all now ?s" "plugin_heap ?s p \<noteq> None" using put_plugin_same [OF ok p] by simp_all
  have f: "?f a c v = v \<or> (\<exists>code. ?f a c v = post_task (Disconnect a code) v)" for a c v by auto
  from for_each_drop [OF s, of ?f, OF f] show ?thesis using True p by (auto simp: plugin_unload_def plugin_at_def)
qed

lemma unload_plugin_ok:
  assumes ok: "service_ok all now s" and p: "case plugin of None \<Rightarrow> True | Some q \<Rightarrow> plugin_heap s q \<noteq> None"
  shows "\<exists>r s'. unload_plugin plugin s = Inr (r, s') \<and> service_ok all now s'"
proof (cases plugin)
  case None
  then show ?thesis using ok by (auto simp: unload_plugin_def)
next
  case (Some q)
  then obtain g where g: "plugin_heap s q = Some g" using p by auto
  let ?s = "s\<lparr>plugins := map_erase (gp_game_id g) (plugins s), plugin_list := filter (\<lambda>r. r \<noteq> q) (plugin_list s)\<rparr>"
  have "plugins_ok ?s" using core_okD(1) [OF service_okD(3) [OF ok]] by (auto simp: plugins_ok_def map_erase_def)
  then have s: "service_ok all now ?s" by (rule service_ok_fields [OF ok])
  have "plugin_heap ?s q = Some g" using g by simp
  then obtain s' where s': "(if gp_onlined g then plugin_unload q ?s else Inr ?s) = Inr s'" "service_ok all now s'"
    using unload_ok [OF s, of q g] s by (cases "gp_onlined g") auto
  show ?thesis
  proof (cases "map_of (plugins s) (gp_game_id g) = None")
    case True
    then show ?thesis using ok Some g by (auto simp: unload_plugin_def plugin_at_def)
  next
    case False
    then have "unload_plugin plugin s = ebind (if gp_onlined g then plugin_unload q ?s else Inr ?s) (\<lambda>s. Inr (True, s))"
      using Some g by (auto simp: unload_plugin_def plugin_at_def Let_def)
    then show ?thesis using s' by auto
  qed
qed

section \<open>Calm runs\<close>

text \<open>
  Three conditions on the order of events, beside what is possible: no client is connected at an address a login answer is still
  expected for; a login is not answered between the end of the reads of its client and the handler that takes the client out; and
  clients are not destroyed while a disconnection of them is waiting to run.
\<close>

definition calm_event :: "service_event \<Rightarrow> service \<Rightarrow> bool" where
  "calm_event e s = (case e of
       Connect a \<Rightarrow> (\<forall>r \<in># replies s. reply_client r = a \<longrightarrow> \<not> is_login r)
     | Answered k chunk ans \<Rightarrow> (case callback_func (snd (snd (requests_active s ! k))) of
           End_auth i a \<Rightarrow> a \<in> service_clients s \<longrightarrow> (\<forall>t \<in># unfinished s. task_client t = a \<longrightarrow> is_drop t)
         | End_update p a \<Rightarrow> True)
     | Clock \<Rightarrow> quiet_leavers s
     | _ \<Rightarrow> True)"

lemma answer_event_ok:
  assumes ok: "service_ok all now s" and e: "possible (Answered k chunk ans) s" "calm_event (Answered k chunk ans) s"
  shows "\<exists>s'. request_answered (run_reply h chunk now ans) k s = Inr s' \<and> service_ok all now s'"
proof -
  have k: "k < length (requests_active s)" using e(1) by (simp add: possible_def)
  obtain t where t: "chunk = Some t" "t \<notin> dom (timer_heap s)" using e(1) by (auto simp: possible_def split: option.splits)
  obtain i b q where q: "requests_active s ! k = (i, b, q)" by (cases "requests_active s ! k")
  let ?xs = "take k (requests_active s)" and ?ys = "drop (Suc k) (requests_active s)"
  have split: "requests_active s = ?xs @ (i, b, q) # ?ys" using id_take_nth_drop [OF k] q by simp
  have len: "length ?xs = k" using k by simp
  note member = active_reply [OF split]
  have "\<exists>u. run_reply h chunk now ans (callback_func q) s = Inr u \<and> rest_ok (reply_client (callback_func q)) all now u \<and>
    place_ok (reply_client (callback_func q)) (unreply (callback_func q) (place_of u (reply_client (callback_func q))))"
  proof (cases "callback_func q")
    case (End_auth j a)
    have "Dispatch_bye d a \<notin># unfinished s" if "a \<in> service_clients s" for d
      using e(2) that by (auto simp: calm_event_def q End_auth)
    then show ?thesis using end_auth_ok [OF ok, of j a] member End_auth by (simp add: run_reply_def)
  next
    case (End_update p a)
    then show ?thesis using end_update_ok [OF ok, of p a t] member t by (simp add: run_reply_def)
  qed
  then show ?thesis using answered_ok [OF ok split] len by metis
qed

lemma service_event_ok:
  assumes ok: "service_ok all now s" and e: "possible e s" "calm_event e s"
  shows "\<exists>s'. service_step h now e s = Inr s' \<and> service_ok all now s'"
proof (cases e)
  case (Connect a)
  have "End_auth i a \<notin># replies s" for i using e(2) by (auto simp: calm_event_def Connect)
  then show ?thesis using connect_ok [OF ok] e(1) by (simp add: service_step_def possible_def Connect)
next
  case (Data a line)
  then show ?thesis using data_ok [OF ok] e(1) by (auto simp: service_step_def possible_def split: option.splits)
next
  case (Read_ends a error)
  then show ?thesis using on_error_ok [OF ok] e(1) by (auto simp: service_step_def possible_def split: option.splits)
next
  case (Sending a b)
  then show ?thesis using sending_ok [OF ok] e(1) by (simp add: service_step_def possible_def)
next
  case (Run_posted i)
  have i: "i < length (posted_tasks s)" using e(1) by (simp add: possible_def Run_posted)
  show ?thesis using run_service_task_ok [OF ok posted_taken [OF service_okD(3) [OF ok] i]] by (simp add: service_step_def Run_posted)
next
  case (Wait_ends i)
  have i: "i < length (waits s)" using e(1) by (simp add: possible_def Wait_ends)
  obtain t s1 where s1: "wait_ends now False i s = Inr (Some t, s1)" "task_taken t s s1" "core_ok all now s1"
    by (rule wait_taken [OF service_okD(3) [OF ok] i])
  show ?thesis using run_service_task_ok [OF ok s1(2,3)] s1(1) by (simp add: service_step_def Wait_ends)
next
  case (Answered k chunk ans)
  then show ?thesis using answer_event_ok [OF ok] e by (simp add: service_step_def)
next
  case Clock
  then show ?thesis using clock_ok [OF ok] e(2) by (simp add: service_step_def calm_event_def)
next
  case (Load p z)
  then show ?thesis using load_plugin_ok [OF ok, of p z] e(1) by (auto simp: service_step_def possible_def)
next
  case (Unload p)
  then show ?thesis using unload_plugin_ok [OF ok, of p] e(1) by (auto simp: service_step_def possible_def)
qed

text \<open>Events with the time of each, and the state after them.\<close>

fun run_events :: "hooks \<Rightarrow> (int \<times> service_event) list \<Rightarrow> service \<Rightarrow> service result" where
  "run_events h [] s = Inr s"
| "run_events h ((t, e) # es) s = ebind (service_step h t e s) (run_events h es)"

fun events_happen :: "(service_event \<Rightarrow> service \<Rightarrow> bool) \<Rightarrow> hooks \<Rightarrow> int \<Rightarrow> (int \<times> service_event) list \<Rightarrow> service \<Rightarrow> bool" where
  "events_happen P h now [] s = True"
| "events_happen P h now ((t, e) # es) s = (now \<le> t \<and> possible e s \<and> P e s \<and>
     (case service_step h t e s of Inl f \<Rightarrow> True | Inr s' \<Rightarrow> events_happen P h t es s'))"

lemma service_ok_later: "service_ok all now s \<Longrightarrow> now \<le> t \<Longrightarrow> service_ok all t s"
  using timers_ok_later by (auto simp: service_ok_def)

lemma calm_run_ok:
  assumes "service_ok all now s" "events_happen calm_event h now es s"
  shows "\<exists>s'. run_events h es s = Inr s' \<and> service_ok all (last (now # map fst es)) s'"
  using assms
proof (induction es arbitrary: now s)
  case (Cons x es)
  obtain t e where x: "x = (t, e)" by (cases x)
  have ok: "service_ok all t s" using Cons.prems service_ok_later by (auto simp: x)
  then obtain s' where s': "service_step h t e s = Inr s'" "service_ok all t s'"
    using service_event_ok [OF ok] Cons.prems(2) by (auto simp: x)
  have "events_happen calm_event h t es s'" using Cons.prems(2) s'(1) by (simp add: x)
  from Cons.IH [OF s'(2) this] s'(1) show ?case by (auto simp: x)
qed simp

text \<open>A service that was constructed beside some plugins and then started; the plugins are loaded later.\<close>

definition new_service :: "(plugin_ptr \<rightharpoonup> game_plugin) \<Rightarrow> service" where
  "new_service heap = \<lparr>timer_heap = Map.empty, free_timers = [], working_timers = {}, waits = [], posted_tasks = [], cancels = [],
      request_pool = \<lambda>_. [], requests_active = [], task_queue = [],
      service_running = False, service_handles = [], plugins = [], plugin_list = [],
      plugin_heap = heap, service_zones = [], service_clients = {}, client_heap = Map.empty, destroy_list = [],
      timeout_count = None\<rparr>"

definition new_plugins :: "(plugin_ptr \<rightharpoonup> game_plugin) \<Rightarrow> bool" where
  "new_plugins heap \<longleftrightarrow> heap 0 = None \<and> (\<forall>g \<in> ran heap. gp_clients g = [])"

definition started :: "nat \<Rightarrow> nat \<Rightarrow> (plugin_ptr \<rightharpoonup> game_plugin) \<Rightarrow> service result" where
  "started array obj_size heap = ebind (service_on_start array obj_size (new_service heap)) (\<lambda>s. Inr (s\<lparr>service_running := True\<rparr>))"

lemma block_address_inj: "obj_size > 0 \<Longrightarrow> inj_on (block_address array obj_size i) A"
  by (auto simp: inj_on_def block_address_def)

lemma started_ok:
  assumes "obj_size > 0" "new_plugins heap"
  shows "\<exists>all s. started array obj_size heap = Inr s \<and> service_ok all now s"
proof -
  let ?s = "(fill_pools array obj_size ((new_service heap)\<lparr>service_handles := [''LOG'', ''RLG'']\<rparr>))\<lparr>service_running := True\<rparr>"
  let ?all = "\<lambda>i. if i < 2 then map (block_address array obj_size i) [0..<MAX_AUTH_SESSION_COUNT] else []"
  have run: "started array obj_size heap = Inr ?s"
    by (simp add: started_def service_on_start_def new_service_def)
  have members: "gp_clients g = []" if "heap p = Some g" for p g
    using assms(2) that by (auto simp: new_plugins_def intro: ranI)
  then have "in_plugins a heap = {}" for a by (auto simp: in_plugins_def)
  then have place: "place_ok a (place_of ?s a)" for a
    by (simp add: place_ok_def absent_ok_def new_service_def fill_pools_def unfinished_def replies_def)
  have "plugins_ok ?s"
    using assms(2) members by (simp add: plugins_ok_def new_service_def fill_pools_def new_plugins_def members_ok_def)
  moreover have "timers_ok now ?s"
    by (simp add: timers_ok_def new_service_def fill_pools_def newest_first_def)
  moreover have "requests_ok ?all ?s"
    using block_address_inj [OF assms(1)]
    by (auto simp: requests_ok_def new_service_def fill_pools_def pool_blocks_def active_in_def distinct_map)
  ultimately have "service_ok ?all now ?s"
    using place by (simp add: service_ok_def) (simp add: new_service_def fill_pools_def)
  with run show ?thesis by blast
qed

end
