(* ===== verification/ServiceSafety.thy ===== *)
theory ServiceSafety
  imports ServiceEvents
begin

text \<open>
  Where the requests of the service are constructed; what the answers to a login and to the update of a client that has left
  do. The lemmas on calm runs show how far the objects of the service are safe from use after their destruction when the memory of the
  requests is left aside, and what happens in orders that are not calm; the last lemmas are about the requests that wait.
\<close>

section \<open>Where requests are constructed\<close>

text \<open>The bytes a request takes, for \<open>sizeof(http_request)\<close>, and those of a pointer.\<close>

definition request_bytes :: "nat \<Rightarrow> nat \<times> block \<times> 'c http_request \<Rightarrow> nat set" where
  "request_bytes obj_size x = {fst (snd x) ..< fst (snd x) + obj_size}"

definition pointer_bytes :: "nat \<Rightarrow> nat set" where
  "pointer_bytes a = {a ..< a + 8}"

lemma started_pools:
  assumes "started array obj_size heap = Inr s"
  shows "request_pool s = (\<lambda>i. if i < 2 then map (block_address array obj_size i) [0..<MAX_AUTH_SESSION_COUNT] else [])"
  using assms by (auto simp: started_def service_on_start_def new_service_def fill_pools_def)

lemma first_blocks:
  assumes "started array obj_size heap = Inr s0" "request_pool s = request_pool s0"
  obtains bs cs where "request_pool s 0 = array # bs" "request_pool s 1 = (array + 8) # cs"
proof -
  have "[0..<MAX_AUTH_SESSION_COUNT] = 0 # [1..<MAX_AUTH_SESSION_COUNT]"
    by (simp add: MAX_AUTH_SESSION_COUNT_def upt_conv_Cons)
  then show thesis using that by (simp add: assms(2) started_pools [OF assms(1)] block_address_def)
qed

text \<open>
  C11. The requests of a started service are not constructed in the memory that was allocated for them. The first login to a plugin
  that is loaded constructs its request at the address of the member \<^verbatim>\<open>request_block_\<close> itself: over both of its pointers,
  when a request takes sixteen bytes, and over whatever follows them; and the first update that is sent while this request runs
  constructs its own eight bytes behind it, so that either request lies over the other.
\<close>
theorem first_requests_overlap:
  assumes "started array obj_size heap = Inr s0" "16 \<le> obj_size"
    and "request_pool s = request_pool s0" "requests_active s = []"
    and "client_heap s a = Some c" "gc_plugin_addr c = 0" "map_of (plugins s) game = Some p" "plugin_heap s p = Some g"
  shows "\<exists>s' x y. client_login_handle a [game, name] s = Inr s' \<and> requests_active s' = [x] \<and>
    pointer_bytes array \<union> pointer_bytes (array + 8) \<subseteq> request_bytes obj_size x \<and>
    requests_active (begin_update_client q b host path s') = [x, y] \<and>
    pointer_bytes (array + 8) \<subseteq> request_bytes obj_size x \<inter> request_bytes obj_size y"
proof -
  obtain bs cs where pools: "request_pool s 0 = array # bs" "request_pool s 1 = (array + 8) # cs"
    by (rule first_blocks [OF assms(1,3)])
  obtain r where r: "fst (snd r) = array"
    "client_login_handle a [game, name] s = Inr ((put_client a ((client_fill name name c)\<lparr>gc_plugin_addr := p\<rparr>) s)
       \<lparr>request_pool := (request_pool s)(0 := bs), requests_active := [r]\<rparr>)" (is "_ = Inr ?s'")
    using assms(4-8) pools(1)
    by (auto simp: client_login_handle_def client_at_def begin_auth_def plugin_at_def put_client_def start_http_request_def
        malloc_http_request_def construct_request_def)
  obtain y where y: "fst (snd y) = array + 8" "requests_active (begin_update_client q b host path ?s') = [r, y]"
    using pools(2) by (auto simp: begin_update_client_def queue_http_request_def try_http_request_def malloc_http_request_def
        construct_request_def put_client_def)
  have "pointer_bytes array \<union> pointer_bytes (array + 8) \<subseteq> request_bytes obj_size r"
    "pointer_bytes (array + 8) \<subseteq> request_bytes obj_size r \<inter> request_bytes obj_size y"
    using r(1) y(1) assms(2) by (auto simp: request_bytes_def pointer_bytes_def)
  then show ?thesis using r(2) y(2) by (intro exI [of _ ?s'] exI [of _ r] exI [of _ y] conjI) simp_all
qed

definition one_plugin :: "plugin_ptr \<rightharpoonup> game_plugin" where
  "one_plugin = [1 \<mapsto> new_game_plugin ''ddz'' ''cards'' 10]"

text \<open>A service with one plugin to which client 7 has connected.\<close>

definition one_client :: "nat \<Rightarrow> nat \<Rightarrow> service result" where
  "one_client array obj_size = ebind (started array obj_size one_plugin) (run_events base_hooks [(0, Load (Some 1) None), (0, Connect 7)])"

lemma first_requests_overlap_witness:
  "\<exists>s s' x y. one_client 1000 8500 = Inr s \<and> client_login_handle 7 [''ddz'', ''bob''] s = Inr s' \<and>
    requests_active (begin_update_client 1 8 ''db'' ''/'' s') = [x, y] \<and> 1008 \<in> request_bytes 8500 x \<inter> request_bytes 8500 y"
proof -
  obtain s0 where s0: "started 1000 8500 one_plugin = Inr s0"
    by (simp add: started_def service_on_start_def new_service_def)
  then obtain s where s: "one_client 1000 8500 = Inr s" "request_pool s = request_pool s0" "requests_active s = []"
    "client_heap s 7 \<noteq> None" "gc_plugin_addr (the (client_heap s 7)) = 0" "map_of (plugins s) ''ddz'' = Some 1" "plugin_heap s 1 \<noteq> None"
    by (auto simp: one_client_def started_def service_on_start_def new_service_def fill_pools_def service_step_def load_plugin_def
        plugin_at_def one_plugin_def new_game_plugin_def plugin_load_def put_plugin_def on_client_connected_def Let_def put_client_def
        new_service_client_def)
  obtain c g where "client_heap s 7 = Some c" "gc_plugin_addr c = 0" "plugin_heap s 1 = Some g" using s(4,5,7) by auto
  from first_requests_overlap [OF s0 _ s(2,3) this(1,2) s(6) this(3), of "''bob''" 1 8 "''db''" "''/''"] s(1)
  show ?thesis by (force simp: pointer_bytes_def)
qed

section \<open>Calm runs\<close>

text \<open>How a client that has stopped reading gets on.\<close>

definition on_its_way :: "service \<Rightarrow> cid \<Rightarrow> bool" where
  "on_its_way s a \<longleftrightarrow> a \<in> set (destroy_list s) \<or> (\<exists>p. Remove_client p a \<in># unfinished s \<or> End_update p a \<in># replies s) \<or>
     (\<exists>d. Dispatch_bye d a \<in># unfinished s)"

lemma gone_is_on_its_way:
  assumes ok: "service_ok all now s" and c: "client_heap s a = Some c" "gc_is_error c"
  shows "on_its_way s a"
proof -
  have "pl_client (place_of s a) = Some c" using c(1) by simp
  have "pl_tasks (place_of s a) \<noteq> {#} \<or> pl_updates (place_of s a) \<noteq> {#} \<or> pl_dying (place_of s a) > 0"
    using service_okD(1) [OF ok, of a]
    by (cases rule: place_ok_cases)
      (use c in \<open>auto simp: served_ok_def playing_ok_def leaving_ok_def gone_ok_def simp del: place_of_sel(2-)\<close>)
  then consider (task) t where "t \<in># unfinished s" "task_client t = a" "\<not> is_drop t"
    | (update) r where "r \<in># replies s" "reply_client r = a" "\<not> is_login r"
    | (dying) "a \<in> set (destroy_list s)"
    by (auto dest!: multiset_nonemptyE simp: count_greater_zero_iff)
  then show ?thesis
  proof cases
    case task
    then show ?thesis by (cases t) (auto simp: on_its_way_def)
  next
    case update
    then show ?thesis by (cases r) (auto simp: on_its_way_def)
  next
    case dying
    then show ?thesis by (simp add: on_its_way_def)
  qed
qed

text \<open>
  The memory of the requests left aside (it is as \<open>first_requests_overlap\<close> says, and the model lets such requests do no harm):
  from the start of the service on, whatever its clients, the library and the servers it asks do, and in whatever order, as long as
  the three conditions of a calm order hold, no destroyed client or plugin is used; a plugin never holds
  two clients with one identifier, nor more clients than it has room for; a client that plays is in its plugin alone; and a
  client whose connection has ended is always on its way out.
\<close>
lemma calm_runs_are_safe:
  assumes "obj_size > 0" "new_plugins heap" "started array obj_size heap = Inr s" "events_happen calm_event h now es s"
  shows "\<exists>s'. run_events h es s = Inr s' \<and> plugins_ok s' \<and>
    (\<forall>a c. client_heap s' a = Some c \<longrightarrow> (gc_is_error c \<longrightarrow> on_its_way s' a) \<and>
      (\<forall>p. gc_dispatcher c = Some (By_plugin p) \<longrightarrow> in_plugins a (plugin_heap s') = {(p, gc_id c)}))"
proof -
  obtain all s0 where "started array obj_size heap = Inr s0" "service_ok all now s0"
    using started_ok [OF assms(1,2)] by blast
  with assms(3) have "service_ok all now s" by simp
  then obtain s' where s': "run_events h es s = Inr s'" "service_ok all (last (now # map fst es)) s'"
    using calm_run_ok [OF _ assms(4)] by blast
  have "in_plugins a (plugin_heap s') = {(p, gc_id c)}" if "client_heap s' a = Some c" "gc_dispatcher c = Some (By_plugin p)" for a c p
    using live_place [OF s'(2) that(1)] that(2) by (simp add: playing_ok_def)
  moreover have "plugins_ok s'" using service_okD(3) [OF s'(2)] by (rule core_okD)
  ultimately show ?thesis using s'(1) gone_is_on_its_way [OF s'(2)] by blast
qed

section \<open>Orders that are not calm\<close>

definition accepted :: answer where
  "accepted = \<lparr>ans_err = False, ans_status = 200, ans_text = []\<rparr>"

text \<open>A plugin is loaded, client 7 connects and asks to join it.\<close>

definition login_sent :: "(int \<times> service_event) list" where
  "login_sent = [(0, Load (Some 1) None), (0, Connect 7), (0, Data 7 ''LOG ddz bob'')]"

definition play :: "hooks \<Rightarrow> (int \<times> service_event) list \<Rightarrow> service result" where
  "play h es = ebind (started 0 1 one_plugin) (run_events h es)"

definition uses_destroyed :: "'a result \<Rightarrow> bool" where
  "uses_destroyed r = (case r of Inl e \<Rightarrow> e = Dangling | Inr x \<Rightarrow> False)"

definition can_happen :: "hooks \<Rightarrow> (service_event \<Rightarrow> service \<Rightarrow> bool) \<Rightarrow> (int \<times> service_event) list \<Rightarrow> bool" where
  "can_happen h P es = (case started 0 1 one_plugin of Inl f \<Rightarrow> False | Inr s \<Rightarrow> events_happen P h 0 es s)"

text \<open>The connection ends while the login is being checked; the answer comes before the handler that takes the client out.\<close>

definition lost_while_checked :: "(int \<times> service_event) list" where
  "lost_while_checked = login_sent @ [(1, Read_ends 7 1), (1, Answered 0 (Some 0) accepted), (2, Run_posted 0), (5000, Clock),
     (6000, Unload (Some 1))]"

text \<open>The client is gone when the answer comes, and another one was connected at its address.\<close>

definition address_used_again :: "(int \<times> service_event) list" where
  "address_used_again = login_sent @ [(1, Read_ends 7 1), (1, Run_posted 0), (5000, Clock), (5001, Connect 7),
     (5002, Answered 0 (Some 0) accepted)]"

text \<open>A client is disconnected by the service while it leaves; the handler of the disconnection runs last.\<close>

definition disconnected_late :: "(int \<times> service_event) list" where
  "disconnected_late = login_sent @ [(1, Answered 0 (Some 0) accepted), (2, Unload (Some 1)), (2, Read_ends 7 1), (3, Run_posted 1),
     (5000, Clock), (5000, Run_posted 0)]"

text \<open>
  None of the three conditions can be left out. An answer to a login between the end of the connection and the handler of that end
  leaves a destroyed client in the plugin, and the next walk through the plugin uses it. An answer to the login of a client
  that is gone lets a new client at the same address in, which never asked to. And a client may be destroyed before a
  disconnection of it runs, which then uses it.
\<close>
lemma calm_is_needed:
  "can_happen base_hooks (\<lambda>e s. True) lost_while_checked \<and> uses_destroyed (play base_hooks lost_while_checked) \<and>
   can_happen base_hooks (\<lambda>e s. True) address_used_again \<and> (case play base_hooks address_used_again of Inl f \<Rightarrow> False
     | Inr s \<Rightarrow> (case client_heap s 7 of None \<Rightarrow> False
         | Some c \<Rightarrow> gc_plugin_addr c = 0 \<and> gc_dispatcher c = Some (By_plugin 1))) \<and>
   can_happen base_hooks (\<lambda>e s. True) disconnected_late \<and> uses_destroyed (play base_hooks disconnected_late)"
proof (intro conjI)
  show "can_happen base_hooks (\<lambda>e s. True) lost_while_checked" by code_simp
  show "uses_destroyed (play base_hooks lost_while_checked)" by code_simp
  show "can_happen base_hooks (\<lambda>e s. True) address_used_again" by code_simp
  show "case play base_hooks address_used_again of Inl f \<Rightarrow> False
     | Inr s \<Rightarrow> (case client_heap s 7 of None \<Rightarrow> False
         | Some c \<Rightarrow> gc_plugin_addr c = 0 \<and> gc_dispatcher c = Some (By_plugin 1))" by code_simp
  show "can_happen base_hooks (\<lambda>e s. True) disconnected_late" by code_simp
  show "uses_destroyed (play base_hooks disconnected_late)" by code_simp
qed

lemma calm_runs_are_safe_witness:
  "\<exists>s s'. started 0 1 one_plugin = Inr s \<and>
    run_events base_hooks (login_sent @ [(1, Answered 0 (Some 0) accepted), (2, Read_ends 7 1)]) s = Inr s' \<and> plugins_ok s'"
proof -
  let ?es = "login_sent @ [(1, Answered 0 (Some 0) accepted), (2, Read_ends 7 1)]"
  have "can_happen base_hooks calm_event ?es" by code_simp
  then obtain s where s: "started 0 1 one_plugin = Inr s" "events_happen calm_event base_hooks 0 ?es s"
    by (auto simp: can_happen_def split: sum.splits)
  have "new_plugins one_plugin"
    by (simp add: new_plugins_def one_plugin_def new_game_plugin_def)
  from calm_runs_are_safe [OF _ this s] s(1) show ?thesis by auto
qed

section \<open>The answer to a login\<close>

text \<open>What the answer means for the client, by the first reason that applies; 0 lets it in.\<close>

definition login_code :: "hooks \<Rightarrow> bool \<Rightarrow> int \<Rightarrow> string \<Rightarrow> string \<Rightarrow> service_client \<Rightarrow> service \<Rightarrow> int" where
  "login_code h err status response i c s =
     (if err \<or> status \<noteq> 200 then LOGIN_SERVICE_ERROR
      else case map_of (plugins s) i of None \<Rightarrow> GAME_NOT_EXISTED
        | Some p \<Rightarrow> (case plugin_heap s p of None \<Rightarrow> GAME_NOT_EXISTED
            | Some g \<Rightarrow>
                if on_auth_client h p c response \<noteq> NO_ERROR then on_auth_client h p c response
                else if join_check h p c \<noteq> NO_ERROR then join_check h p c
                else if 0 \<le> gp_capacity g \<and> gp_capacity g \<le> int (length (gp_clients g)) then GAME_IS_FULL
                else if length (gc_id c) > 32 \<or> length (gc_name c) > 32 then ARGUMENT_ERROR
                else if gc_id c \<in> fst ` set (gp_clients g) then CLIENT_HAS_LOGINED else NO_ERROR))"

lemma codes: "LOGIN_SERVICE_ERROR \<noteq> NO_ERROR" "GAME_NOT_EXISTED \<noteq> NO_ERROR" "GAME_IS_FULL \<noteq> NO_ERROR" "ARGUMENT_ERROR \<noteq> NO_ERROR"
  "CLIENT_HAS_LOGINED \<noteq> NO_ERROR"
  by (simp_all add: LOGIN_SERVICE_ERROR_def GAME_NOT_EXISTED_def GAME_IS_FULL_def ARGUMENT_ERROR_def CLIENT_HAS_LOGINED_def NO_ERROR_def)

lemma auth_answer:
  assumes found: "find_client (gc_id c) g s = Inr (map_of (gp_clients g) (gc_id c))"
    and c: "client_heap s a = Some c" "gc_available c" and p: "map_of (plugins s) i = Some p" "plugin_heap s p = Some g"
    and answered: "\<not> err \<and> status = 200"
    and code: "code = login_code h err status response i c s"
  shows "auth_client h p a response s = Inr (code, if code = NO_ERROR
    then put_plugin p (g\<lparr>gp_clients := map_set (gc_id c) a (gp_clients g)\<rparr>) (put_client a (c\<lparr>gc_dispatcher := Some (By_plugin p)\<rparr>) s)
    else s)"
proof -
  have member: "gc_id c \<in> fst ` set (gp_clients g) \<longleftrightarrow> map_of (gp_clients g) (gc_id c) \<noteq> None" by (simp add: map_of_eq_None_iff)
  show ?thesis
    using answered p c codes found
    by (auto simp: code login_code_def auth_client_def join_client_def base_befor_client_join_def plugin_at_def client_at_def
        set_command_dispatcher_def put_client_def size_less_def member)
qed

text \<open>
  C13. The answer to a login takes the client off the list of those that have not logged in, and then either lets it into the
  plugin it asked for, under its own identifier, or disconnects it with the first reason that applies: the check failed, the
  plugin was unloaded, the plugin refuses it, the plugin is full, a name is too long, or somebody with its identifier is in already.
\<close>
theorem login_answer:
  assumes "service_ok all now s" "service_running s" "a \<in> service_clients s" "client_heap s a = Some c" "gc_available c"
  shows "\<exists>s'. end_auth h err status response i a s = Inr s' \<and> service_clients s' = service_clients s - {a} \<and>
    (let code = login_code h err status response i c s in
     if code = NO_ERROR
     then \<exists>p g. map_of (plugins s) i = Some p \<and> plugin_heap s p = Some g \<and>
       client_heap s' = (client_heap s)(a \<mapsto> c\<lparr>gc_dispatcher := Some (By_plugin p)\<rparr>) \<and>
       plugin_heap s' = (plugin_heap s)(p \<mapsto> g\<lparr>gp_clients := map_set (gc_id c) a (gp_clients g)\<rparr>)
     else client_heap s' = (client_heap s)(a \<mapsto> c\<lparr>gc_error_code := code, gc_available := False\<rparr>) \<and> plugin_heap s' = plugin_heap s)"
proof -
  let ?s = "s\<lparr>service_clients := service_clients s - {a}\<rparr>"
  have drop: "client_disconnect a code ?s = Inr (put_client a (c\<lparr>gc_error_code := code, gc_available := False\<rparr>) ?s)" for code
    using assms(4,5) by (simp add: client_disconnect_def client_at_def)
  have found: "plugin_heap s p = Some g \<Longrightarrow> find_client k g ?s = Inr (map_of (gp_clients g) k)" for p g k
    using find_client_runs [OF service_okD(2) [OF assms(1)], of a p g k] assms(4) by (simp add: find_client_def)
  have loaded: "\<exists>g. plugin_heap s p = Some g" if "map_of (plugins s) i = Some p" for p
    using core_okD(1) [OF service_okD(3) [OF assms(1)]] map_of_SomeD [OF that] by (auto simp: plugins_ok_def)
  let ?fin = "\<lambda>(ret, s). if ret \<noteq> NO_ERROR then client_disconnect a ret s else Inr s"
  let ?code = "login_code h err status response i c s"
  show ?thesis
  proof (cases "\<not> err \<and> status = 200")
    case False
    then have "?code = LOGIN_SERVICE_ERROR" by (simp add: login_code_def)
    moreover have "end_auth h err status response i a s = client_disconnect a LOGIN_SERVICE_ERROR ?s"
      using assms False codes(1) by (auto simp: end_auth_def)
    ultimately show ?thesis using drop codes(1) by (simp add: put_client_def)
  next
    case answered: True
    have run: "end_auth h err status response i a s = (case map_of (plugins s) i of
        Some p \<Rightarrow> ebind (auth_client h p a response ?s) ?fin | None \<Rightarrow> ?fin (GAME_NOT_EXISTED, ?s))"
      using assms answered by (simp add: end_auth_def client_at_def Let_def)
    show ?thesis
    proof (cases "map_of (plugins s) i")
      case None
      then have "?code = GAME_NOT_EXISTED" using answered by (simp add: login_code_def)
      then show ?thesis using run None drop codes(2) by (simp add: put_client_def)
    next
      case (Some p)
      obtain g where g: "plugin_heap s p = Some g" using loaded Some by blast
      have "login_code h err status response i c ?s = ?code" using Some by (simp add: login_code_def)
      with auth_answer [of c g ?s a i p err status _ h response] found [OF g] assms(4,5) Some g answered
      have code: "auth_client h p a response ?s = Inr (?code, if ?code = NO_ERROR
          then put_plugin p (g\<lparr>gp_clients := map_set (gc_id c) a (gp_clients g)\<rparr>) (put_client a (c\<lparr>gc_dispatcher := Some (By_plugin p)\<rparr>) ?s)
          else ?s)" by simp
      show ?thesis
      proof (cases "?code = NO_ERROR")
        case True
        then show ?thesis using run Some g code by (simp add: put_plugin_def put_client_def)
      next
        case False
        then show ?thesis using run Some g code drop by (simp add: put_client_def)
      qed
    qed
  qed
qed

definition logged_in_at :: "cid \<Rightarrow> service \<Rightarrow> bool" where
  "logged_in_at a s = (service_running s \<and> a \<in> service_clients s \<and>
     (case client_heap s a of None \<Rightarrow> False | Some c \<Rightarrow> gc_available c \<and> gc_id c = ''bob''))"

lemma sent_state:
  assumes "can_happen h calm_event es"
  obtains all s where "play h es = Inr s" "service_ok all (last (0 # map fst es)) s"
proof -
  obtain s0 where s0: "started 0 1 one_plugin = Inr s0" "events_happen calm_event h 0 es s0"
    using assms by (auto simp: can_happen_def split: sum.splits)
  have "new_plugins one_plugin" by (simp add: new_plugins_def one_plugin_def new_game_plugin_def)
  then obtain all s1 where "started 0 1 one_plugin = Inr s1" "service_ok all 0 s1"
    using started_ok [of 1 one_plugin 0 0] by auto
  then have "service_ok all 0 s0" using s0(1) by simp
  from calm_run_ok [OF this s0(2)] s0(1) that show thesis by (auto simp: play_def)
qed

lemma login_answer_witness:
  "\<exists>s s'. play base_hooks login_sent = Inr s \<and> end_auth base_hooks True 0 [] ''ddz'' 7 s = Inr s' \<and>
     7 \<in> service_clients s \<and> 7 \<notin> service_clients s'"
proof -
  have "can_happen base_hooks calm_event login_sent" by code_simp
  then obtain all s where s: "play base_hooks login_sent = Inr s" "service_ok all 0 s"
    by (rule sent_state) (simp add: login_sent_def)
  have "case play base_hooks login_sent of Inl f \<Rightarrow> False | Inr s \<Rightarrow> logged_in_at 7 s" by code_simp
  then have "logged_in_at 7 s" using s(1) by simp
  then obtain c where c: "service_running s" "7 \<in> service_clients s" "client_heap s 7 = Some c" "gc_available c"
    by (auto simp: logged_in_at_def split: option.splits)
  from login_answer [OF s(2) c, of base_hooks True 0 "[]" "''ddz''"] s(1) c(2) show ?thesis by auto
qed

section \<open>Clients that are updated\<close>

lemma removed_from_plugin:
  assumes "rest_ok a all now t" "client_heap t a = Some d" "in_plugins a (plugin_heap t) = {(p, gc_id d)}"
  shows "\<exists>u. remove_client_from_plugin p a t = Inr u \<and> a \<in> set (destroy_list u) \<and> in_plugins a (plugin_heap u) = {}"
proof -
  obtain u where u: "remove_client_from_plugin p a t = Inr u"
    "place_of u a = (place_of t a)\<lparr>pl_client := Some (d\<lparr>gc_dispatcher := None\<rparr>), pl_listed := False,
       pl_dying := Suc (pl_dying (place_of t a)), pl_plugins := {}\<rparr>"
    by (rule remove_from_plugin_rest [OF assms])
  have "count (mset (destroy_list u)) a > 0" "in_plugins a (plugin_heap u) = {}"
    using arg_cong [OF u(2), of pl_dying] arg_cong [OF u(2), of pl_plugins] by simp_all
  with u(1) show ?thesis by (simp add: count_greater_zero_iff)
qed

text \<open>
  C14. The answer to the update of a client that has left either takes the client out of its plugin and puts it on the list of those to be
  destroyed, or, after an error, leaves it in the plugin, sets one more removal of it going and takes one off the attempts that remain:
  the client goes after three attempts at most.
\<close>
theorem update_tried_again:
  assumes "service_ok all now s" "End_update p a \<in># replies s" "chunk \<notin> dom (timer_heap s)"
  shows "\<exists>c u. client_heap s a = Some c \<and> end_update_client (Some chunk) now err status p a s = Inr u \<and>
    (if \<not> err \<and> status = 200 \<or> gc_retry_update_times c \<le> 1
     then a \<in> set (destroy_list u) \<and> in_plugins a (plugin_heap u) = {}
     else client_heap u a = Some (c\<lparr>gc_retry_update_times := gc_retry_update_times c - 1\<rparr>) \<and> plugin_heap u = plugin_heap s \<and>
       unfinished u = add_mset (Remove_client p a) (unfinished s) \<and> destroy_list u = destroy_list s)"
proof -
  have "End_update p a \<in># pl_updates (place_of s a)" using assms(2) by simp
  then obtain c where "pl_client (place_of s a) = Some c" "pl_plugins (place_of s a) = {(p, gc_id c)}"
    using update_place [OF service_okD(1) [OF assms(1)]] by blast
  then have c: "client_heap s a = Some c" "in_plugins a (plugin_heap s) = {(p, gc_id c)}" by simp_all
  note rest = service_okD(2) [OF assms(1), of a]
  let ?c = "c\<lparr>gc_retry_update_times := gc_retry_update_times c - 1\<rparr>"
  let ?s = "put_client a ?c s"
  have s: "rest_ok a all now ?s" "client_heap ?s a = Some ?c" "in_plugins a (plugin_heap ?s) = {(p, gc_id ?c)}"
    using rest_put_client [OF rest] c by (simp_all add: put_client_def)
  consider (answered) "\<not> err \<and> status = 200" | (last) "\<not> (\<not> err \<and> status = 200)" "gc_retry_update_times c \<le> 1"
    | (again) "\<not> (\<not> err \<and> status = 200)" "gc_retry_update_times c > 1" by linarith
  then show ?thesis
  proof cases
    case answered
    then show ?thesis using removed_from_plugin [OF rest c] c(1) by (simp add: end_update_client_def)
  next
    case last
    then have "end_update_client (Some chunk) now err status p a s = remove_client_from_plugin p a ?s"
      using c(1) by (simp only: end_update_client_def client_at_def) simp
    then show ?thesis using removed_from_plugin [OF s] c(1) last by simp
  next
    case again
    have core: "core_ok all now ?s" using s(1) by (simp add: rest_ok_def)
    have "chunk \<notin> dom (timer_heap ?s)" using assms(3) by (simp add: put_client_def)
    then obtain t u where u: "queue_task (Some chunk) now (Remove_client p a) 3000 False ?s = Inr (t, u)"
      "unfinished u = add_mset (Remove_client p a) (unfinished ?s)"
      using queue_task_ok [OF core_okD(3) [OF core], of chunk "Remove_client p a" 3000 False] by (auto simp: unfinished_def)
    note same = same_service_fields [OF same_more_fields(2) [OF queue_task_same [OF u(1)]]]
    have "end_update_client (Some chunk) now err status p a s = Inr u"
      using again c(1) u(1) by (simp only: end_update_client_def client_at_def) simp
    moreover have "unfinished ?s = unfinished s" by (simp add: put_client_def unfinished_def)
    ultimately show ?thesis using again c(1) u(2) same by (auto simp: put_client_def)
  qed
qed

definition updating_hooks :: hooks where
  "updating_hooks = base_hooks\<lparr>need_update_offline_client := \<lambda>p c. Some (''db'', ''/'')\<rparr>"

definition update_sent :: "(int \<times> service_event) list" where
  "update_sent = login_sent @ [(1, Answered 0 (Some 0) accepted), (2, Read_ends 7 1), (2, Run_posted 0)]"

definition update_waits :: "service \<Rightarrow> bool" where
  "update_waits s = (timer_heap s 0 = None \<and> length (request_pool s 1) = 49 \<and>
     map (\<lambda>(i, b, q). (i, callback_func q)) (requests_active s) = [(1, End_update 1 7)])"

lemma update_state:
  obtains all s b q where "play updating_hooks update_sent = Inr s" "service_ok all 2 s" "timer_heap s 0 = None"
    "length (request_pool s 1) = 49" "requests_active s = [(1, b, q)]" "callback_func q = End_update 1 7"
proof -
  have "can_happen updating_hooks calm_event update_sent" by code_simp
  then obtain all s where s: "play updating_hooks update_sent = Inr s" "service_ok all 2 s"
    by (rule sent_state) (simp add: update_sent_def login_sent_def)
  have "case play updating_hooks update_sent of Inl f \<Rightarrow> False | Inr s \<Rightarrow> update_waits s" by code_simp
  then have "update_waits s" using s(1) by simp
  then show thesis using that [OF s] by (auto simp: update_waits_def)
qed

lemma update_tried_again_witness:
  "\<exists>s u. play updating_hooks update_sent = Inr s \<and> end_update_client (Some 0) 5 False 200 1 7 s = Inr u \<and> 7 \<in> set (destroy_list u)"
proof -
  obtain all s b q where s: "play updating_hooks update_sent = Inr s" "service_ok all 2 s" "timer_heap s 0 = None"
    "requests_active s = [(1, b, q)]" "callback_func q = End_update 1 7"
    by (rule update_state)
  have "End_update 1 7 \<in># replies s" using s(4,5) by (simp add: replies_def)
  moreover have "0 \<notin> dom (timer_heap s)" using s(3) by auto
  ultimately have "\<exists>u. end_update_client (Some 0) 2 False 200 1 7 s = Inr u \<and> 7 \<in> set (destroy_list u)"
    using update_tried_again [OF s(2), of 1 7 0 False 200] by auto
  then show ?thesis using s(1) by (simp add: end_update_client_def)
qed

section \<open>The order of the requests that wait\<close>

text \<open>
  When nothing comes between the two halves of \<^verbatim>\<open>queue_http_request\<close>, which give up one lock before they take the other
  (\<open>request_left_waiting\<close> shows what can happen otherwise), the second pool is a server with fifty places. A request starts at
  once exactly if fewer than fifty are running, and waits otherwise; an answer, whatever its callback does to the service, ends its own
  request and starts the first of those that wait; and a request waits only while all the places are taken.
\<close>
lemma updates_wait_in_order:
  fixes s s' :: service
  assumes "requests_ok all s" "length (all 1) = MAX_AUTH_SESSION_COUNT"
    and "requests_active s = xs @ (1, b, q) # ys" "request_answered (run_reply h chunk now ans) (length xs) s = Inr s'"
  shows "farm_view (snd (queue_http_request host path r s)) =
      farm_submit MAX_AUTH_SESSION_COUNT (new_http_request host path r) (farm_view s) \<and>
    (fst (queue_http_request host path r s) \<longleftrightarrow> length (fst (farm_view s)) < MAX_AUTH_SESSION_COUNT) \<and>
    farm_view s' = farm_finish (length (filter (\<lambda>x. fst x = 1) xs)) (farm_view s) \<and>
    (snd (farm_view s) \<noteq> [] \<longrightarrow> length (fst (farm_view s)) = MAX_AUTH_SESSION_COUNT)"
proof (intro conjI impI)
  note view = queue_view [OF assms(1), unfolded assms(2)]
  show "farm_view (snd (queue_http_request host path r s)) =
      farm_submit MAX_AUTH_SESSION_COUNT (new_http_request host path r) (farm_view s)"
    by (rule view(1))
  show "fst (queue_http_request host path r s) \<longleftrightarrow> length (fst (farm_view s)) < MAX_AUTH_SESSION_COUNT"
    by (rule view(2))
  show "farm_view s' = farm_finish (length (filter (\<lambda>x. fst x = 1) xs)) (farm_view s)"
    by (rule service_calls.answered_view [OF assms(1,3,4)])
  show "length (fst (farm_view s)) = MAX_AUTH_SESSION_COUNT" if "snd (farm_view s) \<noteq> []"
    using that places [OF assms(1), of 1] requests_okD(4) [OF assms(1)] assms(2) by (simp add: farm_view_def)
qed

lemma updates_wait_in_order_witness:
  "\<exists>s s'. play updating_hooks update_sent = Inr s \<and>
    request_answered (run_reply updating_hooks (Some 0) 2 accepted) 0 s = Inr s' \<and> farm_view s' = farm_finish 0 (farm_view s)"
proof -
  obtain all s b q where s: "play updating_hooks update_sent = Inr s" "service_ok all 2 s" "timer_heap s 0 = None"
    "length (request_pool s 1) = 49" "requests_active s = [(1, b, q)]" "callback_func q = End_update 1 7"
    by (rule update_state)
  note ok = core_okD(4) [OF service_okD(3) [OF s(2)]]
  have room: "length (all 1) = MAX_AUTH_SESSION_COUNT"
    using places [OF ok, of 1] s(4,5) by (simp add: active_in_def MAX_AUTH_SESSION_COUNT_def)
  have split: "requests_active s = [] @ (1, b, q) # []" using s(5) by simp
  have "possible (Answered 0 (Some 0) accepted) s" using s(3,5) by (simp add: possible_def)
  moreover have "calm_event (Answered 0 (Some 0) accepted) s" using s(5,6) by (simp add: calm_event_def)
  ultimately obtain s' where s': "request_answered (run_reply updating_hooks (Some 0) 2 accepted) (length ([] :: (nat \<times> block \<times> reply http_request) list)) s = Inr s'"
    using answer_event_ok [OF s(2)] by (metis list.size(3))
  from updates_wait_in_order [OF ok room split s'] s(1) s' show ?thesis by auto
qed

end
