(* ===== verification/AskRoom.thy ===== *)
theory AskRoom
  imports DdzPlugin PostMonitor
begin

text \<open>
  The rooms of the question game: questions and their collection (\<^verbatim>\<open>src/src/ask/questions.h\<close>), the room
  (\<^verbatim>\<open>ask_room.h\<close>) and the state a client has in the game (\<^verbatim>\<open>ask_game_info.h\<close>).

  The constructor of a room leaves \<^verbatim>\<open>verify_code\<close>, \<^verbatim>\<open>room_leader_index_\<close> and
  \<^verbatim>\<open>question_index_\<close> without a value: what the memory held is an argument. The database is an argument as well,
  as the answers it gives; the results of \<^verbatim>\<open>rand()\<close> are a list. The locks are left out: the handlers run one after another.
\<close>

section \<open>Questions\<close>

record question =
  title :: string
  options :: "string list"
  key_index :: int

definition TITLE_SIZE :: nat where "TITLE_SIZE = 200"
definition OPTION_SIZE :: nat where "OPTION_SIZE = 100"

definition new_question :: question where
  "new_question = \<lparr>title = [], options = replicate 5 [], key_index = -1\<rparr>"

text \<open>\<^verbatim>\<open>strncpy\<close> without the terminating NUL: what was in the array behind the copy stays.\<close>

definition copy_over :: "nat \<Rightarrow> string \<Rightarrow> string \<Rightarrow> string" where
  "copy_over room new old = (let n = min (room - 1) (length new) in take n new @ drop n old)"

definition set_title :: "string \<Rightarrow> question \<Rightarrow> question" where
  "set_title q_title q = q\<lparr>title := copy_over TITLE_SIZE q_title (title q)\<rparr>"

definition set_option :: "nat \<Rightarrow> string \<Rightarrow> question \<Rightarrow> question result" where
  "set_option i option_str q = (if i < length (options q)
     then Inr (q\<lparr>options := (options q)[i := copy_over OPTION_SIZE option_str (options q ! i)]\<rparr>) else Inl Out_of_bounds)"

text \<open>A row of the table \<^verbatim>\<open>game_ask\<close>: title, five options, key.\<close>

type_synonym ask_row = "string \<times> string list \<times> int"

definition question_of_row :: "ask_row \<Rightarrow> question result" where
  "question_of_row r = (case r of (t, os, k) \<Rightarrow>
     ebind (efold (\<lambda>i. set_option i (os ! i)) [0, 1, 2, 3, 4] (set_title t new_question)) (\<lambda>q. Inr (q\<lparr>key_index := k\<rparr>)))"

text \<open>A collection is a vector of pointers; \<^verbatim>\<open>None\<close> is \<^verbatim>\<open>NULL\<close>.\<close>

type_synonym questions = "question option list"

text \<open>
  What the database does in \<^verbatim>\<open>fill\<close>: whether it lets the server in, the number of questions, unless an
  exception comes first, and the rows, unless the second query throws.
\<close>

record ask_database =
  db_connects :: bool
  db_count :: "nat option"
  db_rows :: "ask_row list option"

fun fill_rows :: "nat \<Rightarrow> nat \<Rightarrow> ask_row list \<Rightarrow> questions \<Rightarrow> questions result" where
  "fill_rows expected data_size [] qs = Inr qs"
| "fill_rows expected data_size (r # rs) qs = ebind (question_of_row r) (\<lambda>q.
     fill_rows expected (Suc data_size) rs (if data_size < expected then qs[data_size := Some q] else qs @ [Some q]))"

definition resize :: "nat \<Rightarrow> questions \<Rightarrow> questions" where
  "resize n qs = take n qs @ replicate (n - length qs) None"

text \<open>
  After an exception the handler goes on to \<^verbatim>\<open>connection->close()\<close> on the null pointer when there was no
  connection, and to \<^verbatim>\<open>delete result\<close> on the first result, which was deleted before the second query.
\<close>

definition collection_fill :: "ask_database \<Rightarrow> questions \<Rightarrow> questions result" where
  "collection_fill db qs = (if \<not> db_connects db then Inl Null_pointer
     else case db_count db of None \<Rightarrow> Inr qs
       | Some n \<Rightarrow> (case db_rows db of None \<Rightarrow> Inl Dangling
           | Some rows \<Rightarrow> fill_rows n 0 rows (resize n qs)))"

definition collection_clear :: "questions \<Rightarrow> questions" where
  "collection_clear qs = []"

text \<open>
  Random questions that were not taken yet, until there are enough. The result has the random numbers that are left;
  the loop is given up when there are none.
\<close>

fun get_loop :: "questions \<Rightarrow> nat \<Rightarrow> nat set \<Rightarrow> nat list \<Rightarrow> questions \<Rightarrow> (questions \<times> nat list) result" where
  "get_loop qs 0 find_indexs draws out = Inr (out, draws)"
| "get_loop qs (Suc n) find_indexs [] out = Inl Out_of_steps"
| "get_loop qs (Suc n) find_indexs (r # draws) out = (let pos_i = r mod length qs in
     if pos_i \<notin> find_indexs then get_loop qs n (insert pos_i find_indexs) draws (out @ [qs ! pos_i])
     else get_loop qs (Suc n) find_indexs draws out)"

definition collection_get :: "nat \<Rightarrow> questions \<Rightarrow> nat list \<Rightarrow> questions \<Rightarrow> (questions \<times> nat list) result" where
  "collection_get random_size qs draws out =
     (if length qs = 0 then Inr (out, draws) else get_loop qs random_size {} draws out)"

section \<open>Rooms\<close>

definition ROOM_CAPACITY :: nat where "ROOM_CAPACITY = 8"

record ask_room =
  room_clients :: "cid option list"
  room_running :: bool
  room_team_mode :: bool
  curr_pos_index :: int
  room_leader_index :: int
  room_id :: int
  last_active_time :: tick_count
  room_questions :: questions
  question_index :: int
  verify_code :: int

text \<open>The last three arguments stand for what the memory held before.\<close>

definition new_ask_room :: "int \<Rightarrow> int \<Rightarrow> int \<times> int \<times> int \<Rightarrow> ask_room" where
  "new_ask_room now i junk = (case junk of (leader, question, code) \<Rightarrow>
     \<lparr>room_clients = replicate ROOM_CAPACITY None, room_running = False, room_team_mode = True, curr_pos_index = -1,
      room_leader_index = leader, room_id = i, last_active_time = tick_restart now, room_questions = [],
      question_index = question, verify_code = code\<rparr>)"

definition get_pos_client :: "int \<Rightarrow> ask_room \<Rightarrow> cid option result" where
  "get_pos_client i r = (if 0 \<le> i \<and> i < int (length (room_clients r)) then Inr (room_clients r ! nat i) else Inl Out_of_bounds)"

definition set_pos_client :: "int \<Rightarrow> cid option \<Rightarrow> ask_room \<Rightarrow> ask_room result" where
  "set_pos_client i c r = (if 0 \<le> i \<and> i < int (length (room_clients r))
     then Inr (r\<lparr>room_clients := (room_clients r)[nat i := c]\<rparr>) else Inl Out_of_bounds)"

text \<open>
  In the mode without teams the loop looks at one place again and again: \<^verbatim>\<open>curr_pos\<close> is computed from
  \<^verbatim>\<open>curr_pos_index_\<close>, which does not change.
\<close>

fun move_single :: "nat \<Rightarrow> ask_room \<Rightarrow> (int \<times> ask_room) result" where
  "move_single 0 r = Inr (0, r)"
| "move_single (Suc n) r = (let place = (curr_pos_index r + 1) mod int ROOM_CAPACITY in
     ebind (get_pos_client place r) (\<lambda>c. if c \<noteq> None then Inr (place, r\<lparr>curr_pos_index := place\<rparr>)
       else move_single n r))"

definition room_move_next :: "ask_room \<Rightarrow> (int \<times> ask_room) result" where
  "room_move_next r = (if room_team_mode r
     then let p = (curr_pos_index r + 1) mod 2 in Inr (p, r\<lparr>curr_pos_index := p\<rparr>)
     else move_single ROOM_CAPACITY r)"

definition room_reset :: "int \<Rightarrow> ask_room \<Rightarrow> ask_room" where
  "room_reset now r = r\<lparr>room_running := False, curr_pos_index := -1, question_index := -1, last_active_time := tick_restart now\<rparr>"

definition room_active :: "int \<Rightarrow> ask_room \<Rightarrow> ask_room" where
  "room_active now r = r\<lparr>last_active_time := tick_restart now\<rparr>"

definition move_question_index :: "ask_room \<Rightarrow> int \<times> ask_room" where
  "move_question_index r = (question_index r + 1, r\<lparr>question_index := question_index r + 1\<rparr>)"

fun index_from :: "cid option list \<Rightarrow> cid option \<Rightarrow> int \<Rightarrow> int" where
  "index_from [] c i = -1"
| "index_from (x # xs) c i = (if x = c then i else index_from xs c (i + 1))"

definition get_free_pos :: "ask_room \<Rightarrow> int" where
  "get_free_pos r = index_from (room_clients r) None 0"

definition index_of_client :: "cid \<Rightarrow> ask_room \<Rightarrow> int" where
  "index_of_client c r = index_from (room_clients r) (Some c) 0"

definition room_is_null :: "ask_room \<Rightarrow> bool" where
  "room_is_null r \<longleftrightarrow> (\<forall>x \<in> set (room_clients r). x = None)"

definition room_is_full :: "ask_room \<Rightarrow> bool" where
  "room_is_full r \<longleftrightarrow> (\<forall>x \<in> set (room_clients r). x \<noteq> None)"

section \<open>A client in the game\<close>

record ask_game_info =
  info_room :: "nat option"
  info_pos :: int
  info_ready :: bool
  room_finder_index :: nat

definition new_ask_game_info :: ask_game_info where
  "new_ask_game_info = \<lparr>info_room = None, info_pos = -1, info_ready = False, room_finder_index = 0\<rparr>"

definition set_room :: "nat option \<Rightarrow> int \<Rightarrow> ask_game_info \<Rightarrow> ask_game_info" where
  "set_room room pos_index i = i\<lparr>info_room := room, info_pos := pos_index\<rparr>"

end
