(* ===== verification/AskPlugin.thy ===== *)
theory AskPlugin
  imports AskRoom
begin

text \<open>
  The question game (\<^verbatim>\<open>src/src/ask/ask_plugin.cpp\<close>): its state and one operation per member function. What it
  writes to clients is appended to \<^verbatim>\<open>ask_outbox\<close>, the tasks it gives to its zone wait in \<^verbatim>\<open>ask_tasks\<close>; the
  results of \<^verbatim>\<open>rand()\<close> to come are \<^verbatim>\<open>ask_draws\<close>. A room is a pointer in the code and its number here.
  Console output is left out.
\<close>

section \<open>State\<close>

definition ROOM_COUNT :: nat where "ROOM_COUNT = 100"
definition QUESTION_RESP_MILLITIMES :: int where "QUESTION_RESP_MILLITIMES = 15000"
definition ASK_GAME_IS_FULL :: int where "ASK_GAME_IS_FULL = 12"

datatype ask_task = Room_start nat int | Room_question nat int

record ask_client =
  ask_id :: string
  ask_available :: bool
  ask_info :: "ask_game_info option"

record ask_plugin =
  ask_game_id :: string
  ask_handles :: "string list"
  ask_rooms :: "ask_room list"
  ask_clients :: "cid \<rightharpoonup> ask_client"
  ask_members :: "cid list"
  ask_zone :: "questions option"
  ask_clock :: int
  ask_draws :: "nat list"
  ask_tasks :: "(ask_task \<times> int) list"
  ask_outbox :: "(cid \<times> string) list"

definition ask_client_at :: "cid \<Rightarrow> ask_plugin \<Rightarrow> ask_client result" where
  "ask_client_at c w = (case ask_clients w c of None \<Rightarrow> Inl Dangling | Some r \<Rightarrow> Inr r)"

text \<open>\<^verbatim>\<open>client->get_game_info<ask_game_info>()\<close>, dereferenced.\<close>

definition ask_info_of :: "cid \<Rightarrow> ask_plugin \<Rightarrow> ask_game_info result" where
  "ask_info_of c w = ebind (ask_client_at c w) (\<lambda>r. case ask_info r of None \<Rightarrow> Inl Null_pointer | Some i \<Rightarrow> Inr i)"

definition set_ask_info :: "cid \<Rightarrow> ask_game_info option \<Rightarrow> ask_plugin \<Rightarrow> ask_plugin" where
  "set_ask_info c i w = w\<lparr>ask_clients := (ask_clients w)(c := map_option (\<lambda>r. r\<lparr>ask_info := i\<rparr>) (ask_clients w c))\<rparr>"

definition room_at :: "nat \<Rightarrow> ask_plugin \<Rightarrow> ask_room" where
  "room_at d w = ask_rooms w ! d"

definition put_room :: "nat \<Rightarrow> ask_room \<Rightarrow> ask_plugin \<Rightarrow> ask_plugin" where
  "put_room d r w = w\<lparr>ask_rooms := (ask_rooms w)[d := r]\<rparr>"

definition tell :: "cid \<Rightarrow> string \<Rightarrow> ask_plugin \<Rightarrow> ask_plugin" where
  "tell c s w = w\<lparr>ask_outbox := ask_outbox w @ [(c, s)]\<rparr>"

definition zone_queue_task :: "ask_task \<Rightarrow> int \<Rightarrow> ask_plugin \<Rightarrow> ask_plugin result" where
  "zone_queue_task t delay w = (case ask_zone w of None \<Rightarrow> Inl Null_pointer
     | Some z \<Rightarrow> Inr (w\<lparr>ask_tasks := ask_tasks w @ [(t, delay)]\<rparr>))"

text \<open>\<^verbatim>\<open>send_message_to_clients\<close>\<close>

definition send_to_room :: "nat \<Rightarrow> string \<Rightarrow> ask_plugin \<Rightarrow> ask_plugin result" where
  "send_to_room d s w = efold (\<lambda>x w. case x of None \<Rightarrow> Inr w
     | Some c \<Rightarrow> ebind (ask_client_at c w) (\<lambda>r. Inr (if ask_available r then tell c s w else w))) (room_clients (room_at d w)) w"

section \<open>The end of a game\<close>

text \<open>The first client behind a place, up to the seventh place behind it.\<close>

fun next_leader :: "int list \<Rightarrow> ask_room \<Rightarrow> int option result" where
  "next_leader [] r = Inr None"
| "next_leader (p # ps) r = ebind (get_pos_client (p mod int ROOM_CAPACITY) r) (\<lambda>c.
     if c \<noteq> None then Inr (Some (p mod int ROOM_CAPACITY)) else next_leader ps r)"

definition choose_leader :: "int \<Rightarrow> nat \<Rightarrow> ask_plugin \<Rightarrow> ask_plugin result" where
  "choose_leader pos_index d w = ebind (next_leader (map (\<lambda>n. pos_index + 1 + int n) [0..<ROOM_CAPACITY - 1]) (room_at d w)) (\<lambda>found.
     case found of None \<Rightarrow> Inr w
     | Some place \<Rightarrow> send_to_room d (words_of [''LED'', show_int place, []])
         (put_room d ((room_at d w)\<lparr>room_leader_index := place\<rparr>) w))"

definition on_room_game_stop :: "nat \<Rightarrow> ask_plugin \<Rightarrow> ask_plugin result" where
  "on_room_game_stop d w =
     (let w = put_room d ((room_at d w)\<lparr>room_running := False\<rparr>) w; r = room_at d w; leader = room_leader_index r in
      ebind (if leader = -1 then Inr True else ebind (get_pos_client leader r) (\<lambda>c. Inr (c = None))) (\<lambda>gone.
        if gone then choose_leader leader d w else Inr w))"

section \<open>Joining and leaving\<close>

definition ask_befor_client_join :: "(cid \<Rightarrow> int) \<Rightarrow> cid \<Rightarrow> ask_plugin \<Rightarrow> int" where
  "ask_befor_client_join base_join c w = (if length (ask_members w) \<ge> 8 * 100 then ASK_GAME_IS_FULL else base_join c)"

definition ask_on_client_join :: "cid \<Rightarrow> ask_plugin \<Rightarrow> ask_plugin result" where
  "ask_on_client_join c w = ebind (ask_client_at c w) (\<lambda>r.
     Inr (tell c (words_of [''LOG'', ask_game_id w, ask_id r, []]) (set_ask_info c (Some new_ask_game_info) w)))"

text \<open>Whether the team of a place is gone: the places of the same parity are all empty.\<close>

definition team_gone :: "int \<Rightarrow> ask_room \<Rightarrow> bool" where
  "team_gone pos_index r = (if pos_index mod 2 = 0
     then (\<forall>i \<in> {0, 2, 4, 6}. room_clients r ! i = None) else (\<forall>i \<in> {1, 3, 5, 7}. room_clients r ! i = None))"

definition on_client_leave_room :: "nat \<Rightarrow> cid \<Rightarrow> int \<Rightarrow> ask_plugin \<Rightarrow> ask_plugin result" where
  "on_client_leave_room d c pos_index w =
     ebind (set_pos_client pos_index None (room_at d w)) (\<lambda>r. let w = put_room d r w in
     ebind (ask_info_of c w) (\<lambda>i. let w = set_ask_info c (Some (set_room None (-1) i)) w in
     ebind (ask_client_at c w) (\<lambda>cl.
     ebind (send_to_room d (words_of [''LDK'', show_int pos_index, ask_id cl]) w) (\<lambda>w.
       let r = room_at d w in
       if room_running r then
         (if room_team_mode r then (if team_gone pos_index r then on_room_game_stop d w else Inr w)
          else if length (filter (\<lambda>x. x \<noteq> None) (room_clients r)) < 2 then on_room_game_stop d w else Inr w)
       else if pos_index = room_leader_index r
         then choose_leader pos_index d (put_room d (r\<lparr>room_leader_index := -1\<rparr>) w)
       else Inr w))))"

text \<open>
  \<^verbatim>\<open>ask_plugin::on_client_leave\<close> ends with a call of \<^verbatim>\<open>ask_plugin::on_client_leave\<close>; \<open>again\<close> is that call. The
  first argument of \<open>ask_on_client_leave\<close> bounds the depth of the calls.
\<close>

definition leave_body :: "(cid \<Rightarrow> ask_plugin \<Rightarrow> ask_plugin result) \<Rightarrow> cid \<Rightarrow> ask_plugin \<Rightarrow> ask_plugin result" where
  "leave_body again c w = ebind (ask_info_of c w) (\<lambda>i.
     let finish = (\<lambda>w. again c (set_ask_info c None w)) in
     case info_room i of None \<Rightarrow> finish w
     | Some d \<Rightarrow> let pos_index = index_of_client c (room_at d w) in
         if pos_index = -1 then Inr w else ebind (on_client_leave_room d c pos_index w) finish)"

fun ask_on_client_leave :: "nat \<Rightarrow> cid \<Rightarrow> ask_plugin \<Rightarrow> ask_plugin result" where
  "ask_on_client_leave 0 c w = Inl Out_of_steps"
| "ask_on_client_leave (Suc n) c w = leave_body (ask_on_client_leave n) c w"

section \<open>Taking a place\<close>

definition on_client_join_room :: "nat \<Rightarrow> cid \<Rightarrow> int \<Rightarrow> ask_plugin \<Rightarrow> ask_plugin result" where
  "on_client_join_room d c pos_index w =
     ebind (ask_info_of c w) (\<lambda>i. let w = set_ask_info c (Some (set_room (Some d) pos_index i)) w in
     ebind (set_pos_client pos_index (Some c) (room_at d w)) (\<lambda>r.
       let r = (if room_leader_index r = -1 then r\<lparr>room_leader_index := pos_index\<rparr> else r); w = put_room d r w in
       ebind (efold (\<lambda>(n, x) w. case x of None \<Rightarrow> Inr w
           | Some other \<Rightarrow> ebind (ask_client_at other w) (\<lambda>ro. ebind (ask_client_at c w) (\<lambda>rc.
               let w = tell c (words_of [''LSD'', show_int (int n), ask_id ro, []]) w in
               Inr (if other \<noteq> c then tell other (words_of [''JDK'', show_int pos_index, ask_id rc, []]) w else w))))
         (enumerate 0 (room_clients r)) w) (\<lambda>w.
         Inr (tell c (words_of [''LED'', show_int (room_leader_index r), []]) w))))"

text \<open>
  The search of \<^verbatim>\<open>client_join_room_handle\<close>: every room once, from the one behind \<^verbatim>\<open>room_finder_index\<close> on; the
  first empty room met on the way makes it start over from room 0, once. The result is the room, the place and the number of
  rooms passed.
\<close>

function search_room :: "ask_room list \<Rightarrow> nat \<Rightarrow> nat \<Rightarrow> nat \<Rightarrow> nat \<Rightarrow> nat \<Rightarrow> (nat \<times> int \<times> nat) option" where
  "search_room rooms finder start_index find_null_count here i =
     (if i \<ge> ROOM_COUNT then None
      else let r = rooms ! here in
        if room_running r then search_room rooms finder start_index find_null_count ((here + 1) mod ROOM_COUNT) (i + 1)
        else if room_is_null r then
          (if find_null_count \<le> 0 \<or> start_index = 0 \<or> finder = 0 then Some (here, 0, i)
           else search_room rooms finder start_index (find_null_count - 1) 0 0)
        else let free_pos = get_free_pos r in
          if free_pos \<noteq> -1 then Some (here, free_pos, i)
          else search_room rooms finder start_index find_null_count ((here + 1) mod ROOM_COUNT) (i + 1))"
  by pat_completeness auto
termination
  by (relation "measures [\<lambda>(rooms, finder, start, nulls, here, i). nulls, \<lambda>(rooms, finder, start, nulls, here, i). ROOM_COUNT - i]") auto

declare search_room.simps [simp del]

definition find_room :: "cid \<Rightarrow> ask_game_info \<Rightarrow> ask_plugin \<Rightarrow> ask_plugin result" where
  "find_room c i w =
     (let start_index = room_finder_index i;
          start_index = (if start_index > 0 then (start_index + 1) mod ROOM_COUNT else start_index) in
      case search_room (ask_rooms w) (room_finder_index i) start_index 1 start_index 0 of
        None \<Rightarrow> Inr w
      | Some (d, pos_index, n) \<Rightarrow> on_client_join_room d c pos_index (set_ask_info c (Some (i\<lparr>room_finder_index := n\<rparr>)) w))"

definition enter_room :: "cid \<Rightarrow> string list \<Rightarrow> ask_plugin \<Rightarrow> ask_plugin result" where
  "enter_room c params w = ebind (ask_info_of c w) (\<lambda>i.
     if length params = 0 then find_room c i w
     else if length params = 1 then
       (let room_index = atoi (params ! 0) in
        if room_index < 0 \<or> room_index \<ge> int ROOM_CAPACITY then Inr (tell c (words_of [''IDK'', show_int (-1), []]) w)
        else let d = nat room_index; r = room_at d w in
          if room_running r then Inr (tell c (words_of [''IDK'', show_int (-2), []]) w)
          else let pos_index = get_free_pos r in
            if pos_index = -1 then Inr (tell c (words_of [''IDK'', show_int (-3), []]) w)
            else on_client_join_room d c pos_index w)
     else Inr w)"

definition client_join_room_handle :: "cid \<Rightarrow> string list \<Rightarrow> ask_plugin \<Rightarrow> ask_plugin result" where
  "client_join_room_handle c params w = ebind (ask_info_of c w) (\<lambda>i.
     case info_room i of None \<Rightarrow> enter_room c params w
     | Some d \<Rightarrow> let client_pos = index_of_client c (room_at d w) in
         if client_pos = -1 then Inr w else ebind (on_client_leave_room d c client_pos w) (enter_room c params))"

definition client_leave_room_handle :: "cid \<Rightarrow> string list \<Rightarrow> ask_plugin \<Rightarrow> ask_plugin result" where
  "client_leave_room_handle c params w = Inr w"

end
