(* ===== verification/AskGame.thy ===== *)
theory AskGame
  imports AskPlugin Dispatch
begin

text \<open>
  A game of questions (\<^verbatim>\<open>src/src/ask/ask_plugin.cpp\<close>): getting ready, the start, the questions and the answers;
  then loading and unloading, the table of commands, and what can happen to the plugin.
\<close>

section \<open>Getting ready\<close>

text \<open>The clients at even and at odd places; \<^verbatim>\<open>None\<close> when somebody who is not the leader is not ready.\<close>

fun count_teams :: "int \<Rightarrow> int \<Rightarrow> cid option list \<Rightarrow> ask_plugin \<Rightarrow> nat \<Rightarrow> nat \<Rightarrow> (nat \<times> nat) option result" where
  "count_teams leader i [] w red_c blue_c = Inr (Some (red_c, blue_c))"
| "count_teams leader i (x # xs) w red_c blue_c = (case x of
       None \<Rightarrow> count_teams leader (i + 1) xs w red_c blue_c
     | Some c \<Rightarrow> ebind (ask_info_of c w) (\<lambda>info.
         if \<not> info_ready info \<and> i \<noteq> leader then Inr None
         else if i mod 2 = 0 then count_teams leader (i + 1) xs w (red_c + 1) blue_c
         else count_teams leader (i + 1) xs w red_c (blue_c + 1)))"

definition fill_questions :: "nat \<Rightarrow> nat \<Rightarrow> ask_plugin \<Rightarrow> ask_plugin result" where
  "fill_questions n d w = (case ask_zone w of None \<Rightarrow> Inl Null_pointer
     | Some z \<Rightarrow> ebind (collection_get n z (ask_draws w) (room_questions (room_at d w))) (\<lambda>(qs, draws).
         Inr (put_room d ((room_at d w)\<lparr>room_questions := qs\<rparr>) (w\<lparr>ask_draws := draws\<rparr>))))"

definition begin_game :: "nat \<Rightarrow> cid \<Rightarrow> int \<Rightarrow> ask_plugin \<Rightarrow> ask_plugin result" where
  "begin_game d c client_pos w = ebind (ask_client_at c w) (\<lambda>cl. ebind (ask_info_of c w) (\<lambda>info.
     let w = set_ask_info c (Some (info\<lparr>info_ready := True\<rparr>)) w;
         r = (room_reset (ask_clock w) (room_at d w))\<lparr>room_running := True\<rparr>;
         r = r\<lparr>verify_code := verify_code r + 1\<rparr>;
         w = put_room d r w in
     ebind (zone_queue_task (Room_start d (verify_code r)) 500 w)
       (send_to_room d (words_of [''RDY'', show_int client_pos, ask_id cl]))))"

definition leader_ready :: "nat \<Rightarrow> cid \<Rightarrow> int \<Rightarrow> ask_plugin \<Rightarrow> ask_plugin result" where
  "leader_ready d c client_pos w =
     ebind (count_teams (room_leader_index (room_at d w)) 0 (room_clients (room_at d w)) w 0 0) (\<lambda>found. case found of
         None \<Rightarrow> Inr (tell c ''RDY -1'' w)
       | Some (red_c, blue_c) \<Rightarrow>
           if red_c \<noteq> blue_c then Inr (tell c ''RDY -2'' w)
           else if ask_zone w = None then Inr (tell c ''RDY -3'' w)
           else ebind (fill_questions 20 d w) (\<lambda>w.
             if length (room_questions (room_at d w)) < 20 then Inr (tell c ''RDY -4'' w)
             else begin_game d c client_pos w))"

definition ask_ready_handle :: "cid \<Rightarrow> string list \<Rightarrow> ask_plugin \<Rightarrow> ask_plugin result" where
  "ask_ready_handle c params w = ebind (ask_client_at c w) (\<lambda>cl. case ask_info cl of
       None \<Rightarrow> Inr w
     | Some info \<Rightarrow>
         if info_ready info then Inr w
         else (case info_room info of None \<Rightarrow> Inr w
           | Some d \<Rightarrow> let r = room_at d w; client_pos = index_of_client c r in
               if room_running r then Inr w
               else if client_pos = -1 then Inr w
               else if client_pos \<noteq> room_leader_index r
               then send_to_room d (words_of [''RDY'', show_int client_pos, ask_id cl])
                 (set_ask_info c (Some (info\<lparr>info_ready := True\<rparr>)) w)
               else leader_ready d c client_pos w))"

section \<open>Questions and answers\<close>

definition on_room_game_start :: "nat \<Rightarrow> int \<Rightarrow> ask_plugin \<Rightarrow> ask_plugin result" where
  "on_room_game_start d code w = (let r = room_at d w in
     if verify_code r \<noteq> code then Inr w
     else if \<not> room_running r then Inr w
     else if length (room_questions r) = 0 then Inr w
     else ebind (send_to_room d ''STT 0'' (put_room d (room_active (ask_clock w) (r\<lparr>curr_pos_index := -1\<rparr>)) w)) (\<lambda>w.
       let r = (room_at d w)\<lparr>verify_code := verify_code (room_at d w) + 1\<rparr> in
       zone_queue_task (Room_question d (verify_code r)) 2000 (put_room d r w)))"

text \<open>\<^verbatim>\<open>vector::at\<close>, and a pointer that is used.\<close>

definition question_at :: "int \<Rightarrow> ask_room \<Rightarrow> question result" where
  "question_at i r = (if 0 \<le> i \<and> i < int (length (room_questions r))
     then (case room_questions r ! nat i of None \<Rightarrow> Inl Null_pointer | Some q \<Rightarrow> Inr q) else Inl Range_exception)"

definition send_question :: "nat \<Rightarrow> ask_plugin \<Rightarrow> ask_plugin result" where
  "send_question d w = (let r = room_at d w in ebind (question_at (question_index r) r) (\<lambda>q.
     send_to_room d (words_of ([''QUS'', show_int (question_index r), show_int (curr_pos_index r), title q] @ options q)) w))"

definition on_room_game_question :: "nat \<Rightarrow> int \<Rightarrow> ask_plugin \<Rightarrow> ask_plugin result" where
  "on_room_game_question d code w = (let r = room_at d w in
     if verify_code r \<noteq> code \<or> \<not> room_running r then Inr w
     else let r = (room_active (ask_clock w) r)\<lparr>curr_pos_index := 0\<rparr>; (n, r) = move_question_index r; w = put_room d r w in
       if 0 \<le> n \<and> n < int (length (room_questions r)) then send_question d w else Inr w)"

definition next_question :: "nat \<Rightarrow> ask_plugin \<Rightarrow> ask_plugin result" where
  "next_question d w = (let (n, r) = move_question_index (room_at d w) in
     ebind (room_move_next r) (\<lambda>(p, r). ebind (send_question d (put_room d r w)) (\<lambda>w.
       Inr (put_room d (room_active (ask_clock w) (room_at d w)) w))))"

definition take_answer :: "nat \<Rightarrow> cid \<Rightarrow> int \<Rightarrow> int \<Rightarrow> int \<Rightarrow> ask_plugin \<Rightarrow> ask_plugin result" where
  "take_answer d c client_pos n k w = (let r = room_at d w in
     if int (length (room_questions r)) \<le> n then Inr w
     else ebind (question_at n r) (\<lambda>q. ebind (ask_client_at c w) (\<lambda>cl.
       ebind (send_to_room d (words_of [''ASR'', show_int client_pos, ask_id cl, show_int n, flag (key_index q = k)]) w) (\<lambda>w.
         if n < int (length (room_questions r)) - 1 then next_question d w else on_room_game_stop d w))))"

definition client_answer_handler :: "cid \<Rightarrow> string list \<Rightarrow> ask_plugin \<Rightarrow> ask_plugin result" where
  "client_answer_handler c params w =
     (if length params \<noteq> 2 then Inr w
      else let n = atoi (params ! 0); k = atoi (params ! 1) in
        if n < 0 \<or> k < 0 then Inr w
        else ebind (ask_client_at c w) (\<lambda>cl. case ask_info cl of None \<Rightarrow> Inr w
          | Some info \<Rightarrow> (case info_room info of None \<Rightarrow> Inr w
              | Some d \<Rightarrow> let r = room_at d w; client_pos = index_of_client c r in
                  if \<not> room_running r then Inr w
                  else if client_pos = -1 then Inr w
                  else if client_pos mod 2 \<noteq> curr_pos_index r then Inr w
                  else if n \<noteq> question_index r then Inr w
                  else take_answer d c client_pos n k w)))"

section \<open>The plugin\<close>

definition ask_on_load :: "(nat \<Rightarrow> int \<times> int \<times> int) \<Rightarrow> ask_plugin \<Rightarrow> ask_plugin" where
  "ask_on_load junk w = w\<lparr>ask_rooms := map (\<lambda>i. new_ask_room (ask_clock w) (int i) (junk i)) [0..<100],
     ask_handles := [''IDK'', ''RDY'', ''ASR'']\<rparr>"

definition ask_on_unload :: "ask_plugin \<Rightarrow> ask_plugin" where
  "ask_on_unload w = w\<lparr>ask_handles := []\<rparr>"

text \<open>Nothing happens to a room whose question has waited too long.\<close>

definition ask_on_update :: "ask_plugin \<Rightarrow> ask_plugin result" where
  "ask_on_update w = efold (\<lambda>d w. let r = room_at d w in
     if room_running r \<and> curr_pos_index r \<ge> 0 then
       (if elapsed (ask_clock w) (last_active_time r) > QUESTION_RESP_MILLITIMES then Inr w else Inr w)
     else Inr w) [0..<ROOM_COUNT] w"

definition ask_zone_load :: "ask_database \<Rightarrow> questions \<Rightarrow> questions result" where
  "ask_zone_load db qs = collection_fill db qs"

definition ask_zone_unload :: "questions \<Rightarrow> questions" where
  "ask_zone_unload qs = collection_clear qs"

definition ask_handler_table :: "ask_plugin handles" where
  "ask_handler_table = snd (regist_handle ''ASR'' client_answer_handler (snd (regist_handle ''RDY'' ask_ready_handle
     (snd (regist_handle ''IDK'' client_join_room_handle [])))))"

definition ask_command :: "string \<Rightarrow> cid \<Rightarrow> string list \<Rightarrow> ask_plugin \<Rightarrow> ask_plugin result" where
  "ask_command name c params w = (if name \<notin> set (ask_handles w) then Inr w
     else case map_of ask_handler_table name of None \<Rightarrow> Inr w | Some handler \<Rightarrow> handler c params w)"

definition run_ask_task :: "ask_task \<Rightarrow> ask_plugin \<Rightarrow> ask_plugin result" where
  "run_ask_task t w = (case t of Room_start d code \<Rightarrow> on_room_game_start d code w
     | Room_question d code \<Rightarrow> on_room_game_question d code w)"

text \<open>
  What happens to the plugin: a client joins, sends a command, loses its connection or leaves, a task of the zone runs, the
  clock goes on, more random numbers come up. \<open>Ask_lost\<close> is only the moment at which the client is no longer available; the
  departure that follows in the program, when the service has noticed, is an event of its own, \<open>Ask_leaves\<close>.
\<close>

datatype ask_event =
    Ask_joins cid string
  | Ask_sends cid string "string list"
  | Ask_lost cid
  | Ask_leaves cid
  | Ask_runs nat
  | Ask_update int "nat list"

definition ask_join :: "(cid \<Rightarrow> int) \<Rightarrow> cid \<Rightarrow> string \<Rightarrow> ask_plugin \<Rightarrow> ask_plugin result" where
  "ask_join base_join c ident w =
     (let w = w\<lparr>ask_clients := (ask_clients w)(c \<mapsto> \<lparr>ask_id = ident, ask_available = True, ask_info = None\<rparr>)\<rparr> in
      if ask_befor_client_join base_join c w \<noteq> 0 then Inr w
      else ask_on_client_join c (w\<lparr>ask_members := ask_members w @ [c]\<rparr>))"

definition ask_step :: "(cid \<Rightarrow> int) \<Rightarrow> ask_event \<Rightarrow> ask_plugin \<Rightarrow> ask_plugin result" where
  "ask_step base_join e w = (case e of
       Ask_joins c ident \<Rightarrow> ask_join base_join c ident w
     | Ask_sends c name params \<Rightarrow> ask_command name c params w
     | Ask_lost c \<Rightarrow> Inr (w\<lparr>ask_clients := (ask_clients w)(c := map_option (\<lambda>r. r\<lparr>ask_available := False\<rparr>) (ask_clients w c))\<rparr>)
     | Ask_leaves c \<Rightarrow> ask_on_client_leave 2 c w
     | Ask_runs k \<Rightarrow> run_ask_task (fst (ask_tasks w ! k)) (w\<lparr>ask_tasks := take k (ask_tasks w) @ drop (Suc k) (ask_tasks w)\<rparr>)
     | Ask_update now draws \<Rightarrow> ask_on_update (w\<lparr>ask_clock := now, ask_draws := ask_draws w @ draws\<rparr>))"

definition ask_possible :: "ask_event \<Rightarrow> ask_plugin \<Rightarrow> bool" where
  "ask_possible e w = (case e of
       Ask_joins c ident \<Rightarrow> ask_clients w c = None
     | Ask_sends c name params \<Rightarrow> c \<in> set (ask_members w)
     | Ask_lost c \<Rightarrow> True
     | Ask_leaves c \<Rightarrow> c \<in> set (ask_members w)
     | Ask_runs k \<Rightarrow> k < length (ask_tasks w)
     | Ask_update now draws \<Rightarrow> True)"

end
