(* ===== verification/AskOk.thy ===== *)
theory AskOk
  imports AskGame
begin

text \<open>
  The invariant of the question game: the rooms and what the clients remember agree on who sits where, and a running
  room has a leader's place, questions and a zone. Every operation but the departure of a client keeps it and
  ends without a fault; only the random numbers it is given may not suffice.
\<close>

section \<open>The invariant\<close>

definition info_at :: "ask_plugin \<Rightarrow> cid \<Rightarrow> ask_game_info option" where
  "info_at w c = (case ask_clients w c of None \<Rightarrow> None | Some r \<Rightarrow> ask_info r)"

definition where_is :: "ask_plugin \<Rightarrow> cid \<Rightarrow> (nat \<times> int) option" where
  "where_is w c = (case info_at w c of None \<Rightarrow> None | Some i \<Rightarrow> map_option (\<lambda>d. (d, info_pos i)) (info_room i))"

definition room_ok :: "ask_room \<Rightarrow> bool" where
  "room_ok r \<longleftrightarrow> length (room_clients r) = 8 \<and> room_team_mode r \<and> -1 \<le> curr_pos_index r \<and> None \<notin> set (room_questions r) \<and>
     (room_running r \<longrightarrow> 0 \<le> room_leader_index r \<and> room_leader_index r < 8 \<and> -1 \<le> question_index r)"

definition zone_ok :: "ask_plugin \<Rightarrow> bool" where
  "zone_ok w \<longleftrightarrow> (\<forall>r \<in> set (ask_rooms w). room_running r \<longrightarrow> ask_zone w \<noteq> None) \<and> (\<forall>qs. ask_zone w = Some qs \<longrightarrow> None \<notin> set qs)"

definition seats_agree :: "ask_plugin \<Rightarrow> bool" where
  "seats_agree w \<longleftrightarrow> (\<forall>c d p. where_is w c = Some (d, p) \<longleftrightarrow>
     d < length (ask_rooms w) \<and> 0 \<le> p \<and> p < 8 \<and> room_clients (room_at d w) ! nat p = Some c)"

definition tasks_ok :: "ask_plugin \<Rightarrow> bool" where
  "tasks_ok w \<longleftrightarrow> (\<forall>(t, delay) \<in> set (ask_tasks w). (case t of Room_start d code \<Rightarrow> d | Room_question d code \<Rightarrow> d) < length (ask_rooms w))"

definition ask_ok :: "ask_plugin \<Rightarrow> bool" where
  "ask_ok w \<longleftrightarrow> length (ask_rooms w) = ROOM_COUNT \<and> (\<forall>r \<in> set (ask_rooms w). room_ok r) \<and> seats_agree w \<and> zone_ok w \<and>
     tasks_ok w \<and> (\<forall>c \<in> set (ask_members w). info_at w c \<noteq> None)"

text \<open>What a step leaves: clients keep their state in the game, and stay ready.\<close>

definition stays :: "ask_plugin \<Rightarrow> ask_plugin \<Rightarrow> bool" where
  "stays w w' \<longleftrightarrow> (\<forall>c i. info_at w c = Some i \<longrightarrow> (\<exists>j. info_at w' c = Some j \<and> (info_ready i \<longrightarrow> info_ready j))) \<and>
     set (ask_members w) \<subseteq> set (ask_members w')"

lemma stays_refl [simp]: "stays w w" by (simp add: stays_def)

lemma stays_trans: "stays u v \<Longrightarrow> stays v w \<Longrightarrow> stays u w"
  unfolding stays_def by blast

definition ends_well :: "ask_plugin \<Rightarrow> ask_plugin result \<Rightarrow> bool" where
  "ends_well w r \<longleftrightarrow> (\<exists>w'. r = Inr w' \<and> ask_ok w' \<and> stays w w')"

lemma ends_well_Inr [simp]: "ends_well w (Inr w') \<longleftrightarrow> ask_ok w' \<and> stays w w'"
  by (simp add: ends_well_def)

lemma ends_well_bind:
  assumes "ends_well w r" "\<And>w'. r = Inr w' \<Longrightarrow> ask_ok w' \<Longrightarrow> stays w w' \<Longrightarrow> ends_well w' (f w')"
  shows "ends_well w (ebind r f)"
  using assms by (auto simp: ends_well_def) (blast intro: stays_trans)

lemma ends_well_from: "stays u v \<Longrightarrow> ends_well v r \<Longrightarrow> ends_well u r"
  by (auto simp: ends_well_def) (blast intro: stays_trans)

section \<open>Access\<close>

lemma info_at_simps [simp]:
  "info_at (w\<lparr>ask_outbox := a\<rparr>) = info_at w" "info_at (w\<lparr>ask_rooms := b\<rparr>) = info_at w" "info_at (w\<lparr>ask_tasks := t\<rparr>) = info_at w"
  "info_at (w\<lparr>ask_draws := x\<rparr>) = info_at w" "info_at (w\<lparr>ask_members := m\<rparr>) = info_at w" "info_at (w\<lparr>ask_clock := k\<rparr>) = info_at w"
  "info_at (put_room d r w) = info_at w"
  by (simp_all add: fun_eq_iff info_at_def put_room_def)

lemma ask_info_of_iff: "ask_info_of c w = Inr i \<longleftrightarrow> info_at w c = Some i"
  by (auto simp: ask_info_of_def ask_client_at_def info_at_def split: option.splits)

lemma info_client: "info_at w c = Some i \<Longrightarrow> \<exists>r. ask_clients w c = Some r \<and> ask_client_at c w = Inr r \<and> ask_info r = Some i"
  by (auto simp: info_at_def ask_client_at_def split: option.splits)

lemma info_at_set: "info_at (set_ask_info c (Some i) w) e = (if e = c then (if ask_clients w c = None then None else Some i) else info_at w e)"
  by (auto simp: info_at_def set_ask_info_def split: option.splits)

lemma where_is_cong: "info_at w = info_at w' \<Longrightarrow> where_is w = where_is w'"
  by (simp add: fun_eq_iff where_is_def)

lemma where_is_set:
  assumes "info_at w c \<noteq> None"
  shows "where_is (set_ask_info c (Some i) w) e = (if e = c then map_option (\<lambda>d. (d, info_pos i)) (info_room i) else where_is w e)"
proof -
  obtain y where "ask_clients w c = Some y" using assms by (auto simp: info_at_def split: option.splits)
  then show ?thesis by (simp add: where_is_def info_at_set)
qed

lemma rooms_simps [simp]:
  "ask_rooms (put_room d r w) = (ask_rooms w)[d := r]" "ask_rooms (set_ask_info c i w) = ask_rooms w" "ask_rooms (tell c s w) = ask_rooms w"
  "ask_zone (put_room d r w) = ask_zone w" "ask_zone (set_ask_info c i w) = ask_zone w"
  "ask_tasks (put_room d r w) = ask_tasks w" "ask_tasks (set_ask_info c i w) = ask_tasks w"
  "ask_members (put_room d r w) = ask_members w" "ask_members (set_ask_info c i w) = ask_members w"
  "ask_clients (put_room d r w) = ask_clients w"
  by (simp_all add: put_room_def set_ask_info_def tell_def)

lemma room_at_simps [simp]:
  "room_at d (w\<lparr>ask_outbox := a\<rparr>) = room_at d w" "room_at d (set_ask_info c i w) = room_at d w" "room_at d (tell c s w) = room_at d w"
  "room_at d (w\<lparr>ask_tasks := t\<rparr>) = room_at d w" "room_at d (w\<lparr>ask_draws := x\<rparr>) = room_at d w"
  "d < length (ask_rooms w) \<Longrightarrow> room_at d (put_room d r w) = r" "e \<noteq> d \<Longrightarrow> room_at e (put_room d r w) = room_at e w"
  by (simp_all add: room_at_def set_ask_info_def tell_def put_room_def)

lemma ask_okD:
  assumes "ask_ok w"
  shows "length (ask_rooms w) = ROOM_COUNT" "d < ROOM_COUNT \<Longrightarrow> room_ok (room_at d w)" "seats_agree w"
    "c \<in> set (ask_members w) \<Longrightarrow> info_at w c \<noteq> None"
  using assms by (auto simp: ask_ok_def room_at_def)

lemma seat_iff:
  "ask_ok w \<Longrightarrow> where_is w c = Some (d, p) \<longleftrightarrow> d < ROOM_COUNT \<and> 0 \<le> p \<and> p < 8 \<and> room_clients (room_at d w) ! nat p = Some c"
  by (simp add: ask_ok_def seats_agree_def)

lemma ask_ok_cong:
  assumes "ask_rooms w = ask_rooms w'" "info_at w = info_at w'" "ask_zone w = ask_zone w'" "ask_tasks w = ask_tasks w'"
    "ask_members w = ask_members w'"
  shows "ask_ok w = ask_ok w'"
  using assms where_is_cong [OF assms(2)] by (simp add: ask_ok_def seats_agree_def zone_ok_def tasks_ok_def room_at_def)

lemma ask_ok_outbox [simp]:
  "ask_ok (w\<lparr>ask_outbox := x\<rparr>) = ask_ok w" "ask_ok (tell c s w) = ask_ok w" "ask_ok (w\<lparr>ask_draws := ds\<rparr>) = ask_ok w"
  "ask_ok (w\<lparr>ask_clock := now\<rparr>) = ask_ok w"
  by (rule ask_ok_cong; simp add: tell_def)+

lemma stays_outbox [simp]: "stays w (v\<lparr>ask_outbox := x\<rparr>) = stays w v" "stays w (tell c s v) = stays w v"
  by (simp_all add: tell_def stays_def)

lemma stays_put_room [simp]: "stays w (put_room d r v) = stays w v"
  by (simp add: stays_def)

text \<open>Who sits in a room exists.\<close>

lemma seated_info:
  assumes "ask_ok w" "d < ROOM_COUNT" "Some c \<in> set (room_clients (room_at d w))"
  shows "\<exists>i. info_at w c = Some i"
proof -
  obtain p where p: "p < 8" "room_clients (room_at d w) ! p = Some c"
    using assms ask_okD(2) [OF assms(1,2)] by (auto simp: in_set_conv_nth room_ok_def)
  then have "where_is w c = Some (d, int p)" using seat_iff [OF assms(1), of c d "int p"] assms(2) by simp
  then show ?thesis by (auto simp: where_is_def split: option.splits)
qed

section \<open>Rooms that change\<close>

lemma put_room_ok:
  assumes ok: "ask_ok w" and d: "d < ROOM_COUNT" and r: "room_ok r" "room_clients r = room_clients (room_at d w)"
    "room_running r \<Longrightarrow> room_running (room_at d w) \<or> ask_zone w \<noteq> None"
  shows "ask_ok (put_room d r w)"
proof -
  have len: "d < length (ask_rooms w)" using ok d by (simp add: ask_ok_def)
  have "room_clients (room_at e (put_room d r w)) = room_clients (room_at e w)" for e
    using r(2) len by (cases "e = d") simp_all
  moreover have "where_is (put_room d r w) = where_is w" by (rule where_is_cong) simp
  moreover have "room_at d w \<in> set (ask_rooms w)" using len by (simp add: room_at_def)
  then have "zone_ok (put_room d r w)"
    using ok r(1,3) len by (auto simp: ask_ok_def zone_ok_def dest!: set_update_subset_insert [THEN subsetD] split: option.splits)
  ultimately show ?thesis
    using ok r(1) len
    by (auto simp: ask_ok_def seats_agree_def tasks_ok_def dest!: set_update_subset_insert [THEN subsetD])
qed

lemma send_runs:
  assumes "ask_ok w" "d < ROOM_COUNT"
  shows "\<exists>x. send_to_room d s w = Inr (w\<lparr>ask_outbox := x\<rparr>)"
proof -
  have "\<exists>x. efold (\<lambda>x w. case x of None \<Rightarrow> Inr w
     | Some c \<Rightarrow> ebind (ask_client_at c w) (\<lambda>r. Inr (if ask_available r then tell c s w else w))) xs (w\<lparr>ask_outbox := y\<rparr>) =
       Inr (w\<lparr>ask_outbox := x\<rparr>)"
    if "\<forall>c. Some c \<in> set xs \<longrightarrow> ask_clients w c \<noteq> None" for xs y
    using that
  proof (induction xs arbitrary: y)
    case (Cons a xs)
    show ?case
    proof (cases a)
      case (Some c)
      then obtain r where "ask_clients w c = Some r" using Cons.prems by auto
      then have "ask_client_at c (w\<lparr>ask_outbox := y\<rparr>) = Inr r" by (simp add: ask_client_at_def)
      then show ?thesis using Cons Some by (simp add: tell_def)
    qed (use Cons in simp)
  qed auto
  from this [of "room_clients (room_at d w)" "ask_outbox w"] seated_info [OF assms]
  show ?thesis by (fastforce simp: send_to_room_def info_at_def split: option.splits)
qed

lemma send_ok:
  assumes "ask_ok w" "d < ROOM_COUNT"
  obtains x where "send_to_room d s w = Inr (w\<lparr>ask_outbox := x\<rparr>)"
  using send_runs [OF assms] by blast

section \<open>Sitting down and standing up\<close>

lemma move_seat_ok:
  assumes ok: "ask_ok w" and d: "d < ROOM_COUNT" and p: "0 \<le> p" "p < 8" and i: "info_at w c = Some i"
    and r: "room_ok r" "room_running r \<Longrightarrow> room_running (room_at d w)"
    and seats: "room_clients r = (room_clients (room_at d w))[nat p := x]"
    and move: "x = Some c \<and> where_is w c = None \<and> room_clients (room_at d w) ! nat p = None \<and> info_room j = Some d \<and> info_pos j = p \<or>
      x = None \<and> where_is w c = Some (d, p) \<and> info_room j = None"
  shows "ask_ok (put_room d r (set_ask_info c (Some j) w))"
proof -
  let ?w = "put_room d r (set_ask_info c (Some j) w)"
  have len: "d < length (ask_rooms w)" "length (room_clients (room_at d w)) = 8"
    using ok d ask_okD(2) [OF ok d] by (simp_all add: ask_ok_def room_ok_def)
  have w: "info_at ?w e = info_at (set_ask_info c (Some j) w) e" for e by simp
  have others: "where_is ?w e = (if e = c then map_option (\<lambda>d. (d, info_pos j)) (info_room j) else where_is w e)" for e
    using where_is_set [of w c j e] i where_is_cong [of ?w "set_ask_info c (Some j) w"] by simp
  have seat: "room_clients (room_at e ?w) ! nat q = (if e = d \<and> q = p then x else room_clients (room_at e w) ! nat q)"
    if "0 \<le> q" "q < 8" for e q
    using len that p seats by (cases "e = d") (auto simp: nth_list_update eq_nat_nat_iff)
  have "seats_agree ?w"
    unfolding seats_agree_def
  proof (intro allI)
    fix e f q
    show "where_is ?w e = Some (f, q) \<longleftrightarrow>
        f < length (ask_rooms ?w) \<and> 0 \<le> q \<and> q < 8 \<and> room_clients (room_at f ?w) ! nat q = Some e"
      using move seat_iff [OF ok, of e f q] seat_iff [OF ok, of e d p] seat_iff [OF ok, of c d p] ok p d
      by (cases "0 \<le> q \<and> q < 8") (auto simp: others seat ask_ok_def split: if_splits)
  qed
  moreover have "room_at d w \<in> set (ask_rooms w)" using len by (simp add: room_at_def)
  then have "zone_ok ?w"
    using ok r by (auto simp: ask_ok_def zone_ok_def dest!: set_update_subset_insert [THEN subsetD])
  moreover have "info_at ?w e \<noteq> None" if "info_at w e \<noteq> None" for e
    using that i info_client [OF i] by (auto simp: info_at_set)
  ultimately show ?thesis
    using ok r by (auto simp: ask_ok_def tasks_ok_def dest!: set_update_subset_insert [THEN subsetD])
qed

lemma stays_set_info:
  assumes "info_at w c = Some i" "info_ready i \<longrightarrow> info_ready j"
  shows "stays w (set_ask_info c (Some j) w)"
  using assms info_client [OF assms(1)] by (auto simp: stays_def info_at_set)

lemma index_from_seat:
  "index_from xs c i \<noteq> -1 \<Longrightarrow> 0 \<le> i \<Longrightarrow> i \<le> index_from xs c i \<and> index_from xs c i < i + int (length xs) \<and> xs ! nat (index_from xs c i - i) = c"
proof (induction xs arbitrary: i)
  case (Cons x xs)
  show ?case
  proof (cases "x = c")
    case False
    let ?k = "index_from xs c (i + 1)"
    have k: "i + 1 \<le> ?k" "?k < i + 1 + int (length xs)" "xs ! nat (?k - (i + 1)) = c"
      using Cons.IH [of "i + 1"] Cons.prems False by simp_all
    have "nat (?k - i) = Suc (nat (?k - (i + 1)))" using k(1) by (simp add: Suc_nat_eq_nat_zadd1)
    then show ?thesis using k False by simp
  qed simp
qed simp

lemma index_from_none: "0 \<le> i \<Longrightarrow> index_from xs c i = -1 \<longleftrightarrow> c \<notin> set xs"
proof (induction xs arbitrary: i)
  case (Cons x xs)
  show ?case using Cons.IH [of "i + 1"] Cons.prems by auto
qed simp

text \<open>What the places of the rooms and of the clients say about each other.\<close>

lemma index_of_seated:
  assumes ok: "ask_ok w" and i: "info_at w c = Some i" "info_room i = Some d"
  shows "d < ROOM_COUNT" "index_of_client c (room_at d w) = info_pos i" "0 \<le> info_pos i" "info_pos i < 8"
    "where_is w c = Some (d, info_pos i)"
proof -
  show here: "where_is w c = Some (d, info_pos i)" using i by (simp add: where_is_def)
  then have p: "d < ROOM_COUNT" "0 \<le> info_pos i" "info_pos i < 8" "room_clients (room_at d w) ! nat (info_pos i) = Some c"
    using seat_iff [OF ok] by blast+
  then show "d < ROOM_COUNT" "0 \<le> info_pos i" "info_pos i < 8" by blast+
  let ?k = "index_of_client c (room_at d w)"
  have len: "length (room_clients (room_at d w)) = 8" using ask_okD(2) [OF ok p(1)] by (simp add: room_ok_def)
  have "nat (info_pos i) < length (room_clients (room_at d w))" using p(2,3) len by simp
  then have "Some c \<in> set (room_clients (room_at d w))" using p(4) by (metis nth_mem)
  then have "?k \<noteq> -1" using index_from_none [of 0 "room_clients (room_at d w)" "Some c"] by (simp add: index_of_client_def)
  then have "0 \<le> ?k" "?k < 8" "room_clients (room_at d w) ! nat ?k = Some c"
    using index_from_seat [of "room_clients (room_at d w)" "Some c" 0] len by (auto simp: index_of_client_def)
  then have "where_is w c = Some (d, ?k)" using seat_iff [OF ok] p(1) by blast
  with here show "?k = info_pos i" by simp
qed

lemma free_pos_cases:
  assumes "room_ok r"
  shows "get_free_pos r = -1 \<and> None \<notin> set (room_clients r) \<or>
    0 \<le> get_free_pos r \<and> get_free_pos r < 8 \<and> room_clients r ! nat (get_free_pos r) = None"
  using index_from_seat [of "room_clients r" None 0] index_from_none [of 0 "room_clients r" None] assms
  by (auto simp: get_free_pos_def room_ok_def)

section \<open>Leaders\<close>

lemma seat_runs: "length (room_clients r) = 8 \<Longrightarrow> 0 \<le> p \<Longrightarrow> p < 8 \<Longrightarrow> get_pos_client p r = Inr (room_clients r ! nat p)"
  by (simp add: get_pos_client_def)

lemma next_leader_runs:
  assumes "length (room_clients r) = 8"
  shows "\<exists>found. next_leader ps r = Inr found \<and> (\<forall>p. found = Some p \<longrightarrow> 0 \<le> p \<and> p < 8 \<and> room_clients r ! nat p \<noteq> None) \<and>
    (found = None \<longrightarrow> (\<forall>p \<in> set ps. room_clients r ! nat (p mod 8) = None))"
proof (induction ps)
  case (Cons p ps)
  have "get_pos_client (p mod int ROOM_CAPACITY) r = Inr (room_clients r ! nat (p mod 8))"
    using seat_runs [OF assms, of "p mod 8"] by (simp add: ROOM_CAPACITY_def)
  with Cons show ?case by (auto simp: ROOM_CAPACITY_def)
qed simp

text \<open>Two states that differ in leaders and messages only.\<close>

lemma choose_leader_ok:
  assumes ok: "ask_ok w" and d: "d < ROOM_COUNT"
  shows "\<exists>w'. choose_leader p d w = Inr w' \<and> ask_ok w' \<and> stays w w' \<and> info_at w' = info_at w"
proof -
  let ?ps = "map (\<lambda>n. p + 1 + int n) [0..<ROOM_CAPACITY - 1]"
  have r: "room_ok (room_at d w)" using ask_okD(2) [OF ok d] .
  obtain found where f: "next_leader ?ps (room_at d w) = Inr found"
    "\<And>q. found = Some q \<Longrightarrow> 0 \<le> q \<and> q < 8"
    using next_leader_runs [of "room_at d w" ?ps] r by (auto simp: room_ok_def)
  show ?thesis
  proof (cases found)
    case None
    then show ?thesis using f ok by (simp add: choose_leader_def)
  next
    case (Some q)
    let ?v = "put_room d ((room_at d w)\<lparr>room_leader_index := q\<rparr>) w"
    have v: "ask_ok ?v" using f(2) [OF Some] r by (intro put_room_ok [OF ok d]) (simp_all add: room_ok_def)
    obtain x where "send_to_room d (words_of [''LED'', show_int q, []]) ?v = Inr (?v\<lparr>ask_outbox := x\<rparr>)"
      by (rule send_ok [OF v d])
    then show ?thesis using f v Some by (simp add: choose_leader_def)
  qed
qed

lemma game_stop_ok:
  assumes ok: "ask_ok w" and d: "d < ROOM_COUNT" and run: "room_running (room_at d w)"
  shows "\<exists>w'. on_room_game_stop d w = Inr w' \<and> ask_ok w' \<and> stays w w' \<and> info_at w' = info_at w"
proof -
  let ?v = "put_room d ((room_at d w)\<lparr>room_running := False\<rparr>) w"
  have r: "room_ok (room_at d w)" using ask_okD(2) [OF ok d] .
  have len: "d < length (ask_rooms w)" using ok d by (simp add: ask_ok_def)
  have v: "ask_ok ?v" using r by (intro put_room_ok [OF ok d]) (simp_all add: room_ok_def)
  have "get_pos_client (room_leader_index (room_at d w)) ((room_at d w)\<lparr>room_running := False\<rparr>) =
      Inr (room_clients (room_at d w) ! nat (room_leader_index (room_at d w)))"
    using r run by (simp add: room_ok_def get_pos_client_def)
  then show ?thesis using choose_leader_ok [OF v d] v len by (auto simp: on_room_game_stop_def Let_def stays_def)
qed

end
