(* ===== verification/AskSteps.thy ===== *)
theory AskSteps
  imports AskOk
begin

text \<open>Leaving a room, taking a place and the search for a room keep the invariant of the question game.\<close>

section \<open>Leaving and taking a place\<close>

lemma set_info_put_room: "set_ask_info c j (put_room d r w) = put_room d r (set_ask_info c j w)"
  by (simp add: set_ask_info_def put_room_def)

lemma leave_room_ok:
  assumes ok: "ask_ok w" and i: "info_at w c = Some i" "info_room i = Some d"
  shows "\<exists>w'. on_client_leave_room d c (info_pos i) w = Inr w' \<and> ask_ok w' \<and> stays w w' \<and> info_at w' c = Some (set_room None (-1) i)"
proof -
  let ?r = "room_at d w" and ?p = "info_pos i"
  note here = index_of_seated [OF ok i]
  have r: "room_ok ?r" using ask_okD(2) [OF ok here(1)] .
  let ?q = "?r\<lparr>room_clients := (room_clients ?r)[nat ?p := None]\<rparr>"
  let ?v = "put_room d ?q (set_ask_info c (Some (set_room None (-1) i)) w)"
  have v: "ask_ok ?v"
    using r here i by (intro move_seat_ok [OF ok here(1,3,4) i(1)]) (simp_all add: room_ok_def set_room_def)
  have st: "stays w ?v" using i by (simp add: stays_set_info set_room_def)
  obtain cl where cl: "ask_clients w c = Some cl" using info_client [OF i(1)] by blast
  have vc: "info_at ?v c = Some (set_room None (-1) i)" using cl by (simp add: info_at_set)
  then obtain cl' where cl': "ask_client_at c ?v = Inr cl'" using info_client by blast
  have len: "d < length (ask_rooms w)" using ok here(1) by (simp add: ask_ok_def)
  obtain x where x: "send_to_room d (words_of [''LDK'', show_int ?p, ask_id cl']) ?v = Inr (?v\<lparr>ask_outbox := x\<rparr>)"
    by (rule send_ok [OF v here(1)])
  let ?u = "?v\<lparr>ask_outbox := x\<rparr>"
  have u: "ask_ok ?u" using v by simp
  have u_room: "room_at d ?u = ?q" using len by simp
  then have team: "room_team_mode (room_at d ?u)" using r by (simp add: room_ok_def)
  have "set_pos_client ?p None ?r = Inr ?q" "ask_info_of c (put_room d ?q w) = Inr i"
    using here r i by (simp_all add: set_pos_client_def room_ok_def ask_info_of_iff)
  then have run: "on_client_leave_room d c ?p w =
      (if room_running (room_at d ?u) then (if team_gone ?p (room_at d ?u) then on_room_game_stop d ?u else Inr ?u)
       else if ?p = room_leader_index (room_at d ?u)
       then choose_leader ?p d (put_room d ((room_at d ?u)\<lparr>room_leader_index := -1\<rparr>) ?u) else Inr ?u)"
    using cl' x team by (simp add: on_client_leave_room_def set_info_put_room Let_def del: room_at_simps(6))
  have su: "stays w ?u" "info_at ?u c = Some (set_room None (-1) i)" using st vc by simp_all
  have result: "\<exists>w'. R = Inr w' \<and> ask_ok w' \<and> stays w w' \<and> info_at w' c = Some (set_room None (-1) i)"
    if R: "\<exists>w'. R = Inr w' \<and> ask_ok w' \<and> stays ?u w' \<and> info_at w' = info_at ?u" for R
  proof -
    obtain w' where "R = Inr w'" "ask_ok w'" "stays ?u w'" "info_at w' = info_at ?u" using R by blast
    then show ?thesis using stays_trans [OF su(1)] su(2) by simp
  qed
  have stop: "\<exists>w'. on_room_game_stop d ?u = Inr w' \<and> ask_ok w' \<and> stays ?u w' \<and> info_at w' = info_at ?u" if "room_running (room_at d ?u)"
    by (rule game_stop_ok [OF u here(1) that])
  have choose: "\<exists>w'. choose_leader ?p d (put_room d ((room_at d ?u)\<lparr>room_leader_index := -1\<rparr>) ?u) = Inr w' \<and> ask_ok w' \<and> stays ?u w' \<and>
      info_at w' = info_at ?u" if "\<not> room_running (room_at d ?u)"
  proof -
    let ?t = "put_room d ((room_at d ?u)\<lparr>room_leader_index := -1\<rparr>) ?u"
    have "ask_ok ?t" using ask_okD(2) [OF u here(1)] that by (intro put_room_ok [OF u here(1)]) (simp_all add: room_ok_def)
    then obtain w' where "choose_leader ?p d ?t = Inr w'" "ask_ok w'" "stays ?t w'" "info_at w' = info_at ?t"
      using choose_leader_ok [OF _ here(1)] by blast
    then show ?thesis by (simp add: stays_def)
  qed
  have still: "\<exists>w'. Inr ?u = Inr w' \<and> ask_ok w' \<and> stays ?u w' \<and> info_at w' = info_at ?u" using u by simp
  show ?thesis
    unfolding run
  proof (rule result)
    show "\<exists>w'. (if room_running (room_at d ?u) then (if team_gone ?p (room_at d ?u) then on_room_game_stop d ?u else Inr ?u)
        else if ?p = room_leader_index (room_at d ?u)
        then choose_leader ?p d (put_room d ((room_at d ?u)\<lparr>room_leader_index := -1\<rparr>) ?u) else Inr ?u) = Inr w' \<and>
        ask_ok w' \<and> stays ?u w' \<and> info_at w' = info_at ?u"
      by (cases "room_running (room_at d ?u)"; cases "team_gone ?p (room_at d ?u)"; cases "?p = room_leader_index (room_at d ?u)";
          simp only: refl if_True if_False stop choose still not_False_eq_True)
  qed
qed

lemma list_places_runs:
  assumes "\<forall>x \<in> set xs. \<forall>e. snd x = Some e \<longrightarrow> ask_clients w e \<noteq> None" "ask_clients w c \<noteq> None"
  shows "\<exists>y. efold (\<lambda>(n, x) w. case x of None \<Rightarrow> Inr w
     | Some other \<Rightarrow> ebind (ask_client_at other w) (\<lambda>ro. ebind (ask_client_at c w) (\<lambda>rc.
         let w = tell c (words_of [''LSD'', show_int (int n), ask_id ro, []]) w in
         Inr (if other \<noteq> c then tell other (words_of [''JDK'', show_int p, ask_id rc, []]) w else w)))) xs (w\<lparr>ask_outbox := z\<rparr>) =
     Inr (w\<lparr>ask_outbox := y\<rparr>)"
  using assms(1)
proof (induction xs arbitrary: z)
  case Nil
  then show ?case by auto
next
  case (Cons a xs)
  obtain n x where a: "a = (n, x)" by (cases a)
  have at: "ask_client_at e (w\<lparr>ask_outbox := z\<rparr>) = ask_client_at e w" for e by (simp add: ask_client_at_def)
  obtain rc where rc: "ask_client_at c w = Inr rc" using assms(2) by (auto simp: ask_client_at_def)
  show ?case
  proof (cases x)
    case (Some e)
    then obtain ro where "ask_client_at e w = Inr ro" using Cons.prems by (auto simp: a ask_client_at_def)
    then show ?thesis using Cons rc by (simp add: a Some at tell_def Let_def)
  qed (use Cons in \<open>simp add: a\<close>)
qed

lemma join_room_ok:
  assumes ok: "ask_ok w" and i: "info_at w c = Some i" "info_room i = None"
    and d: "d < ROOM_COUNT" and p: "0 \<le> p" "p < 8" "room_clients (room_at d w) ! nat p = None"
  shows "\<exists>w'. on_client_join_room d c p w = Inr w' \<and> ask_ok w' \<and> stays w w' \<and> where_is w' c = Some (d, p)"
proof -
  let ?r = "room_at d w"
  have r: "room_ok ?r" using ask_okD(2) [OF ok d] .
  let ?q = "?r\<lparr>room_clients := (room_clients ?r)[nat p := Some c]\<rparr>"
  let ?q' = "if room_leader_index ?q = -1 then ?q\<lparr>room_leader_index := p\<rparr> else ?q"
  let ?j = "set_room (Some d) p i"
  let ?v = "put_room d ?q' (set_ask_info c (Some ?j) w)"
  have nowhere: "where_is w c = None" using i by (simp add: where_is_def)
  have v: "ask_ok ?v"
    using r p i nowhere by (intro move_seat_ok [OF ok d p(1,2) i(1)]) (auto simp: room_ok_def set_room_def split: if_splits)
  have st: "stays w ?v" using i by (simp add: stays_set_info set_room_def)
  obtain cl where cl: "ask_clients w c = Some cl" using info_client [OF i(1)] by blast
  have vc: "info_at ?v c = Some ?j" using cl by (simp add: info_at_set)
  have len: "d < length (ask_rooms w)" using ok d by (simp add: ask_ok_def)
  have vr: "room_clients (room_at d ?v) = room_clients ?q" using len by simp
  have "ask_clients ?v e \<noteq> None" if "Some e \<in> set (room_clients ?q)" for e
    using seated_info [OF v d, unfolded vr, OF that] info_client by blast
  then have "\<forall>x \<in> set (enumerate 0 (room_clients ?q)). \<forall>e. snd x = Some e \<longrightarrow> ask_clients ?v e \<noteq> None"
    by (auto simp: enumerate_eq_zip dest: set_zip_rightD)
  moreover have "ask_clients ?v c \<noteq> None" using info_client [OF vc] by blast
  ultimately obtain y where y: "efold (\<lambda>(n, x) w. case x of None \<Rightarrow> Inr w
     | Some other \<Rightarrow> ebind (ask_client_at other w) (\<lambda>ro. ebind (ask_client_at c w) (\<lambda>rc.
         let w = tell c (words_of [''LSD'', show_int (int n), ask_id ro, []]) w in
         Inr (if other \<noteq> c then tell other (words_of [''JDK'', show_int p, ask_id rc, []]) w else w))))
     (enumerate 0 (room_clients ?q)) ?v = Inr (?v\<lparr>ask_outbox := y\<rparr>)"
    using list_places_runs [of "enumerate 0 (room_clients ?q)" ?v c p "ask_outbox ?v"] by auto
  have same: "room_clients ?q' = room_clients ?q" by simp
  have "ask_info_of c w = Inr i" "set_pos_client p (Some c) ?r = Inr ?q"
    using p r i by (simp_all add: set_pos_client_def room_ok_def ask_info_of_iff)
  then have "on_client_join_room d c p w = Inr (tell c (words_of [''LED'', show_int (room_leader_index ?q'), []]) (?v\<lparr>ask_outbox := y\<rparr>))"
    using y unfolding on_client_join_room_def by (simp only: ebind_simps Let_def room_at_simps same)
  moreover have "where_is (tell c s (?v\<lparr>ask_outbox := y\<rparr>)) c = Some (d, p)" for s
    using vc by (simp add: where_is_def tell_def set_room_def)
  ultimately show ?thesis using v st by auto
qed

section \<open>The search for a room\<close>

definition open_room :: "ask_room \<Rightarrow> bool" where
  "open_room r \<longleftrightarrow> \<not> room_running r \<and> None \<in> set (room_clients r)"

lemma search_room_found:
  assumes "search_room rooms finder start_index k here i = Some (d, p, n)" "here < ROOM_COUNT" "length rooms = ROOM_COUNT"
    "\<forall>r \<in> set rooms. room_ok r"
  shows "d < ROOM_COUNT \<and> \<not> room_running (rooms ! d) \<and> 0 \<le> p \<and> p < 8 \<and> room_clients (rooms ! d) ! nat p = None"
  using assms
proof (induction rooms finder start_index k here i rule: search_room.induct)
  case (1 rooms finder start_index k here i)
  note IH = 1(1-3) and prems = 1(4-)
  have r: "room_ok (rooms ! here)" using prems by simp
  then have seat: "room_clients (rooms ! here) ! 0 \<in> set (room_clients (rooms ! here))" by (simp add: room_ok_def)
  have i: "\<not> i \<ge> ROOM_COUNT" using prems(1) by (subst (asm) search_room.simps) (simp split: if_splits)
  have next_: "(here + 1) mod ROOM_COUNT < ROOM_COUNT" "0 < ROOM_COUNT" by (simp_all add: ROOM_COUNT_def)
  consider (running) "room_running (rooms ! here)" | (null) "\<not> room_running (rooms ! here)" "room_is_null (rooms ! here)"
    | (some) "\<not> room_running (rooms ! here)" "\<not> room_is_null (rooms ! here)" by blast
  then show ?case
  proof cases
    case running
    then show ?thesis using IH(1) [OF i refl running _ next_(1) prems(3,4)] prems(1) i by (subst (asm) search_room.simps) simp
  next
    case null
    show ?thesis
    proof (cases "k \<le> 0 \<or> start_index = 0 \<or> finder = 0")
      case True
      then have "d = here" "p = 0" using prems(1) null i by (subst (asm) search_room.simps, simp)+
      then show ?thesis using null prems(2) seat by (simp add: room_is_null_def)
    next
      case False
      then show ?thesis using IH(2) [OF i refl null False _ next_(2) prems(3,4)] prems(1) i null by (subst (asm) search_room.simps) simp
    qed
  next
    case some
    show ?thesis
    proof (cases "get_free_pos (rooms ! here) = -1")
      case True
      then have "\<not> get_free_pos (rooms ! here) \<noteq> -1" by simp
      then show ?thesis using IH(3) [OF i refl some refl _ _ next_(1) prems(3,4)] prems(1) i some by (subst (asm) search_room.simps) simp
    next
      case False
      then have "d = here" "p = get_free_pos (rooms ! here)" using prems(1) some i by (subst (asm) search_room.simps, simp add: Let_def)+
      then show ?thesis using free_pos_cases [OF r] False some prems(2) by simp
    qed
  qed
qed

lemma seat_in: "xs ! n = x \<Longrightarrow> n < length xs \<Longrightarrow> x \<in> set xs"
  by auto

lemma open_room_iff: "room_ok r \<Longrightarrow> open_room r \<longleftrightarrow> \<not> room_running r \<and> get_free_pos r \<noteq> -1"
  using free_pos_cases [of r] by (auto simp: open_room_def room_ok_def intro: seat_in)

lemma null_open: "room_ok r \<Longrightarrow> room_is_null r \<Longrightarrow> \<not> room_running r \<Longrightarrow> open_room r"
  by (cases "room_clients r") (auto simp: open_room_def room_is_null_def room_ok_def)

lemma search_room_none:
  assumes "search_room rooms finder start_index k here i = None" "here < ROOM_COUNT" "length rooms = ROOM_COUNT"
    "\<forall>r \<in> set rooms. room_ok r" "i + j < ROOM_COUNT"
  shows "\<not> open_room (rooms ! ((here + j) mod ROOM_COUNT))"
  using assms
proof (induction rooms finder start_index k here i arbitrary: j rule: search_room.induct)
  case (1 rooms finder start_index k here i)
  note IH = 1(1-3) and prems = 1(4-)
  have r: "room_ok (rooms ! here)" using prems by simp
  have i: "\<not> i \<ge> ROOM_COUNT" using prems by simp
  have small: "(here + 1) mod ROOM_COUNT < ROOM_COUNT" "0 < ROOM_COUNT" by (simp_all add: ROOM_COUNT_def)
  have further: ?case
    if closed: "\<not> open_room (rooms ! here)"
      and IH': "\<And>j. i + 1 + j < ROOM_COUNT \<Longrightarrow> \<not> open_room (rooms ! (((here + 1) mod ROOM_COUNT + j) mod ROOM_COUNT))"
  proof (cases j)
    case 0
    then show ?thesis using closed prems(2) by simp
  next
    case (Suc n)
    then show ?thesis using IH' [of n] prems(5) by (simp add: mod_add_left_eq)
  qed
  consider (running) "room_running (rooms ! here)" | (null) "\<not> room_running (rooms ! here)" "room_is_null (rooms ! here)"
    | (some) "\<not> room_running (rooms ! here)" "\<not> room_is_null (rooms ! here)" by blast
  then show ?case
  proof cases
    case running
    have "search_room rooms finder start_index k ((here + 1) mod ROOM_COUNT) (i + 1) = None"
      using prems(1) i running by (subst (asm) search_room.simps) simp
    from IH(1) [OF i refl running this small(1) prems(3,4)] show ?thesis
      using further running by (simp add: open_room_def)
  next
    case null
    then have k: "\<not> (k \<le> 0 \<or> start_index = 0 \<or> finder = 0)" using prems(1) i by (subst (asm) search_room.simps) (auto split: if_splits)
    then have "search_room rooms finder start_index (k - 1) 0 0 = None"
      using prems(1) i null by (subst (asm) search_room.simps) simp
    from IH(2) [OF i refl null k this small(2) prems(3,4), of here] show ?thesis
      using null_open [OF r null(2,1)] prems(2) by simp
  next
    case some
    have full: "get_free_pos (rooms ! here) = -1"
      using prems(1) i some by (subst (asm) search_room.simps) (auto simp: Let_def split: if_splits)
    then have none: "search_room rooms finder start_index k ((here + 1) mod ROOM_COUNT) (i + 1) = None"
      using prems(1) i some by (subst (asm) search_room.simps) simp
    have "\<not> get_free_pos (rooms ! here) \<noteq> -1" using full by simp
    from IH(3) [OF i refl some refl this none small(1) prems(3,4)] show ?thesis
      using further full open_room_iff [OF r] by simp
  qed
qed

lemma put_info_ok:
  assumes ok: "ask_ok w" and i: "info_at w c = Some i" and j: "info_room j = info_room i" "info_pos j = info_pos i"
  shows "ask_ok (set_ask_info c (Some j) w)"
proof -
  have "info_at (set_ask_info c (Some j) w) e \<noteq> None" if "info_at w e \<noteq> None" for e
    using that info_client [OF i] by (auto simp: info_at_set)
  moreover have "where_is (set_ask_info c (Some j) w) = where_is w"
    using i j where_is_set [of w c j] by (auto simp: fun_eq_iff where_is_def)
  moreover have "tasks_ok (set_ask_info c (Some j) w) = tasks_ok w" "zone_ok (set_ask_info c (Some j) w) = zone_ok w"
    by (simp_all add: tasks_ok_def zone_ok_def)
  ultimately show ?thesis using ok by (simp add: ask_ok_def seats_agree_def)
qed

lemma find_room_ok:
  assumes ok: "ask_ok w" and i: "info_at w c = Some i" "info_room i = None"
  shows "\<exists>w'. find_room c i w = Inr w' \<and> ask_ok w' \<and> stays w w' \<and>
    (if \<exists>d < ROOM_COUNT. open_room (room_at d w)
     then \<exists>d p. where_is w' c = Some (d, p) \<and> open_room (room_at d w) \<and> room_clients (room_at d w) ! nat p = None
     else w' = w)"
proof -
  let ?s = "if room_finder_index i > 0 then (room_finder_index i + 1) mod ROOM_COUNT else room_finder_index i"
  let ?found = "search_room (ask_rooms w) (room_finder_index i) ?s 1 ?s 0"
  have rooms: "?s < ROOM_COUNT" "length (ask_rooms w) = ROOM_COUNT" "\<forall>r \<in> set (ask_rooms w). room_ok r"
    using ok by (simp_all add: ROOM_COUNT_def ask_ok_def)
  show ?thesis
  proof (cases ?found)
    case None
    have "\<not> open_room (room_at d w)" if "d < ROOM_COUNT" for d
    proof -
      let ?j = "(d + ROOM_COUNT - ?s) mod ROOM_COUNT"
      have "(?s + ?j) mod ROOM_COUNT = (?s + (d + ROOM_COUNT - ?s)) mod ROOM_COUNT" by (rule mod_add_right_eq)
      also have "\<dots> = d" using rooms(1) that by simp
      finally show ?thesis
        using search_room_none [OF None rooms, of ?j] rooms(1) by (simp add: room_at_def)
    qed
    then show ?thesis using None ok by (auto simp: find_room_def)
  next
    case (Some x)
    obtain d p n where x: "x = (d, p, n)" by (cases x)
    let ?i = "i\<lparr>room_finder_index := n\<rparr>"
    let ?w = "set_ask_info c (Some ?i) w"
    note at = search_room_found [OF Some [unfolded x] rooms]
    have info: "info_at ?w c = Some ?i" using info_client [OF i(1)] by (auto simp: info_at_set)
    have st: "stays w ?w" by (rule stays_set_info [OF i(1)]) simp
    have w: "ask_ok ?w" by (rule put_info_ok [OF ok i(1)]) simp_all
    have seat: "d < ROOM_COUNT" "0 \<le> p" "p < 8" "room_clients (room_at d ?w) ! nat p = None" using at by (simp_all add: room_at_def)
    obtain w' where w': "on_client_join_room d c p ?w = Inr w'" "ask_ok w'" "stays ?w w'" "where_is w' c = Some (d, p)"
      using join_room_ok [OF w info _ seat] i(2) by auto
    have "length (room_clients (room_at d w)) = 8" using ask_okD(2) [OF ok seat(1)] by (simp add: room_ok_def)
    then have "open_room (room_at d w)"
      using at seat nth_mem [of "nat p" "room_clients (room_at d w)"] by (auto simp: open_room_def room_at_def)
    then show ?thesis
      using w' Some seat stays_trans [OF st w'(3)] by (auto simp: find_room_def x)
  qed
qed

lemma enter_room_ok:
  assumes ok: "ask_ok w" and i: "info_at w c = Some i" "info_room i = None"
  shows "ends_well w (enter_room c params w)"
proof -
  have run: "ask_info_of c w = Inr i" using i by (simp add: ask_info_of_iff)
  consider (search) "length params = 0" | (number) "length params = 1" | (many) "length params \<noteq> 0" "length params \<noteq> 1" by blast
  then show ?thesis
  proof cases
    case search
    then show ?thesis using find_room_ok [OF ok i] run by (auto simp: enter_room_def)
  next
    case many
    then show ?thesis using ok run by (simp add: enter_room_def)
  next
    case number
    let ?d = "nat (atoi (params ! 0))"
    have "ends_well w (on_client_join_room ?d c (get_free_pos (room_at ?d w)) w)"
      if "\<not> (atoi (params ! 0) < 0 \<or> atoi (params ! 0) \<ge> int ROOM_CAPACITY)" "get_free_pos (room_at ?d w) \<noteq> -1"
    proof -
      have d: "?d < ROOM_COUNT" using that(1) by (auto simp: nat_less_iff ROOM_COUNT_def ROOM_CAPACITY_def)
      have "0 \<le> get_free_pos (room_at ?d w)" "get_free_pos (room_at ?d w) < 8"
        "room_clients (room_at ?d w) ! nat (get_free_pos (room_at ?d w)) = None"
        using free_pos_cases [OF ask_okD(2) [OF ok d]] that(2) by auto
      from join_room_ok [OF ok i d this] show ?thesis by auto
    qed
    then show ?thesis using number ok run by (simp add: enter_room_def Let_def)
  qed
qed

lemma join_handle_ok:
  assumes ok: "ask_ok w" and i: "info_at w c = Some i"
  shows "ends_well w (client_join_room_handle c params w)"
proof (cases "info_room i")
  case None
  then show ?thesis using enter_room_ok [OF ok i] i by (simp add: client_join_room_handle_def ask_info_of_iff [THEN iffD2])
next
  case (Some d)
  note here = index_of_seated [OF ok i Some]
  obtain w' where w': "on_client_leave_room d c (info_pos i) w = Inr w'" "ask_ok w'" "stays w w'" "info_at w' c = Some (set_room None (-1) i)"
    using leave_room_ok [OF ok i Some] by blast
  have "ends_well w (enter_room c params w')"
    by (rule ends_well_from [OF w'(3) enter_room_ok [OF w'(2,4)]]) (simp add: set_room_def)
  then show ?thesis
    using Some here w'(1) i by (simp add: client_join_room_handle_def ask_info_of_iff [THEN iffD2])
qed

end
