(* ===== verification/AskRuns.thy ===== *)
theory AskRuns
  imports AskSteps
begin

text \<open>The rest of the handlers and the tasks of the question game, and its runs.\<close>

section \<open>Drawing questions\<close>

lemma get_loop_cases:
  assumes "qs \<noteq> []"
  shows "get_loop qs n found draws out = Inl Out_of_steps \<or>
    (\<exists>qs' ds. get_loop qs n found draws out = Inr (qs', ds) \<and> set qs' \<subseteq> set out \<union> set qs)"
  using assms
proof (induction qs n found draws out rule: get_loop.induct)
  case (3 qs n found r draws out)
  let ?i = "r mod length qs"
  have q: "qs ! ?i \<in> set qs" using 3(3) by simp
  show ?case
  proof (cases "?i \<in> found")
    case True
    then show ?thesis using 3(2) [OF refl _ 3(3)] by simp
  next
    case False
    have "set (out @ [qs ! ?i]) \<union> set qs = set out \<union> set qs" using q by auto
    then show ?thesis using 3(1) [OF refl False 3(3)] False by (simp add: Let_def)
  qed
qed auto

text \<open>The loop ends exactly when the random numbers hit enough different questions.\<close>

lemma get_loop_iff:
  "(\<exists>r. get_loop qs n found draws out = Inr r) \<longleftrightarrow> n \<le> card ((\<lambda>r. r mod length qs) ` set draws - found)"
proof (induction qs n found draws out rule: get_loop.induct)
  case (3 qs n found r draws out)
  let ?i = "r mod length qs" and ?I = "(\<lambda>r. r mod length qs) ` set draws"
  show ?case
  proof (cases "?i \<in> found")
    case True
    then have "insert ?i ?I - found = ?I - found" by blast
    then show ?thesis using 3(2) [OF refl] True by (simp add: Let_def)
  next
    case False
    have "insert ?i ?I - found = insert ?i (?I - insert ?i found)" using False by blast
    then have "card (insert ?i ?I - found) = Suc (card (?I - insert ?i found))" by simp
    then show ?thesis using 3(1) [OF refl False] False by (simp add: Let_def)
  qed
qed simp_all

text \<open>The random numbers at hand do not hit twenty different questions of the zone.\<close>

definition draws_short :: "ask_plugin \<Rightarrow> bool" where
  "draws_short w \<longleftrightarrow> (\<exists>qs. ask_zone w = Some qs \<and> qs \<noteq> [] \<and> card ((\<lambda>r. r mod length qs) ` set (ask_draws w)) < 20)"

lemma running_zone: "ask_ok w \<Longrightarrow> d < ROOM_COUNT \<Longrightarrow> room_running (room_at d w) \<Longrightarrow> ask_zone w \<noteq> None"
  by (auto simp: ask_ok_def zone_ok_def room_at_def)

lemma fill_ok:
  assumes ok: "ask_ok w" and d: "d < ROOM_COUNT" and z: "ask_zone w \<noteq> None"
  shows "fill_questions 20 d w = Inl Out_of_steps \<and> draws_short w \<or> (\<exists>qs ds. None \<notin> set qs \<and>
    fill_questions 20 d w = Inr (put_room d ((room_at d w)\<lparr>room_questions := qs\<rparr>) (w\<lparr>ask_draws := ds\<rparr>)))"
proof -
  obtain zs where zs: "ask_zone w = Some zs" "None \<notin> set zs" using z ok by (auto simp: ask_ok_def zone_ok_def)
  have "None \<notin> set (room_questions (room_at d w))" using ask_okD(2) [OF ok d] by (simp add: room_ok_def)
  note old = this
  show ?thesis
  proof (cases "zs = []")
    case True
    then show ?thesis using zs old
      by (intro disjI2 exI [of _ "room_questions (room_at d w)"] exI [of _ "ask_draws w"])
        (simp add: fill_questions_def collection_get_def)
  next
    case False
    then consider "get_loop zs 20 {} (ask_draws w) (room_questions (room_at d w)) = Inl Out_of_steps"
      | qs ds where "get_loop zs 20 {} (ask_draws w) (room_questions (room_at d w)) = Inr (qs, ds)"
          "set qs \<subseteq> set (room_questions (room_at d w)) \<union> set zs"
      using get_loop_cases by blast
    then show ?thesis
    proof cases
      case 1
      then have "\<not> 20 \<le> card ((\<lambda>r. r mod length zs) ` set (ask_draws w) - {})"
        using get_loop_iff [of zs 20 "{}" "ask_draws w" "room_questions (room_at d w)"] by simp
      then have "draws_short w" using zs(1) False by (auto simp: draws_short_def)
      then show ?thesis using 1 False zs by (simp add: fill_questions_def collection_get_def)
    next
      case 2
      then have "None \<notin> set qs" using zs old by blast
      then show ?thesis using 2 False zs
        by (intro disjI2 exI [of _ qs] exI [of _ ds]) (simp add: fill_questions_def collection_get_def)
    qed
  qed
qed

section \<open>Getting ready\<close>

lemma count_teams_runs:
  assumes "\<forall>c. Some c \<in> set xs \<longrightarrow> info_at w c \<noteq> None"
  shows "\<exists>found. count_teams leader i xs w red blue = Inr found"
  using assms
proof (induction xs arbitrary: i red blue)
  case (Cons x xs)
  show ?case
  proof (cases x)
    case (Some c)
    then obtain info where "ask_info_of c w = Inr info" using Cons.prems ask_info_of_iff by fastforce
    then show ?thesis using Cons Some by simp
  qed (use Cons in simp)
qed simp

lemma ask_queue_ok:
  assumes "ask_ok w" "(case t of Room_start d code \<Rightarrow> d | Room_question d code \<Rightarrow> d) < ROOM_COUNT"
  shows "ask_ok (w\<lparr>ask_tasks := ask_tasks w @ [(t, delay)]\<rparr>)"
proof -
  let ?w = "w\<lparr>ask_tasks := ask_tasks w @ [(t, delay)]\<rparr>"
  have "where_is ?w = where_is w" by (rule where_is_cong) simp
  then show ?thesis using assms by (auto simp: ask_ok_def seats_agree_def zone_ok_def tasks_ok_def)
qed

lemma zone_queue_runs:
  assumes "ask_ok w" "ask_zone w \<noteq> None" "(case t of Room_start d code \<Rightarrow> d | Room_question d code \<Rightarrow> d) < ROOM_COUNT"
  shows "ends_well w (zone_queue_task t delay w)"
  using assms ask_queue_ok [OF assms(1,3)] by (auto simp: zone_queue_task_def stays_def)

lemma send_well:
  assumes "ask_ok w" "d < ROOM_COUNT"
  shows "ends_well w (send_to_room d s w)"
  by (rule send_ok [OF assms, of s]) (use assms(1) in simp)

lemma begin_game_ok:
  assumes ok: "ask_ok w" and z: "ask_zone w \<noteq> None" and i: "info_at w c = Some i" and d: "d < ROOM_COUNT"
    and leader: "0 \<le> room_leader_index (room_at d w)" "room_leader_index (room_at d w) < 8"
  shows "ends_well w (begin_game d c p w)"
proof -
  let ?w1 = "set_ask_info c (Some (i\<lparr>info_ready := True\<rparr>)) w"
  let ?r = "(room_reset (ask_clock ?w1) (room_at d ?w1))\<lparr>room_running := True\<rparr>"
  let ?r2 = "?r\<lparr>verify_code := verify_code ?r + 1\<rparr>"
  let ?w2 = "put_room d ?r2 ?w1"
  have w1: "ask_ok ?w1" by (rule put_info_ok [OF ok i]) simp_all
  have st: "stays w ?w2" using stays_set_info [OF i] by simp
  have w2: "ask_ok ?w2"
    using ask_okD(2) [OF ok d] leader z by (intro put_room_ok [OF w1 d]) (auto simp: room_ok_def room_reset_def)
  obtain cl where cl: "ask_client_at c w = Inr cl" using info_client [OF i] by blast
  have "ends_well ?w2 (ebind (zone_queue_task (Room_start d (verify_code ?r2)) 500 ?w2)
      (send_to_room d (words_of [''RDY'', show_int p, ask_id cl])))"
  proof (rule ends_well_bind)
    show "ends_well ?w2 (zone_queue_task (Room_start d (verify_code ?r2)) 500 ?w2)"
      using z d by (intro zone_queue_runs [OF w2]) simp_all
  qed (rule send_well [OF _ d])
  then have "ends_well w (ebind (zone_queue_task (Room_start d (verify_code ?r2)) 500 ?w2)
      (send_to_room d (words_of [''RDY'', show_int p, ask_id cl])))" by (rule ends_well_from [OF st])
  then show ?thesis using cl i by (simp add: begin_game_def Let_def ask_info_of_iff [THEN iffD2])
qed

lemma leader_ready_ok:
  assumes ok: "ask_ok w" and i: "info_at w c = Some i" and d: "d < ROOM_COUNT"
    and leader: "0 \<le> room_leader_index (room_at d w)" "room_leader_index (room_at d w) < 8" and idle: "\<not> room_running (room_at d w)"
  shows "ends_well w (leader_ready d c p w) \<or> leader_ready d c p w = Inl Out_of_steps \<and> draws_short w"
proof -
  obtain found where found: "count_teams (room_leader_index (room_at d w)) 0 (room_clients (room_at d w)) w 0 0 = Inr found"
    using count_teams_runs [of "room_clients (room_at d w)" w] seated_info [OF ok d] by blast
  let ?game = "ebind (fill_questions 20 d w) (\<lambda>w.
       if length (room_questions (room_at d w)) < 20 then Inr (tell c ''RDY -4'' w) else begin_game d c p w)"
  have game: "ends_well w ?game \<or> ?game = Inl Out_of_steps \<and> draws_short w"
    if z: "ask_zone w \<noteq> None"
    using fill_ok [OF ok d z]
  proof (elim disjE exE conjE)
    assume "fill_questions 20 d w = Inl Out_of_steps" "draws_short w"
    then show ?thesis by simp
  next
    fix qs ds
    let ?v = "put_room d ((room_at d w)\<lparr>room_questions := qs\<rparr>) (w\<lparr>ask_draws := ds\<rparr>)"
    assume qs: "None \<notin> set qs" "fill_questions 20 d w = Inr ?v"
    have len: "d < length (ask_rooms w)" using ok d by (simp add: ask_ok_def)
    have v: "ask_ok ?v"
      using ask_okD(2) [OF ok d] qs(1) idle ok by (intro put_room_ok [OF _ d]) (simp_all add: room_ok_def)
    have st: "stays w ?v" by (simp add: stays_def)
    have "ends_well ?v (begin_game d c p ?v)"
      using z i leader len by (intro begin_game_ok [OF v _ _ d]) simp_all
    then have "ends_well w (begin_game d c p ?v)" by (rule ends_well_from [OF st])
    then show ?thesis using qs(2) v st by simp
  qed
  show ?thesis using found game ok by (auto simp: leader_ready_def split: option.split)
qed

text \<open>The client that leads the room it sits in.\<close>

definition leads :: "cid \<Rightarrow> ask_plugin \<Rightarrow> bool" where
  "leads c w \<longleftrightarrow> (\<exists>i d. info_at w c = Some i \<and> info_room i = Some d \<and> info_pos i = room_leader_index (room_at d w))"

lemma ready_handle_ok:
  assumes ok: "ask_ok w" and i: "info_at w c = Some i"
  shows "ends_well w (ask_ready_handle c params w) \<or>
    ask_ready_handle c params w = Inl Out_of_steps \<and> leads c w \<and> draws_short w"
proof -
  obtain cl where cl: "ask_client_at c w = Inr cl" "ask_info cl = Some i" using info_client [OF i] by blast
  let ?v = "set_ask_info c (Some (i\<lparr>info_ready := True\<rparr>)) w"
  have v: "ask_ok ?v" by (rule put_info_ok [OF ok i]) simp_all
  have st: "stays w ?v" by (rule stays_set_info [OF i]) simp
  show ?thesis
  proof (cases "info_room i")
    case None
    then show ?thesis using cl ok by (simp add: ask_ready_handle_def)
  next
    case (Some d)
    note here = index_of_seated [OF ok i Some]
    have "ends_well w (send_to_room d s ?v)" for s by (rule ends_well_from [OF st send_well [OF v here(1)]])
    moreover have "ends_well w (leader_ready d c (info_pos i) w) \<or>
        leader_ready d c (info_pos i) w = Inl Out_of_steps \<and> leads c w \<and> draws_short w"
      if "info_pos i = room_leader_index (room_at d w)" "\<not> room_running (room_at d w)"
      using leader_ready_ok [OF ok i here(1), of "info_pos i"] that here i Some by (auto simp: leads_def)
    ultimately show ?thesis using cl ok Some here by (simp add: ask_ready_handle_def Let_def)
  qed
qed

section \<open>Questions and answers\<close>

lemma room_active_sel [simp]:
  "room_clients (room_active now r) = room_clients r" "room_running (room_active now r) = room_running r"
  "room_questions (room_active now r) = room_questions r" "question_index (room_active now r) = question_index r"
  "curr_pos_index (room_active now r) = curr_pos_index r" "verify_code (room_active now r) = verify_code r"
  "room_leader_index (room_active now r) = room_leader_index r" "room_team_mode (room_active now r) = room_team_mode r"
  by (simp_all add: room_active_def)

lemma put_running_ok:
  assumes ok: "ask_ok w" and d: "d < ROOM_COUNT" and run: "room_running (room_at d w)"
    and r: "room_ok r" "room_clients r = room_clients (room_at d w)"
  shows "ask_ok (put_room d r w)"
  by (rule put_room_ok [OF ok d r]) (use run in simp)

lemma game_start_ok:
  assumes ok: "ask_ok w" and d: "d < ROOM_COUNT"
  shows "ends_well w (on_room_game_start d code w)"
proof (cases "room_running (room_at d w) \<and> verify_code (room_at d w) = code \<and> length (room_questions (room_at d w)) \<noteq> 0")
  case False
  then show ?thesis using ok by (auto simp: on_room_game_start_def Let_def)
next
  case True
  let ?r = "room_active (ask_clock w) ((room_at d w)\<lparr>curr_pos_index := -1\<rparr>)"
  let ?v = "put_room d ?r w"
  have len: "d < length (ask_rooms w)" using ok d by (simp add: ask_ok_def)
  have v: "ask_ok ?v"
    using ask_okD(2) [OF ok d] True by (intro put_running_ok [OF ok d]) (simp_all add: room_ok_def room_active_def)
  obtain x where x: "send_to_room d ''STT 0'' ?v = Inr (?v\<lparr>ask_outbox := x\<rparr>)" by (rule send_ok [OF v d])
  let ?u = "?v\<lparr>ask_outbox := x\<rparr>"
  let ?r2 = "(room_at d ?u)\<lparr>verify_code := verify_code (room_at d ?u) + 1\<rparr>"
  have u: "ask_ok ?u" using v by simp
  have t: "ask_ok (put_room d ?r2 ?u)"
    using ask_okD(2) [OF u d] True len by (intro put_running_ok [OF u d]) (simp_all add: room_ok_def room_active_def)
  have "ask_zone (put_room d ?r2 ?u) \<noteq> None" using running_zone [OF ok d] True by simp
  then have "ends_well (put_room d ?r2 ?u) (zone_queue_task (Room_question d (verify_code ?r2)) 2000 (put_room d ?r2 ?u))"
    using d by (intro zone_queue_runs [OF t]) simp_all
  then have "ends_well w (zone_queue_task (Room_question d (verify_code ?r2)) 2000 (put_room d ?r2 ?u))"
    by (rule ends_well_from [rotated]) (simp add: stays_def)
  then show ?thesis using True x by (simp add: on_room_game_start_def Let_def del: room_at_simps)
qed

lemma send_question_ok:
  assumes ok: "ask_ok w" and d: "d < ROOM_COUNT"
    and q: "0 \<le> question_index (room_at d w)" "question_index (room_at d w) < int (length (room_questions (room_at d w)))"
  shows "\<exists>x. send_question d w = Inr (w\<lparr>ask_outbox := x\<rparr>)"
proof -
  let ?r = "room_at d w"
  have "room_questions ?r ! nat (question_index ?r) \<in> set (room_questions ?r)" using q by simp
  then have "room_questions ?r ! nat (question_index ?r) \<noteq> None"
    using ask_okD(2) [OF ok d] unfolding room_ok_def by metis
  then obtain q' where "room_questions ?r ! nat (question_index ?r) = Some q'" by blast
  then have "question_at (question_index ?r) ?r = Inr q'" using q by (simp add: question_at_def)
  then show ?thesis using send_runs [OF ok d] by (simp add: send_question_def Let_def)
qed

lemma game_question_ok:
  assumes ok: "ask_ok w" and d: "d < ROOM_COUNT"
  shows "ends_well w (on_room_game_question d code w)"
proof (cases "room_running (room_at d w) \<and> verify_code (room_at d w) = code")
  case False
  then show ?thesis using ok by (auto simp: on_room_game_question_def Let_def)
next
  case True
  let ?n = "question_index (room_at d w) + 1"
  let ?r = "(room_active (ask_clock w) (room_at d w))\<lparr>curr_pos_index := 0, question_index := ?n\<rparr>"
  let ?v = "put_room d ?r w"
  have len: "d < length (ask_rooms w)" using ok d by (simp add: ask_ok_def)
  have v: "ask_ok ?v"
    using ask_okD(2) [OF ok d] True by (intro put_running_ok [OF ok d]) (simp_all add: room_ok_def room_active_def)
  have "ends_well w (send_question d ?v)" if "0 \<le> ?n" "?n < int (length (room_questions (room_at d w)))"
  proof -
    have "\<exists>x. send_question d ?v = Inr (?v\<lparr>ask_outbox := x\<rparr>)"
      by (rule send_question_ok [OF v d]) (use that len in simp_all)
    then obtain x where "send_question d ?v = Inr (?v\<lparr>ask_outbox := x\<rparr>)" by blast
    then show ?thesis using v by simp
  qed
  then show ?thesis using True v
    by (simp add: on_room_game_question_def move_question_index_def Let_def)
qed

lemma next_question_ok:
  assumes ok: "ask_ok w" and d: "d < ROOM_COUNT" and run: "room_running (room_at d w)"
    and q: "0 \<le> question_index (room_at d w)" "question_index (room_at d w) + 1 < int (length (room_questions (room_at d w)))"
  shows "\<exists>x. next_question d w = Inr (put_room d (room_active (ask_clock w) ((room_at d w)\<lparr>question_index := question_index (room_at d w) + 1,
    curr_pos_index := (curr_pos_index (room_at d w) + 1) mod 2\<rparr>)) (w\<lparr>ask_outbox := x\<rparr>))"
proof -
  let ?r = "(room_at d w)\<lparr>question_index := question_index (room_at d w) + 1, curr_pos_index := (curr_pos_index (room_at d w) + 1) mod 2\<rparr>"
  let ?v = "put_room d ?r w"
  have len: "d < length (ask_rooms w)" using ok d by (simp add: ask_ok_def)
  have team: "room_team_mode (room_at d w)" using ask_okD(2) [OF ok d] by (simp add: room_ok_def)
  have "-1 \<le> (curr_pos_index (room_at d w) + 1) mod 2" using pos_mod_sign [of 2 "curr_pos_index (room_at d w) + 1"] by linarith
  then have v: "ask_ok ?v"
    using ask_okD(2) [OF ok d] run q by (intro put_running_ok [OF ok d]) (simp_all add: room_ok_def)
  obtain x where "send_question d ?v = Inr (?v\<lparr>ask_outbox := x\<rparr>)" using send_question_ok [OF v d] q len by auto
  then have "next_question d w = Inr (put_room d (room_active (ask_clock (?v\<lparr>ask_outbox := x\<rparr>)) (room_at d (?v\<lparr>ask_outbox := x\<rparr>)))
      (?v\<lparr>ask_outbox := x\<rparr>))"
    using team by (simp add: next_question_def move_question_index_def room_move_next_def Let_def del: room_at_simps)
  also have "put_room d (room_active (ask_clock (?v\<lparr>ask_outbox := x\<rparr>)) (room_at d (?v\<lparr>ask_outbox := x\<rparr>))) (?v\<lparr>ask_outbox := x\<rparr>) =
      put_room d (room_active (ask_clock w) ?r) (w\<lparr>ask_outbox := x\<rparr>)"
    using len by (simp add: put_room_def room_at_def)
  finally show ?thesis by blast
qed

lemma choose_leader_running:
  assumes "ask_ok w" "d < ROOM_COUNT" "choose_leader p d w = Inr w'"
  shows "room_running (room_at d w') = room_running (room_at d w)"
proof -
  have len: "d < length (ask_rooms w)" using assms(1,2) by (simp add: ask_ok_def)
  obtain found where f: "next_leader (map (\<lambda>n. p + 1 + int n) [0..<ROOM_CAPACITY - 1]) (room_at d w) = Inr found"
    using assms(3) by (auto simp: choose_leader_def ebind_eq_Inr)
  show ?thesis
  proof (cases found)
    case (Some q)
    let ?v = "put_room d ((room_at d w)\<lparr>room_leader_index := q\<rparr>) w"
    have "send_to_room d (words_of [''LED'', show_int q, []]) ?v = Inr w'" using assms(3) f Some by (simp add: choose_leader_def)
    then have "ask_rooms w' = ask_rooms ?v"
      unfolding send_to_room_def
      by (rule efold_invariant [where I = "\<lambda>u. ask_rooms u = ask_rooms ?v", rotated 2])
        (auto simp: ebind_eq_Inr tell_def split: option.splits if_splits)
    then show ?thesis using len by (simp add: room_at_def)
  qed (use assms(3) f in \<open>simp add: choose_leader_def\<close>)
qed

lemma game_stop_stops:
  assumes ok: "ask_ok w" and d: "d < ROOM_COUNT" and stop: "on_room_game_stop d w = Inr w'"
  shows "\<not> room_running (room_at d w')"
proof -
  let ?v = "put_room d ((room_at d w)\<lparr>room_running := False\<rparr>) w"
  have len: "d < length (ask_rooms w)" using ok d by (simp add: ask_ok_def)
  have v: "ask_ok ?v" using ask_okD(2) [OF ok d] by (intro put_room_ok [OF ok d]) (simp_all add: room_ok_def)
  obtain p gone where "(if gone then choose_leader p d ?v else Inr ?v) = Inr w'"
    using stop unfolding on_room_game_stop_def Let_def ebind_eq_Inr by blast
  then show ?thesis using choose_leader_running [OF v d] len by (cases gone) auto
qed

lemma take_answer_ok:
  assumes ok: "ask_ok w" and d: "d < ROOM_COUNT" and run: "room_running (room_at d w)" and i: "info_at w c = Some i"
    and n: "0 \<le> n" "n = question_index (room_at d w)"
  shows "\<exists>w'. take_answer d c p n k w = Inr w' \<and> ask_ok w' \<and> stays w w' \<and>
    (if n + 1 < int (length (room_questions (room_at d w)))
     then room_running (room_at d w') \<and> question_index (room_at d w') = n + 1 \<and>
       curr_pos_index (room_at d w') = (curr_pos_index (room_at d w) + 1) mod 2
     else if n + 1 = int (length (room_questions (room_at d w))) then \<not> room_running (room_at d w') else w' = w)"
proof (cases "n < int (length (room_questions (room_at d w)))")
  case False
  then show ?thesis using ok by (simp add: take_answer_def Let_def)
next
  case True
  let ?r = "room_at d w"
  have len: "d < length (ask_rooms w)" using ok d by (simp add: ask_ok_def)
  have "room_questions ?r ! nat n \<in> set (room_questions ?r)" using n True by simp
  then have "room_questions ?r ! nat n \<noteq> None" using ask_okD(2) [OF ok d] unfolding room_ok_def by metis
  then obtain q where "question_at n ?r = Inr q" using n True by (auto simp: question_at_def)
  moreover obtain cl where "ask_client_at c w = Inr cl" using info_client [OF i] by blast
  moreover obtain x where "send_to_room d (words_of [''ASR'', show_int p, ask_id cl, show_int n, flag (key_index q = k)]) w =
      Inr (w\<lparr>ask_outbox := x\<rparr>)" by (rule send_ok [OF ok d])
  ultimately have answer: "take_answer d c p n k w = (if n < int (length (room_questions ?r)) - 1
      then next_question d (w\<lparr>ask_outbox := x\<rparr>) else on_room_game_stop d (w\<lparr>ask_outbox := x\<rparr>))"
    using True by (simp add: take_answer_def Let_def)
  let ?v = "w\<lparr>ask_outbox := x\<rparr>"
  have v: "ask_ok ?v" "room_running (room_at d ?v)" using ok run by simp_all
  show ?thesis
  proof (cases "n + 1 < int (length (room_questions ?r))")
    case more: True
    let ?r' = "room_active (ask_clock ?v) (?r\<lparr>question_index := question_index ?r + 1, curr_pos_index := (curr_pos_index ?r + 1) mod 2\<rparr>)"
    obtain y where y: "next_question d ?v = Inr (put_room d ?r' (?v\<lparr>ask_outbox := y\<rparr>))"
      using next_question_ok [OF v(1) d v(2)] n more by auto
    have "-1 \<le> (curr_pos_index ?r + 1) mod 2" using pos_mod_sign [of 2 "curr_pos_index ?r + 1"] by linarith
    then have "ask_ok (put_room d ?r' (?v\<lparr>ask_outbox := y\<rparr>))"
      using ask_okD(2) [OF ok d] run n ok by (intro put_running_ok [OF _ d]) (simp_all add: room_ok_def)
    then show ?thesis using answer y more n len run by (simp add: stays_def)
  next
    case last: False
    obtain w' where w': "on_room_game_stop d ?v = Inr w'" "ask_ok w'" "stays ?v w'"
      using game_stop_ok [OF v(1) d v(2)] by blast
    have "stays w w'" using w'(3) by (simp add: stays_def)
    then show ?thesis using answer w' game_stop_stops [OF v(1) d w'(1)] last True by simp
  qed
qed

lemma answer_handler_ok:
  assumes ok: "ask_ok w" and i: "info_at w c = Some i"
  shows "ends_well w (client_answer_handler c params w)"
proof -
  obtain cl where cl: "ask_client_at c w = Inr cl" "ask_info cl = Some i" using info_client [OF i] by blast
  show ?thesis
  proof (cases "info_room i")
    case None
    then show ?thesis using cl ok by (simp add: client_answer_handler_def Let_def)
  next
    case (Some d)
    note here = index_of_seated [OF ok i Some]
    have "ends_well w (take_answer d c (info_pos i) (question_index (room_at d w)) k w)"
      if "room_running (room_at d w)" "0 \<le> question_index (room_at d w)" for k
      using take_answer_ok [OF ok here(1) that(1) i that(2) refl, where p = "info_pos i" and k = k] by (auto simp: ends_well_def)
    then show ?thesis using cl ok Some here by (auto simp: client_answer_handler_def Let_def)
  qed
qed

section \<open>Runs\<close>

lemma tasks_ok_fewer:
  assumes "tasks_ok w" "set (ask_tasks w') \<subseteq> set (ask_tasks w)" "length (ask_rooms w') = length (ask_rooms w)"
  shows "tasks_ok w'"
  unfolding tasks_ok_def assms(3) using assms(1,2) unfolding tasks_ok_def by blast

lemma join_ok:
  assumes ok: "ask_ok w" and new: "ask_clients w c = None"
  shows "ends_well w (ask_join base_join c ident w)"
proof -
  let ?w = "w\<lparr>ask_clients := (ask_clients w)(c \<mapsto> \<lparr>ask_id = ident, ask_available = True, ask_info = None\<rparr>)\<rparr>"
  have none: "info_at ?w e = info_at w e" for e using new by (simp add: info_at_def)
  then have same: "info_at ?w = info_at w" by blast
  have w: "ask_ok ?w" using ok ask_ok_cong [OF _ same] by simp
  have st: "stays w ?w" using same by (simp add: stays_def)
  show ?thesis
  proof (cases "ask_befor_client_join base_join c ?w = 0")
    case False
    then show ?thesis using w st by (simp add: ask_join_def Let_def)
  next
    case True
    let ?v = "set_ask_info c (Some new_ask_game_info) (?w\<lparr>ask_members := ask_members w @ [c]\<rparr>)"
    have at: "info_at ?v e = (if e = c then Some new_ask_game_info else info_at w e)" for e
      using none by (simp add: info_at_set)
    have "info_at w c = None" using new by (simp add: info_at_def)
    then have "where_is ?v e = where_is w e" for e
      by (simp only: where_is_def at) (simp add: new_ask_game_info_def)
    then have "where_is ?v = where_is w" by blast
    moreover have "info_at ?v e \<noteq> None" if "e \<in> set (ask_members ?v)" for e
      using ok that at by (auto simp: ask_ok_def)
    moreover have "tasks_ok ?v" by (rule tasks_ok_fewer [of w]) (use ok in \<open>simp_all add: ask_ok_def\<close>)
    ultimately have "ask_ok ?v" using ok
      by (simp add: ask_ok_def seats_agree_def zone_ok_def room_at_def)
    moreover have "stays w ?v" using \<open>info_at w c = None\<close> by (auto simp: stays_def at)
    ultimately show ?thesis using True by (simp add: ask_join_def Let_def ask_on_client_join_def ask_client_at_def)
  qed
qed

lemma command_ok:
  assumes ok: "ask_ok w" and c: "c \<in> set (ask_members w)"
  shows "ends_well w (ask_command name c params w) \<or>
    ask_command name c params w = Inl Out_of_steps \<and> name = ''RDY'' \<and> leads c w \<and> draws_short w"
proof -
  obtain i where i: "info_at w c = Some i" using ask_okD(4) [OF ok c] by blast
  have "map_of ask_handler_table name = (if name = ''IDK'' then Some client_join_room_handle
      else if name = ''RDY'' then Some ask_ready_handle else if name = ''ASR'' then Some client_answer_handler else None)"
    by (simp add: ask_handler_table_def regist_handle_def)
  then show ?thesis
    using join_handle_ok [OF ok i, of params] ready_handle_ok [OF ok i, of params] answer_handler_ok [OF ok i, of params] ok
    by (simp add: ask_command_def)
qed

lemma update_same: "ask_on_update w = Inr w"
proof -
  have "efold (\<lambda>d w. let r = room_at d w in
     if room_running r \<and> curr_pos_index r \<ge> 0 then
       (if elapsed (ask_clock w) (last_active_time r) > QUESTION_RESP_MILLITIMES then Inr w else Inr w)
     else Inr w) ds w = Inr w" for ds
    by (induction ds) (simp_all add: Let_def)
  then show ?thesis by (simp add: ask_on_update_def)
qed

lemma fewer_tasks_ok:
  assumes "ask_ok w" "set ts \<subseteq> set (ask_tasks w)"
  shows "ask_ok (w\<lparr>ask_tasks := ts\<rparr>)"
proof -
  have "where_is (w\<lparr>ask_tasks := ts\<rparr>) = where_is w" by (rule where_is_cong) simp
  then have "seats_agree (w\<lparr>ask_tasks := ts\<rparr>) = seats_agree w" "zone_ok (w\<lparr>ask_tasks := ts\<rparr>) = zone_ok w"
    by (simp_all add: seats_agree_def zone_ok_def)
  moreover have "tasks_ok (w\<lparr>ask_tasks := ts\<rparr>)"
    by (rule tasks_ok_fewer [of w]) (use assms in \<open>simp_all add: ask_ok_def\<close>)
  ultimately show ?thesis using assms(1) by (simp add: ask_ok_def)
qed

lemma task_ok:
  assumes ok: "ask_ok w" and k: "k < length (ask_tasks w)"
  shows "ends_well w (ask_step base_join (Ask_runs k) w)"
proof -
  let ?w = "w\<lparr>ask_tasks := take k (ask_tasks w) @ drop (Suc k) (ask_tasks w)\<rparr>"
  have w: "ask_ok ?w" by (rule fewer_tasks_ok [OF ok]) (auto dest: in_set_takeD in_set_dropD)
  have st: "stays w ?w" by (simp add: stays_def)
  obtain t delay where t: "ask_tasks w ! k = (t, delay)" by (cases "ask_tasks w ! k")
  then have "(t, delay) \<in> set (ask_tasks w)" using k nth_mem by metis
  then have "(case t of Room_start d code \<Rightarrow> d | Room_question d code \<Rightarrow> d) < ROOM_COUNT"
    using ok by (fastforce simp: ask_ok_def tasks_ok_def)
  then have d: "(case fst (ask_tasks w ! k) of Room_start d code \<Rightarrow> d | Room_question d code \<Rightarrow> d) < ROOM_COUNT"
    using t by simp
  have "ends_well ?w (run_ask_task (fst (ask_tasks w ! k)) ?w)"
    using d game_start_ok [OF w] game_question_ok [OF w]
    by (cases "fst (ask_tasks w ! k)") (simp_all add: run_ask_task_def)
  then show ?thesis using ends_well_from [OF st] by (simp add: ask_step_def)
qed

lemma lost_ok:
  assumes "ask_ok w"
  shows "ends_well w (ask_step base_join (Ask_lost c) w)"
proof -
  let ?w = "w\<lparr>ask_clients := (ask_clients w)(c := map_option (\<lambda>r. r\<lparr>ask_available := False\<rparr>) (ask_clients w c))\<rparr>"
  have same: "info_at ?w = info_at w" by (auto simp: fun_eq_iff info_at_def split: option.splits)
  have "ask_ok ?w" using assms ask_ok_cong [OF _ same] by simp
  then show ?thesis using same by (simp add: ask_step_def stays_def)
qed

text \<open>
  When a client leaves, the handler calls itself and uses the state of the client that it has just deleted: in no
  well-formed state does a departure succeed.
\<close>

lemma leaving_is_fatal:
  assumes "ask_ok w" "c \<in> set (ask_members w)"
  shows "ask_step base_join (Ask_leaves c) w = Inl Null_pointer"
proof -
  obtain i where i: "info_at w c = Some i" using ask_okD(4) [OF assms] by blast
  have again: "ask_on_client_leave (Suc 0) c (set_ask_info c None v) = Inl Null_pointer" if "info_at v c \<noteq> None" for v
    using that by (auto simp: leave_body_def ask_info_of_def ask_client_at_def set_ask_info_def info_at_def split: option.splits)
  have run: "ask_info_of c w = Inr i" using i by (simp add: ask_info_of_iff)
  have two: "(2::nat) = Suc (Suc 0)" by simp
  have "ask_on_client_leave 2 c w = Inl Null_pointer"
  proof (cases "info_room i")
    case None
    then show ?thesis using run again [of w] i unfolding two ask_on_client_leave.simps(2) [of "Suc 0"]
      by (simp add: leave_body_def del: ask_on_client_leave.simps)
  next
    case (Some d)
    note here = index_of_seated [OF assms(1) i Some]
    obtain w' where "on_client_leave_room d c (info_pos i) w = Inr w'" "info_at w' c = Some (set_room None (-1) i)"
      using leave_room_ok [OF assms(1) i Some] by blast
    then show ?thesis using run again [of w'] Some here unfolding two ask_on_client_leave.simps(2) [of "Suc 0"]
      by (simp add: leave_body_def del: ask_on_client_leave.simps)
  qed
  then show ?thesis by (simp add: ask_step_def)
qed

section \<open>Runs\<close>

text \<open>How a step can fault: a client leaves, or a leader starts a game with too few random numbers at hand.\<close>

definition fatal :: "ask_event \<Rightarrow> ask_plugin \<Rightarrow> fault \<Rightarrow> bool" where
  "fatal e w f \<longleftrightarrow> (\<exists>c. e = Ask_leaves c \<and> f = Null_pointer) \<or>
     (\<exists>c params. e = Ask_sends c ''RDY'' params \<and> leads c w \<and> draws_short w \<and> f = Out_of_steps)"

lemma ask_step_ok:
  assumes ok: "ask_ok w" and e: "ask_possible e w"
  shows "ends_well w (ask_step base_join e w) \<and> (\<forall>c. e \<noteq> Ask_leaves c) \<or> (\<exists>f. ask_step base_join e w = Inl f \<and> fatal e w f)"
proof (cases e)
  case (Ask_joins c ident)
  then have "ask_clients w c = None" using e by (simp add: ask_possible_def)
  from join_ok [OF ok this, of base_join ident] show ?thesis by (simp add: ask_step_def Ask_joins)
next
  case (Ask_sends c name params)
  then have "c \<in> set (ask_members w)" using e by (simp add: ask_possible_def)
  from command_ok [OF ok this, of name params] show ?thesis by (auto simp: ask_step_def Ask_sends fatal_def)
next
  case (Ask_lost c)
  then show ?thesis using lost_ok [OF ok] by simp
next
  case (Ask_leaves c)
  then have "c \<in> set (ask_members w)" using e by (simp add: ask_possible_def)
  from leaving_is_fatal [OF ok this] show ?thesis by (simp add: Ask_leaves fatal_def)
next
  case (Ask_runs k)
  then have "k < length (ask_tasks w)" using e by (simp add: ask_possible_def)
  from task_ok [OF ok this] show ?thesis by (simp only: Ask_runs) simp
next
  case (Ask_update now draws)
  let ?v = "w\<lparr>ask_clock := now, ask_draws := ask_draws w @ draws\<rparr>"
  have "ask_ok ?v" by (subst ask_ok_cong [of ?v w]) (simp_all add: ok)
  moreover have "stays w ?v" by (simp add: stays_def)
  ultimately show ?thesis by (simp add: ask_step_def Ask_update update_same)
qed

text \<open>A run over events that are possible, each in the state it meets.\<close>

fun ask_run :: "(cid \<Rightarrow> int) \<Rightarrow> ask_event list \<Rightarrow> ask_plugin \<Rightarrow> ask_plugin result" where
  "ask_run base_join [] w = Inr w"
| "ask_run base_join (e # es) w = ebind (ask_step base_join e w) (ask_run base_join es)"

fun ask_can :: "(cid \<Rightarrow> int) \<Rightarrow> ask_event list \<Rightarrow> ask_plugin \<Rightarrow> bool" where
  "ask_can base_join [] w = True"
| "ask_can base_join (e # es) w = (ask_possible e w \<and>
     (case ask_step base_join e w of Inl f \<Rightarrow> True | Inr w' \<Rightarrow> ask_can base_join es w'))"

text \<open>A run ends well, without a departure, or at its first fatal event.\<close>

definition fatal_in :: "(cid \<Rightarrow> int) \<Rightarrow> ask_event list \<Rightarrow> ask_plugin \<Rightarrow> fault \<Rightarrow> bool" where
  "fatal_in base_join es w f \<longleftrightarrow> (\<exists>before e rest v. es = before @ e # rest \<and> ask_run base_join before w = Inr v \<and> ask_ok v \<and>
     ask_possible e v \<and> fatal e v f)"

lemma fatal_later:
  assumes "ask_step base_join e w = Inr v" "fatal_in base_join es v f"
  shows "fatal_in base_join (e # es) w f"
proof -
  obtain before e' rest u where "es = before @ e' # rest" "ask_run base_join before v = Inr u" "ask_ok u" "ask_possible e' u" "fatal e' u f"
    using assms(2) unfolding fatal_in_def by blast
  with assms(1) show ?thesis unfolding fatal_in_def
    by (intro exI [of _ "e # before"] exI [of _ e'] exI [of _ rest] exI [of _ u]) simp
qed

lemma ask_run_ok:
  assumes "ask_ok w" "ask_can base_join es w"
  shows "ends_well w (ask_run base_join es w) \<and> (\<forall>c. Ask_leaves c \<notin> set es) \<or>
    (\<exists>f. ask_run base_join es w = Inl f \<and> fatal_in base_join es w f)"
  using assms
proof (induction es arbitrary: w)
  case (Cons e es)
  have can: "ask_possible e w" using Cons.prems(2) by simp
  show ?case
  proof (cases "ask_step base_join e w")
    case (Inl f)
    then have "fatal e w f" using ask_step_ok [OF Cons.prems(1) can, of base_join] by (auto simp: ends_well_def)
    then have "fatal_in base_join (e # es) w f"
      unfolding fatal_in_def using Cons.prems(1) can by (intro exI [of _ "[]"] exI [of _ e] exI [of _ es] exI [of _ w]) simp
    then show ?thesis using Inl by simp
  next
    case (Inr v)
    then have v: "ask_ok v" "stays w v" "\<forall>c. e \<noteq> Ask_leaves c"
      using ask_step_ok [OF Cons.prems(1) can, of base_join] by auto
    have "ask_can base_join es v" using Cons.prems(2) Inr by simp
    from Cons.IH [OF v(1) this] show ?thesis
    proof (elim disjE conjE exE)
      assume "ends_well v (ask_run base_join es v)" "\<forall>c. Ask_leaves c \<notin> set es"
      then show ?thesis using Inr v ends_well_from [OF v(2)] by auto
    next
      fix f
      assume "ask_run base_join es v = Inl f" "fatal_in base_join es v f"
      then show ?thesis using Inr fatal_later [OF Inr] by auto
    qed
  qed
qed simp

end
