(* ===== verification/AskSafety.thy ===== *)
theory AskSafety
  imports AskRuns
begin

text \<open>What holds of the question game: its runs, the search for a room, the questions of a game, answers, and departures.\<close>

section \<open>Loading\<close>

lemma loaded_room:
  assumes "d < ROOM_COUNT"
  shows "room_at d (ask_on_load junk w) = new_ask_room (ask_clock w) (int d) (junk d)"
  using assms by (simp add: room_at_def ask_on_load_def ROOM_COUNT_def)

lemma new_ask_room_sel [simp]:
  "room_clients (new_ask_room now i j) = replicate 8 None" "\<not> room_running (new_ask_room now i j)"
  "room_ok (new_ask_room now i j)"
  by (simp_all add: new_ask_room_def room_ok_def ROOM_CAPACITY_def split: prod.split)

lemma loaded_ok:
  assumes "ask_clients w = Map.empty" "ask_members w = []" "ask_tasks w = []" "\<forall>qs. ask_zone w = Some qs \<longrightarrow> None \<notin> set qs"
  shows "ask_ok (ask_on_load junk w)"
proof -
  let ?w = "ask_on_load junk w"
  have rooms: "length (ask_rooms ?w) = ROOM_COUNT" by (simp add: ask_on_load_def ROOM_COUNT_def)
  have fresh: "\<exists>now i j. r = new_ask_room now i j" if "r \<in> set (ask_rooms ?w)" for r
  proof -
    have "r \<in> (\<lambda>k. new_ask_room (ask_clock w) (int k) (junk k)) ` {0..<100}" using that by (simp add: ask_on_load_def)
    then show ?thesis by blast
  qed
  have nobody: "where_is ?w c = None" for c using assms(1) by (simp add: where_is_def info_at_def ask_on_load_def)
  have "room_clients (room_at d ?w) ! nat p \<noteq> Some c" if "d < ROOM_COUNT" "0 \<le> p" "p < 8" for c d p
    using that loaded_room [OF that(1)] by simp
  then have "seats_agree ?w" unfolding seats_agree_def rooms using nobody by simp
  moreover have "zone_ok ?w" using fresh assms(4) by (fastforce simp: zone_ok_def ask_on_load_def)
  moreover have "\<forall>r \<in> set (ask_rooms ?w). room_ok r" using fresh new_ask_room_sel(3) by blast
  ultimately show ?thesis using rooms assms(2,3) by (simp add: ask_ok_def tasks_ok_def) (simp add: ask_on_load_def)
qed

section \<open>Questions drawn\<close>

lemma get_loop_drawn:
  assumes "get_loop qs n found draws out = Inr (qs', ds)" "qs \<noteq> []"
  shows "\<exists>is. qs' = out @ map ((!) qs) is \<and> distinct is \<and> set is \<subseteq> {..<length qs} - found \<and> length is = n"
  using assms
proof (induction qs n found draws out rule: get_loop.induct)
  case (3 qs n found r draws out)
  let ?i = "r mod length qs"
  show ?case
  proof (cases "?i \<in> found")
    case True
    then show ?thesis using 3(2) [OF refl] 3(3,4) by (simp add: Let_def)
  next
    case False
    then obtain "is" where "qs' = (out @ [qs ! ?i]) @ map ((!) qs) is" "distinct is" "set is \<subseteq> {..<length qs} - insert ?i found"
      "length is = n" using 3(1) [OF refl False] 3(3,4) by (auto simp: Let_def)
    then show ?thesis using False 3(4) by (intro exI [of _ "?i # is"]) auto
  qed
qed auto

lemma few_questions_never_enough: "0 < length qs \<Longrightarrow> length qs < n \<Longrightarrow> collection_get n qs draws out = Inl Out_of_steps"
proof -
  assume few: "0 < length qs" "length qs < n"
  let ?I = "(\<lambda>r. r mod length qs) ` set draws"
  have "card ?I \<le> card {..<length qs}" using few(1) by (intro card_mono) auto
  then have "\<not> n \<le> card (?I - {})" using few(2) by simp
  then have "\<nexists>r. get_loop qs n {} draws out = Inr r" using get_loop_iff by blast
  moreover have "qs \<noteq> []" using few(1) by simp
  ultimately show ?thesis using get_loop_cases [of qs n "{}" draws out] few(1) by (auto simp: collection_get_def)
qed


section \<open>The properties\<close>

text \<open>
  C33. From a plugin that was just loaded, with a zone whose questions are all there, take any course of arrivals, commands, disconnections,
  departures, tasks, updates and random numbers. Either it goes on to its end without a fault and without a departure, and then the
  rooms and the clients agree on who sits where, and a room with a game has a zone and a leader's place among its eight;
  or it stops at an event that is fatal, before which all was well: a client leaves (a disconnection, which only makes the client
  unavailable, is followed by its departure in the program, so no client can go without this fault), or the leader of a room asks for a game and the random numbers at hand do not hit twenty
  different questions.
\<close>

theorem ask_runs_are_safe:
  assumes "ask_clients w = Map.empty" "ask_members w = []" "ask_tasks w = []" "\<forall>qs. ask_zone w = Some qs \<longrightarrow> None \<notin> set qs"
    and "ask_can base_join es (ask_on_load junk w)"
  shows "case ask_run base_join es (ask_on_load junk w) of
      Inr w' \<Rightarrow> (\<forall>c. Ask_leaves c \<notin> set es) \<and> length (ask_rooms w') = 100 \<and>
        (\<forall>c d p. where_is w' c = Some (d, p) \<longleftrightarrow> d < 100 \<and> 0 \<le> p \<and> p < 8 \<and> room_clients (room_at d w') ! nat p = Some c) \<and>
        (\<forall>d < 100. room_running (room_at d w') \<longrightarrow> ask_zone w' \<noteq> None \<and> room_leader_index (room_at d w') \<in> {0..7})
    | Inl f \<Rightarrow> (\<exists>before e rest v. es = before @ e # rest \<and> ask_run base_join before (ask_on_load junk w) = Inr v \<and> ask_ok v \<and>
        ((\<exists>c \<in> set (ask_members v). e = Ask_leaves c \<and> f = Null_pointer) \<or>
         (\<exists>c \<in> set (ask_members v). \<exists>params. e = Ask_sends c ''RDY'' params \<and> leads c v \<and> draws_short v \<and> f = Out_of_steps)))"
proof -
  from ask_run_ok [OF loaded_ok [OF assms(1-4)] assms(5)]
  consider w' where "ask_run base_join es (ask_on_load junk w) = Inr w'" "ask_ok w'" "\<forall>c. Ask_leaves c \<notin> set es"
    | f where "ask_run base_join es (ask_on_load junk w) = Inl f" "fatal_in base_join es (ask_on_load junk w) f"
    by (auto simp: ends_well_def)
  then show ?thesis
  proof cases
    case (1 w')
    have "length (ask_rooms w') = 100" using ask_okD(1) [OF 1(2)] by (simp add: ROOM_COUNT_def)
    moreover have "where_is w' c = Some (d, p) \<longleftrightarrow> d < 100 \<and> 0 \<le> p \<and> p < 8 \<and> room_clients (room_at d w') ! nat p = Some c"
      for c d p using seat_iff [OF 1(2)] by (simp add: ROOM_COUNT_def)
    moreover have "ask_zone w' \<noteq> None \<and> room_leader_index (room_at d w') \<in> {0..7}"
      if "d < 100" "room_running (room_at d w')" for d
      using running_zone [OF 1(2) _ that(2)] ask_okD(2) [OF 1(2), of d] that by (simp add: ROOM_COUNT_def room_ok_def)
    ultimately show ?thesis using 1(1,3) by simp
  next
    case (2 f)
    then obtain before e rest v where "es = before @ e # rest" "ask_run base_join before (ask_on_load junk w) = Inr v" "ask_ok v"
      "ask_possible e v" "fatal e v f"
      unfolding fatal_in_def by blast
    moreover from this have "(\<exists>c \<in> set (ask_members v). e = Ask_leaves c \<and> f = Null_pointer) \<or>
         (\<exists>c \<in> set (ask_members v). \<exists>params. e = Ask_sends c ''RDY'' params \<and> leads c v \<and> draws_short v \<and> f = Out_of_steps)"
      by (auto simp: fatal_def ask_possible_def)
    ultimately show ?thesis unfolding 2(1) sum.case by blast
  qed
qed

text \<open>
  C36. A client without a room that asks for any gets a free place in a room without a game whenever there is one;
  otherwise nothing happens, not even an answer.
\<close>

theorem any_open_room:
  assumes "ask_ok w" "info_at w c = Some i" "info_room i = None"
  shows "\<exists>w'. client_join_room_handle c [] w = Inr w' \<and> ask_ok w' \<and>
    (if \<exists>d < ROOM_COUNT. \<not> room_running (room_at d w) \<and> None \<in> set (room_clients (room_at d w))
     then \<exists>d p. where_is w' c = Some (d, p) \<and> \<not> room_running (room_at d w) \<and> room_clients (room_at d w) ! nat p = None
     else w' = w)"
proof -
  have "client_join_room_handle c [] w = find_room c i w"
    using assms by (simp add: client_join_room_handle_def enter_room_def ask_info_of_iff [THEN iffD2])
  then show ?thesis using find_room_ok [OF assms] unfolding open_room_def by (auto split: if_splits)
qed

text \<open>
  C35. When the leader of a room whose teams are equal and ready starts the game while its zone has some questions, but fewer than
  twenty, the search for twenty different ones never ends, whatever random numbers come.
\<close>

theorem few_questions_hang:
  assumes "ask_ok w" "info_at w c = Some i" "info_room i = Some d" "\<not> info_ready i" "\<not> room_running (room_at d w)"
    and "info_pos i = room_leader_index (room_at d w)" "ask_zone w = Some qs" "0 < length qs" "length qs < 20"
    and "count_teams (info_pos i) 0 (room_clients (room_at d w)) w 0 0 = Inr (Some (n, n))"
  shows "ask_ready_handle c params (w\<lparr>ask_draws := draws\<rparr>) = Inl Out_of_steps"
proof -
  let ?w = "w\<lparr>ask_draws := draws\<rparr>"
  have w: "ask_ok ?w" "info_at ?w c = Some i" using assms(1,2) by (simp_all add: info_at_def)
  obtain cl where cl: "ask_client_at c ?w = Inr cl" "ask_info cl = Some i" using info_client [OF w(2)] by blast
  have teams: "count_teams l k xs ?w a b = count_teams l k xs w a b" for l k xs a b
    by (induction l k xs w a b rule: count_teams.induct) (auto simp: ask_info_of_def ask_client_at_def split: option.splits)
  note here = index_of_seated [OF w assms(3)]
  have "fill_questions 20 d ?w = Inl Out_of_steps"
    using assms(7) few_questions_never_enough [OF assms(8,9)] by (simp add: fill_questions_def)
  then have "leader_ready d c (info_pos i) ?w = Inl Out_of_steps"
    using assms(6,7,10) teams by (simp add: leader_ready_def)
  then show ?thesis using cl here assms by (simp add: ask_ready_handle_def Let_def)
qed

text \<open>
  C34. In a running game an answer counts when it comes from the team whose turn it is and names the question that was asked: then
  the next question goes to the other team, or the game ends after the last one. Any other answer changes nothing.
\<close>

theorem answers_alternate:
  fixes w c params d
  defines "r \<equiv> room_at d w"
  assumes "ask_ok w" "info_at w c = Some i" "info_room i = Some d"
  shows "\<exists>w'. client_answer_handler c params w = Inr w' \<and> ask_ok w' \<and>
    (if length params = 2 \<and> 0 \<le> atoi (params ! 0) \<and> 0 \<le> atoi (params ! 1) \<and> room_running r \<and>
        info_pos i mod 2 = curr_pos_index r \<and> atoi (params ! 0) = question_index r \<and> question_index r < int (length (room_questions r))
     then (if question_index r + 1 < int (length (room_questions r))
       then room_running (room_at d w') \<and> question_index (room_at d w') = question_index r + 1 \<and>
         curr_pos_index (room_at d w') = (curr_pos_index r + 1) mod 2
       else \<not> room_running (room_at d w'))
     else w' = w)"
proof -
  obtain cl where cl: "ask_client_at c w = Inr cl" "ask_info cl = Some i" using info_client [OF assms(3)] by blast
  note here = index_of_seated [OF assms(2-4)]
  let ?a = "atoi (params ! 0)" and ?k = "atoi (params ! 1)"
  have run: "client_answer_handler c params w =
      (if length params = 2 \<and> 0 \<le> ?a \<and> 0 \<le> ?k \<and> room_running r \<and> info_pos i mod 2 = curr_pos_index r \<and> ?a = question_index r
       then take_answer d c (info_pos i) ?a ?k w else Inr w)"
    using cl here assms(4) by (auto simp: client_answer_handler_def Let_def r_def)
  show ?thesis
  proof (cases "length params = 2 \<and> 0 \<le> ?a \<and> 0 \<le> ?k \<and> room_running r \<and> info_pos i mod 2 = curr_pos_index r \<and> ?a = question_index r")
    case True
    then have a: "room_running (room_at d w)" "0 \<le> ?a" "?a = question_index (room_at d w)" by (simp_all add: r_def)
    from take_answer_ok [OF assms(2) here(1) a(1) assms(3) a(2,3), of "info_pos i" ?k]
    show ?thesis using run True a(3) unfolding r_def by auto
  next
    case False
    then show ?thesis using run assms(2) by (intro exI [of _ w]) (simp only: if_False, auto)
  qed
qed

text \<open>
  A client that got ready once stays ready, whatever happens afterwards: in every later state its command to get ready does
  nothing. So nobody leads two games.
\<close>

lemma ready_once:
  assumes "ask_ok w" "info_at w c = Some i" "info_ready i" "ask_can base_join es w" "ask_run base_join es w = Inr w'"
  shows "ask_ready_handle c params w' = Inr w'"
proof -
  have "stays w w'" using ask_run_ok [OF assms(1,4)] assms(5) by (auto simp: ends_well_def)
  then obtain j where "info_at w' c = Some j" "info_ready j" using assms(2,3) unfolding stays_def by blast
  then show ?thesis using info_client [of w' c j] by (auto simp: ask_ready_handle_def)
qed

section \<open>An example\<close>

text \<open>A plugin whose zone has \<open>n\<close> questions; two clients sit down in a room, the second gets ready.\<close>

definition before_loading :: "nat \<Rightarrow> ask_plugin" where
  "before_loading n = \<lparr>ask_game_id = ''ask'', ask_handles = [], ask_rooms = [], ask_clients = Map.empty,
     ask_members = [], ask_zone = Some (replicate n (Some new_question)), ask_clock = 0, ask_draws = [], ask_tasks = [],
     ask_outbox = []\<rparr>"

definition ask_example :: "nat \<Rightarrow> ask_plugin" where
  "ask_example n = ask_on_load (\<lambda>i. (-1, 0, 0)) (before_loading n)"

definition two_sit_down :: "ask_event list" where
  "two_sit_down = [Ask_joins 0 ''ann'', Ask_joins 1 ''bob'', Ask_sends 0 ''IDK'' [], Ask_sends 1 ''IDK'' [], Ask_sends 1 ''RDY'' []]"

definition a_game_starts :: "ask_event list" where
  "a_game_starts = two_sit_down @ [Ask_update 5 [0..<20], Ask_sends 0 ''RDY'' [], Ask_runs 0, Ask_runs 0]"

definition ask_after :: "nat \<Rightarrow> ask_event list \<Rightarrow> ask_plugin" where
  "ask_after n es = (case ask_run (\<lambda>c. 0) es (ask_example n) of Inr w \<Rightarrow> w | Inl f \<Rightarrow> ask_example n)"

lemma before_loading_ok: "ask_clients (before_loading n) = Map.empty" "ask_members (before_loading n) = []"
  "ask_tasks (before_loading n) = []" "\<forall>qs. ask_zone (before_loading n) = Some qs \<longrightarrow> None \<notin> set qs"
  by (simp_all add: before_loading_def)

lemma example_ok: "ask_ok (ask_example n)"
  unfolding ask_example_def by (rule loaded_ok [OF before_loading_ok])

lemma example_can: "ask_can (\<lambda>c. 0) two_sit_down (ask_example 3)" "ask_can (\<lambda>c. 0) a_game_starts (ask_example 20)"
  by code_simp+

lemma example_runs:
  "case ask_run (\<lambda>c. 0) two_sit_down (ask_example 3) of Inl f \<Rightarrow> False | Inr w \<Rightarrow> True"
  "case ask_run (\<lambda>c. 0) a_game_starts (ask_example 20) of Inl f \<Rightarrow> False | Inr w \<Rightarrow> True"
  by code_simp+

lemma after_run:
  assumes "case ask_run (\<lambda>c. 0) es (ask_example n) of Inl f \<Rightarrow> False | Inr w \<Rightarrow> True" "ask_can (\<lambda>c. 0) es (ask_example n)"
  shows "ask_run (\<lambda>c. 0) es (ask_example n) = Inr (ask_after n es)" "ask_ok (ask_after n es)"
proof -
  show run: "ask_run (\<lambda>c. 0) es (ask_example n) = Inr (ask_after n es)"
    using assms(1) by (simp add: ask_after_def split: sum.splits)
  show "ask_ok (ask_after n es)" using ask_run_ok [OF example_ok assms(2)] run by (auto simp: ends_well_def)
qed

lemmas after_two = after_run [OF example_runs(1) example_can(1)] and after_start = after_run [OF example_runs(2) example_can(2)]

definition seat_info :: "cid \<Rightarrow> nat \<Rightarrow> int \<Rightarrow> bool \<Rightarrow> ask_plugin \<Rightarrow> bool" where
  "seat_info c d p ready w = (case info_at w c of None \<Rightarrow> False
     | Some i \<Rightarrow> info_room i = Some d \<and> info_pos i = p \<and> info_ready i = ready)"

lemma seat_infoD: "seat_info c d p ready w \<Longrightarrow> \<exists>i. info_at w c = Some i \<and> info_room i = Some d \<and> info_pos i = p \<and> info_ready i = ready"
  by (simp add: seat_info_def split: option.splits)

lemma two_seats: "seat_info 0 0 0 False (ask_after 3 two_sit_down)" "seat_info 1 0 1 True (ask_after 3 two_sit_down)"
  by code_simp+

lemma game_seats: "seat_info 0 0 0 True (ask_after 20 a_game_starts)" by code_simp

lemma two_ready:
  "\<not> room_running (room_at 0 (ask_after 3 two_sit_down))" "room_leader_index (room_at 0 (ask_after 3 two_sit_down)) = 0"
  "case ask_zone (ask_after 3 two_sit_down) of None \<Rightarrow> False | Some qs \<Rightarrow> length qs = 3"
  "count_teams 0 0 (room_clients (room_at 0 (ask_after 3 two_sit_down))) (ask_after 3 two_sit_down) 0 0 = Inr (Some (1, 1))"
  by code_simp+

lemma game_asked:
  "room_running (room_at 0 (ask_after 20 a_game_starts))" "curr_pos_index (room_at 0 (ask_after 20 a_game_starts)) = 0"
  "question_index (room_at 0 (ask_after 20 a_game_starts)) = 0" "length (room_questions (room_at 0 (ask_after 20 a_game_starts))) = 20"
  "atoi ''0'' = 0" "atoi ''3'' = 3"
  by code_simp+

section \<open>Witnesses\<close>

lemma ask_runs_are_safe_witness:
  "\<exists>w'. ask_run (\<lambda>c. 0) two_sit_down (ask_example 3) = Inr w' \<and> length (ask_rooms w') = 100 \<and> where_is w' 0 = Some (0, 0) \<and>
     room_clients (room_at 0 w') ! 0 = Some 0"
proof -
  from ask_runs_are_safe [OF before_loading_ok example_can(1) [unfolded ask_example_def], folded ask_example_def]
  obtain w' where w': "ask_run (\<lambda>c. 0) two_sit_down (ask_example 3) = Inr w'" "length (ask_rooms w') = 100"
    "\<And>c d p. where_is w' c = Some (d, p) \<longleftrightarrow> d < 100 \<and> 0 \<le> p \<and> p < 8 \<and> room_clients (room_at d w') ! nat p = Some c"
    using after_two(1) by auto
  then have "w' = ask_after 3 two_sit_down" using after_two(1) by simp
  moreover have "where_is (ask_after 3 two_sit_down) 0 = Some (0, 0)" using seat_infoD [OF two_seats(1)] by (auto simp: where_is_def)
  ultimately show ?thesis using w'(3) [of 0 0 0] w'(1,2) by (intro exI [of _ w']) auto
qed

lemma any_open_room_witness:
  "\<exists>w'. client_join_room_handle 0 [] (ask_after 3 [Ask_joins 0 ''ann'']) = Inr w' \<and> (\<exists>d p. where_is w' 0 = Some (d, p))"
proof -
  let ?w = "ask_after 3 [Ask_joins 0 ''ann'']"
  have can: "ask_can (\<lambda>c. 0) [Ask_joins 0 ''ann''] (ask_example 3)"
    "case ask_run (\<lambda>c. 0) [Ask_joins 0 ''ann''] (ask_example 3) of Inl f \<Rightarrow> False | Inr w \<Rightarrow> True" by code_simp+
  have "case info_at ?w 0 of None \<Rightarrow> False | Some i \<Rightarrow> info_room i = None" by code_simp
  then obtain i where i: "info_at ?w 0 = Some i" "info_room i = None" by (auto split: option.splits)
  have "\<not> room_running (room_at 0 ?w)" "None \<in> set (room_clients (room_at 0 ?w))" by code_simp+
  then have "\<exists>d < ROOM_COUNT. \<not> room_running (room_at d ?w) \<and> None \<in> set (room_clients (room_at d ?w))"
    by (intro exI [of _ 0]) (simp add: ROOM_COUNT_def)
  then show ?thesis using any_open_room [OF after_run(2) [OF can(2,1)] i] by auto
qed

lemma leaving_is_fatal_witness: "ask_step (\<lambda>c. 0) (Ask_leaves 0) (ask_after 3 two_sit_down) = Inl Null_pointer"
proof (rule leaving_is_fatal [OF after_two(2)])
  show "0 \<in> set (ask_members (ask_after 3 two_sit_down))" by code_simp
qed

lemma few_questions_hang_witness:
  "ask_ready_handle 0 [] ((ask_after 3 two_sit_down)\<lparr>ask_draws := [0..<1000]\<rparr>) = Inl Out_of_steps"
proof -
  obtain i where i: "info_at (ask_after 3 two_sit_down) 0 = Some i" "info_room i = Some 0" "info_pos i = 0" "\<not> info_ready i"
    using seat_infoD [OF two_seats(1)] by blast
  obtain qs where "ask_zone (ask_after 3 two_sit_down) = Some qs" "length qs = 3"
    using two_ready(3) by (auto split: option.splits)
  then show ?thesis
    using few_questions_hang [OF after_two(2) i(1,2,4) two_ready(1), of qs 1 "[]" "[0..<1000]"] i(3) two_ready(2,4) by simp
qed

lemma answers_alternate_witness:
  "\<exists>w'. client_answer_handler 0 [''0'', ''3''] (ask_after 20 a_game_starts) = Inr w' \<and> question_index (room_at 0 w') = 1 \<and>
     curr_pos_index (room_at 0 w') = 1"
proof -
  obtain i where i: "info_at (ask_after 20 a_game_starts) 0 = Some i" "info_room i = Some 0" "info_pos i = 0"
    using seat_infoD [OF game_seats] by blast
  show ?thesis using answers_alternate [OF after_start(2) i(1,2), of "[''0'', ''3'']"] i(3) game_asked by auto
qed

lemma ready_once_witness:
  "ask_ready_handle 1 [] ((ask_after 3 two_sit_down)\<lparr>ask_clock := 9, ask_draws := ask_draws (ask_after 3 two_sit_down) @ []\<rparr>) =
     Inr ((ask_after 3 two_sit_down)\<lparr>ask_clock := 9, ask_draws := ask_draws (ask_after 3 two_sit_down) @ []\<rparr>)"
proof -
  let ?w = "ask_after 3 two_sit_down"
  obtain i where i: "info_at ?w 1 = Some i" "info_ready i" using seat_infoD [OF two_seats(2)] by blast
  have run: "ask_run (\<lambda>c. 0) [Ask_update 9 []] ?w = Inr (?w\<lparr>ask_clock := 9, ask_draws := ask_draws ?w @ []\<rparr>)"
    by (simp add: ask_step_def update_same)
  have can: "ask_can (\<lambda>c. 0) [Ask_update 9 []] ?w"
    by (simp add: ask_possible_def split: sum.split)
  show ?thesis by (rule ready_once [OF after_two(2) i can run])
qed

end
