(* ===== verification/DbPool.thy ===== *)
theory DbPool
  imports PostMonitor "HOL-Library.FSet"
begin

text \<open>
  The pool of database connections (\<^verbatim>\<open>src/src/data/mysql_connection_pool.h\<close>): the pools by host and user, the objects
  \<^verbatim>\<open>sql_connection\<close> that share them, and the \<^verbatim>\<open>ConnectionEx\<close> they point to, by address.

  What the MySQL connector answers is an argument of the operations: \<open>ok\<close> says which connections are valid and not closed
  at the moment, \<open>fresh\<close> is the new connection, with its address and whether it is usable, or \<open>None\<close> when
  connecting throws. \<^verbatim>\<open>junk\<close> is what the memory of \<^verbatim>\<open>ret\<close> held, which \<^verbatim>\<open>open\<close> reads without having set it:
  the result of the pool goes to a variable of the same name in an inner block. The locks are left out.
\<close>

section \<open>State\<close>

record connection_ex =
  actived_date :: tick_count
  native_login :: "string \<times> string"

record conn_pool =
  pool_working :: "nat fset"
  pool_free :: "nat list"
  waitting_count :: int
  pool_max_size :: nat
  pool_min_size :: nat

definition new_conn_pool :: "nat \<Rightarrow> nat \<Rightarrow> conn_pool" where
  "new_conn_pool smallest largest = \<lparr>pool_working = {||}, pool_free = [], waitting_count = 0, pool_max_size = largest, pool_min_size = smallest\<rparr>"

record sql_connection =
  conn_host :: string
  conn_user :: string
  conn_database :: string
  conn_pooled :: bool
  conn_instance :: "nat option"

definition data_key :: "sql_connection \<Rightarrow> string" where
  "data_key s = conn_host s @ ''_'' @ conn_user s"

record db =
  db_pools :: "string \<rightharpoonup> conn_pool"
  db_live :: "nat \<rightharpoonup> connection_ex"
  db_clock :: int
  db_users :: "nat \<rightharpoonup> sql_connection"
  db_schemas :: "(nat \<times> string) list"

datatype db_error = Sql_exception | Null_instance

definition put_pool :: "string \<Rightarrow> conn_pool \<Rightarrow> db \<Rightarrow> db" where
  "put_pool k p w = w\<lparr>db_pools := (db_pools w)(k \<mapsto> p)\<rparr>"

definition set_instance :: "nat \<Rightarrow> nat option \<Rightarrow> db \<Rightarrow> db" where
  "set_instance u a w = w\<lparr>db_users := (db_users w)(u := map_option (\<lambda>s. s\<lparr>conn_instance := a\<rparr>) (db_users w u))\<rparr>"

text \<open>\<^verbatim>\<open>new ConnectionEx(conn)\<close> and \<^verbatim>\<open>delete\<close>\<close>

definition new_connection_ex :: "nat \<Rightarrow> sql_connection \<Rightarrow> db \<Rightarrow> db" where
  "new_connection_ex a s w = w\<lparr>db_live := (db_live w)
     (a \<mapsto> \<lparr>actived_date = tick_restart (db_clock w), native_login = (conn_host s, conn_user s)\<rparr>)\<rparr>"

definition drop_conns :: "nat list \<Rightarrow> db \<Rightarrow> db" where
  "drop_conns as w = w\<lparr>db_live := (db_live w) |` (- set as)\<rparr>"

text \<open>\<^verbatim>\<open>(int)this->instance_\<close> on 32 bits\<close>

definition as_int :: "nat option \<Rightarrow> int" where
  "as_int a = (case a of None \<Rightarrow> 0 | Some n \<Rightarrow> sint (word_of_nat n :: 32 word))"

section \<open>Opening\<close>

text \<open>From the front of the free connections on: the unusable ones that are thrown away, the first usable one, the rest.\<close>

fun take_free :: "(nat \<Rightarrow> bool) \<Rightarrow> nat list \<Rightarrow> nat list \<times> nat option \<times> nat list" where
  "take_free ok [] = ([], None, [])"
| "take_free ok (a # as) = (if ok a then ([], Some a, as)
     else (case take_free ok as of (dead, found, rest) \<Rightarrow> (a # dead, found, rest)))"

definition connect_new :: "(nat \<times> bool) option \<Rightarrow> nat \<Rightarrow> sql_connection \<Rightarrow> conn_pool \<Rightarrow> db \<Rightarrow> (db_error + int) \<times> db" where
  "connect_new fresh u s p w = (case fresh of None \<Rightarrow> (Inl Sql_exception, put_pool (data_key s) p w)
     | Some (a, good) \<Rightarrow> if good
         then (Inr (as_int (Some a)), set_instance u (Some a) (new_connection_ex a s
           (put_pool (data_key s) (p\<lparr>pool_working := finsert a (pool_working p)\<rparr>) w)))
         else (Inr (as_int (conn_instance s)), put_pool (data_key s) p w))"

definition get_connection_from_pool ::
    "(nat \<Rightarrow> bool) \<Rightarrow> (nat \<times> bool) option \<Rightarrow> nat \<Rightarrow> sql_connection \<Rightarrow> db \<Rightarrow> (db_error + int) \<times> db" where
  "get_connection_from_pool ok fresh u s w =
     (let p = (case db_pools w (data_key s) of Some p \<Rightarrow> p | None \<Rightarrow> new_conn_pool 50 5); w = put_pool (data_key s) p w in
      if length (pool_free p) + fcard (pool_working p) \<ge> pool_max_size p then (Inl Sql_exception, w)
      else case take_free ok (pool_free p) of (dead, found, rest) \<Rightarrow>
        let p = p\<lparr>pool_free := rest\<rparr>; w = drop_conns dead w in
        (case found of
           Some a \<Rightarrow> (Inr (as_int (Some a)), set_instance u (Some a)
             (put_pool (data_key s) (p\<lparr>pool_working := finsert a (pool_working p)\<rparr>) w))
         | None \<Rightarrow> connect_new fresh u s p w))"

text \<open>Without a pool: an unusable connection is thrown away at once.\<close>

definition open_alone :: "(nat \<times> bool) option \<Rightarrow> nat \<Rightarrow> sql_connection \<Rightarrow> db \<Rightarrow> (db_error + int) \<times> db" where
  "open_alone fresh u s w = (case fresh of None \<Rightarrow> (Inl Sql_exception, w)
     | Some (a, good) \<Rightarrow> if good then (Inr (as_int (Some a)), set_instance u (Some a) (new_connection_ex a s w)) else (Inr (-1), w))"

definition choose_schema :: "nat \<Rightarrow> string option \<Rightarrow> (db_error + int) \<times> db \<Rightarrow> (db_error + int) \<times> db" where
  "choose_schema u database r = (case r of (Inl e, w) \<Rightarrow> (Inl e, w)
     | (Inr ret, w) \<Rightarrow> (case db_users w u of None \<Rightarrow> (Inl Null_instance, w)
         | Some s \<Rightarrow> if ret \<le> 0 then (Inr ret, w)
             else (case conn_instance s of None \<Rightarrow> (Inl Null_instance, w)
               | Some a \<Rightarrow> (Inr ret, w\<lparr>db_schemas := db_schemas w @ [(a, case database of None \<Rightarrow> conn_database s | Some d \<Rightarrow> d)]\<rparr>))))"

definition open_new ::
    "(nat \<Rightarrow> bool) \<Rightarrow> (nat \<times> bool) option \<Rightarrow> int \<Rightarrow> nat \<Rightarrow> string option \<Rightarrow> sql_connection \<Rightarrow> db \<Rightarrow> (db_error + int) \<times> db" where
  "open_new ok fresh junk u database s w = choose_schema u database (if conn_pooled s
     then (case get_connection_from_pool ok fresh u s w of (Inl e, w) \<Rightarrow> (Inl e, w) | (Inr ret, w) \<Rightarrow> (Inr junk, w))
     else open_alone fresh u s w)"

definition sql_open ::
    "(nat \<Rightarrow> bool) \<Rightarrow> (nat \<times> bool) option \<Rightarrow> int \<Rightarrow> nat \<Rightarrow> string option \<Rightarrow> db \<Rightarrow> (db_error + int) \<times> db" where
  "sql_open ok fresh junk u database w = (case db_users w u of None \<Rightarrow> (Inl Null_instance, w) | Some s \<Rightarrow>
     (case conn_instance s of
        None \<Rightarrow> open_new ok fresh junk u database s w
      | Some a \<Rightarrow> if ok a then (Inr (as_int (Some a)), w)
          else open_new ok fresh junk u database (s\<lparr>conn_instance := None\<rparr>) (set_instance u None (drop_conns [a] w))))"

section \<open>Closing\<close>

text \<open>\<^verbatim>\<open>pause\<close> is the time between the two looks at the clock.\<close>

definition shrink_pool :: "int \<Rightarrow> string \<Rightarrow> conn_pool \<Rightarrow> db \<Rightarrow> db" where
  "shrink_pool pause k p w =
     (if fcard (pool_working p) + length (pool_free p) > pool_min_size p \<and> length (pool_free p) > 2 then
        (case pool_free p of [] \<Rightarrow> put_pool k p w
         | a # as \<Rightarrow> (case db_live w a of None \<Rightarrow> put_pool k p w
             | Some c \<Rightarrow> if elapsed (db_clock w + pause) (actived_date c) \<ge> 1000 * 60 * 5
                 then drop_conns [a] (put_pool k (p\<lparr>pool_free := as\<rparr>) w) else put_pool k p w))
      else put_pool k p w)"

definition sql_close :: "int \<Rightarrow> nat \<Rightarrow> db \<Rightarrow> db" where
  "sql_close pause u w = (case db_users w u of None \<Rightarrow> w | Some s \<Rightarrow> (case conn_instance s of None \<Rightarrow> w
     | Some a \<Rightarrow> if conn_pooled s then
         (case db_pools w (data_key s) of None \<Rightarrow> w
          | Some p \<Rightarrow> let w = w\<lparr>db_live := (db_live w)(a := map_option (\<lambda>c. c\<lparr>actived_date := tick_restart (db_clock w)\<rparr>) (db_live w a))\<rparr> in
              set_instance u None (shrink_pool pause (data_key s)
                (p\<lparr>pool_working := pool_working p |-| {|a|}, pool_free := a # pool_free p\<rparr>) w))
       else set_instance u None (drop_conns [a] w)))"

definition sql_destroy :: "int \<Rightarrow> nat \<Rightarrow> db \<Rightarrow> db" where
  "sql_destroy pause u w = (let w = sql_close pause u w in w\<lparr>db_users := (db_users w)(u := None)\<rparr>)"

definition new_sql_connection :: "nat \<Rightarrow> string \<Rightarrow> string \<Rightarrow> string \<Rightarrow> bool \<Rightarrow> db \<Rightarrow> db" where
  "new_sql_connection u host user database pool_mode w = w\<lparr>db_users := (db_users w)(u \<mapsto> \<lparr>conn_host = host, conn_user = user,
     conn_database = database, conn_pooled = pool_mode, conn_instance = None\<rparr>)\<rparr>"

section \<open>Runs\<close>

definition empty_db :: db where
  "empty_db = \<lparr>db_pools = Map.empty, db_live = Map.empty, db_clock = 0, db_users = Map.empty, db_schemas = []\<rparr>"

text \<open>A new connection has an address that is not in use.\<close>

definition fresh_address :: "(nat \<times> bool) option \<Rightarrow> db \<Rightarrow> bool" where
  "fresh_address fresh w = (case fresh of None \<Rightarrow> True | Some (a, good) \<Rightarrow> db_live w a = None)"

inductive db_step :: "db \<Rightarrow> db \<Rightarrow> bool" where
  created: "db_users w u = None \<Longrightarrow> db_step w (new_sql_connection u host user database pool_mode w)"
| opened: "fresh_address fresh w \<Longrightarrow> db_step w (snd (sql_open ok fresh junk u database w))"
| closed: "0 \<le> pause \<Longrightarrow> db_step w (sql_close pause u w)"
| destroyed: "0 \<le> pause \<Longrightarrow> db_step w (sql_destroy pause u w)"
| later: "0 \<le> ms \<Longrightarrow> db_step w (w\<lparr>db_clock := db_clock w + ms\<rparr>)"

definition db_reachable :: "db \<Rightarrow> bool" where
  "db_reachable w = db_step\<^sup>*\<^sup>* empty_db w"

end
