(* ===== verification/DbPoolOk.thy ===== *)
theory DbPoolOk
  imports DbPool
begin

text \<open>
  The pool of database connections keeps its order: a pool never has more than five connections, nobody shares a connection,
  and every connection was made for the host and user of its pool, up to the way they are put together.
\<close>

section \<open>The invariant\<close>

definition pool_total :: "conn_pool \<Rightarrow> nat" where
  "pool_total p = length (pool_free p) + fcard (pool_working p)"

definition holds :: "db \<Rightarrow> nat \<Rightarrow> nat option" where
  "holds w u = (case db_users w u of None \<Rightarrow> None | Some s \<Rightarrow> conn_instance s)"

definition login_key :: "db \<Rightarrow> nat \<Rightarrow> string option" where
  "login_key w a = (case db_live w a of None \<Rightarrow> None | Some c \<Rightarrow> Some (fst (native_login c) @ ''_'' @ snd (native_login c)))"

definition sizes_ok :: "db \<Rightarrow> bool" where
  "sizes_ok w \<longleftrightarrow> (\<forall>p \<in> ran (db_pools w). pool_max_size p = 5 \<and> pool_min_size p = 50 \<and> pool_total p \<le> 5)"

definition holders_ok :: "db \<Rightarrow> bool" where
  "holders_ok w \<longleftrightarrow> (\<forall>u v a. holds w u = Some a \<longrightarrow> holds w v = Some a \<longrightarrow> u = v) \<and>
     (\<forall>u s a. db_users w u = Some s \<longrightarrow> conn_instance s = Some a \<longrightarrow> login_key w a = Some (data_key s) \<and>
       (conn_pooled s \<longrightarrow> (\<exists>p. db_pools w (data_key s) = Some p \<and> a |\<in>| pool_working p)))"

definition free_ok :: "db \<Rightarrow> bool" where
  "free_ok w \<longleftrightarrow> (\<forall>k p. db_pools w k = Some p \<longrightarrow> distinct (pool_free p) \<and>
     (\<forall>a \<in> set (pool_free p). login_key w a = Some k \<and> (\<forall>u. holds w u \<noteq> Some a)))"

definition db_ok :: "db \<Rightarrow> bool" where
  "db_ok w \<longleftrightarrow> sizes_ok w \<and> holders_ok w \<and> free_ok w"

lemma empty_ok: "db_ok empty_db"
  by (simp add: db_ok_def sizes_ok_def holders_ok_def free_ok_def empty_db_def holds_def)

lemma holder:
  assumes "db_ok w" "db_users w u = Some s" "conn_instance s = Some a"
  shows "login_key w a = Some (data_key s)" "conn_pooled s \<Longrightarrow> \<exists>p. db_pools w (data_key s) = Some p \<and> a |\<in>| pool_working p"
  using assms unfolding db_ok_def holders_ok_def by blast+

lemma pool_size:
  assumes "db_ok w" "db_pools w k = Some p"
  shows "pool_max_size p = 5" "pool_min_size p = 50" "pool_total p \<le> 5"
  using assms unfolding db_ok_def sizes_ok_def by (blast intro: ranI)+

lemma pool_free_ok:
  assumes "db_ok w" "db_pools w k = Some p"
  shows "distinct (pool_free p)" "a \<in> set (pool_free p) \<Longrightarrow> login_key w a = Some k \<and> (\<forall>v. holds w v \<noteq> Some a)"
  using assms unfolding db_ok_def free_ok_def by blast+

section \<open>Changes of the state\<close>

lemma db_sel [simp]:
  "db_users (put_pool k p w) = db_users w" "db_live (put_pool k p w) = db_live w" "db_pools (put_pool k p w) = (db_pools w)(k \<mapsto> p)"
  "db_pools (set_instance u a w) = db_pools w" "db_live (set_instance u a w) = db_live w"
  "db_pools (drop_conns as w) = db_pools w" "db_users (drop_conns as w) = db_users w"
  "db_pools (new_connection_ex b s w) = db_pools w" "db_users (new_connection_ex b s w) = db_users w"
  by (simp_all add: put_pool_def set_instance_def drop_conns_def new_connection_ex_def)

lemma holds_simps [simp]:
  "holds (put_pool k p w) = holds w" "holds (drop_conns as w) = holds w" "holds (new_connection_ex b s w) = holds w"
  "holds (set_instance u x w) v = (if v = u \<and> db_users w u \<noteq> None then x else holds w v)"
  by (auto simp: fun_eq_iff holds_def set_instance_def split: option.splits)

lemma login_simps [simp]:
  "login_key (put_pool k p w) = login_key w" "login_key (set_instance u x w) = login_key w"
  "login_key (drop_conns as w) a = (if a \<in> set as then None else login_key w a)"
  "login_key (new_connection_ex b s w) a = (if a = b then Some (data_key s) else login_key w a)"
  by (auto simp: fun_eq_iff login_key_def drop_conns_def new_connection_ex_def data_key_def restrict_map_def)

lemma users_set_instance:
  "db_users (set_instance u x w) v = Some s \<longleftrightarrow> (if v = u then \<exists>t. db_users w u = Some t \<and> s = t\<lparr>conn_instance := x\<rparr> else db_users w v = Some s)"
  by (auto simp: set_instance_def)

lemma data_key_upd [simp]: "data_key (s\<lparr>conn_instance := x\<rparr>) = data_key s"
  by (simp add: data_key_def)

text \<open>A user gives its connection up, or gets one; the connection is thrown away, or made.\<close>

lemma drop_instance_ok:
  assumes ok: "db_ok w" and u: "db_users w u = Some s" "conn_instance s = Some a"
  shows "db_ok (set_instance u None (drop_conns [a] w))"
proof -
  let ?w = "set_instance u None (drop_conns [a] w)"
  have a: "holds w u = Some a" using u by (simp add: holds_def)
  then have other: "holds w v \<noteq> Some a" if "v \<noteq> u" for v using ok that by (auto simp: db_ok_def holders_ok_def)
  have not_free: "a \<notin> set (pool_free p)" if "db_pools w k = Some p" for k p
    using ok that a by (auto simp: db_ok_def free_ok_def)
  have "sizes_ok ?w" using ok by (simp add: db_ok_def sizes_ok_def)
  moreover have "holders_ok ?w"
    using ok u other unfolding db_ok_def holders_ok_def
    by (auto simp: users_set_instance holds_def split: if_splits option.splits)
  moreover have "free_ok ?w"
    using ok not_free unfolding db_ok_def free_ok_def by (fastforce split: if_splits)
  ultimately show ?thesis by (simp add: db_ok_def)
qed

lemma give_instance_ok:
  assumes ok: "db_ok w" and u: "db_users w u = Some s" "conn_instance s = None"
    and a: "login_key w a = Some (data_key s)" "\<forall>v. holds w v \<noteq> Some a" "\<forall>k p. db_pools w k = Some p \<longrightarrow> a \<notin> set (pool_free p)"
    and pool: "conn_pooled s \<longrightarrow> (\<exists>p. db_pools w (data_key s) = Some p \<and> a |\<in>| pool_working p)"
  shows "db_ok (set_instance u (Some a) w)"
proof -
  let ?w = "set_instance u (Some a) w"
  have "sizes_ok ?w" using ok by (simp add: db_ok_def sizes_ok_def)
  moreover have "holders_ok ?w"
    using ok u a pool unfolding db_ok_def holders_ok_def
    by (auto simp: users_set_instance split: if_splits)
  moreover have "free_ok ?w"
    using ok a(3) unfolding db_ok_def free_ok_def by (fastforce split: if_splits)
  ultimately show ?thesis by (simp add: db_ok_def)
qed

lemma new_address_ok:
  assumes ok: "db_ok w" and a: "db_live w a = None"
  shows "db_ok (new_connection_ex a s w)" "\<forall>v. holds w v \<noteq> Some a" "\<forall>k p. db_pools w k = Some p \<longrightarrow> a \<notin> set (pool_free p)"
proof -
  have dead: "login_key w a = None" using a by (simp add: login_key_def)
  show nobody: "\<forall>v. holds w v \<noteq> Some a"
    using ok dead by (fastforce simp: db_ok_def holders_ok_def holds_def split: option.splits)
  show "\<forall>k p. db_pools w k = Some p \<longrightarrow> a \<notin> set (pool_free p)" using ok dead by (fastforce simp: db_ok_def free_ok_def)
  have "conn_instance t \<noteq> Some a" if "db_users w v = Some t" for v t
    using nobody [rule_format, of v] that by (simp add: holds_def)
  then have "holders_ok (new_connection_ex a s w)"
    using ok unfolding db_ok_def holders_ok_def by auto
  moreover have "free_ok (new_connection_ex a s w)"
    using ok dead unfolding db_ok_def free_ok_def by fastforce
  ultimately show "db_ok (new_connection_ex a s w)" using ok by (simp add: db_ok_def sizes_ok_def)
qed

text \<open>A pool changes: its free connections become fewer, and those that go are thrown away or handed out.\<close>

lemma pool_changes_ok:
  assumes ok: "db_ok w" and p: "db_pools w k = Some p" and q: "pool_max_size q = 5" "pool_min_size q = 50" "pool_total q \<le> 5"
    "pool_working p |\<subseteq>| pool_working q" "distinct (pool_free q)" "set (pool_free q) \<subseteq> set (pool_free p) - set dead"
    and dead: "set dead \<subseteq> set (pool_free p)"
  shows "db_ok (put_pool k q (drop_conns dead w))"
proof -
  let ?w = "put_pool k q (drop_conns dead w)"
  have free: "login_key w a = Some k" "holds w u \<noteq> Some a" if "a \<in> set dead" for a u
    using ok p dead that by (auto simp: db_ok_def free_ok_def)
  have "sizes_ok ?w" using ok q unfolding db_ok_def sizes_ok_def by (auto simp: ran_def)
  moreover have "holders_ok ?w"
    unfolding holders_ok_def
  proof (intro conjI allI impI)
    fix u v a
    assume "holds ?w u = Some a" "holds ?w v = Some a"
    then show "u = v" using ok by (auto simp: db_ok_def holders_ok_def)
  next
    fix u s a
    assume u: "db_users ?w u = Some s" "conn_instance s = Some a"
    then have "holds w u = Some a" by (simp add: holds_def)
    then have "a \<notin> set dead" using free(2) by blast
    then show "login_key ?w a = Some (data_key s)" using holder(1) [OF ok, of u s a] u by simp
    assume "conn_pooled s"
    then obtain r where "db_pools w (data_key s) = Some r" "a |\<in>| pool_working r"
      using holder(2) [OF ok, of u s a] u by auto
    then show "\<exists>r. db_pools ?w (data_key s) = Some r \<and> a |\<in>| pool_working r" using p q(4) by auto
  qed
  moreover have "free_ok ?w"
    using ok p q(5,6) free(1) unfolding db_ok_def free_ok_def by (fastforce split: if_splits)
  ultimately show ?thesis by (simp add: db_ok_def)
qed

lemma new_pool_ok:
  assumes "db_ok w" "db_pools w k = None"
  shows "db_ok (put_pool k (new_conn_pool 50 5) w)"
proof -
  have "holders_ok (put_pool k (new_conn_pool 50 5) w)"
    using assms unfolding db_ok_def holders_ok_def by fastforce
  moreover have "sizes_ok (put_pool k (new_conn_pool 50 5) w)" "free_ok (put_pool k (new_conn_pool 50 5) w)"
    using assms unfolding db_ok_def sizes_ok_def free_ok_def
    by (auto simp: new_conn_pool_def pool_total_def fcard_fempty ran_def split: if_splits)
  ultimately show ?thesis by (simp add: db_ok_def)
qed

section \<open>Opening and closing\<close>

lemma take_free_split:
  "take_free ok as = (dead, found, rest) \<Longrightarrow> as = dead @ (case found of None \<Rightarrow> rest | Some a \<Rightarrow> a # rest) \<and> (found = None \<longrightarrow> rest = [])"
  by (induction as arbitrary: dead) (auto split: if_splits prod.splits option.splits)

lemma choose_schema_ok: "db_ok (snd (choose_schema u database r)) = db_ok (snd r)"
  by (auto simp: choose_schema_def db_ok_def sizes_ok_def holders_ok_def free_ok_def holds_def login_key_def
    split: prod.splits sum.splits option.splits)

lemma choose_schema_same [simp]:
  "db_pools (snd (choose_schema u database r)) = db_pools (snd r)" "db_users (snd (choose_schema u database r)) = db_users (snd r)"
  by (auto simp: choose_schema_def split: prod.splits sum.splits option.splits)

lemma get_connection_ok:
  assumes ok: "db_ok w" and u: "db_users w u = Some s" "conn_instance s = None" "conn_pooled s" and fresh: "fresh_address fresh w"
  shows "db_ok (snd (get_connection_from_pool good fresh u s w))"
proof -
  let ?k = "data_key s"
  define p where "p = (case db_pools w ?k of Some p \<Rightarrow> p | None \<Rightarrow> new_conn_pool 50 5)"
  let ?w = "put_pool ?k p w"
  have w: "db_ok ?w" using new_pool_ok [OF ok] ok by (cases "db_pools w ?k") (auto simp: p_def put_pool_def fun_upd_idem)
  have p: "db_pools ?w ?k = Some p" by simp
  have size: "pool_max_size p = 5" "pool_min_size p = 50" using pool_size [OF w p] by simp_all
  note free = pool_free_ok [OF w p]
  show ?thesis
  proof (cases "pool_total p \<ge> 5")
    case True
    then show ?thesis using w size by (simp add: get_connection_from_pool_def Let_def p_def [symmetric] pool_total_def)
  next
    case False
    obtain dead found rest where t: "take_free good (pool_free p) = (dead, found, rest)" by (metis prod_cases3)
    note parts = take_free_split [OF t]
    let ?put = "\<lambda>W. put_pool ?k (p\<lparr>pool_free := rest, pool_working := W\<rparr>) (drop_conns dead ?w)"
    have put: "db_ok (?put W)" if "pool_working p |\<subseteq>| W" "length rest + fcard W \<le> 5" for W
    proof (rule pool_changes_ok [OF w p])
      show "set (pool_free (p\<lparr>pool_free := rest, pool_working := W\<rparr>)) \<subseteq> set (pool_free p) - set dead"
        using parts free(1) by (auto split: option.splits)
    qed (use parts free(1) that size in \<open>auto simp: pool_total_def split: option.splits\<close>)
    have one: "length rest + fcard (finsert a (pool_working p)) \<le> 5" for a
      using False parts by (auto simp: pool_total_def fcard_finsert_if split: option.splits)
    have same: "?put (pool_working p) = put_pool ?k (p\<lparr>pool_free := rest\<rparr>) (drop_conns dead ?w)" by simp
    have users: "db_users (?put W) u = Some s" for W using u by simp
    have run: "get_connection_from_pool good fresh u s w = (case found of
        Some a \<Rightarrow> (Inr (as_int (Some a)), set_instance u (Some a) (?put (finsert a (pool_working p))))
      | None \<Rightarrow> connect_new fresh u s (p\<lparr>pool_free := rest\<rparr>) (drop_conns dead ?w))"
      using False size t by (cases found) (simp_all add: get_connection_from_pool_def Let_def p_def [symmetric] pool_total_def)
    have old: "db_ok (?put (pool_working p))" using False parts by (intro put) (auto simp: pool_total_def split: option.splits)
    show ?thesis
    proof (cases found)
      case None
      have "db_ok (set_instance u (Some a) (new_connection_ex a s (?put (finsert a (pool_working p)))))" if "fresh = Some (a, True)" for a
      proof -
        have put_a: "db_ok (?put (finsert a (pool_working p)))" using one by (intro put) auto
        have "db_live (?put (finsert a (pool_working p))) a = None"
          using fresh that by (simp add: fresh_address_def drop_conns_def restrict_map_def)
        note new_address_ok [OF put_a this]
        then show ?thesis using u by (intro give_instance_ok) auto
      qed
      then show ?thesis using old run None unfolding connect_new_def same
        by (auto split: option.splits prod.splits)
    next
      case (Some a)
      have a: "a \<in> set (pool_free p)" "a \<notin> set dead" "a \<notin> set rest" using parts Some free(1) by auto
      have "db_ok (?put (finsert a (pool_working p)))" using one by (intro put) auto
      then have "db_ok (set_instance u (Some a) (?put (finsert a (pool_working p))))"
      proof (rule give_instance_ok [OF _ users])
        show "\<forall>k q. db_pools (?put (finsert a (pool_working p))) k = Some q \<longrightarrow> a \<notin> set (pool_free q)"
        proof (intro allI impI)
          fix k q
          assume q: "db_pools (?put (finsert a (pool_working p))) k = Some q"
          show "a \<notin> set (pool_free q)"
          proof (cases "k = ?k")
            case False
            then have "db_pools ?w k = Some q" using q by simp
            from pool_free_ok(2) [OF w this, of a] show ?thesis using free(2) [OF a(1)] False by auto
          qed (use q a(3) in auto)
        qed
      qed (use u a free(2) [OF a(1)] in auto)
      then show ?thesis using run Some by simp
    qed
  qed
qed

lemma open_alone_ok:
  assumes ok: "db_ok w" and u: "db_users w u = Some s" "conn_instance s = None" "\<not> conn_pooled s" and fresh: "fresh_address fresh w"
  shows "db_ok (snd (open_alone fresh u s w))"
proof -
  have "db_ok (set_instance u (Some a) (new_connection_ex a s w))" if "fresh = Some (a, g)" for a g
  proof -
    have "db_live w a = None" using fresh that by (simp add: fresh_address_def)
    note new_address_ok [OF ok this]
    then show ?thesis using u by (intro give_instance_ok) auto
  qed
  then show ?thesis using ok by (auto simp: open_alone_def split: option.splits prod.splits)
qed

lemma open_new_ok:
  assumes "db_ok w" "db_users w u = Some s" "conn_instance s = None" "fresh_address fresh w"
  shows "db_ok (snd (open_new good fresh junk u database s w))"
  using get_connection_ok [OF assms(1-3) _ assms(4), of good] open_alone_ok [OF assms(1-3) _ assms(4)]
  by (auto simp: open_new_def choose_schema_ok split: prod.splits sum.splits)

lemma open_ok:
  assumes ok: "db_ok w" and fresh: "fresh_address fresh w"
  shows "db_ok (snd (sql_open good fresh junk u database w))"
proof (cases "db_users w u")
  case None
  then show ?thesis using ok by (simp add: sql_open_def)
next
  case u: (Some s)
  show ?thesis
  proof (cases "conn_instance s")
    case None
    then show ?thesis using open_new_ok [OF ok u None fresh] u by (simp add: sql_open_def)
  next
    case (Some a)
    let ?v = "set_instance u None (drop_conns [a] w)"
    have "fresh_address fresh ?v" using fresh by (auto simp: fresh_address_def drop_conns_def restrict_map_def split: option.splits)
    moreover have "db_users ?v u = Some (s\<lparr>conn_instance := None\<rparr>)" using u by (simp add: users_set_instance)
    ultimately have "db_ok (snd (open_new good fresh junk u database (s\<lparr>conn_instance := None\<rparr>) ?v))"
      by (intro open_new_ok drop_instance_ok [OF ok u Some]) simp_all
    then show ?thesis using ok u Some by (simp add: sql_open_def)
  qed
qed

lemma db_ok_cong:
  assumes "db_ok w" "db_pools v = db_pools w" "db_users v = db_users w" "login_key v = login_key w"
  shows "db_ok v"
  using assms by (simp add: db_ok_def sizes_ok_def holders_ok_def free_ok_def holds_def)

text \<open>A connection goes back to the free ones of its pool.\<close>

lemma give_up_ok:
  assumes ok: "db_ok w" and u: "db_users w u = Some s" "conn_instance s = Some a" and p: "db_pools w (data_key s) = Some p"
    and q: "pool_working q = pool_working p |-| {|a|}" "pool_free q = a # pool_free p" "pool_max_size q = 5" "pool_min_size q = 50"
      "pool_total q \<le> 5"
    and a: "a \<notin> set (pool_free p)"
  shows "db_ok (set_instance u None (put_pool (data_key s) q w))"
proof -
  let ?w = "set_instance u None (put_pool (data_key s) q w)"
  have here: "holds w u = Some a" using u by (simp add: holds_def)
  have other: "holds w v \<noteq> Some a" if "v \<noteq> u" for v using ok here that by (auto simp: db_ok_def holders_ok_def)
  have "sizes_ok ?w" using ok q unfolding db_ok_def sizes_ok_def by (auto simp: ran_def)
  moreover have "holders_ok ?w"
    unfolding holders_ok_def
  proof (intro conjI allI impI)
    fix x y b
    assume "holds ?w x = Some b" "holds ?w y = Some b"
    then show "x = y" using ok u(1) by (auto simp: db_ok_def holders_ok_def split: if_splits)
  next
    fix x t b
    assume t: "db_users ?w x = Some t" "conn_instance t = Some b"
    then have x: "x \<noteq> u" "db_users w x = Some t" by (auto simp: users_set_instance split: if_splits)
    then have b: "b \<noteq> a" using other [OF x(1)] t by (auto simp: holds_def)
    show "login_key ?w b = Some (data_key t)" using holder(1) [OF ok x(2) t(2)] by simp
    assume "conn_pooled t"
    then obtain r where "db_pools w (data_key t) = Some r" "b |\<in>| pool_working r" using holder(2) [OF ok x(2) t(2)] by blast
    then show "\<exists>r. db_pools ?w (data_key t) = Some r \<and> b |\<in>| pool_working r"
      using p b by (cases "data_key t = data_key s") (simp_all add: q(1))
  qed
  moreover have "free_ok ?w"
    unfolding free_ok_def
  proof (intro allI impI)
    fix k r
    assume "db_pools ?w k = Some r"
    then consider "k = data_key s" "r = q" | "k \<noteq> data_key s" "db_pools w k = Some r" by (auto split: if_splits)
    then show "distinct (pool_free r) \<and> (\<forall>b \<in> set (pool_free r). login_key ?w b = Some k \<and> (\<forall>v. holds ?w v \<noteq> Some b))"
    proof cases
      case 1
      then show ?thesis using pool_free_ok [OF ok p] holder(1) [OF ok u] q(2) a other u(1) by auto
    next
      case 2
      then show ?thesis using pool_free_ok [OF ok 2(2)] u(1) by auto
    qed
  qed
  ultimately show ?thesis by (simp add: db_ok_def)
qed

lemma close_ok:
  assumes ok: "db_ok w"
  shows "db_ok (sql_close pause u w)"
proof (cases "holds w u")
  case None
  then show ?thesis using ok by (auto simp: sql_close_def holds_def split: option.splits)
next
  case (Some a)
  then obtain s where u: "db_users w u = Some s" "conn_instance s = Some a" by (auto simp: holds_def split: option.splits)
  show ?thesis
  proof (cases "conn_pooled s")
    case False
    then show ?thesis using drop_instance_ok [OF ok u] u by (simp add: sql_close_def)
  next
    case True
    then obtain p where p: "db_pools w (data_key s) = Some p" "a |\<in>| pool_working p" and login: "login_key w a = Some (data_key s)"
      using holder [OF ok u] by blast
    let ?k = "data_key s" and ?q = "p\<lparr>pool_working := pool_working p |-| {|a|}, pool_free := a # pool_free p\<rparr>"
    let ?v = "w\<lparr>db_live := (db_live w)(a := map_option (\<lambda>c. c\<lparr>actived_date := tick_restart (db_clock w)\<rparr>) (db_live w a))\<rparr>"
    have size: "pool_max_size p = 5" "pool_min_size p = 50" "pool_total p \<le> 5"
      using pool_size [OF ok p(1)] by simp_all
    have total: "pool_total ?q = pool_total p" using fcard_Suc_fminus1 [OF p(2)] by (simp add: pool_total_def)
    have run: "sql_close pause u w = set_instance u None (put_pool ?k ?q ?v)"
      using u True p size total by (simp add: sql_close_def shrink_pool_def Let_def pool_total_def)
    have key: "login_key ?v b = login_key w b" for b by (simp add: login_key_def split: option.splits)
    have others: "holds w v \<noteq> Some a" if "v \<noteq> u" for v using ok Some that by (auto simp: db_ok_def holders_ok_def)
    have "a \<notin> set (pool_free p)" using ok Some p by (auto simp: db_ok_def free_ok_def)
    have v: "db_ok ?v" by (rule db_ok_cong [OF ok]) (simp_all add: key fun_eq_iff)
    have "db_ok (set_instance u None (put_pool ?k ?q ?v))"
      by (rule give_up_ok [OF v]) (use u p size total others \<open>a \<notin> set (pool_free p)\<close> in \<open>auto simp: holds_def\<close>)
    then show ?thesis using run by simp
  qed
qed

section \<open>Reachable states\<close>

lemma reset_user_ok:
  assumes ok: "db_ok w" and x: "\<forall>s. x = Some s \<longrightarrow> conn_instance s = None"
  shows "db_ok (w\<lparr>db_users := (db_users w)(u := x)\<rparr>)"
proof -
  let ?w = "w\<lparr>db_users := (db_users w)(u := x)\<rparr>"
  have key: "login_key ?w = login_key w" by (simp add: fun_eq_iff login_key_def)
  have holds: "holds ?w v = (if v = u then None else holds w v)" for v
    using x by (auto simp: holds_def split: option.splits)
  have "holders_ok ?w"
    unfolding holders_ok_def
  proof (intro conjI allI impI)
    fix v v' a
    assume "holds ?w v = Some a" "holds ?w v' = Some a"
    then show "v = v'" using ok by (auto simp: holds db_ok_def holders_ok_def split: if_splits)
  next
    fix v s a
    assume s: "db_users ?w v = Some s" "conn_instance s = Some a"
    then have v: "db_users w v = Some s" using x by (auto split: if_splits)
    show "login_key ?w a = Some (data_key s)" using holder(1) [OF ok v s(2)] key by simp
    assume "conn_pooled s"
    then show "\<exists>p. db_pools ?w (data_key s) = Some p \<and> a |\<in>| pool_working p" using holder(2) [OF ok v s(2)] by simp
  qed
  moreover have "free_ok ?w" using ok by (simp add: db_ok_def free_ok_def key holds)
  ultimately show ?thesis using ok by (simp add: db_ok_def sizes_ok_def)
qed

lemma step_ok: "db_step w v \<Longrightarrow> db_ok w \<Longrightarrow> db_ok v"
proof (induction rule: db_step.induct)
  case (created w u host user database pool_mode)
  then show ?case unfolding new_sql_connection_def by (simp add: reset_user_ok)
next
  case (destroyed pause w u)
  then show ?case unfolding sql_destroy_def Let_def by (simp add: reset_user_ok close_ok)
next
  case (later ms w)
  then show ?case by (simp add: db_ok_cong login_key_def fun_eq_iff)
qed (simp_all add: open_ok close_ok)

interpretation db_order: step_invariant db_step db_ok
  by unfold_locales (rule step_ok)

lemma reachable_ok: "db_reachable w \<Longrightarrow> db_ok w"
  unfolding db_reachable_def using db_order.steps_good empty_ok by blast

end
