(* ===== verification/DbPoolFull.thy ===== *)
theory DbPoolFull
  imports DbPoolOk
begin

text \<open>A pool of database connections that has its five connections stays full; what holds of every reachable state; an example.\<close>

section \<open>A full pool stays full\<close>

definition full :: "string \<Rightarrow> db \<Rightarrow> bool" where
  "full k w \<longleftrightarrow> (\<exists>p. db_pools w k = Some p \<and> pool_total p = 5)"

lemma get_full:
  assumes ok: "db_ok w" and f: "full k w"
  shows "full k (snd (get_connection_from_pool good fresh u s w))"
proof (cases "data_key s = k")
  case True
  then obtain p where p: "db_pools w (data_key s) = Some p" "pool_total p = 5" using f by (auto simp: full_def)
  then show ?thesis using pool_size [OF ok p(1)] True
    by (simp add: get_connection_from_pool_def Let_def pool_total_def full_def)
next
  case False
  then have "full k (put_pool (data_key s) q v) = full k v" for q v by (simp add: full_def)
  moreover have "full k (set_instance u x v) = full k v" "full k (drop_conns as v) = full k v"
    "full k (new_connection_ex b t v) = full k v" for u x v as b t by (simp_all add: full_def)
  ultimately show ?thesis using f
    by (auto simp: get_connection_from_pool_def connect_new_def Let_def split: prod.splits option.splits)
qed

lemma full_same [simp]:
  "full k (set_instance u x w) = full k w" "full k (drop_conns as w) = full k w" "full k (new_connection_ex b t w) = full k w"
  "full k (snd (choose_schema u database r)) = full k (snd r)" "full k (w\<lparr>db_users := us\<rparr>) = full k w" "full k (w\<lparr>db_clock := c\<rparr>) = full k w"
  by (simp_all add: full_def)

lemma open_new_full:
  assumes "db_ok w" "full k w"
  shows "full k (snd (open_new good fresh junk u database s w))"
  using get_full [OF assms, of good fresh u s] assms(2)
  by (auto simp: open_new_def open_alone_def split: prod.splits sum.splits option.splits)

lemma open_full:
  assumes ok: "db_ok w" and f: "full k w"
  shows "full k (snd (sql_open good fresh junk u database w))"
proof (cases "db_users w u")
  case u: (Some s)
  show ?thesis
  proof (cases "conn_instance s")
    case None
    then show ?thesis using open_new_full [OF ok f] u by (simp add: sql_open_def)
  next
    case (Some a)
    have "full k (set_instance u None (drop_conns [a] w))" using f by simp
    then show ?thesis using open_new_full [OF drop_instance_ok [OF ok u Some]] u Some f by (simp add: sql_open_def)
  qed
qed (use f in \<open>simp add: sql_open_def\<close>)

lemma close_full:
  assumes ok: "db_ok w" and f: "full k w"
  shows "full k (sql_close pause u w)"
proof (cases "holds w u")
  case None
  then show ?thesis using f by (auto simp: sql_close_def holds_def split: option.splits)
next
  case (Some a)
  then obtain s where u: "db_users w u = Some s" "conn_instance s = Some a" by (auto simp: holds_def split: option.splits)
  show ?thesis
  proof (cases "conn_pooled s")
    case False
    then show ?thesis using f u by (simp add: sql_close_def full_def)
  next
    case True
    then obtain p where p: "db_pools w (data_key s) = Some p" "a |\<in>| pool_working p" using holder(2) [OF ok u] by blast
    let ?q = "p\<lparr>pool_working := pool_working p |-| {|a|}, pool_free := a # pool_free p\<rparr>"
    have total: "pool_total ?q = pool_total p" using fcard_Suc_fminus1 [OF p(2)] by (simp add: pool_total_def)
    then have "db_pools (sql_close pause u w) = (db_pools w)(data_key s \<mapsto> ?q)"
      using u True p pool_size [OF ok p(1)] by (simp add: sql_close_def shrink_pool_def Let_def pool_total_def)
    then show ?thesis using f p total by (auto simp: full_def)
  qed
qed

lemma step_full: "db_step w v \<Longrightarrow> db_ok w \<Longrightarrow> full k w \<Longrightarrow> full k v"
proof (induction rule: db_step.induct)
  case (destroyed pause w u)
  then show ?case using close_full [of w k pause u] by (simp add: sql_destroy_def Let_def)
qed (simp_all add: open_full close_full new_sql_connection_def)

interpretation db_full: step_invariant db_step "\<lambda>w. db_ok w \<and> full k w" for k
  by unfold_locales (auto intro: step_ok step_full)

section \<open>Properties\<close>

lemma first_separator: "x \<notin> set xs \<Longrightarrow> x \<notin> set ys \<Longrightarrow> xs @ x # us = ys @ x # vs \<longleftrightarrow> xs = ys \<and> us = vs"
proof (induction xs arbitrary: ys)
  case (Cons a xs)
  then show ?case by (cases ys) auto
qed (case_tac ys; auto)

text \<open>
  C39. In every reachable state a pool has at most five connections, used and free together; no two objects hold the same
  connection, and a connection that is held was made for the host and user of its holder, provided that the names of the hosts have no
  underscore.
\<close>

theorem own_connections:
  assumes "db_reachable w"
  shows "(\<forall>k p. db_pools w k = Some p \<longrightarrow> length (pool_free p) + fcard (pool_working p) \<le> 5) \<and>
    (\<forall>u s a. db_users w u = Some s \<and> conn_instance s = Some a \<longrightarrow>
      (\<forall>v t. db_users w v = Some t \<and> conn_instance t = Some a \<longrightarrow> v = u) \<and>
      (\<exists>c. db_live w a = Some c \<and> (CHR ''_'' \<notin> set (conn_host s) \<union> set (fst (native_login c)) \<longrightarrow>
        native_login c = (conn_host s, conn_user s))))"
proof (intro conjI allI impI; (elim conjE)?)
  note ok = reachable_ok [OF assms]
  show "length (pool_free p) + fcard (pool_working p) \<le> 5" if "db_pools w k = Some p" for k p
    using pool_size(3) [OF ok that] by (simp add: pool_total_def)
  fix u s a
  assume u: "db_users w u = Some s" "conn_instance s = Some a"
  show "v = u" if "db_users w v = Some t" "conn_instance t = Some a" for v t
  proof -
    have "holds w v = Some a" "holds w u = Some a" using u that by (simp_all add: holds_def)
    then show ?thesis using ok unfolding db_ok_def holders_ok_def by blast
  qed
  obtain c where c: "db_live w a = Some c" "fst (native_login c) @ ''_'' @ snd (native_login c) = data_key s"
    using holder(1) [OF ok u] by (auto simp: login_key_def split: option.splits)
  have "native_login c = (conn_host s, conn_user s)" if "CHR ''_'' \<notin> set (conn_host s) \<union> set (fst (native_login c))"
    using c(2) that first_separator [of "CHR ''_''" "fst (native_login c)" "conn_host s"] by (auto simp: data_key_def prod_eq_iff)
  then show "\<exists>c. db_live w a = Some c \<and> (CHR ''_'' \<notin> set (conn_host s) \<union> set (fst (native_login c)) \<longrightarrow>
      native_login c = (conn_host s, conn_user s))" using c(1) by blast
qed

text \<open>
  C40. A pool that has five connections refuses every later attempt to open one, for ever and without a change of the state, even when all
  five are free: the sizes were given to the pool in the wrong order, and the check for room comes before the look at the free ones.
\<close>

theorem full_pool_refuses:
  assumes "db_reachable w" "db_pools w k = Some p" "length (pool_free p) + fcard (pool_working p) = 5" "db_step\<^sup>*\<^sup>* w v"
    and "db_users v u = Some s" "conn_pooled s" "conn_instance s = None" "data_key s = k"
  shows "sql_open good fresh junk u database v = (Inl Sql_exception, v)"
proof -
  have "full k w" using assms(2,3) by (simp add: full_def pool_total_def)
  then have v: "db_ok v" "full k v" using db_full.steps_good [OF assms(4), of k] reachable_ok [OF assms(1)] by blast+
  then obtain q where q: "db_pools v k = Some q" "pool_total q = 5" by (auto simp: full_def)
  have "get_connection_from_pool good fresh u s v = (Inl Sql_exception, v)"
    using q pool_size [OF v(1) q(1)] assms(8)
    by (simp add: get_connection_from_pool_def Let_def pool_total_def put_pool_def fun_upd_idem)
  then show ?thesis using assms(5-7) by (simp add: sql_open_def open_new_def choose_schema_def)
qed

section \<open>An example\<close>

text \<open>Five users of one pool open a connection each, and close it again; a sixth comes.\<close>

definition open_one :: "nat \<Rightarrow> db \<Rightarrow> db" where
  "open_one u w = snd (sql_open (\<lambda>a. True) (Some (u + 1, True)) 0 u None (new_sql_connection u ''db'' ''root'' ''game'' True w))"

definition five_open :: db where
  "five_open = fold open_one [0, 1, 2, 3, 4] empty_db"

definition five_free :: db where
  "five_free = fold (sql_close 0) [0, 1, 2, 3, 4] five_open"

lemma reach_step: "db_reachable w \<Longrightarrow> db_step w v \<Longrightarrow> db_reachable v"
  unfolding db_reachable_def by (rule rtranclp.rtrancl_into_rtrancl)

lemma reach_close: "db_reachable w \<Longrightarrow> db_reachable (sql_close 0 u w)"
  by (rule reach_step [OF _ db_step.closed]) simp_all

lemma reach_open_one:
  assumes "db_reachable w" "db_users w u = None" "db_live w (u + 1) = None"
  shows "db_reachable (open_one u w)"
proof -
  let ?v = "new_sql_connection u ''db'' ''root'' ''game'' True w"
  have "db_reachable ?v" by (rule reach_step [OF assms(1) db_step.created [where w = w, OF assms(2)]])
  moreover have "fresh_address (Some (u + 1, True)) ?v" using assms(3) by (simp add: fresh_address_def new_sql_connection_def)
  ultimately show ?thesis unfolding open_one_def by (rule reach_step [OF _ db_step.opened])
qed

fun can_open :: "nat list \<Rightarrow> db \<Rightarrow> bool" where
  "can_open [] w = True"
| "can_open (u # us) w = (db_users w u = None \<and> db_live w (u + 1) = None \<and> can_open us (open_one u w))"

lemma reach_opens: "can_open us w \<Longrightarrow> db_reachable w \<Longrightarrow> db_reachable (fold open_one us w)"
  by (induction us arbitrary: w) (simp_all add: reach_open_one)

lemma five_open_reachable: "db_reachable five_open"
  unfolding five_open_def
proof (rule reach_opens)
  show "can_open [0, 1, 2, 3, 4] empty_db" by code_simp
qed (simp add: db_reachable_def)

lemma five_free_reachable: "db_reachable five_free"
  unfolding five_free_def by (simp add: reach_close five_open_reachable)

lemma five_free_pool:
  "case db_pools five_free ''db_root'' of None \<Rightarrow> False | Some p \<Rightarrow> length (pool_free p) = 5 \<and> fcard (pool_working p) = 0"
  by code_simp

lemma five_open_user: "case db_users five_open 3 of None \<Rightarrow> False | Some s \<Rightarrow> conn_instance s = Some 4 \<and> conn_host s = ''db''"
  by code_simp

lemma own_connections_witness: "\<exists>c. db_live five_open 4 = Some c"
proof -
  obtain s where "db_users five_open 3 = Some s" "conn_instance s = Some 4" using five_open_user by (auto split: option.splits)
  then show ?thesis using own_connections [OF five_open_reachable] by blast
qed

lemma full_pool_refuses_witness:
  "sql_open (\<lambda>a. True) (Some (77, True)) 0 9 None (new_sql_connection 9 ''db'' ''root'' ''game'' True five_free) =
     (Inl Sql_exception, new_sql_connection 9 ''db'' ''root'' ''game'' True five_free)"
proof -
  obtain p where p: "db_pools five_free ''db_root'' = Some p" "length (pool_free p) + fcard (pool_working p) = 5"
    using five_free_pool by (auto split: option.splits)
  have "db_users five_free 9 = None" by code_simp
  then have "db_step\<^sup>*\<^sup>* five_free (new_sql_connection 9 ''db'' ''root'' ''game'' True five_free)"
    by (intro r_into_rtranclp db_step.created)
  from full_pool_refuses [OF five_free_reachable p this] show ?thesis
    by (simp add: new_sql_connection_def data_key_def)
qed

text \<open>A host and a user that are put together to the same key share a pool: the connection made for one is handed to the other.\<close>

lemma shared_key:
  "let w = new_sql_connection 1 ''db'' ''a_b'' ''game'' True (sql_close 0 0 (snd (sql_open (\<lambda>a. True) (Some (5, True)) 0 0 None
       (new_sql_connection 0 ''db_a'' ''b'' ''game'' True empty_db))));
     v = snd (sql_open (\<lambda>a. True) None 0 1 None w)
   in (case db_users v 1 of None \<Rightarrow> False | Some s \<Rightarrow> conn_instance s = Some 5 \<and>
     map_option native_login (db_live v 5) = Some (''db_a'', ''b'') \<and> (conn_host s, conn_user s) = (''db'', ''a_b''))"
  by code_simp

end
