(* ===== verification/HttpExchange.thy ===== *)
theory HttpExchange
  imports Requests Format
begin

text \<open>
  The exchange of a request with its server (\<^verbatim>\<open>src/src/service/http_request.h\<close>): one operation per handler, from the
  resolution of the name to the end of the content. Bytes come in pieces of any size; a read until a delimiter completes when the
  buffer has the delimiter, with an error when the stream ends before. A stream is what is left of the buffer and the bits
  \<^verbatim>\<open>eofbit\<close> and \<^verbatim>\<open>failbit\<close>. Console output is left out.
\<close>

section \<open>Streams\<close>

record istream =
  ibuf :: string
  ieof :: bool
  ifail :: bool

definition istream_of :: "string \<Rightarrow> istream" where
  "istream_of b = \<lparr>ibuf = b, ieof = False, ifail = False\<rparr>"

definition LF :: char where "LF = char_of (10 :: nat)"
definition CR :: char where "CR = char_of (13 :: nat)"

text \<open>Formatted input starts by skipping blanks.\<close>

definition skip_blanks :: "istream \<Rightarrow> istream" where
  "skip_blanks s = (if ieof s \<or> ifail s then s\<lparr>ifail := True\<rparr>
     else let b = dropWhile is_space (ibuf s) in
       if b = [] then \<lparr>ibuf = [], ieof = True, ifail = True\<rparr> else s\<lparr>ibuf := b\<rparr>)"

text \<open>\<^verbatim>\<open>>> std::string\<close>, \<^verbatim>\<open>>> unsigned int\<close>, \<^verbatim>\<open>std::getline\<close>\<close>

definition read_word :: "istream \<Rightarrow> string \<times> istream" where
  "read_word s = (let s = skip_blanks s in if ifail s then ([], s)
     else let rest = dropWhile (\<lambda>c. \<not> is_space c) (ibuf s) in
       (takeWhile (\<lambda>c. \<not> is_space c) (ibuf s), s\<lparr>ibuf := rest, ieof := (rest = [])\<rparr>))"

definition read_unsigned :: "istream \<Rightarrow> 32 word \<times> istream" where
  "read_unsigned s = (let s = skip_blanks s in if ifail s then (0, s)
     else let b = ibuf s; minus = (hd b = CHR ''-''); b = (if hd b = CHR ''-'' \<or> hd b = CHR ''+'' then tl b else b);
         digits = takeWhile is_digit b; rest = dropWhile is_digit b; n = read_digits digits 0;
         s = s\<lparr>ibuf := rest, ieof := (rest = [])\<rparr> in
       if digits = [] then (0, s\<lparr>ifail := True\<rparr>)
       else if n \<ge> 2 ^ 32 then (- 1, s\<lparr>ifail := True\<rparr>)
       else (if minus then - word_of_int n else word_of_int n, s))"

definition getline :: "istream \<Rightarrow> string \<times> istream" where
  "getline s = (if ieof s \<or> ifail s then ([], s\<lparr>ifail := True\<rparr>)
     else if LF \<in> set (ibuf s) then (takeWhile (\<lambda>c. c \<noteq> LF) (ibuf s), s\<lparr>ibuf := tl (dropWhile (\<lambda>c. c \<noteq> LF) (ibuf s))\<rparr>)
     else (ibuf s, \<lparr>ibuf = [], ieof = True, ifail = (ibuf s = [])\<rparr>))"

section \<open>The handlers\<close>

datatype http_error = No_error | Eof | Other_error int

text \<open>What the request waits for; nothing once the callback has been called.\<close>

datatype http_wait = Resolving | Connecting | Writing | Status_line | Headers | Content

record http_exchange =
  http_waits :: "http_wait option"
  response :: string
  http_answers :: "(http_error \<times> int) list"

definition new_exchange :: http_exchange where
  "new_exchange = \<lparr>http_waits = Some Resolving, response = [], http_answers = []\<rparr>"

definition call_back :: "http_error \<Rightarrow> int \<Rightarrow> http_exchange \<Rightarrow> http_exchange" where
  "call_back err code st = st\<lparr>http_waits := None, http_answers := http_answers st @ [(err, code)]\<rparr>"

definition handle_resolve :: "http_error \<Rightarrow> http_exchange \<Rightarrow> http_exchange" where
  "handle_resolve err st = (if err = No_error then st\<lparr>http_waits := Some Connecting\<rparr> else call_back err 0 st)"

definition handle_connect :: "http_error \<Rightarrow> http_exchange \<Rightarrow> http_exchange" where
  "handle_connect err st = (if err = No_error then st\<lparr>http_waits := Some Writing\<rparr> else call_back err 0 st)"

definition handle_write_request :: "http_error \<Rightarrow> http_exchange \<Rightarrow> http_exchange" where
  "handle_write_request err st = (if err = No_error then st\<lparr>http_waits := Some Status_line\<rparr> else call_back err 0 st)"

definition handle_read_status_line :: "http_error \<Rightarrow> http_exchange \<Rightarrow> http_exchange" where
  "handle_read_status_line err st =
     (if err \<noteq> No_error then call_back err 0 st
      else let (http_version, s) = read_word (istream_of (response st)); (status_code, s) = read_unsigned s;
          (status_message, s) = getline s; st = st\<lparr>response := ibuf s\<rparr> in
        if ifail s \<or> take 5 http_version \<noteq> ''HTTP/'' then call_back err 400 st
        else if status_code \<noteq> 200 then call_back err (sint status_code) st
        else st\<lparr>http_waits := Some Headers\<rparr>)"

lemma take_line: "LF \<notin> set l \<Longrightarrow> takeWhile (\<lambda>c. c \<noteq> LF) (l @ LF # rest) = l" "LF \<notin> set l \<Longrightarrow> dropWhile (\<lambda>c. c \<noteq> LF) (l @ LF # rest) = LF # rest"
  by (induction l) auto

lemma getline_shorter:
  assumes "\<not> ifail (snd (getline s))"
  shows "length (ibuf (snd (getline s))) < length (ibuf s)"
proof (cases "LF \<in> set (ibuf s)")
  case True
  then obtain l rest where "ibuf s = l @ LF # rest" "LF \<notin> set l" by (meson split_list_first)
  then show ?thesis using assms by (auto simp: getline_def take_line split: if_splits)
qed (use assms in \<open>auto simp: getline_def split: if_splits\<close>)

function skip_headers :: "istream \<Rightarrow> istream" where
  "skip_headers s = (if ifail (snd (getline s)) \<or> fst (getline s) = [CR] then snd (getline s) else skip_headers (snd (getline s)))"
  by pat_completeness auto
termination
  by (relation "measure (\<lambda>s. length (ibuf s))") (auto dest: getline_shorter)

declare skip_headers.simps [simp del]

definition handle_read_headers :: "http_error \<Rightarrow> http_exchange \<Rightarrow> http_exchange" where
  "handle_read_headers err st =
     (if err = No_error then st\<lparr>response := ibuf (skip_headers (istream_of (response st))), http_waits := Some Content\<rparr>
      else call_back err 0 st)"

definition handle_read_content :: "http_error \<Rightarrow> http_exchange \<Rightarrow> http_exchange" where
  "handle_read_content err st = (if err = No_error then st\<lparr>http_waits := Some Content\<rparr>
     else if err \<noteq> Eof then call_back err 0 st else call_back No_error 200 st)"

definition read_response_content :: "http_exchange \<Rightarrow> string \<times> http_exchange" where
  "read_response_content st = (response st, st\<lparr>response := []\<rparr>)"

section \<open>What can happen\<close>

definition http_complete :: "http_error \<Rightarrow> http_exchange \<Rightarrow> http_exchange" where
  "http_complete err st = (case http_waits st of None \<Rightarrow> st
     | Some Resolving \<Rightarrow> handle_resolve err st | Some Connecting \<Rightarrow> handle_connect err st
     | Some Writing \<Rightarrow> handle_write_request err st | Some Status_line \<Rightarrow> handle_read_status_line err st
     | Some Headers \<Rightarrow> handle_read_headers err st | Some Content \<Rightarrow> handle_read_content err st)"

fun contains :: "string \<Rightarrow> string \<Rightarrow> bool" where
  "contains d [] = (d = [])"
| "contains d (c # cs) = (take (length d) (c # cs) = d \<or> contains d cs)"

text \<open>\<^verbatim>\<open>async_read_until\<close> completes.\<close>

definition read_ready :: "http_exchange \<Rightarrow> http_exchange" where
  "read_ready st = (if http_waits st = Some Status_line \<and> contains CRLF (response st) \<or>
       http_waits st = Some Headers \<and> contains (CRLF @ CRLF) (response st)
     then http_complete No_error st else st)"

text \<open>
  The end of the name's resolution, of the connection or of the writing; bytes of the server, which can complete two reads that
  wait for a delimiter; the end of the stream or an error.
\<close>

datatype http_event = Goes_on | Arrives string | Ends http_error

definition http_step :: "http_event \<Rightarrow> http_exchange \<Rightarrow> http_exchange" where
  "http_step e st = (case e of
       Goes_on \<Rightarrow> if http_waits st \<in> {Some Resolving, Some Connecting, Some Writing} then http_complete No_error st else st
     | Arrives bytes \<Rightarrow>
         (if http_waits st \<in> {Some Status_line, Some Headers, Some Content} then
            let st = st\<lparr>response := response st @ bytes\<rparr> in
            if http_waits st = Some Content then http_complete No_error st else read_ready (read_ready st)
          else st)
     | Ends err \<Rightarrow> if err = No_error then st else http_complete err st)"

end
