(* ===== verification/HttpExchangeOk.thy ===== *)
theory HttpExchangeOk
  imports HttpExchange "HOL-Library.Sublist"
begin

text \<open>
  A well-formed answer of the server, in any pieces, ends in one call of the callback with the code 200 and the content; the callback is
  never called twice.
\<close>

section \<open>Delimiters\<close>

lemma contains_iff: "contains d s \<longleftrightarrow> (\<exists>xs ys. s = xs @ d @ ys)"
proof (induction s)
  case (Cons c cs)
  have "take (length d) (c # cs) = d \<longleftrightarrow> (\<exists>ys. c # cs = d @ ys)" by (metis append_eq_conv_conj append_take_drop_id)
  moreover have "(\<exists>xs ys. c # cs = xs @ d @ ys) \<longleftrightarrow> (\<exists>ys. c # cs = d @ ys) \<or> (\<exists>xs ys. cs = xs @ d @ ys)"
  proof
    assume "\<exists>xs ys. c # cs = xs @ d @ ys"
    then obtain xs ys where "c # cs = xs @ d @ ys" by blast
    then show "(\<exists>ys. c # cs = d @ ys) \<or> (\<exists>xs ys. cs = xs @ d @ ys)" by (cases xs) auto
  next
    assume "(\<exists>ys. c # cs = d @ ys) \<or> (\<exists>xs ys. cs = xs @ d @ ys)"
    then show "\<exists>xs ys. c # cs = xs @ d @ ys" by (metis append_Cons append_Nil)
  qed
  ultimately show ?case using Cons by simp
qed simp

lemma CRLF_chars [simp]: "CRLF = [CR, LF]" "CR \<noteq> LF" "LF \<noteq> CR"
  by (simp_all add: CRLF_def CR_def LF_def)

text \<open>The first line feed of a text that starts with a line is the one of that line.\<close>

lemma first_line_end:
  assumes "xs @ CR # LF # ys = l @ CR # LF # zs" "LF \<notin> set l"
  shows "length l \<le> length xs"
proof (rule ccontr)
  assume "\<not> length l \<le> length xs"
  then have "length xs + 1 < length (l @ [CR])" by simp
  then have "(l @ [CR]) ! (length xs + 1) \<in> set (l @ [CR])" by (rule nth_mem)
  moreover have "(l @ [CR]) ! (length xs + 1) = (xs @ CR # LF # ys) ! (length xs + 1)"
    unfolding assms(1) using \<open>length xs + 1 < length (l @ [CR])\<close> by (simp add: nth_append)
  then have "(l @ [CR]) ! (length xs + 1) = LF" by (simp add: nth_append)
  ultimately show False using assms(2) by simp
qed

definition header_lines :: "string list \<Rightarrow> string" where
  "header_lines hs = concat (map (\<lambda>h. h @ CRLF) hs)"

lemma header_lines_simps [simp]: "header_lines [] = []" "header_lines (h # hs) = h @ CR # LF # header_lines hs"
  by (simp_all add: header_lines_def)

definition plain_lines :: "string list \<Rightarrow> bool" where
  "plain_lines hs \<longleftrightarrow> (\<forall>h \<in> set hs. h \<noteq> [] \<and> LF \<notin> set h)"

lemma plain_lines_simps [simp]: "plain_lines []" "plain_lines (h # hs) \<longleftrightarrow> h \<noteq> [] \<and> LF \<notin> set h \<and> plain_lines hs"
  by (auto simp: plain_lines_def)

lemma no_blank_line:
  assumes "xs @ CR # LF # CR # LF # ys = header_lines hs @ CR # LF # body" "plain_lines hs" "hs \<noteq> []"
  shows "length (header_lines hs) \<le> length xs + 2"
  using assms
proof (induction hs arbitrary: xs)
  case (Cons h hs)
  let ?rest = "header_lines hs @ CR # LF # body"
  have eq: "xs @ CR # LF # CR # LF # ys = h @ CR # LF # ?rest" using Cons.prems(1) by simp
  have le: "length h \<le> length xs" using first_line_end [OF eq] Cons.prems(2) by simp
  then have "take (length h) xs = h" using arg_cong [OF eq, of "take (length h)"] by simp
  then obtain zs where xs: "xs = h @ zs" by (metis append_take_drop_id)
  then have zs: "zs @ CR # LF # CR # LF # ys = CR # LF # ?rest" using eq by simp
  show ?case
  proof (cases "hs = []")
    case True
    then show ?thesis using xs by simp
  next
    case False
    then obtain h' hs' where hs: "hs = h' # hs'" by (cases hs) auto
    then have h': "h' \<noteq> []" "LF \<notin> set h'" using Cons.prems(2) by simp_all
    consider "zs = []" | z where "zs = [z]" | z z' zs' where "zs = z # z' # zs'" by (metis list.exhaust)
    then show ?thesis
    proof cases
      case 1
      then have "CR # LF # ys = ?rest" using zs by simp
      then show ?thesis using hs h' by (cases h'; cases "tl h'") auto
    next
      case (2 z)
      then show ?thesis using zs by simp
    next
      case (3 z z' zs')
      then have "zs' @ CR # LF # CR # LF # ys = ?rest" using zs by simp
      from Cons.IH [OF this] show ?thesis using Cons.prems(2) False xs 3 by simp
    qed
  qed
qed simp

lemma contains_prefix:
  assumes "prefix arr (s @ rest)" "length s \<le> length arr" "contains d s"
  shows "contains d arr"
proof -
  have "prefix s arr" using assms(1,2) by (metis prefix_length_prefix prefixI)
  then obtain zs where zs: "arr = s @ zs" by (auto simp: prefix_def)
  obtain xs ys where "s = xs @ d @ ys" using assms(3) by (auto simp: contains_iff)
  then have "arr = xs @ d @ (ys @ zs)" using zs by simp
  then show ?thesis unfolding contains_iff by blast
qed

lemma line_iff:
  assumes "prefix arr (l @ CRLF @ rest)" "LF \<notin> set l"
  shows "contains CRLF arr \<longleftrightarrow> length l + 2 \<le> length arr"
proof
  assume "contains CRLF arr"
  then obtain xs ys where xs: "arr = xs @ CR # LF # ys" by (auto simp: contains_iff)
  then obtain zs where "xs @ CR # LF # (ys @ zs) = l @ CR # LF # rest" using assms(1) by (auto simp: prefix_def)
  from first_line_end [OF this assms(2)] show "length l + 2 \<le> length arr" using xs by simp
next
  assume "length l + 2 \<le> length arr"
  then show "contains CRLF arr" using assms(1)
    by (intro contains_prefix [of arr "l @ CRLF" rest]) (auto simp: contains_iff intro: exI [of _ "[]"])
qed

lemma blank_line_iff:
  assumes "prefix arr (header_lines hs @ CRLF @ body)" "plain_lines hs" "hs \<noteq> []"
  shows "contains (CRLF @ CRLF) arr \<longleftrightarrow> length (header_lines hs) + 2 \<le> length arr"
proof
  assume "contains (CRLF @ CRLF) arr"
  then obtain xs ys where xs: "arr = xs @ CR # LF # CR # LF # ys" by (auto simp: contains_iff)
  then obtain zs where "xs @ CR # LF # CR # LF # (ys @ zs) = header_lines hs @ CR # LF # body" using assms(1) by (auto simp: prefix_def)
  from no_blank_line [OF this assms(2,3)] show "length (header_lines hs) + 2 \<le> length arr" using xs by simp
next
  assume "length (header_lines hs) + 2 \<le> length arr"
  moreover have "contains (CRLF @ CRLF) (header_lines hs @ CRLF)"
  proof -
    have "header_lines hs = header_lines (butlast hs @ [last hs])" using assms(3) by simp
    then have "header_lines hs @ CRLF = (header_lines (butlast hs) @ last hs) @ (CRLF @ CRLF) @ []" by (simp add: header_lines_def)
    then show ?thesis unfolding contains_iff by blast
  qed
  ultimately show "contains (CRLF @ CRLF) arr" using assms(1)
    by (intro contains_prefix [of arr "header_lines hs @ CRLF" body]) simp_all
qed

section \<open>Reading\<close>

lemma getline_line: "LF \<notin> set l \<Longrightarrow> getline \<lparr>ibuf = l @ LF # rest, ieof = False, ifail = False\<rparr> = (l, \<lparr>ibuf = rest, ieof = False, ifail = False\<rparr>)"
  by (simp add: getline_def take_line)

lemma skip_headers_lines:
  assumes "plain_lines hs"
  shows "skip_headers (istream_of (header_lines hs @ CRLF @ rest)) = istream_of rest"
  using assms
proof (induction hs)
  case Nil
  have "getline (istream_of ([CR] @ LF # rest)) = ([CR], istream_of rest)"
    unfolding istream_of_def by (rule getline_line) simp
  then show ?case by (subst skip_headers.simps) (simp add: istream_of_def)
next
  case (Cons h hs)
  let ?rest = "header_lines hs @ CRLF @ rest"
  have "getline (istream_of ((h @ [CR]) @ LF # ?rest)) = (h @ [CR], istream_of ?rest)"
    unfolding istream_of_def by (rule getline_line) (use Cons.prems in simp)
  then have "skip_headers (istream_of ((h @ [CR]) @ LF # ?rest)) = skip_headers (istream_of ?rest)"
    using Cons.prems by (subst skip_headers.simps) (simp add: istream_of_def)
  then show ?case using Cons by simp
qed

definition status_line :: "string \<Rightarrow> nat \<Rightarrow> string \<Rightarrow> string" where
  "status_line version code msg = version @ '' '' @ show_nat code @ '' '' @ msg"

definition plain_status :: "string \<Rightarrow> string \<Rightarrow> bool" where
  "plain_status version msg \<longleftrightarrow> take 5 version = ''HTTP/'' \<and> (\<forall>c \<in> set version. \<not> is_space c) \<and> LF \<notin> set msg"

lemma status_line_read:
  assumes "plain_status version msg" "code < 2 ^ 32"
  shows "handle_read_status_line No_error (st\<lparr>response := status_line version code msg @ CRLF @ rest\<rparr>) =
    (if code = 200 then st\<lparr>response := rest, http_waits := Some Headers\<rparr>
     else call_back No_error (sint (word_of_nat code :: 32 word)) (st\<lparr>response := rest\<rparr>))"
proof -
  let ?tail = "'' '' @ msg @ CRLF @ rest"
  let ?b = "version @ '' '' @ show_nat code @ ?tail"
  have blank: "is_space (CHR '' '')" "\<not> is_digit (CHR '' '')" by (simp_all add: is_space_def is_digit_def cchar_def)
  obtain v vs where v: "version = v # vs" "\<not> is_space v" using assms(1) by (cases version) (auto simp: plain_status_def)
  have word: "read_word (istream_of ?b) = (version, istream_of ('' '' @ show_nat code @ ?tail))"
    using assms(1) v blank
    by (simp add: read_word_def skip_blanks_def istream_of_def plain_status_def Let_def takeWhile_append2 dropWhile_append2)
  obtain d ds where d: "show_nat code = d # ds" "is_digit d" using show_nat_nonempty [of code] show_nat_digits [of d code]
    by (metis list.exhaust list.set_intros(1) show_nat_digits)
  have dd: "\<not> is_space d" "d \<noteq> CHR ''-''" "d \<noteq> CHR ''+''" using d(2) by (auto simp: is_digit_def is_space_def cchar_def)
  have digits: "\<forall>c \<in> set (show_nat code). is_digit c" using show_nat_digits by blast
  have number: "read_unsigned (istream_of ('' '' @ show_nat code @ ?tail)) = (word_of_nat code, istream_of ?tail)"
  proof -
    have "skip_blanks (istream_of ('' '' @ show_nat code @ ?tail)) = istream_of (show_nat code @ ?tail)"
      using d dd blank by (simp add: skip_blanks_def istream_of_def Let_def)
    moreover have "takeWhile is_digit (show_nat code @ ?tail) = show_nat code" "dropWhile is_digit (show_nat code @ ?tail) = ?tail"
      using digits blank by (simp_all add: takeWhile_append2 dropWhile_append2)
    moreover have "hd (show_nat code @ ?tail) = d" using d by simp
    moreover have "read_digits (show_nat code) 0 = int code" by (simp add: read_show_nat)
    ultimately show ?thesis using dd assms(2) by (simp add: read_unsigned_def Let_def istream_of_def)
  qed
  have line: "getline (istream_of ?tail) = ('' '' @ msg @ [CR], istream_of rest)"
  proof -
    have "LF \<noteq> CHR '' ''" by code_simp
    then show ?thesis
      using assms(1) getline_line [of "'' '' @ msg @ [CR]" rest] by (simp add: istream_of_def plain_status_def)
  qed
  have "status_line version code msg @ CRLF @ rest = ?b" by (simp add: status_line_def)
  moreover have "(word_of_nat code = (200 :: 32 word)) = (code = 200)"
    using assms(2) word_of_nat_eq_iff [of code 200, where 'a = 32] by (simp add: take_bit_nat_eq_self)
  ultimately show ?thesis
    using assms(1) word number line
    by (simp add: handle_read_status_line_def plain_status_def istream_of_def [of rest] Let_def)
qed

section \<open>The answer in pieces\<close>

text \<open>What the request has made of the text that has arrived: the length of the status line and of the headers decide.\<close>

definition exchange_at :: "nat \<Rightarrow> nat \<Rightarrow> string \<Rightarrow> http_exchange" where
  "exchange_at m n arr =
     (if length arr < m then \<lparr>http_waits = Some Status_line, response = arr, http_answers = []\<rparr>
      else if length arr < m + n then \<lparr>http_waits = Some Headers, response = drop m arr, http_answers = []\<rparr>
      else \<lparr>http_waits = Some Content, response = drop (m + n) arr, http_answers = []\<rparr>)"

definition response_text :: "string \<Rightarrow> string \<Rightarrow> string list \<Rightarrow> string \<Rightarrow> string" where
  "response_text version msg hs body = status_line version 200 msg @ CRLF @ header_lines hs @ CRLF @ body"

lemma prefix_split:
  assumes "prefix arr (s @ rest)" "length s \<le> length arr"
  shows "arr = s @ drop (length s) arr" "prefix (drop (length s) arr) rest"
proof -
  obtain zs where "arr @ zs = s @ rest" using assms(1) by (auto simp: prefix_def)
  then have "take (length s) (arr @ zs) = s" by simp
  then have "take (length s) arr = s" using assms(2) by simp
  then show "arr = s @ drop (length s) arr" by (metis append_take_drop_id)
  with assms(1) show "prefix (drop (length s) arr) rest" by (metis same_prefix_prefix)
qed

lemma status_ready:
  assumes "plain_status version msg" "prefix arr (status_line version 200 msg @ CRLF @ rest)"
  shows "read_ready \<lparr>http_waits = Some Status_line, response = arr, http_answers = []\<rparr> =
    (let m = length (status_line version 200 msg @ CRLF) in
     if length arr < m then \<lparr>http_waits = Some Status_line, response = arr, http_answers = []\<rparr>
     else \<lparr>http_waits = Some Headers, response = drop m arr, http_answers = []\<rparr>)"
proof -
  let ?s = "status_line version 200 msg"
  have sp: "\<not> is_space LF \<Longrightarrow> False" "LF \<noteq> CHR '' ''" "\<not> is_digit LF" by code_simp+
  then have "LF \<notin> set version" using assms(1) by (auto simp: plain_status_def)
  moreover have "LF \<notin> set (show_nat 200)" using show_nat_digits sp(3) by blast
  ultimately have "LF \<notin> set ?s" using assms(1) sp(2) by (auto simp: status_line_def plain_status_def)
  then have ready: "contains CRLF arr \<longleftrightarrow> length ?s + 2 \<le> length arr" using line_iff [OF assms(2)] by simp
  show ?thesis
  proof (cases "length arr < length (?s @ CRLF)")
    case True
    then show ?thesis using ready by (simp add: read_ready_def)
  next
    case False
    have "prefix arr ((?s @ CRLF) @ rest)" using assms(2) by simp
    from prefix_split(1) [OF this] have arr: "arr = ?s @ CRLF @ drop (length (?s @ CRLF)) arr" using False by simp
    have "handle_read_status_line No_error \<lparr>http_waits = Some Status_line, response = arr, http_answers = []\<rparr> =
        \<lparr>http_waits = Some Headers, response = drop (length (?s @ CRLF)) arr, http_answers = []\<rparr>"
      using status_line_read [OF assms(1), where code = 200 and st = "\<lparr>http_waits = Some Status_line, response = [], http_answers = []\<rparr>"
          and rest = "drop (length (?s @ CRLF)) arr", folded arr] by simp
    then show ?thesis using False ready by (simp add: read_ready_def http_complete_def)
  qed
qed

lemma headers_ready:
  assumes "plain_lines hs" "hs \<noteq> []" "prefix arr (header_lines hs @ CRLF @ body)"
  shows "read_ready \<lparr>http_waits = Some Headers, response = arr, http_answers = []\<rparr> =
    (let n = length (header_lines hs @ CRLF) in
     if length arr < n then \<lparr>http_waits = Some Headers, response = arr, http_answers = []\<rparr>
     else \<lparr>http_waits = Some Content, response = drop n arr, http_answers = []\<rparr>)"
proof (cases "length arr < length (header_lines hs @ CRLF)")
  case True
  then show ?thesis using blank_line_iff [OF assms(3,1,2)] by (simp add: read_ready_def)
next
  case False
  let ?n = "length (header_lines hs @ CRLF)"
  have "prefix arr ((header_lines hs @ CRLF) @ body)" using assms(3) by simp
  from prefix_split(1) [OF this] have arr: "arr = header_lines hs @ CRLF @ drop ?n arr" using False by simp
  have "ibuf (skip_headers (istream_of arr)) = drop ?n arr"
    using skip_headers_lines [OF assms(1), of "drop ?n arr", folded arr] by (simp add: istream_of_def)
  then show ?thesis using False blank_line_iff [OF assms(3,1,2)]
    by (simp add: read_ready_def http_complete_def handle_read_headers_def)
qed

lemma arrives:
  assumes "plain_status version msg" "plain_lines hs" "hs \<noteq> []" "prefix (arr @ p) (response_text version msg hs body)"
    and "m = length (status_line version 200 msg @ CRLF)" "n = length (header_lines hs @ CRLF)"
  shows "http_step (Arrives p) (exchange_at m n arr) = exchange_at m n (arr @ p)"
proof -
  let ?arr = "arr @ p"
  have all: "prefix ?arr (status_line version 200 msg @ CRLF @ (header_lines hs @ CRLF @ body))"
    using assms(4) by (simp add: response_text_def)
  have rest: "prefix (drop m ?arr) (header_lines hs @ CRLF @ body)" if "m \<le> length ?arr"
    using prefix_split(2) [of ?arr "status_line version 200 msg @ CRLF" "header_lines hs @ CRLF @ body"] all that assms(5) by simp
  note S = status_ready [OF assms(1) all, folded assms(5), unfolded Let_def]
  note H = headers_ready [OF assms(2,3) rest, folded assms(6), unfolded Let_def]
  have content: "read_ready \<lparr>http_waits = Some Content, response = b, http_answers = []\<rparr> =
      \<lparr>http_waits = Some Content, response = b, http_answers = []\<rparr>" for b by (simp add: read_ready_def)
  consider (status) "length arr < m" | (headers) "m \<le> length arr" "length arr < m + n" | (content) "m + n \<le> length arr" by linarith
  then show ?thesis
  proof cases
    case status
    then show ?thesis using S H content
      by (auto simp: http_step_def exchange_at_def add.commute)
  next
    case headers
    then have "drop m arr @ p = drop m ?arr" by simp
    then show ?thesis using headers H content
      by (auto simp: http_step_def exchange_at_def add.commute)
  next
    case content
    then show ?thesis by (simp add: http_step_def exchange_at_def http_complete_def handle_read_content_def)
  qed
qed

lemma all_arrive:
  assumes "plain_status version msg" "plain_lines hs" "hs \<noteq> []" "arr @ concat ps = response_text version msg hs body"
    and "m = length (status_line version 200 msg @ CRLF)" "n = length (header_lines hs @ CRLF)"
  shows "fold http_step (map Arrives ps) (exchange_at m n arr) = exchange_at m n (response_text version msg hs body)"
  using assms(4)
proof (induction ps arbitrary: arr)
  case (Cons p ps)
  then have "response_text version msg hs body = (arr @ p) @ concat ps" by simp
  then have "prefix (arr @ p) (response_text version msg hs body)" by (rule prefixI)
  from arrives [OF assms(1-3) this assms(5,6)] show ?case using Cons by simp
qed simp

section \<open>Properties\<close>

text \<open>
  C37. A well-formed answer with the code 200 and at least one header, in whatever pieces it comes, ends in exactly one call of
  the callback, with the code 200, and what is read of the content afterwards is the body.
\<close>

theorem response_content:
  assumes "plain_status version msg" "plain_lines hs" "hs \<noteq> []" "concat ps = response_text version msg hs body"
  shows "let st = fold http_step ([Goes_on, Goes_on, Goes_on] @ map Arrives ps @ [Ends Eof]) new_exchange in
    http_answers st = [(No_error, 200)] \<and> http_waits st = None \<and> fst (read_response_content st) = body"
proof -
  let ?m = "length (status_line version 200 msg @ CRLF)" and ?n = "length (header_lines hs @ CRLF)"
  have start: "fold http_step [Goes_on, Goes_on, Goes_on] new_exchange = exchange_at ?m ?n []"
    by (simp add: http_step_def http_complete_def handle_resolve_def handle_connect_def handle_write_request_def new_exchange_def
      exchange_at_def)
  have parts: "drop (length a + length b) (a @ b @ body) = body" "length a + length b \<le> length (a @ b @ body)" for a b by simp_all
  have "response_text version msg hs body = (status_line version 200 msg @ CRLF) @ (header_lines hs @ CRLF) @ body"
    by (simp add: response_text_def)
  then have "drop (?m + ?n) (response_text version msg hs body) = body" "?m + ?n \<le> length (response_text version msg hs body)"
    by (simp_all only: parts)
  then have "exchange_at ?m ?n (response_text version msg hs body) = \<lparr>http_waits = Some Content, response = body, http_answers = []\<rparr>"
    by (simp only: exchange_at_def) simp
  then have "fold http_step (map Arrives ps) (exchange_at ?m ?n []) = \<lparr>http_waits = Some Content, response = body, http_answers = []\<rparr>"
    using all_arrive [OF assms(1-3), of "[]" ps body ?m ?n] assms(4) by simp
  then show ?thesis unfolding fold_append comp_apply start
    by (simp add: http_step_def http_complete_def handle_read_content_def call_back_def read_response_content_def)
qed

lemma response_content_witness:
  "let st = fold http_step ([Goes_on, Goes_on, Goes_on] @ map Arrives [''HTTP/1.1 2'', ''00 OK'' @ [CR], [LF] @ ''Server: x'' @ CRLF @ CRLF @ ''he'', ''llo''] @ [Ends Eof]) new_exchange in
    http_answers st = [(No_error, 200)] \<and> http_waits st = None \<and> fst (read_response_content st) = ''hello''"
proof (rule response_content)
  show "plain_status ''HTTP/1.1'' ''OK''" by code_simp
  show "plain_lines [''Server: x'']" unfolding plain_lines_def by code_simp
  show "concat [''HTTP/1.1 2'', ''00 OK'' @ [CR], [LF] @ ''Server: x'' @ CRLF @ CRLF @ ''he'', ''llo''] =
      response_text ''HTTP/1.1'' ''OK'' [''Server: x''] ''hello''"
    by code_simp
qed simp

text \<open>Whatever happens, the callback is called at most once, and exactly when nothing is waited for any more.\<close>

definition one_answer :: "http_exchange \<Rightarrow> bool" where
  "one_answer st \<longleftrightarrow> length (http_answers st) = (if http_waits st = None then 1 else 0)"

lemma complete_once: "one_answer st \<Longrightarrow> one_answer (http_complete err st)"
  by (auto simp: one_answer_def http_complete_def handle_resolve_def handle_connect_def handle_write_request_def
    handle_read_status_line_def handle_read_headers_def handle_read_content_def call_back_def Let_def
    split: option.splits http_wait.splits prod.splits)

lemma ready_once_more: "one_answer st \<Longrightarrow> one_answer (read_ready st)"
  by (simp add: read_ready_def complete_once)

lemma step_once: "one_answer st \<Longrightarrow> one_answer (http_step e st)"
proof (cases e)
  case (Arrives bytes)
  assume st: "one_answer st"
  then have "one_answer (st\<lparr>response := x\<rparr>)" for x by (simp add: one_answer_def)
  then show ?thesis using Arrives st by (simp add: http_step_def Let_def complete_once ready_once_more)
qed (simp_all add: http_step_def complete_once)

lemma answered_once: "one_answer (fold http_step es new_exchange)"
proof -
  have "one_answer st \<Longrightarrow> one_answer (fold http_step es st)" for st
    by (induction es arbitrary: st) (simp_all add: step_once)
  then show ?thesis by (simp add: one_answer_def new_exchange_def)
qed

text \<open>
  An answer without headers: the read for the end of the headers looks behind the status line, whose end it needs. The content is taken
  for headers, and a body without a blank line is reported as an error.
\<close>

lemma answer_without_headers:
  "http_answers (fold http_step ([Goes_on, Goes_on, Goes_on, Arrives (status_line ''HTTP/1.0'' 200 ''OK'' @ CRLF @ CRLF @ ''hello''), Ends Eof])
     new_exchange) = [(Eof, 0)]"
  by code_simp

end
