(* ===== verification/TcpServer.thy ===== *)
theory TcpServer
  imports Prelude
begin

text \<open>
  The listening socket (\<^verbatim>\<open>src/src/net/tcp_server.cpp\<close>): start, stop and what happens to the client objects that are made
  ahead for the next connections. A client object is the number \<^verbatim>\<open>on_create_client\<close> gave it; the calls of the virtual functions are
  recorded in \<^verbatim>\<open>tcp_calls\<close>. The number of processors and whether the port could be bound are arguments.

  A worker thread is \<open>True\<close> until it is joined; joining it twice throws \<^verbatim>\<open>std::system_error\<close>, which nobody catches: the
  result is \<open>None\<close> then. The options of the SSL context and the console output are left out. So is the exception of
  \<^verbatim>\<open>remote_endpoint()\<close> in \<^verbatim>\<open>accept_handle\<close>: the address of the new connection is asked for, only to be printed, in
  the form of the call that throws when the peer is gone already, and nobody catches it. A connection here is one whose peer is still there.
\<close>

section \<open>State and operations\<close>

datatype tcp_call = On_start | On_started | On_stop | On_stoped | On_client_connected nat | On_destroy_client nat

record tcp_server =
  acceptor_open :: bool
  acceptor_listens :: bool
  tcp_running :: bool
  is_accepting :: bool
  accepts_posted :: "nat list"
  clients_made :: nat
  worker_threads :: "bool list"
  work_mode :: bool
  tcp_calls :: "tcp_call list"

definition new_tcp_server :: tcp_server where
  "new_tcp_server = \<lparr>acceptor_open = False, acceptor_listens = False, tcp_running = False, is_accepting = False, accepts_posted = [],
     clients_made = 0, worker_threads = [], work_mode = False, tcp_calls = []\<rparr>"

definition calls :: "tcp_call \<Rightarrow> tcp_server \<Rightarrow> tcp_server" where
  "calls x s = s\<lparr>tcp_calls := tcp_calls s @ [x]\<rparr>"

definition create_worker_thread :: "tcp_server \<Rightarrow> tcp_server" where
  "create_worker_thread s = s\<lparr>worker_threads := worker_threads s @ [True]\<rparr>"

definition start_accept :: "tcp_server \<Rightarrow> tcp_server" where
  "start_accept s = s\<lparr>accepts_posted := accepts_posted s @ [clients_made s], clients_made := clients_made s + 1, is_accepting := True\<rparr>"

definition tcp_start :: "nat \<Rightarrow> bool \<Rightarrow> tcp_server \<Rightarrow> tcp_server" where
  "tcp_start processors bound s = (if tcp_running s then s
     else if \<not> acceptor_open s \<and> \<not> bound then s\<lparr>acceptor_open := True\<rparr>
     else let s = (if acceptor_open s then s else s\<lparr>acceptor_open := True, acceptor_listens := True\<rparr>);
         s = (calls On_start s)\<lparr>work_mode := True, tcp_running := True\<rparr>;
         s = (create_worker_thread ^^ (processors + 1)) s; s = (start_accept ^^ (processors + 1)) s in
       calls On_started s)"

definition stop_accept :: "tcp_server \<Rightarrow> tcp_server" where
  "stop_accept s = (if is_accepting s then s\<lparr>acceptor_open := False, acceptor_listens := False, is_accepting := False\<rparr> else s)"

definition accept_handle :: "bool \<Rightarrow> nat \<Rightarrow> tcp_server \<Rightarrow> tcp_server" where
  "accept_handle failed c s = (let s = s\<lparr>accepts_posted := remove1 c (accepts_posted s)\<rparr> in
     if \<not> failed then (if tcp_running s then start_accept (calls (On_client_connected c) s) else calls (On_destroy_client c) s)
     else calls (On_destroy_client c) s)"

text \<open>The worker threads return when the handlers of the cancelled accepts have run.\<close>

definition join_threads :: "tcp_server \<Rightarrow> tcp_server option" where
  "join_threads s = (let s = fold (accept_handle True) (accepts_posted s) s in
     if False \<in> set (worker_threads s) then None else Some (s\<lparr>worker_threads := map (\<lambda>t. False) (worker_threads s)\<rparr>))"

definition tcp_stop :: "tcp_server \<Rightarrow> tcp_server option" where
  "tcp_stop s = (if \<not> tcp_running s then Some s
     else let s = stop_accept (s\<lparr>tcp_running := False\<rparr>); s = (calls On_stop s)\<lparr>work_mode := False\<rparr> in
       (case join_threads s of None \<Rightarrow> None | Some s \<Rightarrow> Some (calls On_stoped s)))"

section \<open>What can happen\<close>

text \<open>A connection comes when the socket listens; any accept can fail.\<close>

inductive tcp_step :: "tcp_server \<Rightarrow> tcp_server \<Rightarrow> bool" where
  started: "tcp_step s (tcp_start processors bound s)"
| stopped: "tcp_stop s = Some s' \<Longrightarrow> tcp_step s s'"
| connection: "c \<in> set (accepts_posted s) \<Longrightarrow> acceptor_listens s \<Longrightarrow> tcp_step s (accept_handle False c s)"
| accept_fails: "c \<in> set (accepts_posted s) \<Longrightarrow> tcp_step s (accept_handle True c s)"
| no_more_accepts: "tcp_step s (stop_accept s)"

inductive_cases tcp_stepE: "tcp_step s s'"

section \<open>No client object is lost\<close>

text \<open>The client objects that were handed over or destroyed.\<close>

definition call_clients :: "tcp_call \<Rightarrow> nat list" where
  "call_clients x = (case x of On_client_connected c \<Rightarrow> [c] | On_destroy_client c \<Rightarrow> [c] | _ \<Rightarrow> [])"

definition clients_done :: "tcp_server \<Rightarrow> nat list" where
  "clients_done s = concat (map call_clients (tcp_calls s))"

definition clients_kept :: "tcp_server \<Rightarrow> bool" where
  "clients_kept s \<longleftrightarrow> mset (accepts_posted s) + mset (clients_done s) = mset [0..<clients_made s]"

lemma clients_done_simps [simp]:
  "clients_done (calls x s) = clients_done s @ call_clients x" "clients_done (s\<lparr>accepts_posted := a\<rparr>) = clients_done s"
  "clients_done (s\<lparr>work_mode := w\<rparr>) = clients_done s" "clients_done (s\<lparr>tcp_running := r\<rparr>) = clients_done s"
  "clients_done (s\<lparr>worker_threads := ts\<rparr>) = clients_done s" "clients_done (s\<lparr>acceptor_open := x1\<rparr>) = clients_done s"
  "clients_done (s\<lparr>acceptor_listens := x1\<rparr>) = clients_done s" "clients_done (s\<lparr>is_accepting := x1\<rparr>) = clients_done s"
  "clients_done (s\<lparr>clients_made := k\<rparr>) = clients_done s"
  by (simp_all add: clients_done_def calls_def)

lemma clients_kept_simps [simp]:
  "clients_kept (s\<lparr>work_mode := w\<rparr>) = clients_kept s" "clients_kept (s\<lparr>tcp_running := r\<rparr>) = clients_kept s"
  "clients_kept (s\<lparr>worker_threads := ts\<rparr>) = clients_kept s" "clients_kept (s\<lparr>acceptor_open := x1\<rparr>) = clients_kept s"
  "clients_kept (s\<lparr>acceptor_listens := x1\<rparr>) = clients_kept s" "clients_kept (s\<lparr>is_accepting := x1\<rparr>) = clients_kept s"
  "call_clients x = [] \<Longrightarrow> clients_kept (calls x s) = clients_kept s"
  by (simp_all add: clients_kept_def, simp add: calls_def)

lemma start_accept_kept: "clients_kept s \<Longrightarrow> clients_kept (start_accept s)"
  by (simp add: clients_kept_def start_accept_def)

lemma funpow_kept: "(\<And>s. clients_kept s \<Longrightarrow> clients_kept (f s)) \<Longrightarrow> clients_kept s \<Longrightarrow> clients_kept ((f ^^ n) s)"
  by (induction n) simp_all

lemma start_kept: "clients_kept s \<Longrightarrow> clients_kept (tcp_start processors bound s)"
  by (auto simp: tcp_start_def Let_def call_clients_def create_worker_thread_def intro!: funpow_kept start_accept_kept)

lemma accept_handle_kept:
  assumes "clients_kept s" "c \<in> set (accepts_posted s)"
  shows "clients_kept (accept_handle failed c s)"
proof -
  have kept: "clients_kept (calls x (s\<lparr>accepts_posted := remove1 c (accepts_posted s)\<rparr>))" if "call_clients x = [c]" for x
    using assms that by (simp add: clients_kept_def calls_def) (simp add: clients_done_def add_mset_commute)
  show ?thesis using kept [of "On_client_connected c"] kept [of "On_destroy_client c"]
    by (simp add: accept_handle_def Let_def call_clients_def start_accept_kept)
qed

lemma failed_sel:
  "accepts_posted (accept_handle True c s) = remove1 c (accepts_posted s)" "tcp_running (accept_handle True c s) = tcp_running s"
  "worker_threads (accept_handle True c s) = worker_threads s" "acceptor_open (accept_handle True c s) = acceptor_open s"
  by (simp_all add: accept_handle_def Let_def calls_def)

lemma drain:
  "clients_kept s \<Longrightarrow> accepts_posted s = cs \<Longrightarrow>
    clients_kept (fold (accept_handle True) cs s) \<and> accepts_posted (fold (accept_handle True) cs s) = [] \<and>
    worker_threads (fold (accept_handle True) cs s) = worker_threads s \<and> tcp_running (fold (accept_handle True) cs s) = tcp_running s"
proof (induction cs arbitrary: s)
  case (Cons c cs)
  have "clients_kept (accept_handle True c s)" using Cons.prems by (intro accept_handle_kept) simp_all
  from Cons.IH [OF this] show ?case using Cons.prems by (simp add: failed_sel)
qed simp

lemma stop_kept:
  assumes "clients_kept s" "tcp_stop s = Some s'" "tcp_running s"
  shows "clients_kept s' \<and> accepts_posted s' = [] \<and> \<not> tcp_running s' \<and> True \<notin> set (worker_threads s')"
proof -
  let ?s = "(calls On_stop (stop_accept (s\<lparr>tcp_running := False\<rparr>)))\<lparr>work_mode := False\<rparr>"
  let ?v = "fold (accept_handle True) (accepts_posted ?s) ?s"
  have "clients_kept ?s" using assms(1) by (simp add: stop_accept_def call_clients_def)
  moreover have "\<not> tcp_running ?s" by (simp add: stop_accept_def calls_def)
  ultimately have "clients_kept ?s" "\<not> tcp_running ?s" .
  note v = drain [OF this(1) refl] this(2)
  have "s' = calls On_stoped (?v\<lparr>worker_threads := map (\<lambda>t. False) (worker_threads ?v)\<rparr>)"
    using assms(2,3) by (simp add: tcp_stop_def join_threads_def Let_def split: if_splits)
  then show ?thesis using v by (simp add: call_clients_def) (auto simp: calls_def)
qed

lemma step_kept: "tcp_step s s' \<Longrightarrow> clients_kept s \<Longrightarrow> clients_kept s'"
proof (induction rule: tcp_step.induct)
  case (stopped s s')
  then show ?case using stop_kept [of s s'] by (cases "tcp_running s") (simp_all add: tcp_stop_def)
qed (simp_all add: start_kept accept_handle_kept stop_accept_def)

interpretation tcp_clients: step_invariant tcp_step clients_kept
  by unfold_locales (rule step_kept)

text \<open>
  C38. Whatever starts, stops, connections and failures come: every client object made for a connection is waiting for one, or was handed over
  or destroyed, and that once; when the server has stopped none is waiting.
\<close>

theorem acceptors_accounted:
  assumes "tcp_step\<^sup>*\<^sup>* new_tcp_server s"
  shows "mset (accepts_posted s) + mset (clients_done s) = mset [0..<clients_made s] \<and>
    (\<forall>s'. tcp_running s \<longrightarrow> tcp_stop s = Some s' \<longrightarrow> accepts_posted s' = [] \<and> mset (clients_done s') = mset [0..<clients_made s'])"
proof -
  have kept: "clients_kept s" using tcp_clients.steps_good [OF assms] by (simp add: clients_kept_def clients_done_def new_tcp_server_def)
  moreover have "accepts_posted s' = [] \<and> mset (clients_done s') = mset [0..<clients_made s']"
    if "tcp_running s" "tcp_stop s = Some s'" for s'
    using stop_kept [OF kept that(2,1)] unfolding clients_kept_def by auto
  ultimately show ?thesis by (simp add: clients_kept_def)
qed

lemma acceptors_accounted_witness:
  "\<exists>s'. tcp_stop (accept_handle False 1 (tcp_start 1 True new_tcp_server)) = Some s' \<and> accepts_posted s' = [] \<and>
     mset (clients_done s') = mset [0..<3]"
proof -
  let ?s = "accept_handle False 1 (tcp_start 1 True new_tcp_server)"
  have "1 \<in> set (accepts_posted (tcp_start 1 True new_tcp_server))" "acceptor_listens (tcp_start 1 True new_tcp_server)" by code_simp+
  then have "tcp_step (tcp_start 1 True new_tcp_server) ?s" by (rule tcp_step.connection)
  then have "tcp_step\<^sup>*\<^sup>* new_tcp_server ?s"
    by (rule rtranclp.rtrancl_into_rtrancl [OF r_into_rtranclp [of tcp_step, OF tcp_step.started]])
  note all = acceptors_accounted [OF this]
  have "tcp_running ?s" "case tcp_stop ?s of None \<Rightarrow> False | Some s' \<Rightarrow> clients_made s' = 3" by code_simp+
  then show ?thesis using all by (auto split: option.splits)
qed

section \<open>What goes wrong\<close>

text \<open>
  A failed accept is taken for the end of the service: nothing is posted in its place. When all have failed, the running server takes no
  connection until it is stopped.
\<close>

lemma deaf_for_ever:
  assumes "tcp_step s s'" "tcp_running s" "accepts_posted s = []" "tcp_running s'"
  shows "accepts_posted s' = []"
  using assms(1)
proof (cases rule: tcp_step.cases)
  case stopped
  then show ?thesis using assms(2,4) unfolding tcp_stop_def
    by (auto simp: join_threads_def Let_def stop_accept_def calls_def assms(3) split: if_splits option.splits)
qed (use assms in \<open>simp_all add: tcp_start_def stop_accept_def\<close>)

lemma failures_make_deaf:
  "let s = accept_handle True 1 (accept_handle True 0 (tcp_start 1 True new_tcp_server)) in tcp_running s \<and> acceptor_listens s \<and>
     accepts_posted s = []"
  by code_simp

text \<open>A start whose port is taken leaves the acceptor open; the next start takes it for bound and runs without listening.\<close>

lemma second_start_listens_nowhere:
  "let s = tcp_start 1 False (tcp_start 1 False new_tcp_server) in tcp_running s \<and> \<not> acceptor_listens s"
  by code_simp

text \<open>The worker threads of the first run stay in the list: the second stop joins them again.\<close>

lemma second_stop_throws:
  "case tcp_stop (tcp_start 1 True new_tcp_server) of None \<Rightarrow> False | Some s \<Rightarrow> tcp_stop (tcp_start 1 True s) = None"
  by code_simp

end
