(* ===== verification/Spec2Isabelle.thy ===== *)
theory Spec2Isabelle
  imports FinderSound DdzDeal PluginSettle PluginJoin PokerGroups HttpGrammar AcceptSpec Handshake Connection ServiceSafety AskSafety DbPoolFull HttpExchangeOk TcpServer
begin

text \<open>
  A verification development for the dooqu game service: a WebSocket server over TLS (\<^verbatim>\<open>src/src/net\<close>), a service that logs clients
  in through an HTTP server and hands them to plugins (\<^verbatim>\<open>src/src/service\<close>), a card game (\<^verbatim>\<open>src/src/ddz\<close>), a game of
  questions (\<^verbatim>\<open>src/src/ask\<close>) and a pool of database connections (\<^verbatim>\<open>src/src/data\<close>).

  \<^bold>\<open>How the program is modelled.\<close> Objects are records, enumerations are datatypes, every member function is a definition with its early
  returns. What would be undefined behaviour, an abort or an exception nobody catches is a value \<open>Inl\<close> of the type
  \<open>fault\<close> (\<open>Prelude\<close>), so a theorem with a result \<open>Inr\<close> says that none of it happens. Arrays of fixed size are lists
  with checked access; pointers to objects that can be destroyed are addresses on a heap, and a use after destruction is the fault
  \<open>Dangling\<close>. Integers of the source are \<open>int\<close> where their range does not matter, \<open>int\<close> with a check after every operation (\<open>int32\<close>)
  where an \<^verbatim>\<open>int\<close> can overflow, and words where the code shifts, masks or wraps.
  Handlers run one after another, as the locks of the code make them within one component; where a function gives its lock
  up in between, its halves are separate operations (\<open>arm_timer\<close> and \<open>register_timer\<close>, \<open>try_http_request\<close> and
  \<open>push_task\<close>); runs take them together, and \<open>freed_timer_is_used\<close> and \<open>request_left_waiting\<close> show what can come in between. The clock, random numbers, what \<^verbatim>\<open>boost::asio\<close>, the HTTP server and the MySQL connector answer, what the memory of an
  uninitialised member held, and what a plugin class overrides (\<open>hooks\<close>) are arguments or events. What is written to
  a client is recorded; the console output is left out.

  \<^bold>\<open>The parts, from the wire to the game.\<close>

  \<^item> \<open>TcpServer\<close>: \<^verbatim>\<open>tcp_server.cpp\<close>, start, stop, the accepts made ahead and the worker threads; every client object is accounted
    for, and three ways in which a server that runs hears nothing or a stop throws.
  \<^item> \<open>HttpParser\<close>, \<open>HttpGrammar\<close>: \<^verbatim>\<open>ws_request_parser.cpp\<close>, the parser of the opening request character by character; it
    accepts exactly the requests of a grammar.
  \<^item> \<open>AcceptKey\<close>, \<open>AcceptSpec\<close>: \<^verbatim>\<open>ws_util.h\<close>, SHA-1 and base 64 in place, equal to the definitions of their standards.
  \<^item> \<open>Handshake\<close>: the handshake of \<^verbatim>\<open>ws_client.cpp\<close>, which composes the two above and the sender.
  \<^item> \<open>Frames\<close>, \<open>FramesOk\<close>: \<^verbatim>\<open>ws_framedata_parser.h\<close> and \<^verbatim>\<open>ws_client::on_data_received\<close>, reading frames in place. The
    function calls itself while a frame is complete; its fuel is 2, and \<open>reads_stay_inside\<close> shows that this is enough.
  \<^item> \<open>SendQueue\<close>, \<open>SendFacts\<close>, \<open>SendRefine\<close>: the sending half, which refines a queue of messages; the locale
    \<open>sends_mail\<close> is its contract.
  \<^item> \<open>Command\<close>, \<open>PostMonitor\<close>, \<open>Dispatch\<close>: \<^verbatim>\<open>command.cpp\<close>, \<^verbatim>\<open>post_monitor.h\<close>, \<^verbatim>\<open>tick_count.h\<close> and
    \<^verbatim>\<open>command_dispatcher.cpp\<close>: a line is cut into words in place, its sender's rate is checked, its handler is called.
  \<^item> \<open>Connection\<close>: the composition of the receiver, the dispatcher and the card game: no bytes of a peer break a desk, and the
    only way out of the buffer is a line without an end.
  \<^item> \<open>Timers\<close>, \<open>TimersOk\<close>: \<^verbatim>\<open>async_task.cpp\<close>, the pool of timers and the delayed tasks.
  \<^item> \<open>Requests\<close>, \<open>RequestsOk\<close>: the two pools of HTTP requests of \<^verbatim>\<open>game_service.cpp\<close> and the queue of the second, by the
    contract \<open>block_pool\<close>. The addresses of their blocks are those of the code, which do not lie in the memory allocated for them;
    what a request overwrites is not modelled. \<open>HttpExchange\<close>, \<open>HttpExchangeOk\<close>: \<^verbatim>\<open>http_request.h\<close>, the exchange of one request with its server.
  \<^item> \<open>Service\<close>, \<open>ServiceOk\<close>, \<open>ServiceSteps\<close>, \<open>ServiceEvents\<close>, \<open>ServiceSafety\<close>: the life of a client in
    \<^verbatim>\<open>game_service.cpp\<close>, \<^verbatim>\<open>game_plugin.cpp\<close>, \<^verbatim>\<open>game_client.cpp\<close> and \<^verbatim>\<open>game_zone.cpp\<close>: connection, login, joining,
    lines, errors, leaving with its update, destruction, loading and unloading of plugins. The posted handlers, timers and
    requests in flight are part of the state, and an event lets one of them run.
  \<^item> \<open>PokerInfo\<close>, \<open>CardSet\<close>, \<open>CardRuns\<close>, \<open>PokerParser\<close>, \<open>PlayForms\<close>, \<open>PokerGroups\<close>: \<^verbatim>\<open>poker_info.h\<close>,
    \<^verbatim>\<open>char_key_op.h\<close> and \<^verbatim>\<open>poker_parser.cpp\<close>: which cards form a group and which group beats which. The two scanning loops
    share the locale \<open>run_scanner\<close>.
  \<^item> \<open>PokerFinder\<close>, \<open>FinderPlays\<close>, \<open>FinderSearch\<close>, \<open>FinderSound\<close>: \<^verbatim>\<open>poker_finder.cpp\<close>, the search for a play;
    everything it proposes is legal.
  \<^item> \<open>DdzDesk\<close>, \<open>DdzDeal\<close>, \<open>DdzPlugin\<close>, \<open>PluginFacts\<close> and the other \<open>Plugin\<close> theories: \<^verbatim>\<open>ddz_desk.cpp\<close>,
    \<^verbatim>\<open>ddz_game_info.cpp\<close> and \<^verbatim>\<open>ddz_plugin.cpp\<close>: desks, dealing, bidding, playing, settlement. \<open>PluginOk\<close> has the invariant,
    \<open>PluginSeats\<close>, \<open>PluginSteps\<close> and \<open>PluginRun\<close> its preservation, \<open>PluginSafety\<close> the reachable states, the rest the rules.
  \<^item> \<open>Format\<close>: decimal numbers and \<^verbatim>\<open>sprintf\<close> into fixed buffers.
  \<^item> \<open>AskRoom\<close>, \<open>AskPlugin\<close>, \<open>AskGame\<close>, \<open>AskOk\<close>, \<open>AskSteps\<close>, \<open>AskRuns\<close>, \<open>AskSafety\<close>: the game of questions. The nesting of
    calls of its \<^verbatim>\<open>on_client_leave\<close>, which calls itself, is bounded by an argument: two are enough, because the second call
    faults. The loop that draws questions takes its random numbers from a list and ends in the fault \<open>Out_of_steps\<close> when
    the list does; \<open>get_loop_iff\<close> says which lists suffice, and that none does when there are too few questions.
  \<^item> \<open>DbPool\<close>, \<open>DbPoolOk\<close>, \<open>DbPoolFull\<close>: \<^verbatim>\<open>mysql_connection_pool.h\<close>, opening and closing of pooled connections.
\<close>

text \<open>
  \<^bold>\<open>What the theorems show.\<close> C1 to C10, C12, C15 and C18: the rules of the card game, from the groups of cards to the settlement,
  for every order of commands, arrivals, departures, tasks and updates. C11, C13, C14, C16 and C17: the service: where its requests
  are constructed, the answers to logins and updates, the delayed tasks. C19 to C21: lines, commands, limits. C22 to C32: the handshake,
  frames, and messages to be sent. C33 to C36: the game of questions. C37 to C40: HTTP answers, accepts and database connections.

  Beside these, \<open>calm_runs_are_safe\<close> says, the memory of the requests left aside, that the service uses no destroyed object in any calm
  order of events (\<open>calm_event\<close>): no client is connected at an address that a login answer is still expected for, a login is not answered
  between the end of the reads of its client and the handler that takes the client out, and clients are not destroyed while a
  disconnection of them waits to run. Nothing in the code ensures the three conditions, and \<open>calm_is_needed\<close> shows what can happen
  without each; \<open>updates_wait_in_order\<close> compares the queue of requests with a server of fifty places.

  Each property with a hypothesis has a witness, its theorem applied to a concrete state.

  Theorems about what the code does wrong state it for all states they concern where that is possible; further ones are lemmas
  beside the properties (\<open>parse_can_overrun\<close>, \<open>doubled_card_is_a_pair\<close>, \<open>blocks_overlap\<close>, \<open>request_left_waiting\<close>, \<open>freed_timer_is_used\<close>,
  \<open>handshake_faults\<close>, \<open>leaving_is_fatal\<close>, \<open>deaf_for_ever\<close>, \<open>answer_without_headers\<close> and others).

  \<^bold>\<open>Invariants\<close> of step relations are carried over runs by the locale \<open>step_invariant\<close> of \<open>Prelude\<close>.

  \<^bold>\<open>Not modelled.\<close> The earlier copies of the search (\<^verbatim>\<open>ddz/poker_finder\<close>, \<^verbatim>\<open>ddz/poker_finder_ex\<close>) and the backup copy of the request
  parser, which are not built; \<^verbatim>\<open>game_desk_list.h\<close>, \<^verbatim>\<open>mysql_conn_pool.h\<close> and \<^verbatim>\<open>ip_monitor.h\<close>, which hold nothing the
  program uses; thread diagnostics and start-up (\<^verbatim>\<open>service_status.cpp\<close>, \<^verbatim>\<open>utility.cpp\<close>, \<^verbatim>\<open>main.cpp\<close>); the TLS context and handshake; the
  timer that calls \<^verbatim>\<open>game_plugin::on_run\<close>, the wait of \<^verbatim>\<open>unload_plugin\<close> for its clients and the
  destructors of service and plugins; \<^verbatim>\<open>game_client::dispatch_data\<close>, by which the server speaks for a client, is a recorded effect.
  Interleavings inside a function that holds its lock are not considered.
\<close>

end
